(* ===== verification/Prelude.thy ===== *)
theory Prelude
  imports Main "HOL-Library.Word" "HOL-Library.Sublist" "HOL-Library.Multiset"
    "HOL-Library.Log_Nat" "HOL-Library.Char_ord" "HOL-Library.List_Lexorder"
begin

text \<open>
  What the components share: the names of the machine types the Go code uses, Go's
  truncated division and remainder on signed integers, the big- and little-endian
  byte codecs of \<open>encoding/binary\<close>, the run of a state function over a list of
  events, and the collections of facts the proofs draw on.

  Instants (\<open>time.Time\<close>) and durations (\<open>time.Duration\<close>) are both \<open>int\<close>s of
  nanoseconds; the Go type \<open>int\<close> (64 bits on every supported machine) is \<open>int\<close>
  where the code cannot come near its bounds, and a word where it can.
\<close>

unbundle bit_operations_syntax

section \<open>Types\<close>

type_synonym byte = "8 word"
type_synonym bytes = "byte list"
type_synonym instant = int
type_synonym duration = int

abbreviation millisecond :: duration where
  "millisecond \<equiv> 1000000"

abbreviation second :: duration where
  "second \<equiv> 1000000000"

abbreviation minute :: duration where
  "minute \<equiv> 60 * second"

section \<open>Collections\<close>

named_theorems names "pairwise distinct string constants, unfolded on demand"
named_theorems spec_simps "equations that evaluate a component's operations"
named_theorems keeps "operations preserve their component's invariant"

section \<open>Go integers\<close>

text \<open>Go's \<open>/\<close> and \<open>%\<close> round towards zero; the remainder has the dividend's sign.\<close>

definition go_quot :: "int \<Rightarrow> int \<Rightarrow> int" where
  "go_quot a b = sgn a * sgn b * (\<bar>a\<bar> div \<bar>b\<bar>)"

definition go_rem :: "int \<Rightarrow> int \<Rightarrow> int" where
  "go_rem a b = sgn a * (\<bar>a\<bar> mod \<bar>b\<bar>)"

lemma go_quot_rem: "go_quot a b * b + go_rem a b = a"
proof -
  have "go_quot a b * b + go_rem a b = sgn a * ((\<bar>a\<bar> div \<bar>b\<bar>) * \<bar>b\<bar> + \<bar>a\<bar> mod \<bar>b\<bar>)"
    by (simp add: go_quot_def go_rem_def algebra_simps abs_sgn)
  then show ?thesis
    by (simp add: sgn_mult_abs)
qed

lemma go_rem_nonneg [simp]: "0 \<le> a \<Longrightarrow> 0 < b \<Longrightarrow> go_rem a b = a mod b"
  by (cases "a = 0") (auto simp: go_rem_def sgn_if)

lemma go_quot_nonneg [simp]: "0 \<le> a \<Longrightarrow> 0 < b \<Longrightarrow> go_quot a b = a div b"
  by (cases "a = 0") (auto simp: go_quot_def sgn_if)

text \<open>The remainder brought into \<open>[0, b)\<close>, as the code does after \<open>%\<close>, is Isabelle's \<open>mod\<close>.\<close>

lemma go_rem_wrap:
  assumes "0 < b"
  shows "(if go_rem a b < 0 then go_rem a b + b else go_rem a b) = a mod b"
proof (cases "0 \<le> a")
  case True
  with assms show ?thesis by (simp add: not_less)
next
  case False
  then have neg: "go_rem a b = - ((- a) mod b)"
    using assms by (simp add: go_rem_def sgn_if)
  show ?thesis
  proof (cases "(- a) mod b = 0")
    case True
    then have "a mod b = 0"
      by (metis add.inverse_inverse zmod_zminus1_eq_if)
    with True neg show ?thesis by simp
  next
    case nz: False
    then have "a mod b = b - (- a) mod b"
      by (metis add.inverse_inverse zmod_zminus1_eq_if)
    moreover have "0 < (- a) mod b"
      using nz assms pos_mod_sign [of b "- a"] by linarith
    ultimately show ?thesis using neg by simp
  qed
qed

section \<open>Byte codecs of encoding/binary\<close>

definition be16 :: "16 word \<Rightarrow> bytes" where
  "be16 w = [ucast (drop_bit 8 w), ucast w]"

definition be32 :: "32 word \<Rightarrow> bytes" where
  "be32 w = [ucast (drop_bit 24 w), ucast (drop_bit 16 w), ucast (drop_bit 8 w), ucast w]"

definition le16 :: "16 word \<Rightarrow> bytes" where
  "le16 w = [ucast w, ucast (drop_bit 8 w)]"

text \<open>The 64-bit form is the two 32-bit halves, the high one first.\<close>

definition be64 :: "64 word \<Rightarrow> bytes" where
  "be64 w = be32 (ucast (drop_bit 32 w)) @ be32 (ucast w)"

definition unbe16 :: "bytes \<Rightarrow> 16 word" where
  "unbe16 bs = push_bit 8 (ucast (bs ! 0)) OR ucast (bs ! 1)"

definition unbe32 :: "bytes \<Rightarrow> 32 word" where
  "unbe32 bs = push_bit 24 (ucast (bs ! 0)) OR push_bit 16 (ucast (bs ! 1))
     OR push_bit 8 (ucast (bs ! 2)) OR ucast (bs ! 3)"

definition unle16 :: "bytes \<Rightarrow> 16 word" where
  "unle16 bs = ucast (bs ! 0) OR push_bit 8 (ucast (bs ! 1))"

definition unbe64 :: "bytes \<Rightarrow> 64 word" where
  "unbe64 bs = push_bit 32 (ucast (unbe32 bs)) OR ucast (unbe32 (drop 4 bs))"

lemma length_codecs [simp]:
  "length (be16 w) = 2" "length (be32 v) = 4" "length (le16 w) = 2" "length (be64 u) = 8"
  by (simp_all add: be16_def be32_def le16_def be64_def)

lemma unbe16_be16 [simp]: "unbe16 (be16 w @ bs) = w"
  by (rule bit_word_eqI)
    (auto simp: unbe16_def be16_def bit_simps)

lemma unle16_le16 [simp]: "unle16 (le16 w @ bs) = w"
  by (rule bit_word_eqI)
    (auto simp: unle16_def le16_def bit_simps)

lemma unbe32_be32 [simp]: "unbe32 (be32 w @ bs) = w"
proof (rule bit_word_eqI)
  fix n
  assume "n < LENGTH(32)"
  then consider "n < 8" | "8 \<le> n" "n < 16" | "16 \<le> n" "n < 24" | "24 \<le> n" "n < 32"
    by fastforce
  then show "bit (unbe32 (be32 w @ bs)) n = bit w n"
    by cases (auto simp: unbe32_def be32_def bit_simps)
qed

lemma unbe64_be64 [simp]: "unbe64 (be64 w @ bs) = w"
proof (rule bit_word_eqI)
  fix n
  assume n: "n < LENGTH(64)"
  have "unbe32 (be64 w @ bs) = ucast (drop_bit 32 w)"
    by (simp add: be64_def)
  moreover have "unbe32 (drop 4 (be64 w @ bs)) = ucast w"
    by (simp add: be64_def)
  ultimately show "bit (unbe64 (be64 w @ bs)) n = bit w n"
    using n by (cases "n < 32") (auto simp: unbe64_def bit_simps)
qed

lemma unbe_be_exact [simp]:
  "unbe16 (be16 v) = v" "unbe32 (be32 w) = w" "unbe64 (be64 u) = u" "unle16 (le16 v) = v"
  using unbe16_be16 [of v "[]"] unbe32_be32 [of w "[]"] unbe64_be64 [of u "[]"] unle16_le16 [of v "[]"]
  by simp_all

lemma length4E:
  assumes "length (xs :: 'a list) = 4"
  obtains a b c d where "xs = [a, b, c, d]"
  using assms by (auto simp: numeral_eq_Suc length_Suc_conv)

lemma be32_unbe32:
  assumes "length bs = 4"
  shows "be32 (unbe32 bs) = bs"
proof -
  have high: "\<not> bit (x :: byte) (8 + n)" "\<not> bit x (16 + n)" "\<not> bit x (24 + n)" for x n
    using bit_imp_le_length [of x "8 + n"] bit_imp_le_length [of x "16 + n"] bit_imp_le_length [of x "24 + n"] by auto
  obtain a b c d where bs: "bs = [a, b, c, d]" using assms by (rule length4E)
  have "ucast (drop_bit 24 (unbe32 bs)) = a" "ucast (drop_bit 16 (unbe32 bs)) = b"
    "ucast (drop_bit 8 (unbe32 bs)) = c" "ucast (unbe32 bs) = d"
    by (auto intro!: bit_word_eqI simp: bs unbe32_def bit_simps high)
  then show ?thesis by (simp add: be32_def bs)
qed

text \<open>
  The contract of a message format: \<open>dec\<close> accepts exactly what \<open>enc\<close> makes of an acceptable
  value, and gives that value back.
\<close>

definition right :: "'e + 'a \<Rightarrow> 'a option" where
  "right r = (case r of Inl _ \<Rightarrow> None | Inr x \<Rightarrow> Some x)"

lemma right_eq_Some [simp]: "right r = Some x \<longleftrightarrow> r = Inr x"
  by (simp add: right_def split: sum.split)

locale wire_codec =
  fixes enc :: "'a \<Rightarrow> 'b option" and dec :: "'b \<Rightarrow> 'a option" and acceptable :: "'a \<Rightarrow> bool"
  assumes dec_iff: "dec b = Some x \<longleftrightarrow> enc x = Some b \<and> acceptable x"
begin

lemma dec_enc: "enc x = Some b \<Longrightarrow> acceptable x \<Longrightarrow> dec b = Some x"
  by (simp add: dec_iff)

lemma enc_inj: "enc x = Some b \<Longrightarrow> enc y = Some b \<Longrightarrow> acceptable x \<Longrightarrow> acceptable y \<Longrightarrow> x = y"
  by (metis dec_enc option.inject)

lemma dec_inj: "dec b = Some x \<Longrightarrow> dec c = Some x \<Longrightarrow> b = c"
  by (simp add: dec_iff)

lemma dec_all:
  "\<forall>x\<in>set xs. acceptable x \<and> enc x \<noteq> None \<Longrightarrow> map (\<lambda>x. dec (the (enc x))) xs = map Some xs"
  using dec_enc by (induction xs) auto

end

section \<open>Runs of a state function\<close>

text \<open>Folding a step over events, from the left: the state after the whole list.\<close>

fun run :: "('e \<Rightarrow> 's \<Rightarrow> 's) \<Rightarrow> 'e list \<Rightarrow> 's \<Rightarrow> 's" where
  "run f [] s = s"
| "run f (e # es) s = run f es (f e s)"

lemma run_append [simp]: "run f (xs @ ys) s = run f ys (run f xs s)"
  by (induction xs arbitrary: s) auto

lemma run_invariant:
  assumes "\<And>e s. P s \<Longrightarrow> P (f e s)" and "P s"
  shows "P (run f es s)"
  using assms(2) by (induction es arbitrary: s) (auto intro: assms(1))

section \<open>sort.SliceStable and sort.Strings\<close>

text \<open>
  A stable sort by a strict weak order has one result; it is written here as insertion sort.
  \<open>sort.Strings\<close> compares bytes, as the lexicographic order on \<open>string\<close> does.
\<close>

fun insort_by :: "('a \<Rightarrow> 'a \<Rightarrow> bool) \<Rightarrow> 'a \<Rightarrow> 'a list \<Rightarrow> 'a list" where
  "insort_by lt x [] = [x]"
| "insort_by lt x (y # ys) = (if lt y x then y # insort_by lt x ys else x # y # ys)"

definition sort_by :: "('a \<Rightarrow> 'a \<Rightarrow> bool) \<Rightarrow> 'a list \<Rightarrow> 'a list" where
  "sort_by lt xs = foldr (insort_by lt) xs []"

lemma mset_insort_by [simp]: "mset (insort_by lt x xs) = add_mset x (mset xs)"
  by (induction xs) auto

lemma mset_sort_by [simp]: "mset (sort_by lt xs) = mset xs"
  by (induction xs) (auto simp: sort_by_def)

lemma set_sort_by [simp]: "set (sort_by lt xs) = set xs"
  by (metis mset_sort_by set_mset_mset)

lemma length_sort_by [simp]: "length (sort_by lt xs) = length xs"
  by (metis mset_sort_by size_mset)

lemma sort_by_eq_Nil [simp]: "sort_by lt xs = [] \<longleftrightarrow> xs = []"
  by (metis length_0_conv length_sort_by)

lemma sort_by_Nil [simp]: "sort_by lt [] = []"
  by simp

text \<open>No element of the sorted list is below the one before it.\<close>

lemma insort_by_sorted:
  assumes asym: "\<And>a b. lt a b \<Longrightarrow> \<not> lt b a"
    and negtrans: "\<And>a b c. \<not> lt b a \<Longrightarrow> \<not> lt c b \<Longrightarrow> \<not> lt c a"
    and "sorted_wrt (\<lambda>a b. \<not> lt b a) xs"
  shows "sorted_wrt (\<lambda>a b. \<not> lt b a) (insort_by lt x xs)"
  using assms(3)
proof (induction xs)
  case (Cons y ys)
  have ins: "set (insort_by lt x ys) = insert x (set ys)"
    by (metis mset_insort_by set_mset_add_mset_insert set_mset_mset)
  show ?case
  proof (cases "lt y x")
    case True
    then have "\<not> lt x y" by (rule asym)
    with True Cons ins show ?thesis by simp
  next
    case False
    then have "\<not> lt z x" if "z \<in> set ys" for z
      using Cons.prems that negtrans [of y x z] by simp
    with False Cons.prems show ?thesis by simp
  qed
qed simp

lemma sort_by_sorted:
  assumes "\<And>a b. lt a b \<Longrightarrow> \<not> lt b a"
    and "\<And>a b c. \<not> lt b a \<Longrightarrow> \<not> lt c b \<Longrightarrow> \<not> lt c a"
  shows "sorted_wrt (\<lambda>a b. \<not> lt b a) (sort_by lt xs)"
proof (induction xs)
  case (Cons x xs)
  from insort_by_sorted [OF assms Cons.IH] show ?case by (simp add: sort_by_def)
qed (simp add: sort_by_def)

lemma sort_by_hd:
  assumes "\<And>a b. lt a b \<Longrightarrow> \<not> lt b a"
    and "\<And>a b c. \<not> lt b a \<Longrightarrow> \<not> lt c b \<Longrightarrow> \<not> lt c a"
    and "sort_by lt xs = y # ys" and "x \<in> set xs"
  shows "y \<in> set xs \<and> (x = y \<or> \<not> lt x y)"
proof -
  have "sorted_wrt (\<lambda>a b. \<not> lt b a) (sort_by lt xs)"
    by (rule sort_by_sorted) (use assms(1,2) in blast)+
  moreover have "set (y # ys) = set xs"
    by (metis assms(3) set_sort_by)
  ultimately show ?thesis using assms(3,4) by auto
qed

text \<open>A subsequence keeps what holds between the elements.\<close>

lemma subseq_subset: "subseq xs ys \<Longrightarrow> set xs \<subseteq> set ys"
  by (induction rule: list_emb.induct) auto

lemma subseq_sorted_wrt: "subseq xs ys \<Longrightarrow> sorted_wrt P ys \<Longrightarrow> sorted_wrt P xs"
  by (induction rule: list_emb.induct) (auto dest: subseq_subset)

section \<open>Strings\<close>

text \<open>
  \<open>strings.TrimSpace\<close>, \<open>strings.Cut\<close> at one byte, and \<open>strconv.Atoi\<close>: a sign, then decimal
  digits only, in the range of an \<open>int64\<close>. White space is the ASCII one.
\<close>

definition is_space :: "char \<Rightarrow> bool" where
  "is_space c \<longleftrightarrow> c \<in> {CHR '' '', CHR 0x09, CHR 0x0A, CHR 0x0B, CHR 0x0C, CHR 0x0D}"

definition trim_space :: "string \<Rightarrow> string" where
  "trim_space s = rev (dropWhile is_space (rev (dropWhile is_space s)))"

definition cut_at :: "char \<Rightarrow> string \<Rightarrow> (string \<times> string) option" where
  "cut_at c s = (if c \<in> set s
     then Some (takeWhile (\<lambda>x. x \<noteq> c) s, tl (dropWhile (\<lambda>x. x \<noteq> c) s)) else None)"

text \<open>\<open>strings.Split\<close> at one byte: never an empty list.\<close>

fun split_on :: "char \<Rightarrow> string \<Rightarrow> string list" where
  "split_on c [] = [[]]"
| "split_on c (x # xs) =
     (if x = c then [] # split_on c xs
      else case split_on c xs of w # ws \<Rightarrow> (x # w) # ws | [] \<Rightarrow> [[x]])"

text \<open>\<open>strings.ToLower\<close> on ASCII.\<close>

definition to_lower_char :: "char \<Rightarrow> char" where
  "to_lower_char c = (if CHR ''A'' \<le> c \<and> c \<le> CHR ''Z'' then char_of (of_char c + (32 :: nat)) else c)"

definition to_lower :: "string \<Rightarrow> string" where
  "to_lower = map to_lower_char"

definition is_digit :: "char \<Rightarrow> bool" where
  "is_digit c \<longleftrightarrow> CHR ''0'' \<le> c \<and> c \<le> CHR ''9''"

definition digit_val :: "char \<Rightarrow> int" where
  "digit_val c = int (of_char c) - 48"

fun digits_val :: "int \<Rightarrow> string \<Rightarrow> int" where
  "digits_val n [] = n"
| "digits_val n (c # cs) = digits_val (10 * n + digit_val c) cs"

definition atoi :: "string \<Rightarrow> int option" where
  "atoi s =
    (let (neg, ds) = (case s of
           c # cs \<Rightarrow> if c = CHR ''-'' then (True, cs) else if c = CHR ''+'' then (False, cs) else (False, s)
         | [] \<Rightarrow> (False, s));
         v = (if neg then - digits_val 0 ds else digits_val 0 ds)
     in if ds = [] \<or> \<not> list_all is_digit ds then None
        else if v < - (2 ^ 63) \<or> 2 ^ 63 \<le> v then None else Some v)"

section \<open>float64\<close>

text \<open>
  A \<open>float64\<close> is the rational it stands for. An operation is the exact one on rationals,
  rounded to 53 significant bits, to the nearest and on a tie to the even (IEEE 754, which
  Go requires). Subnormal and infinite results, which the code's operands cannot give, are not
  modelled.
\<close>

definition pow2 :: "int \<Rightarrow> rat" where
  "pow2 k = (if 0 \<le> k then 2 ^ nat k else 1 / 2 ^ nat (- k))"

text \<open>The exponent \<open>e\<close> of a positive \<open>x\<close>: \<open>2^e \<le> x < 2^(e+1)\<close>.\<close>

definition expo :: "rat \<Rightarrow> int" where
  "expo x = (let (p, q) = quotient_of x; k = bitlen p - bitlen q in
     if pow2 k \<le> x then k else k - 1)"

definition round_even :: "rat \<Rightarrow> int" where
  "round_even x = (let n = \<lfloor>x\<rfloor>; f = x - of_int n in
     if f < 1 / 2 then n else if 1 / 2 < f then n + 1 else if even n then n else n + 1)"

definition rnd64 :: "rat \<Rightarrow> rat" where
  "rnd64 x = (if x = 0 then 0 else
     let u = pow2 (expo \<bar>x\<bar> - 52) in of_int (round_even (x / u)) * u)"

type_synonym float64 = rat

definition f64_of_int :: "int \<Rightarrow> float64" where "f64_of_int n = rnd64 (of_int n)"
definition f64_div :: "float64 \<Rightarrow> float64 \<Rightarrow> float64" where "f64_div a b = rnd64 (a / b)"
definition f64_mul :: "float64 \<Rightarrow> float64 \<Rightarrow> float64" where "f64_mul a b = rnd64 (a * b)"

end
