(* ===== verification/Video_States.thy ===== *)
theory Video_States
  imports Prelude
begin

text \<open>
  The video state machine: \<^verbatim>\<open>shared/states/go/states.go\<close> (states, triggers, outcomes, the
  transition table and \<open>Lookup\<close>) and \<^verbatim>\<open>shared/states/go/advance.go\<close> (the one function that
  writes \<open>videos.state\<close>). States, triggers and outcomes are Go strings, an open type: a row or a
  caller may hold a value outside the lists, and the model keeps that.

  The database is the table \<open>videos\<close> (id to state and \<open>updated_at\<close>), its clock, and the
  notifications the migration's AFTER UPDATE trigger sends. A call that the database may refuse
  (BeginTx, the SELECT, the UPDATE, Commit) is refused when the fault record says so; an aborted
  transaction leaves the table as it was, the log line stays.
\<close>

section \<open>States, triggers, outcomes (states.go)\<close>

type_synonym State = string
type_synonym Trigger = string
type_synonym Outcome = string

definition StateDiscovered :: State where "StateDiscovered = ''discovered''"
definition StateProbed :: State where "StateProbed = ''probed''"
definition StateAudioExtracted :: State where "StateAudioExtracted = ''audio_extracted''"
definition StateTranscribed :: State where "StateTranscribed = ''transcribed''"
definition StateIndexed :: State where "StateIndexed = ''indexed''"
definition StateThumbnailed :: State where "StateThumbnailed = ''thumbnailed''"
definition StateReady :: State where "StateReady = ''ready''"
definition StateReadyNoAudio :: State where "StateReadyNoAudio = ''ready_no_audio''"
definition StateMissing :: State where "StateMissing = ''missing''"
definition StateSuperseded :: State where "StateSuperseded = ''superseded''"
definition StateCorrupted :: State where "StateCorrupted = ''corrupted''"
definition StateFailed :: State where "StateFailed = ''failed''"

definition AllStates :: "State list" where
  "AllStates = [StateDiscovered, StateProbed, StateAudioExtracted, StateTranscribed,
    StateIndexed, StateThumbnailed, StateReady, StateReadyNoAudio,
    StateMissing, StateSuperseded, StateCorrupted, StateFailed]"

definition classOf :: "(State \<times> string) list" where
  "classOf = [(StateDiscovered, ''open''), (StateProbed, ''open''), (StateAudioExtracted, ''open''),
    (StateTranscribed, ''open''), (StateIndexed, ''open''), (StateThumbnailed, ''open''),
    (StateReady, ''terminal-good''), (StateReadyNoAudio, ''terminal-good''), (StateMissing, ''sink''),
    (StateSuperseded, ''terminal-soft''), (StateCorrupted, ''terminal-bad''), (StateFailed, ''terminal-bad'')]"

text \<open>A Go map lookup answers the zero value, here the empty string, for a missing key.\<close>

definition Class :: "State \<Rightarrow> string" where
  "Class s = (case map_of classOf s of None \<Rightarrow> '''' | Some c \<Rightarrow> c)"

definition IsTerminalDrop :: "State \<Rightarrow> bool" where
  "IsTerminalDrop s \<longleftrightarrow> s = StateSuperseded \<or> s = StateCorrupted \<or> s = StateFailed"

definition TriggerScan :: Trigger where "TriggerScan = ''scan''"
definition TriggerProbe :: Trigger where "TriggerProbe = ''probe''"
definition TriggerExtract :: Trigger where "TriggerExtract = ''extract''"
definition TriggerTranscribe :: Trigger where "TriggerTranscribe = ''transcribe''"
definition TriggerSubtitleGen :: Trigger where "TriggerSubtitleGen = ''subtitle_gen''"
definition TriggerIndex :: Trigger where "TriggerIndex = ''index''"
definition TriggerThumbnail :: Trigger where "TriggerThumbnail = ''thumbnail''"
definition TriggerFilesystem :: Trigger where "TriggerFilesystem = ''filesystem''"
definition TriggerLibrary :: Trigger where "TriggerLibrary = ''library''"
definition TriggerIntegrity :: Trigger where "TriggerIntegrity = ''integrity''"

definition AllTriggers :: "Trigger list" where
  "AllTriggers = [TriggerScan, TriggerProbe, TriggerExtract, TriggerTranscribe,
    TriggerSubtitleGen, TriggerIndex, TriggerThumbnail, TriggerFilesystem,
    TriggerLibrary, TriggerIntegrity]"

definition IsStage :: "Trigger \<Rightarrow> bool" where
  "IsStage t \<longleftrightarrow> t \<in> {TriggerScan, TriggerProbe, TriggerExtract, TriggerTranscribe,
    TriggerSubtitleGen, TriggerIndex, TriggerThumbnail}"

definition OutcomeOK :: Outcome where "OutcomeOK = ''ok''"
definition OutcomeNoAudio :: Outcome where "OutcomeNoAudio = ''no_audio''"
definition OutcomePartial :: Outcome where "OutcomePartial = ''partial''"
definition OutcomeExhausted :: Outcome where "OutcomeExhausted = ''exhausted''"
definition OutcomeRediscovered :: Outcome where "OutcomeRediscovered = ''rediscovered''"
definition OutcomeDeleted :: Outcome where "OutcomeDeleted = ''deleted''"
definition OutcomeReplaced :: Outcome where "OutcomeReplaced = ''replaced''"
definition OutcomeFail :: Outcome where "OutcomeFail = ''fail''"
definition OutcomeAllGatesOK :: Outcome where "OutcomeAllGatesOK = ''all_gates_ok''"

definition explicitTransitions :: "((State \<times> Trigger \<times> Outcome) \<times> State) list" where
  "explicitTransitions =
    [((StateDiscovered, TriggerProbe, OutcomeOK), StateProbed),
     ((StateProbed, TriggerExtract, OutcomeOK), StateAudioExtracted),
     ((StateProbed, TriggerProbe, OutcomeNoAudio), StateReadyNoAudio),
     ((StateAudioExtracted, TriggerTranscribe, OutcomeOK), StateTranscribed),
     ((StateTranscribed, TriggerSubtitleGen, OutcomePartial), StateTranscribed),
     ((StateTranscribed, TriggerIndex, OutcomePartial), StateTranscribed),
     ((StateTranscribed, TriggerSubtitleGen, OutcomeOK), StateIndexed),
     ((StateTranscribed, TriggerIndex, OutcomeOK), StateIndexed),
     ((StateIndexed, TriggerThumbnail, OutcomeOK), StateThumbnailed),
     ((StateThumbnailed, TriggerScan, OutcomeAllGatesOK), StateReady),
     ((StateMissing, TriggerScan, OutcomeRediscovered), StateDiscovered)]"

definition broadcastLookup :: "State \<Rightarrow> Trigger \<Rightarrow> Outcome \<Rightarrow> State option" where
  "broadcastLookup frm trigger outcome =
    (let cls = Class frm in
     if trigger = TriggerFilesystem \<and> outcome = OutcomeDeleted then
       (if cls = ''open'' \<or> cls = ''terminal-good'' \<or> cls = ''sink'' then Some StateMissing else None)
     else if IsStage trigger \<and> outcome = OutcomeExhausted then
       (if cls = ''open'' \<or> cls = ''terminal-good'' then Some StateFailed else None)
     else if trigger = TriggerIntegrity \<and> outcome = OutcomeFail then
       (if cls = ''open'' \<or> cls = ''terminal-good'' then Some StateCorrupted else None)
     else if trigger = TriggerLibrary \<and> outcome = OutcomeReplaced then
       (if cls = ''open'' \<or> cls = ''terminal-good'' \<or> cls = ''terminal-soft''
        then Some StateSuperseded else None)
     else None)"

definition Lookup :: "State \<Rightarrow> Trigger \<Rightarrow> Outcome \<Rightarrow> State option" where
  "Lookup frm trigger outcome =
    (case map_of explicitTransitions (frm, trigger, outcome) of
       Some to \<Rightarrow> Some to
     | None \<Rightarrow> broadcastLookup frm trigger outcome)"

section \<open>Advancing a video (advance.go)\<close>

record video_row =
  vstate :: State
  updated_at :: instant

text \<open>A notification of channel \<open>videos.state_changed\<close>: the video, its old and new state.\<close>

record world =
  videos :: "string \<rightharpoonup> video_row"
  db_now :: instant
  notified :: "(string \<times> State \<times> State) list"
  late_log :: "(string \<times> State \<times> Trigger \<times> Outcome) list"

record faults =
  f_begin :: bool
  f_select :: bool
  f_exec :: bool
  f_commit :: bool

datatype adv_error =
    BeginTx
  | LockVideo string
  | IllegalStateTransition string State Trigger Outcome
  | UpdateVideo string
  | CommitTx

text \<open>The trigger of migration 0004: after an UPDATE, notify when the state is another one.\<close>

definition videos_state_change_notify :: "string \<Rightarrow> State \<Rightarrow> State \<Rightarrow> world \<Rightarrow> world" where
  "videos_state_change_notify vid old new w =
    (if new \<noteq> old then w\<lparr>notified := notified w @ [(vid, old, new)]\<rparr> else w)"

definition update_state :: "string \<Rightarrow> State \<Rightarrow> world \<Rightarrow> world" where
  "update_state vid target w =
    (case videos w vid of
       None \<Rightarrow> w
     | Some r \<Rightarrow>
         videos_state_change_notify vid (vstate r) target
           (w\<lparr>videos := (videos w)(vid \<mapsto> \<lparr>vstate = target, updated_at = db_now w\<rparr>)\<rparr>))"

text \<open>
  \<open>AdvanceInTx\<close> answers the state, the error and the world inside the transaction. A row that
  is not there is the SELECT's \<open>sql.ErrNoRows\<close>.
\<close>

definition AdvanceInTx ::
  "faults \<Rightarrow> bool \<Rightarrow> string \<Rightarrow> Trigger \<Rightarrow> Outcome \<Rightarrow> world \<Rightarrow> State \<times> adv_error option \<times> world" where
  "AdvanceInTx f haveLog vid trigger outcome w =
    (if f_select f then ('''', Some (LockVideo vid), w)
     else case videos w vid of
       None \<Rightarrow> ('''', Some (LockVideo vid), w)
     | Some r \<Rightarrow>
         let current = vstate r in
         if IsTerminalDrop current then
           (current, None,
            if haveLog then w\<lparr>late_log := late_log w @ [(vid, current, trigger, outcome)]\<rparr> else w)
         else case Lookup current trigger outcome of
           None \<Rightarrow> (current, Some (IllegalStateTransition vid current trigger outcome), w)
         | Some target \<Rightarrow>
             if f_exec f then ('''', Some (UpdateVideo vid), w)
             else (target, None, update_state vid target w))"

text \<open>A rollback restores the database, notifications included; log lines are not undone.\<close>

definition rollback :: "world \<Rightarrow> world \<Rightarrow> world" where
  "rollback before after = before\<lparr>late_log := late_log after\<rparr>"

definition AdvanceAfterStage ::
  "faults \<Rightarrow> bool \<Rightarrow> string \<Rightarrow> Trigger \<Rightarrow> Outcome \<Rightarrow> world \<Rightarrow> State \<times> adv_error option \<times> world" where
  "AdvanceAfterStage f haveLog vid trigger outcome w =
    (if f_begin f then ('''', Some BeginTx, w)
     else case AdvanceInTx f haveLog vid trigger outcome w of
       (st, Some e, w') \<Rightarrow> (st, Some e, rollback w w')
     | (st, None, w') \<Rightarrow>
         if f_commit f then ('''', Some CommitTx, rollback w w') else (st, None, w'))"

section \<open>The constants are distinct\<close>

lemma states_distinct:
  "distinct [StateDiscovered, StateProbed, StateAudioExtracted, StateTranscribed,
    StateIndexed, StateThumbnailed, StateReady, StateReadyNoAudio,
    StateMissing, StateSuperseded, StateCorrupted, StateFailed]"
  "distinct [StateFailed, StateCorrupted, StateSuperseded, StateMissing,
    StateReadyNoAudio, StateReady, StateThumbnailed, StateIndexed,
    StateTranscribed, StateAudioExtracted, StateProbed, StateDiscovered]"
  by (simp_all add: StateDiscovered_def StateProbed_def StateAudioExtracted_def StateTranscribed_def StateIndexed_def StateThumbnailed_def StateReady_def StateReadyNoAudio_def StateMissing_def StateSuperseded_def StateCorrupted_def StateFailed_def)

lemma triggers_distinct:
  "distinct [TriggerScan, TriggerProbe, TriggerExtract, TriggerTranscribe,
    TriggerSubtitleGen, TriggerIndex, TriggerThumbnail, TriggerFilesystem,
    TriggerLibrary, TriggerIntegrity]"
  "distinct [TriggerIntegrity, TriggerLibrary, TriggerFilesystem, TriggerThumbnail,
    TriggerIndex, TriggerSubtitleGen, TriggerTranscribe, TriggerExtract,
    TriggerProbe, TriggerScan]"
  by (simp_all add: TriggerScan_def TriggerProbe_def TriggerExtract_def TriggerTranscribe_def TriggerSubtitleGen_def TriggerIndex_def TriggerThumbnail_def TriggerFilesystem_def TriggerLibrary_def TriggerIntegrity_def)

lemma outcomes_distinct:
  "distinct [OutcomeOK, OutcomeNoAudio, OutcomePartial, OutcomeExhausted,
    OutcomeRediscovered, OutcomeDeleted, OutcomeReplaced, OutcomeFail,
    OutcomeAllGatesOK]"
  "distinct [OutcomeAllGatesOK, OutcomeFail, OutcomeReplaced, OutcomeDeleted,
    OutcomeRediscovered, OutcomeExhausted, OutcomePartial, OutcomeNoAudio,
    OutcomeOK]"
  by (simp_all add: OutcomeOK_def OutcomeNoAudio_def OutcomePartial_def OutcomeExhausted_def OutcomeRediscovered_def OutcomeDeleted_def OutcomeReplaced_def OutcomeFail_def OutcomeAllGatesOK_def)

lemmas state_neqs [simp] = states_distinct [simplified]
lemmas trigger_neqs [simp] = triggers_distinct [simplified]
lemmas outcome_neqs [simp] = outcomes_distinct [simplified]

lemma Class_simps [simp]:
  "Class StateDiscovered = ''open''" "Class StateProbed = ''open''"
  "Class StateAudioExtracted = ''open''" "Class StateTranscribed = ''open''"
  "Class StateIndexed = ''open''" "Class StateThumbnailed = ''open''"
  "Class StateReady = ''terminal-good''" "Class StateReadyNoAudio = ''terminal-good''"
  "Class StateMissing = ''sink''" "Class StateSuperseded = ''terminal-soft''"
  "Class StateCorrupted = ''terminal-bad''" "Class StateFailed = ''terminal-bad''"
  by (simp_all add: Class_def classOf_def)

lemma Class_known: "Class s \<noteq> '''' \<longleftrightarrow> s \<in> set AllStates"
  by (auto simp: Class_def classOf_def AllStates_def split: if_splits)

text \<open>Which class a state is in decides which state it is.\<close>

lemma Class_inv:
  "Class s = ''open'' \<Longrightarrow> s \<in> {StateDiscovered, StateProbed, StateAudioExtracted,
     StateTranscribed, StateIndexed, StateThumbnailed}"
  "Class s = ''terminal-good'' \<Longrightarrow> s \<in> {StateReady, StateReadyNoAudio}"
  "Class s = ''sink'' \<Longrightarrow> s = StateMissing"
  "Class s = ''terminal-soft'' \<Longrightarrow> s = StateSuperseded"
  by (auto simp: Class_def classOf_def split: if_splits)

text \<open>The edges of the machine, explicit and broadcast.\<close>

lemma Lookup_cases:
  assumes "Lookup s t out = Some s'"
  shows "((s, t, out), s') \<in> set explicitTransitions
    \<or> (s' = StateMissing \<and> t = TriggerFilesystem \<and> out = OutcomeDeleted
        \<and> Class s \<in> {''open'', ''terminal-good'', ''sink''})
    \<or> (s' = StateFailed \<and> IsStage t \<and> out = OutcomeExhausted \<and> Class s \<in> {''open'', ''terminal-good''})
    \<or> (s' = StateCorrupted \<and> t = TriggerIntegrity \<and> out = OutcomeFail
        \<and> Class s \<in> {''open'', ''terminal-good''})
    \<or> (s' = StateSuperseded \<and> t = TriggerLibrary \<and> out = OutcomeReplaced
        \<and> Class s \<in> {''open'', ''terminal-good'', ''terminal-soft''})"
proof (cases "map_of explicitTransitions (s, t, out)")
  case (Some a)
  then show ?thesis using assms by (auto simp: Lookup_def dest: map_of_SomeD)
next
  case None
  then show ?thesis using assms
    by (auto simp: Lookup_def broadcastLookup_def Let_def split: if_splits)
qed

section \<open>What one call does\<close>

lemma rollback_simps [simp]:
  "videos (rollback w w') = videos w" "notified (rollback w w') = notified w"
  by (simp_all add: rollback_def)

lemma update_state_simps [simp]:
  "videos w vid = Some r \<Longrightarrow> videos (update_state vid s w) =
     (videos w)(vid \<mapsto> \<lparr>vstate = s, updated_at = db_now w\<rparr>)"
  "videos w vid = Some r \<Longrightarrow> notified (update_state vid s w) =
     notified w @ (if s \<noteq> vstate r then [(vid, vstate r, s)] else [])"
  by (simp_all add: update_state_def videos_state_change_notify_def)

abbreviation no_faults :: faults where
  "no_faults \<equiv> \<lparr>f_begin = False, f_select = False, f_exec = False, f_commit = False\<rparr>"



text \<open>
  What a successful call does, completely: a row in a terminal-drop state is
  left alone and reported; any other row takes the one target the table gives, its time is set,
  no other row moves, and a notification goes out exactly when the state is another one (the
  \<open>partial\<close> self-loop sends none).
\<close>
theorem advance_success_effect:
  assumes "AdvanceAfterStage f h vid t out w = (st, None, w')"
  shows "\<exists>r. videos w vid = Some r \<and>
    (if IsTerminalDrop (vstate r)
     then st = vstate r \<and> videos w' = videos w \<and> notified w' = notified w
     else Lookup (vstate r) t out = Some st
        \<and> videos w' = (videos w)(vid \<mapsto> \<lparr>vstate = st, updated_at = db_now w\<rparr>)
        \<and> notified w' = notified w @ (if st = vstate r then [] else [(vid, vstate r, st)]))"
proof -
  from assms have tx: "AdvanceInTx f h vid t out w = (st, None, w')"
    by (auto simp: AdvanceAfterStage_def split: if_splits prod.splits option.splits)
  then obtain r where r: "videos w vid = Some r"
    by (auto simp: AdvanceInTx_def split: if_splits option.splits)
  show ?thesis
  proof (cases "IsTerminalDrop (vstate r)")
    case True
    with tx r show ?thesis by (auto simp: AdvanceInTx_def Let_def split: if_splits)
  next
    case False
    with tx r have "Lookup (vstate r) t out = Some st" "w' = update_state vid st w"
      by (auto simp: AdvanceInTx_def Let_def split: if_splits option.splits)
    with r False show ?thesis by auto
  qed
qed

theorem advance_success_effect_witness:
  "\<exists>w'. AdvanceAfterStage no_faults True ''v'' TriggerIndex OutcomePartial
      \<lparr>videos = [''v'' \<mapsto> \<lparr>vstate = StateTranscribed, updated_at = 0\<rparr>], db_now = 5,
        notified = [], late_log = []\<rparr> = (StateTranscribed, None, w')
     \<and> notified w' = [] \<and> videos w' ''v'' = Some \<lparr>vstate = StateTranscribed, updated_at = 5\<rparr>"
proof -
  let ?w = "\<lparr>videos = [''v'' \<mapsto> \<lparr>vstate = StateTranscribed, updated_at = 0\<rparr>], db_now = 5,
        notified = [], late_log = []\<rparr>"
  obtain w' where adv: "AdvanceAfterStage no_faults True ''v'' TriggerIndex OutcomePartial ?w
      = (StateTranscribed, None, w')"
    by (simp add: AdvanceAfterStage_def AdvanceInTx_def IsTerminalDrop_def Lookup_def
        explicitTransitions_def)
  from advance_success_effect [OF adv] have "notified w' = []"
    and "videos w' ''v'' = Some \<lparr>vstate = StateTranscribed, updated_at = 5\<rparr>"
    by (auto simp: IsTerminalDrop_def)
  with adv show ?thesis by blast
qed

section \<open>Runs of calls\<close>

text \<open>
  The callers (orchestrator, watcher, library, integrity sweep) serialise on the row lock: a
  history is a list of calls, each with the faults it met, on any videos.
\<close>

datatype call = Advance faults bool string Trigger Outcome

fun do_call :: "call \<Rightarrow> world \<Rightarrow> world" where
  "do_call (Advance f h vid t out) w = snd (snd (AdvanceAfterStage f h vid t out w))"

text \<open>One call moves one video by one edge, or leaves every row as it is.\<close>

lemma do_call_row:
  "videos (do_call (Advance f h vid t out) w) = videos w
   \<or> (\<exists>r st. videos w vid = Some r \<and> \<not> IsTerminalDrop (vstate r) \<and> Lookup (vstate r) t out = Some st
        \<and> videos (do_call (Advance f h vid t out) w)
          = (videos w)(vid \<mapsto> \<lparr>vstate = st, updated_at = db_now w\<rparr>))"
proof -
  obtain st err w' where adv: "AdvanceAfterStage f h vid t out w = (st, err, w')"
    by (cases "AdvanceAfterStage f h vid t out w")
  show ?thesis
  proof (cases err)
    case (Some e)
    then have "videos w' = videos w"
      using adv by (auto simp: AdvanceAfterStage_def split: if_splits prod.splits option.splits)
    with adv show ?thesis by simp
  next
    case None
    with adv have tx: "AdvanceInTx f h vid t out w = (st, None, w')"
      by (auto simp: AdvanceAfterStage_def split: if_splits prod.splits option.splits)
    then show ?thesis using adv
      by (auto simp: AdvanceInTx_def Let_def split: if_splits option.splits)
  qed
qed

text \<open>
  The terminal-drop states absorb: once a video is superseded, corrupted or
  failed, no history of calls on it or on other videos changes its row, time included. In
  particular the broadcast edge from \<open>terminal-soft\<close> to \<open>superseded\<close> is never taken.
\<close>
theorem terminal_drop_absorbs:
  assumes "videos w vid = Some r" and "IsTerminalDrop (vstate r)"
  shows "videos (run do_call cs w) vid = Some r"
proof -
  have "videos (do_call c w) vid = Some r" if "videos w vid = Some r" for c w
  proof (cases c)
    case (Advance f h v t out)
    with do_call_row [of f h v t out w] that assms(2) show ?thesis
      by (cases "v = vid") auto
  qed
  then show ?thesis
    using assms(1) run_invariant [of "\<lambda>w. videos w vid = Some r" do_call] by blast
qed

theorem terminal_drop_absorbs_witness:
  "videos (run do_call [Advance no_faults True ''v'' TriggerLibrary OutcomeReplaced]
      \<lparr>videos = [''v'' \<mapsto> \<lparr>vstate = StateSuperseded, updated_at = 3\<rparr>], db_now = 5,
        notified = [], late_log = []\<rparr>) ''v''
   = Some \<lparr>vstate = StateSuperseded, updated_at = 3\<rparr>"
  by (rule terminal_drop_absorbs) (simp_all add: IsTerminalDrop_def)

text \<open>
  What is still to come before a video is ready: for each state, the steps (trigger and
  outcome) of which one each must yet be taken, in order. A dropped or unknown state has no way
  to \<open>ready\<close>: its list holds the empty step.
\<close>

definition pipeline_steps :: "(Trigger \<times> Outcome) set list" where
  "pipeline_steps =
    [{(TriggerProbe, OutcomeOK)}, {(TriggerExtract, OutcomeOK)}, {(TriggerTranscribe, OutcomeOK)},
     {(TriggerSubtitleGen, OutcomeOK), (TriggerIndex, OutcomeOK)}, {(TriggerThumbnail, OutcomeOK)},
     {(TriggerScan, OutcomeAllGatesOK)}]"

definition rediscovery :: "(Trigger \<times> Outcome) set" where
  "rediscovery = {(TriggerScan, OutcomeRediscovered)}"

definition still_needed :: "State \<Rightarrow> (Trigger \<times> Outcome) set list" where
  "still_needed s =
    (if s = StateReady then []
     else if s = StateThumbnailed then drop 5 pipeline_steps
     else if s = StateIndexed then drop 4 pipeline_steps
     else if s = StateTranscribed then drop 3 pipeline_steps
     else if s = StateAudioExtracted then drop 2 pipeline_steps
     else if s = StateProbed then drop 1 pipeline_steps
     else if s = StateDiscovered then pipeline_steps
     else if s = StateMissing \<or> s = StateReadyNoAudio then rediscovery # pipeline_steps
     else [{}])"

text \<open>The calls of a history on one video hold one step of each of \<open>steps\<close>, in order.\<close>

fun took :: "string \<Rightarrow> (Trigger \<times> Outcome) set list \<Rightarrow> call list \<Rightarrow> bool" where
  "took vid [] cs = True"
| "took vid (A # steps) [] = False"
| "took vid (A # steps) (Advance f h v t out # cs) =
     ((v = vid \<and> (t, out) \<in> A \<and> took vid steps cs) \<or> took vid (A # steps) cs)"

lemma took_later: "took vid steps cs \<Longrightarrow> took vid steps (c # cs)"
  by (cases c; cases steps) auto

lemma took_tl: "took vid (A # steps) cs \<Longrightarrow> took vid steps cs"
proof (induction cs)
  case (Cons c cs)
  then show ?case by (cases c) (auto intro: took_later)
qed simp

lemma took_suffix: "took vid (pre @ steps) cs \<Longrightarrow> took vid steps cs"
  by (induction pre) (auto dest: took_tl)

lemma not_took_empty [simp]: "\<not> took vid [{}] cs"
proof (induction cs)
  case (Cons c cs)
  then show ?case by (cases c) auto
qed simp

text \<open>An edge either takes the first step still needed or brings no step nearer.\<close>

lemma Lookup_still_needed:
  assumes "Lookup s t out = Some s'"
  shows "still_needed s' = [{}] \<or> suffix (still_needed s) (still_needed s')
    \<or> (\<exists>A. still_needed s = A # still_needed s' \<and> (t, out) \<in> A)"
  using Lookup_cases [OF assms]
proof (elim disjE)
  assume "((s, t, out), s') \<in> set explicitTransitions"
  then show ?thesis
    by (auto simp: explicitTransitions_def still_needed_def pipeline_steps_def rediscovery_def
        suffix_def)
next
  assume "s' = StateMissing \<and> t = TriggerFilesystem \<and> out = OutcomeDeleted
    \<and> Class s \<in> {''open'', ''terminal-good'', ''sink''}"
  then show ?thesis using Class_inv [of s]
    by (auto simp: still_needed_def pipeline_steps_def suffix_def)
qed (auto simp: still_needed_def)

lemma ready_needs_rest:
  assumes "videos w vid = Some r" and "videos (run do_call cs w) vid = Some r'"
    and "vstate r' = StateReady"
  shows "took vid (still_needed (vstate r)) cs"
  using assms
proof (induction cs arbitrary: w r)
  case Nil
  then show ?case by (simp add: still_needed_def)
next
  case (Cons c cs)
  obtain f h v t out where c: "c = Advance f h v t out" by (cases c)
  let ?w = "do_call c w"
  show ?case
  proof (cases "videos ?w vid = Some r")
    case True
    with Cons.prems have "took vid (still_needed (vstate r)) cs"
      by (intro Cons.IH [of ?w]) simp_all
    then show ?thesis by (rule took_later)
  next
    case False
    then obtain st where v: "v = vid" and st: "Lookup (vstate r) t out = Some st"
      and r1: "videos ?w vid = Some \<lparr>vstate = st, updated_at = db_now w\<rparr>"
      using do_call_row [of f h v t out w] Cons.prems(1) c by (auto split: if_splits)
    from Cons.prems r1 have rest: "took vid (still_needed st) cs"
      using Cons.IH [of ?w "\<lparr>vstate = st, updated_at = db_now w\<rparr>"] by simp
    from Lookup_still_needed [OF st] show ?thesis
    proof (elim disjE exE conjE)
      assume "suffix (still_needed (vstate r)) (still_needed st)"
      with rest show ?thesis by (auto simp: suffix_def intro!: took_later dest: took_suffix)
    qed (use rest c v in auto)
  qed
qed

text \<open>
  Property C1. The order of the pipeline: in every history that takes a discovered video to
  \<open>ready\<close>, whatever else happened to it or to other videos, and whatever failed, the calls on it
  hold, in this order, a probe, an extraction, a transcription, a finished subtitle or index
  stage, a thumbnail and the all-gates scan.
\<close>
theorem ready_only_by_pipeline:
  assumes "videos w vid = Some r" and "vstate r = StateDiscovered"
    and "videos (run do_call cs w) vid = Some r'" and "vstate r' = StateReady"
  shows "took vid pipeline_steps cs"
  using ready_needs_rest [OF assms(1,3,4)] assms(2) by (simp add: still_needed_def)

lemmas advance_eval = AdvanceAfterStage_def AdvanceInTx_def IsTerminalDrop_def Lookup_def
  explicitTransitions_def update_state_def videos_state_change_notify_def

definition full_pipeline :: "string \<Rightarrow> call list" where
  "full_pipeline vid = map (\<lambda>(t, out). Advance no_faults True vid t out)
     [(TriggerProbe, OutcomeOK), (TriggerExtract, OutcomeOK), (TriggerTranscribe, OutcomeOK),
      (TriggerIndex, OutcomePartial), (TriggerSubtitleGen, OutcomeOK), (TriggerThumbnail, OutcomeOK),
      (TriggerScan, OutcomeAllGatesOK)]"

text \<open>
  The pipeline does lead there: seven successful stage reports take any
  discovered video to \<open>ready\<close>.
\<close>
theorem pipeline_reaches_ready:
  assumes "videos w vid = Some r" and "vstate r = StateDiscovered"
  shows "\<exists>r'. videos (run do_call (full_pipeline vid) w) vid = Some r' \<and> vstate r' = StateReady"
  using assms by (simp add: full_pipeline_def advance_eval)

theorem pipeline_reaches_ready_witness:
  "\<exists>r'. videos (run do_call (full_pipeline ''v'')
      \<lparr>videos = [''v'' \<mapsto> \<lparr>vstate = StateDiscovered, updated_at = 3\<rparr>], db_now = 5,
        notified = [], late_log = []\<rparr>) ''v'' = Some r' \<and> vstate r' = StateReady"
  by (rule pipeline_reaches_ready [where r = "\<lparr>vstate = StateDiscovered, updated_at = 3\<rparr>"]) simp_all

theorem ready_only_by_pipeline_witness:
  "took ''v'' pipeline_steps (full_pipeline ''v'')"
proof -
  let ?w = "\<lparr>videos = [''v'' \<mapsto> \<lparr>vstate = StateDiscovered, updated_at = 3\<rparr>], db_now = 5,
        notified = [], late_log = []\<rparr>"
  have "\<exists>r'. videos (run do_call (full_pipeline ''v'') ?w) ''v'' = Some r' \<and> vstate r' = StateReady"
    by (simp add: full_pipeline_def advance_eval)
  then show ?thesis
    using ready_only_by_pipeline [of ?w "''v''"] by auto
qed

lemma Lookup_known: "Lookup s t out = Some st \<Longrightarrow> st \<in> set AllStates"
  by (drule Lookup_cases) (auto simp: explicitTransitions_def AllStates_def)

text \<open>
  Property C3. The table stays inside the twelve states: no call writes a state outside the
  list the CHECK constraint of the migration enumerates.
\<close>
theorem states_stay_known:
  assumes "\<And>vid r. videos w vid = Some r \<Longrightarrow> vstate r \<in> set AllStates"
    and "videos (run do_call cs w) vid = Some r"
  shows "vstate r \<in> set AllStates"
proof -
  have "\<forall>vid r. videos (run do_call cs w) vid = Some r \<longrightarrow> vstate r \<in> set AllStates"
  proof (rule run_invariant [where P = "\<lambda>w. \<forall>vid r. videos w vid = Some r \<longrightarrow> vstate r \<in> set AllStates"])
    fix c :: call and w :: world
    assume known: "\<forall>vid r. videos w vid = Some r \<longrightarrow> vstate r \<in> set AllStates"
    obtain f h v t out where "c = Advance f h v t out" by (cases c)
    with do_call_row [of f h v t out w] known
    show "\<forall>vid r. videos (do_call c w) vid = Some r \<longrightarrow> vstate r \<in> set AllStates"
      using Lookup_known by (auto split: if_splits)
  qed (use assms(1) in blast)
  with assms(2) show ?thesis by blast
qed

theorem states_stay_known_witness:
  "StateReady \<in> set AllStates \<and> (\<exists>r. videos (run do_call (full_pipeline ''v'')
      \<lparr>videos = [''v'' \<mapsto> \<lparr>vstate = StateDiscovered, updated_at = 3\<rparr>], db_now = 5,
        notified = [], late_log = []\<rparr>) ''v'' = Some r \<and> vstate r \<in> set AllStates)"
proof -
  let ?w = "\<lparr>videos = [''v'' \<mapsto> \<lparr>vstate = StateDiscovered, updated_at = 3\<rparr>], db_now = 5,
        notified = [], late_log = []\<rparr>"
  obtain r where r: "videos (run do_call (full_pipeline ''v'') ?w) ''v'' = Some r"
    by (simp add: full_pipeline_def advance_eval)
  have "vstate r \<in> set AllStates"
    by (rule states_stay_known [OF _ r]) (auto simp: AllStates_def split: if_splits)
  with r show ?thesis by (auto simp: AllStates_def)
qed

end
