(* ===== verification/Placement_Hosts.thy ===== *)
theory Placement_Hosts
  imports Prelude "HOL-Library.Product_Lexorder"
begin

text \<open>
  The home's balancer, first half: the settings it reads (\<^verbatim>\<open>placement/settings.go\<close>), the
  streaming hosts and their health (\<^verbatim>\<open>placement/hosts.go\<close>) and the choice of a host for a
  channel (\<^verbatim>\<open>placement/choose.go\<close>), all of \<^verbatim>\<open>streaming/internal/placement\<close>.

  A method of the mutex-guarded \<open>Hosts\<close> is a function of its state; \<open>now\<close> is the clock read
  under the lock. Log lines are left out. A Go map read at a missing key is its zero value: the
  counters are total functions.
\<close>

section \<open>Settings (settings.go)\<close>

record Settings =
  NodesStream :: bool
  Policy :: string
  SpillAt :: int
  HLSMode :: string
  Failover :: bool
  DeadAfter :: duration
  Pins :: "string \<rightharpoonup> string"

definition PolicyHomeFirst :: string where "PolicyHomeFirst = ''home_first''"
definition PolicyBalanced :: string where "PolicyBalanced = ''balanced''"
definition HLSProxy :: string where "HLSProxy = ''proxy''"

definition DefaultSettings :: Settings where
  "DefaultSettings = \<lparr>NodesStream = False, Policy = PolicyHomeFirst, SpillAt = 100,
     HLSMode = HLSProxy, Failover = True, DeadAfter = 15 * second, Pins = Map.empty\<rparr>"

section \<open>Hosts (hosts.go)\<close>

definition RoleHome :: string where "RoleHome = ''home''"

definition StateOnline :: string where "StateOnline = ''online''"
definition StateDown :: string where "StateDown = ''down''"
definition StateDraining :: string where "StateDraining = ''draining''"
definition StateDisabled :: string where "StateDisabled = ''disabled''"
definition StateUnfit :: string where "StateUnfit = ''unfit''"

definition FailuresToDown :: int where "FailuresToDown = 3"
definition flapWindow :: duration where "flapWindow = 10 * minute"
definition flapHold :: duration where "flapHold = 10 * minute"

record Host =
  ID :: string
  Name :: string
  Role :: string
  BaseURL :: string
  Enabled :: bool
  Draining :: bool
  Capacity :: int
  Weight :: int
  CanLive :: bool
  Unfit :: string
  Protocol :: int
  BeatAge :: duration
  Encoders :: "string list"

record Candidate = Host +
  Eligible :: bool
  Why :: string

definition IsHome :: "'a Host_scheme \<Rightarrow> bool" where
  "IsHome h \<longleftrightarrow> Role h = RoleHome"

text \<open>The state of \<open>Hosts\<close>; \<open>own_protocol\<close> is its configured \<open>Protocol\<close>.\<close>

record Hosts =
  own_protocol :: int
  loaded_at :: instant
  hosts :: "string \<rightharpoonup> Host"
  order :: "string list"
  failures :: "string \<Rightarrow> int"
  downMark :: "string \<rightharpoonup> instant"
  alive :: "string \<rightharpoonup> bool"
  downs :: "string \<Rightarrow> instant list"
  heldUntil :: "string \<rightharpoonup> instant"
  reasons :: "string \<Rightarrow> string"

text \<open>One row of the host list: a beat newer than the failure mark clears the mark.\<close>

definition load_row :: "instant \<Rightarrow> Host \<Rightarrow> Hosts \<Rightarrow> Hosts" where
  "load_row now x h =
    (let h1 = (case downMark h (ID x) of
                 Some mark \<Rightarrow>
                   if mark < now - BeatAge x
                   then h\<lparr>downMark := (downMark h)(ID x := None), failures := (failures h)(ID x := 0)\<rparr>
                   else h
               | None \<Rightarrow> h)
     in h1\<lparr>hosts := (hosts h1)(ID x \<mapsto> x), order := order h1 @ [ID x]\<rparr>)"

text \<open>\<open>load\<close>: the source's answer is \<open>None\<close> for an error, which leaves the state as it was.\<close>

definition load :: "Host list option \<Rightarrow> instant \<Rightarrow> Hosts \<Rightarrow> bool \<times> Hosts" where
  "load answer now h =
    (case answer of
       None \<Rightarrow> (False, h)
     | Some lst \<Rightarrow>
         let h1 = run (load_row now) lst (h\<lparr>order := []\<rparr>);
             h2 = h1\<lparr>hosts := hosts h1 |` set (map ID lst)\<rparr>
         in (True, h2\<lparr>order := sort (order h2), loaded_at := now\<rparr>))"

text \<open>
  \<open>pruneOld\<close> filters in place: it writes the kept instants over the front of the slice it
  is given. A caller that keeps the old slice sees the second component.
\<close>

definition pruneOld :: "instant list \<Rightarrow> instant \<Rightarrow> instant list \<times> instant list" where
  "pruneOld ts now =
    (let out = filter (\<lambda>t. now - t < flapWindow) ts in (out, out @ drop (length out) ts))"

definition dead_after :: "Settings \<Rightarrow> duration" where
  "dead_after s = (if DeadAfter s \<le> 0 then 15 * second else DeadAfter s)"

definition aliveLocked :: "string \<Rightarrow> Settings \<Rightarrow> Hosts \<Rightarrow> bool \<times> string" where
  "aliveLocked i s h =
    (case hosts h i of
       None \<Rightarrow> (False, ''unknown'')
     | Some x \<Rightarrow>
         if dead_after s \<le> BeatAge x then (False, ''missed_beats'')
         else if downMark h i \<noteq> None then (False, ''proxy_failures'')
         else if own_protocol h \<noteq> 0 \<and> Protocol x \<noteq> 0 \<and> Protocol x \<noteq> own_protocol h
         then (False, ''unfit:version'')
         else if Unfit x \<noteq> '''' then (False, ''unfit:'' @ Unfit x)
         else (True, ''''))"

definition eligibleLocked :: "string \<Rightarrow> Settings \<Rightarrow> instant \<Rightarrow> Hosts \<Rightarrow> bool \<times> string" where
  "eligibleLocked i s now h =
    (case aliveLocked i s h of
       (False, why) \<Rightarrow> (False, why)
     | (True, _) \<Rightarrow>
         (case hosts h i of
            None \<Rightarrow> (False, ''unknown'')
          | Some x \<Rightarrow>
              if \<not> Enabled x then (False, StateDisabled)
              else if Draining x then (False, StateDraining)
              else if \<not> IsHome x \<and> \<not> NodesStream s then (False, ''nodes_stream_off'')
              else (case heldUntil h i of
                      Some till \<Rightarrow> if now < till then (False, ''unfit:flapping'') else (True, '''')
                    | None \<Rightarrow> (True, ''''))))"

text \<open>One host of \<open>transitionsLocked\<close>: the hosts found down so far, and the state.\<close>

definition transition :: "Settings \<Rightarrow> instant \<Rightarrow> string \<Rightarrow> string list \<times> Hosts \<Rightarrow> string list \<times> Hosts" where
  "transition s now i acc =
    (let (down, h) = acc;
         (a, why) = aliveLocked i s h;
         was = alive h i;
         h1 = h\<lparr>alive := (alive h)(i \<mapsto> a)\<rparr>;
         wentDown = (was = Some True \<and> \<not> a);
         h2 = (if wentDown
               then h1\<lparr>reasons := (reasons h1)(i := why),
                       downs := (downs h1)(i := fst (pruneOld (downs h1 i) now) @ [now])\<rparr>
               else h1);
         h3 = (if was = Some False \<and> a
               then let (recent, left) = pruneOld (downs h2 i) now;
                        h' = h2\<lparr>downs := (downs h2)(i := left)\<rparr>
                    in if 2 \<le> length recent
                       then h'\<lparr>heldUntil := (heldUntil h')(i \<mapsto> now + flapHold)\<rparr> else h'
               else h2)
     in (if wentDown then down @ [i] else down, h3))"

definition transitionsLocked :: "Settings \<Rightarrow> instant \<Rightarrow> Hosts \<Rightarrow> string list \<times> Hosts" where
  "transitionsLocked s now h = run (transition s now) (order h) ([], h)"

definition Refresh :: "Host list option \<Rightarrow> Settings \<Rightarrow> instant \<Rightarrow> Hosts \<Rightarrow> string list \<times> Hosts" where
  "Refresh answer s now h =
    (case load answer now h of
       (False, h') \<Rightarrow> ([], h')
     | (True, h') \<Rightarrow> transitionsLocked s now h')"

definition Reload :: "Host list option \<Rightarrow> instant \<Rightarrow> Hosts \<Rightarrow> Hosts" where
  "Reload answer now h = snd (load answer now h)"

definition Alive :: "string \<Rightarrow> Settings \<Rightarrow> Hosts \<Rightarrow> bool" where
  "Alive i s h = fst (aliveLocked i s h)"

text \<open>Reading \<open>h.hosts[id]\<close> at a missing id gives the zero \<open>Host\<close>.\<close>

definition zero_host :: Host where
  "zero_host = \<lparr>ID = [], Name = [], Role = [], BaseURL = [], Enabled = False, Draining = False,
     Capacity = 0, Weight = 0, CanLive = False, Unfit = [], Protocol = 0, BeatAge = 0,
     Encoders = []\<rparr>"

definition host_of :: "Hosts \<Rightarrow> string \<Rightarrow> Host" where
  "host_of h i = (case hosts h i of None \<Rightarrow> zero_host | Some x \<Rightarrow> x)"

definition Candidates :: "Settings \<Rightarrow> instant \<Rightarrow> Hosts \<Rightarrow> Candidate list" where
  "Candidates s now h =
    map (\<lambda>i. let (ok, why) = eligibleLocked i s now h in
             Host.extend (host_of h i) (Candidate.fields ok why)) (order h)"

definition Snapshot :: "Hosts \<Rightarrow> Host list" where
  "Snapshot h = map (host_of h) (order h)"

text \<open>\<open>Fail\<close> answers whether the host just went down.\<close>

definition Fail :: "string \<Rightarrow> instant \<Rightarrow> Hosts \<Rightarrow> bool \<times> Hosts" where
  "Fail i now h =
    (if (case hosts h i of Some x \<Rightarrow> IsHome x | None \<Rightarrow> False) then (False, h)
     else
       let h1 = h\<lparr>failures := (failures h)(i := failures h i + 1)\<rparr> in
       if FailuresToDown \<le> failures h1 i \<and> downMark h1 i = None
       then (True, h1\<lparr>downMark := (downMark h1)(i \<mapsto> now)\<rparr>)
       else (False, h1))"

definition OK :: "string \<Rightarrow> Hosts \<Rightarrow> Hosts" where
  "OK i h = (if failures h i \<noteq> 0 then h\<lparr>failures := (failures h)(i := 0)\<rparr> else h)"

definition State :: "string \<Rightarrow> Settings \<Rightarrow> instant \<Rightarrow> Hosts \<Rightarrow> string \<times> string" where
  "State i s now h =
    (case aliveLocked i s h of
       (False, why) \<Rightarrow>
         if 6 < length why \<and> take 6 why = ''unfit:'' then (StateUnfit, drop 6 why)
         else (StateDown, why)
     | (True, _) \<Rightarrow>
         (case eligibleLocked i s now h of
            (False, why) \<Rightarrow>
              if why = StateDraining then (StateDraining, '''')
              else if why = StateDisabled \<or> why = ''nodes_stream_off'' then (StateDisabled, why)
              else (StateUnfit, drop (length ''unfit:'') why)
          | (True, _) \<Rightarrow> (StateOnline, '''')))"

section \<open>Choosing a host (choose.go)\<close>

definition ReasonAllFull :: string where "ReasonAllFull = ''all_full''"
definition ReasonNoLiveHost :: string where "ReasonNoLiveHost = ''no_live_host''"
definition ReasonNoHost :: string where "ReasonNoHost = ''no_host''"

record Choice =
  ChoiceHost :: string
  ChoiceWhy :: string
  PinSkipped :: string

abbreviation no_choice :: Choice where
  "no_choice \<equiv> \<lparr>ChoiceHost = '''', ChoiceWhy = '''', PinSkipped = ''''\<rparr>"

text \<open>The first loop: the options with their load, whether any host has room, is eligible.\<close>

fun scan_options ::
  "Candidate list \<Rightarrow> (string \<Rightarrow> int) \<Rightarrow> bool \<Rightarrow> (Candidate \<times> int) list \<times> bool \<times> bool" where
  "scan_options [] used live = ([], False, False)"
| "scan_options (c # cs) used live =
     (let (opts, anyRoom, anyEligible) = scan_options cs used live in
      if \<not> Eligible c then (opts, anyRoom, anyEligible)
      else if Capacity c \<le> used (ID c) then (opts, anyRoom, True)
      else if live \<and> \<not> CanLive c then (opts, True, True)
      else ((c, used (ID c)) # opts, True, True))"

fun pinWhy :: "Candidate list \<Rightarrow> (string \<Rightarrow> int) \<Rightarrow> bool \<Rightarrow> string \<Rightarrow> string" where
  "pinWhy [] used live pin = ''unknown_host''"
| "pinWhy (c # cs) used live pin =
     (if Name c \<noteq> pin \<and> ID c \<noteq> pin then pinWhy cs used live pin
      else if \<not> Eligible c then (if Why c \<noteq> '''' then Why c else ''not_online'')
      else if Capacity c \<le> used (ID c) then ''full''
      else if live \<and> \<not> CanLive c then ''no_live''
      else ''excluded'')"

definition load_ratio :: "Candidate \<times> int \<Rightarrow> float64" where
  "load_ratio o' = (if Capacity (fst o') \<le> 0 then 1
     else f64_div (f64_of_int (snd o')) (f64_of_int (Capacity (fst o'))))"

definition opt_less :: "bool \<Rightarrow> Candidate \<times> int \<Rightarrow> Candidate \<times> int \<Rightarrow> bool" where
  "opt_less homeBias a b =
    (if load_ratio a \<noteq> load_ratio b then load_ratio a < load_ratio b
     else if homeBias \<and> IsHome (fst a) \<noteq> IsHome (fst b) then IsHome (fst a)
     else if Weight (fst a) \<noteq> Weight (fst b) then Weight (fst b) < Weight (fst a)
     else ID (fst a) < ID (fst b))"

definition spill_percent :: "Settings \<Rightarrow> int" where
  "spill_percent s = (if SpillAt s \<le> 0 \<or> 100 < SpillAt s then 100 else SpillAt s)"

text \<open>The home takes the channel while its load is below the spill share of its capacity.\<close>

definition below_spill :: "Settings \<Rightarrow> Candidate \<times> int \<Rightarrow> bool" where
  "below_spill s home \<longleftrightarrow> f64_of_int (snd home)
     < f64_mul (f64_div (f64_of_int (spill_percent s)) 100) (f64_of_int (Capacity (fst home)))"

definition choose_among :: "(Candidate \<times> int) list \<Rightarrow> Settings \<Rightarrow> Choice \<Rightarrow> Choice" where
  "choose_among opts s ch =
    (if Policy s = PolicyBalanced
     then ch\<lparr>ChoiceHost := ID (fst (hd (sort_by (opt_less True) opts)))\<rparr>
     else
       let homes = filter (\<lambda>o'. IsHome (fst o')) opts;
           others = filter (\<lambda>o'. \<not> IsHome (fst o')) opts in
       if homes \<noteq> [] \<and> below_spill s (last homes) then ch\<lparr>ChoiceHost := ID (fst (last homes))\<rparr>
       else if others \<noteq> [] then ch\<lparr>ChoiceHost := ID (fst (hd (sort_by (opt_less False) others)))\<rparr>
       else if homes \<noteq> [] then ch\<lparr>ChoiceHost := ID (fst (last homes))\<rparr>
       else ch\<lparr>ChoiceWhy := ReasonAllFull\<rparr>)"

definition keep_others :: "string \<Rightarrow> (Candidate \<times> int) list \<Rightarrow> (Candidate \<times> int) list" where
  "keep_others exclude opts =
    (if 1 < length opts \<and> exclude \<noteq> '''' then filter (\<lambda>o'. ID (fst o') \<noteq> exclude) opts else opts)"

definition Choose ::
  "Candidate list \<Rightarrow> (string \<Rightarrow> int) \<Rightarrow> Settings \<Rightarrow> bool \<Rightarrow> string \<Rightarrow> string \<Rightarrow> Choice" where
  "Choose cands used s live pin exclude =
    (let (opts0, anyRoom, anyEligible) = scan_options cands used live;
         opts = keep_others exclude opts0;
         pinned = filter (\<lambda>o'. Name (fst o') = pin \<or> ID (fst o') = pin) opts in
     if pin \<noteq> '''' \<and> pinned \<noteq> [] then no_choice\<lparr>ChoiceHost := ID (fst (hd pinned))\<rparr>
     else
       let ch = (if pin \<noteq> '''' then no_choice\<lparr>PinSkipped := pinWhy cands used live pin\<rparr> else no_choice) in
       if opts = [] then
         ch\<lparr>ChoiceWhy := (if \<not> anyEligible then ReasonNoHost
                          else if \<not> anyRoom then ReasonAllFull
                          else if live then ReasonNoLiveHost
                          else ReasonAllFull)\<rparr>
       else choose_among opts s ch)"

section \<open>What Choose answers\<close>

text \<open>A candidate fits when it is eligible, has room, and can run live blocks if that is needed.\<close>

definition fits :: "(string \<Rightarrow> int) \<Rightarrow> bool \<Rightarrow> Candidate \<Rightarrow> bool" where
  "fits used live c \<longleftrightarrow> Eligible c \<and> used (ID c) < Capacity c \<and> (live \<longrightarrow> CanLive c)"

lemma scan_options_eq:
  "scan_options cands used live =
    (map (\<lambda>c. (c, used (ID c))) (filter (fits used live) cands),
     \<exists>c \<in> set cands. Eligible c \<and> used (ID c) < Capacity c,
     \<exists>c \<in> set cands. Eligible c)"
  by (induction cands) (auto simp: fits_def)

text \<open>The order on options is the lexicographic one of their keys.\<close>

definition opt_key :: "bool \<Rightarrow> Candidate \<times> int \<Rightarrow> rat \<times> bool \<times> int \<times> string" where
  "opt_key hb o' =
     (load_ratio o', hb \<and> \<not> IsHome (fst o'), - Weight (fst o'), ID (fst o'))"

lemma opt_less_key: "opt_less hb a b \<longleftrightarrow> opt_key hb a < opt_key hb b"
proof (cases "load_ratio a = load_ratio b")
  case True
  then show ?thesis
    by (cases "IsHome (fst a)"; cases "IsHome (fst b)"; cases hb;
        cases "Weight (fst a) = Weight (fst b)")
      (auto simp: opt_less_def opt_key_def less_prod_simp)
next
  case False
  then show ?thesis
    by (auto simp: opt_less_def opt_key_def less_prod_simp)
qed

lemma opt_less_asym: "opt_less hb a b \<Longrightarrow> \<not> opt_less hb b a"
  unfolding opt_less_key by (rule less_not_sym)

lemma opt_less_negtrans: "\<not> opt_less hb b a \<Longrightarrow> \<not> opt_less hb c b \<Longrightarrow> \<not> opt_less hb c a"
  unfolding opt_less_key not_less by (rule order_trans)

lemma sort_opts_hd:
  assumes "opts \<noteq> []"
  obtains m where "hd (sort_by (opt_less hb) opts) = m" "m \<in> set opts"
    "\<And>o'. o' \<in> set opts \<Longrightarrow> \<not> opt_less hb o' m"
proof -
  obtain m ms where m: "sort_by (opt_less hb) opts = m # ms"
    using assms by (cases "sort_by (opt_less hb) opts") auto
  have "m \<in> set opts \<and> (o' = m \<or> \<not> opt_less hb o' m)" if "o' \<in> set opts" for o'
    by (rule sort_by_hd [OF opt_less_asym opt_less_negtrans m that])
  moreover have "m \<in> set opts" using m by (metis list.set_intros(1) set_sort_by)
  ultimately show ?thesis using that [of m] m opt_less_asym by (metis list.sel(1))
qed

text \<open>The choice among the options is one of them.\<close>

lemma choose_among_in:
  assumes "opts \<noteq> []"
  shows "\<exists>o' \<in> set opts. choose_among opts s ch = ch\<lparr>ChoiceHost := ID (fst o')\<rparr>"
proof (cases "Policy s = PolicyBalanced")
  case True
  obtain m where "hd (sort_by (opt_less True) opts) = m" "m \<in> set opts"
    using sort_opts_hd [OF assms] by metis
  with True show ?thesis by (auto simp: choose_among_def)
next
  case False
  let ?homes = "filter (\<lambda>o'. IsHome (fst o')) opts"
  let ?others = "filter (\<lambda>o'. \<not> IsHome (fst o')) opts"
  have last_in: "?homes \<noteq> [] \<Longrightarrow> last ?homes \<in> set opts"
    using last_in_set by fastforce
  have hd_in: "?others \<noteq> [] \<Longrightarrow> hd (sort_by (opt_less False) ?others) \<in> set opts"
    using sort_opts_hd [of ?others False] by (metis filter_is_subset subsetD)
  have some: "?homes \<noteq> [] \<or> ?others \<noteq> []"
    using assms by (auto simp: filter_empty_conv neq_Nil_conv)
  show ?thesis
    unfolding choose_among_def Let_def using False last_in hd_in some by auto
qed

text \<open>The options \<open>Choose\<close> picks from: those that fit, the excluded host left out when it can be.\<close>

definition options :: "Candidate list \<Rightarrow> (string \<Rightarrow> int) \<Rightarrow> bool \<Rightarrow> string \<Rightarrow> (Candidate \<times> int) list" where
  "options cands used live exclude =
     keep_others exclude (map (\<lambda>c. (c, used (ID c))) (filter (fits used live) cands))"

lemma options_fit: "o' \<in> set (options cands used live exclude) \<Longrightarrow>
    fst o' \<in> set cands \<and> fits used live (fst o') \<and> snd o' = used (ID (fst o'))"
  by (auto simp: options_def keep_others_def split: if_splits)

lemma Choose_options:
  "Choose cands used s live pin exclude =
    (let opts = options cands used live exclude;
         pinned = filter (\<lambda>o'. Name (fst o') = pin \<or> ID (fst o') = pin) opts in
     if pin \<noteq> '''' \<and> pinned \<noteq> [] then no_choice\<lparr>ChoiceHost := ID (fst (hd pinned))\<rparr>
     else
       let ch = (if pin \<noteq> '''' then no_choice\<lparr>PinSkipped := pinWhy cands used live pin\<rparr> else no_choice) in
       if opts = [] then
         ch\<lparr>ChoiceWhy := (if \<forall>c \<in> set cands. \<not> Eligible c then ReasonNoHost
                          else if \<forall>c \<in> set cands. Eligible c \<longrightarrow> Capacity c \<le> used (ID c)
                          then ReasonAllFull
                          else if live then ReasonNoLiveHost
                          else ReasonAllFull)\<rparr>
       else choose_among opts s ch)"
  unfolding Choose_def scan_options_eq options_def Let_def prod.case
  by (auto simp: not_less)

lemma Choose_host_option:
  assumes "options cands used live exclude \<noteq> []"
  shows "\<exists>o' \<in> set (options cands used live exclude).
    ChoiceHost (Choose cands used s live pin exclude) = ID (fst o')"
proof -
  let ?opts = "options cands used live exclude"
  let ?pinned = "filter (\<lambda>o'. Name (fst o') = pin \<or> ID (fst o') = pin) ?opts"
  have among: "\<exists>o' \<in> set ?opts. ChoiceHost (choose_among ?opts s ch) = ID (fst o')" for ch
    using choose_among_in [OF assms, of s ch] by (elim bexE, intro bexI) auto
  show ?thesis
  proof (cases "pin \<noteq> [] \<and> ?pinned \<noteq> []")
    case True
    have "hd ?pinned \<in> set ?opts"
      by (rule subsetD [OF filter_is_subset hd_in_set [OF conjunct2 [OF True]]])
    moreover have "ChoiceHost (Choose cands used s live pin exclude) = ID (fst (hd ?pinned))"
      unfolding Choose_options Let_def if_P [OF True] by simp
    ultimately show ?thesis by blast
  next
    case False
    then have "\<exists>ch. Choose cands used s live pin exclude = choose_among ?opts s ch"
      unfolding Choose_options Let_def if_not_P [OF False] if_not_P [OF assms] by blast
    with among show ?thesis by metis
  qed
qed

lemma Choose_fits:
  assumes "ChoiceHost (Choose cands used s live pin exclude) \<noteq> ''''"
  shows "\<exists>c \<in> set cands. ID c = ChoiceHost (Choose cands used s live pin exclude) \<and> fits used live c"
proof -
  have "options cands used live exclude \<noteq> []"
    using assms by (auto simp: Choose_options Let_def split: if_splits)
  then show ?thesis
    using Choose_host_option options_fit by metis
qed

lemma fit_options_nonempty:
  assumes "distinct (map ID cands)"
  shows "options cands used live exclude = [] \<longleftrightarrow> \<not> (\<exists>c \<in> set cands. fits used live c)"
proof -
  let ?opts = "map (\<lambda>c. (c, used (ID c))) (filter (fits used live) cands)"
  have dist: "distinct (map (\<lambda>o'. ID (fst o')) ?opts)"
    using assms by (simp add: comp_def distinct_map_filter)
  have "keep_others exclude ?opts = [] \<longleftrightarrow> ?opts = []"
  proof (cases "1 < length ?opts \<and> exclude \<noteq> []")
    case True
    then obtain a b os where "?opts = a # b # os"
      by (cases ?opts; cases "tl ?opts") auto
    with dist True show ?thesis by (auto simp: keep_others_def)
  qed (auto simp only: keep_others_def if_False)
  then show ?thesis by (auto simp: options_def filter_empty_conv)
qed

lemma Choose_serves:
  assumes "distinct (map ID cands)" and "\<forall>c \<in> set cands. ID c \<noteq> ''''" and "\<exists>c \<in> set cands. fits used live c"
  shows "ChoiceHost (Choose cands used s live pin exclude) \<noteq> ''''"
  using Choose_host_option fit_options_nonempty options_fit assms by metis

text \<open>
  A channel only ever goes to a host that may take it: the host \<open>Choose\<close> names is
  a candidate that is eligible, has a free place by the caller's own counts, and can run live
  blocks when the channel has them; and it is not the host the channel must leave while another
  host fits.
\<close>
theorem Choose_sound:
  assumes "ChoiceHost (Choose cands used s live pin exclude) = h" and "h \<noteq> ''''"
  shows "(\<exists>c \<in> set cands. ID c = h \<and> fits used live c)
    \<and> ((\<exists>c \<in> set cands. fits used live c \<and> ID c \<noteq> exclude) \<longrightarrow> exclude \<noteq> '''' \<longrightarrow> h \<noteq> exclude)"
proof -
  have ne: "options cands used live exclude \<noteq> []"
    using assms by (auto simp: Choose_options Let_def split: if_splits)
  then obtain o' where o': "o' \<in> set (options cands used live exclude)" "h = ID (fst o')"
    using Choose_host_option assms(1) by metis
  have "h \<noteq> exclude" if c: "c \<in> set cands" "fits used live c" "ID c \<noteq> exclude" and "exclude \<noteq> ''''" for c
  proof
    assume h: "h = exclude"
    let ?fit = "filter (fits used live) cands"
    have "c \<in> set ?fit" "fst o' \<in> set ?fit" "ID (fst o') = exclude"
      using c options_fit [OF o'(1)] h o'(2) by auto
    then have "1 < length ?fit"
      using c(3) by (cases ?fit; cases "tl ?fit") auto
    with o' h that(4) show False
      by (auto simp: options_def keep_others_def)
  qed
  with o' options_fit [OF o'(1)] show ?thesis by blast
qed

theorem Choose_sound_witness:
  "\<exists>c \<in> set [Host.extend (zero_host\<lparr>ID := ''n'', Capacity := 2\<rparr>) (Candidate.fields True '''')].
     ID c = ''n'' \<and> fits (\<lambda>_. 1) False c"
proof -
  let ?cands = "[Host.extend (zero_host\<lparr>ID := ''n'', Capacity := 2\<rparr>) (Candidate.fields True '''')]"
  have "ChoiceHost (Choose ?cands (\<lambda>_. 1) DefaultSettings False '''' ''m'') = ''n''"
    by code_simp
  from Choose_sound [OF this] show ?thesis by simp
qed

text \<open>
  When nothing is chosen: exactly when no candidate fits, and the answer says why
  in the caller's words: no host may take channels, all that may are full, or none of those with
  room runs live blocks. So a channel that some host can take is never refused, whatever the
  pin and the excluded host.
\<close>
theorem Choose_none_reason:
  assumes "distinct (map ID cands)" and "\<forall>c \<in> set cands. ID c \<noteq> ''''"
  shows "(ChoiceHost (Choose cands used s live pin exclude) = '''' \<longleftrightarrow>
            \<not> (\<exists>c \<in> set cands. fits used live c))
    \<and> (ChoiceHost (Choose cands used s live pin exclude) = '''' \<longrightarrow>
        ChoiceWhy (Choose cands used s live pin exclude) =
          (if \<forall>c \<in> set cands. \<not> Eligible c then ''no_host''
           else if \<forall>c \<in> set cands. Eligible c \<longrightarrow> Capacity c \<le> used (ID c) then ''all_full''
           else ''no_live_host''))"
proof (cases "options cands used live exclude = []")
  case True
  then have none: "\<not> (\<exists>c \<in> set cands. fits used live c)"
    using fit_options_nonempty [OF assms(1)] by simp
  show ?thesis using True none
    by (auto simp: Choose_options ReasonNoHost_def ReasonAllFull_def ReasonNoLiveHost_def fits_def
        not_less)
next
  case False
  then have "ChoiceHost (Choose cands used s live pin exclude) \<noteq> ''''"
    using Choose_host_option [OF False, of s pin] options_fit assms(2) by metis
  with False show ?thesis using fit_options_nonempty [OF assms(1)] by simp
qed

theorem Choose_none_reason_witness:
  "ChoiceWhy (Choose [Host.extend (zero_host\<lparr>ID := ''n'', Capacity := 2\<rparr>) (Candidate.fields True '''')]
     (\<lambda>_. 2) DefaultSettings False '''' '''') = ''all_full''"
  using Choose_none_reason [of "[Host.extend (zero_host\<lparr>ID := ''n'', Capacity := 2\<rparr>)
      (Candidate.fields True '''')]" "\<lambda>_. 2" DefaultSettings False "''''" "''''"]
  by (simp add: fits_def zero_host_def Host.defs Candidate.defs)

lemma sort_opts_best:
  "opts \<noteq> [] \<Longrightarrow> hd (sort_by (opt_less hb) opts) \<in> set opts
    \<and> (\<forall>o' \<in> set opts. \<not> opt_less hb o' (hd (sort_by (opt_less hb) opts)))"
  by (metis sort_opts_hd)

text \<open>
  Which host a channel without an honoured pin gets. Balanced: one with the least
  load for its capacity (on a tie the home, then the heavier weight). Home first: the home while
  it is below its spill share or alone; otherwise the least loaded of the other hosts, and then
  the home was not below its share.
\<close>
theorem Choose_policy:
  assumes "options cands used live exclude = opts" and "opts \<noteq> []"
    and "pin \<noteq> '''' \<longrightarrow> (\<forall>o' \<in> set opts. Name (fst o') \<noteq> pin \<and> ID (fst o') \<noteq> pin)"
    and "\<forall>a \<in> set opts. \<forall>b \<in> set opts. IsHome (fst a) \<longrightarrow> IsHome (fst b) \<longrightarrow> a = b"
  shows "\<exists>m \<in> set opts. ChoiceHost (Choose cands used s live pin exclude) = ID (fst m)
    \<and> (if Policy s = PolicyBalanced then \<forall>o' \<in> set opts. \<not> opt_less True o' m
       else if IsHome (fst m) then below_spill s m \<or> (\<forall>o' \<in> set opts. IsHome (fst o'))
       else (\<forall>o' \<in> set opts. IsHome (fst o') \<longrightarrow> \<not> below_spill s o')
          \<and> (\<forall>o' \<in> set opts. \<not> IsHome (fst o') \<longrightarrow> \<not> opt_less False o' m))"
proof -
  have unpinned: "\<not> (pin \<noteq> '''' \<and> filter (\<lambda>o'. Name (fst o') = pin \<or> ID (fst o') = pin) opts \<noteq> [])"
    using assms(3) by (auto simp: filter_empty_conv)
  obtain ch where ch: "Choose cands used s live pin exclude = choose_among opts s ch"
    unfolding Choose_options Let_def assms(1) if_not_P [OF unpinned] if_not_P [OF assms(2)] by blast
  let ?homes = "filter (\<lambda>o'. IsHome (fst o')) opts"
  let ?others = "filter (\<lambda>o'. \<not> IsHome (fst o')) opts"
  consider (balanced) "Policy s = PolicyBalanced"
    | (home) "Policy s \<noteq> PolicyBalanced" "?homes \<noteq> []" "below_spill s (last ?homes) \<or> ?others = []"
    | (other) "Policy s \<noteq> PolicyBalanced" "?others \<noteq> []"
        "?homes \<noteq> [] \<longrightarrow> \<not> below_spill s (last ?homes)"
    using assms(2) by (fastforce simp: filter_empty_conv neq_Nil_conv)
  then show ?thesis
  proof cases
    case balanced
    then show ?thesis using sort_opts_best [OF assms(2), of True]
      by (intro bexI [of _ "hd (sort_by (opt_less True) opts)"]) (simp_all add: ch choose_among_def)
  next
    case home
    have "last ?homes \<in> set ?homes" using home(2) by (rule last_in_set)
    then have m: "last ?homes \<in> set opts" "IsHome (fst (last ?homes))" by auto
    moreover have "ChoiceHost (choose_among opts s ch) = ID (fst (last ?homes))"
      using home by (auto simp: choose_among_def Let_def)
    ultimately show ?thesis using home ch
      by (intro bexI [OF _ m(1)]) (auto simp: filter_empty_conv)
  next
    case other
    let ?m = "hd (sort_by (opt_less False) ?others)"
    have m: "?m \<in> set ?others" "\<forall>o' \<in> set ?others. \<not> opt_less False o' ?m"
      using sort_opts_best [OF other(2), of False] by blast+
    have homes: "\<not> below_spill s o'" if "o' \<in> set opts" "IsHome (fst o')" for o'
    proof -
      have "?homes \<noteq> []" using that by (auto simp: filter_empty_conv)
      then have "last ?homes \<in> set ?homes" by (rule last_in_set)
      with assms(4) that have "last ?homes = o'" by auto
      with other(3) \<open>?homes \<noteq> []\<close> show ?thesis by auto
    qed
    have "ChoiceHost (choose_among opts s ch) = ID (fst ?m)"
      using other by (auto simp: choose_among_def Let_def)
    with m homes other(1) ch show ?thesis by (intro bexI [of _ ?m]) auto
  qed
qed

abbreviation node_cand :: "string \<Rightarrow> string \<Rightarrow> int \<Rightarrow> Candidate" where
  "node_cand i role cap \<equiv>
    Host.extend (zero_host\<lparr>ID := i, Role := role, Capacity := cap\<rparr>) (Candidate.fields True '''')"

theorem Choose_policy_witness:
  "ChoiceHost (Choose [node_cand ''h'' ''home'' 2, node_cand ''n'' ''node'' 2] (\<lambda>i. if i = ''h'' then 1 else 0)
     (DefaultSettings\<lparr>SpillAt := 50\<rparr>) False '''' '''') = ''n''"
proof -
  define used where "used = (\<lambda>i. if i = ''h'' then 1 else (0::int))"
  define s where "s = DefaultSettings\<lparr>SpillAt := 50\<rparr>"
  define h where "h = (node_cand ''h'' ''home'' 2, 1::int)"
  define n where "n = (node_cand ''n'' ''node'' 2, 0::int)"
  have opts: "options [fst h, fst n] used False '''' = [h, n]"
    unfolding used_def h_def n_def by code_simp
  have facts: "IsHome (fst h)" "\<not> IsHome (fst n)" "\<not> below_spill s h" "Policy s \<noteq> PolicyBalanced"
    "ID (fst n) = ''n''"
    unfolding s_def h_def n_def by code_simp+
  have "\<exists>m \<in> set [h, n]. ChoiceHost (Choose [fst h, fst n] used s False '''' '''') = ID (fst m)
      \<and> (if Policy s = PolicyBalanced then \<forall>o' \<in> set [h, n]. \<not> opt_less True o' m
         else if IsHome (fst m) then below_spill s m \<or> (\<forall>o' \<in> set [h, n]. IsHome (fst o'))
         else (\<forall>o' \<in> set [h, n]. IsHome (fst o') \<longrightarrow> \<not> below_spill s o')
            \<and> (\<forall>o' \<in> set [h, n]. \<not> IsHome (fst o') \<longrightarrow> \<not> opt_less False o' m))"
    by (rule Choose_policy [OF opts]) (use facts in auto)
  then have "ChoiceHost (Choose [fst h, fst n] used s False '''' '''') = ''n''"
    using facts by (auto split: if_splits)
  then show ?thesis by (simp add: used_def s_def h_def n_def)
qed
text \<open>
  The spill share is taken in floating point, as \<open>spill/100 * capacity\<close>: with a share of 7
  percent of 100 places the home still takes the eighth channel, the product being above 7.
\<close>

lemma spill_share_rounds_up:
  "below_spill (DefaultSettings\<lparr>SpillAt := 7\<rparr>) (node_cand ''h'' ''home'' 100, 7)"
  "\<not> below_spill (DefaultSettings\<lparr>SpillAt := 8\<rparr>) (node_cand ''h'' ''home'' 100, 8)"
  by code_simp+

section \<open>Health\<close>

text \<open>Failed proxy attempts on one host, at the given instants, with no success between.\<close>

definition fails :: "string \<Rightarrow> instant list \<Rightarrow> Hosts \<Rightarrow> Hosts" where
  "fails i ts h = run (\<lambda>t h. snd (Fail i t h)) ts h"

lemma Fail_frame [simp]:
  "hosts (snd (Fail i t h)) = hosts h" "alive (snd (Fail i t h)) = alive h"
  "own_protocol (snd (Fail i t h)) = own_protocol h"
  by (auto simp: Fail_def Let_def)

lemma fails_state:
  assumes "hosts h i = Some x" and "\<not> IsHome x" and "failures h i = 0" and "downMark h i = None"
  shows "hosts (fails i ts h) = hosts h \<and> failures (fails i ts h) i = int (length ts)
    \<and> downMark (fails i ts h) i = (if 3 \<le> length ts then Some (ts ! 2) else None)
    \<and> (\<forall>j. j \<noteq> i \<longrightarrow> failures (fails i ts h) j = failures h j \<and> downMark (fails i ts h) j = downMark h j)"
proof (induction ts rule: rev_induct)
  case Nil
  then show ?case using assms by (simp add: fails_def)
next
  case (snoc t ts)
  have step: "fails i (ts @ [t]) h = snd (Fail i t (fails i ts h))"
    by (simp add: fails_def)
  consider "length ts < 2" | "length ts = 2" | "3 \<le> length ts" by linarith
  then show ?case
    by cases (use snoc assms(1,2) in \<open>auto simp: step Fail_def FailuresToDown_def nth_append Let_def\<close>)
qed

text \<open>
  Three strikes: of the failed attempts on a healthy node with no success
  between, exactly the third reports that the host went down; from it on the host may not keep
  its channels (so failover moves them) and its mark is the third failure's time. Other hosts'
  counts and marks do not change.
\<close>
theorem Fail_three_strikes:
  assumes "hosts h i = Some x" and "\<not> IsHome x" and "failures h i = 0" and "downMark h i = None"
  shows "(fst (Fail i t (fails i ts h)) \<longleftrightarrow> length ts = 2)
    \<and> downMark (fails i ts h) i = (if 3 \<le> length ts then Some (ts ! 2) else None)
    \<and> (3 \<le> length ts \<longrightarrow> \<not> Alive i s (fails i ts h))
    \<and> (length ts < 3 \<longrightarrow> Alive i s (fails i ts h) = Alive i s h)
    \<and> (\<forall>j. j \<noteq> i \<longrightarrow> failures (fails i ts h) j = failures h j \<and> downMark (fails i ts h) j = downMark h j)"
proof -
  note st = fails_state [OF assms, of ts]
  have proto: "own_protocol (fails i ts h) = own_protocol h"
    unfolding fails_def by (rule run_invariant [where P = "\<lambda>h'. own_protocol h' = own_protocol h"]) auto
  have "length ts < 3 \<Longrightarrow> Alive i s (fails i ts h) = Alive i s h"
    using st assms(4) proto by (auto simp: Alive_def aliveLocked_def split: option.split)
  moreover have "3 \<le> length ts \<Longrightarrow> \<not> Alive i s (fails i ts h)"
    using st by (auto simp: Alive_def aliveLocked_def split: option.split)
  moreover have "fst (Fail i t (fails i ts h)) \<longleftrightarrow> length ts = 2"
  proof -
    consider "length ts < 2" | "length ts = 2" | "3 \<le> length ts" by linarith
    then show ?thesis
      by cases (use st assms(1,2) in \<open>auto simp: Fail_def FailuresToDown_def Let_def\<close>)
  qed
  ultimately show ?thesis using st by blast
qed

definition some_hosts :: "Host list \<Rightarrow> Hosts" where
  "some_hosts xs = snd (load (Some xs) 0 \<lparr>own_protocol = 1, loaded_at = 0, hosts = Map.empty, order = [],
     failures = (\<lambda>_. 0), downMark = Map.empty, alive = Map.empty, downs = (\<lambda>_. []),
     heldUntil = Map.empty, reasons = (\<lambda>_. [])\<rparr>)"

theorem Fail_three_strikes_witness:
  "\<not> Alive ''n'' DefaultSettings (fails ''n'' [1, 2, 3] (some_hosts [zero_host\<lparr>ID := ''n''\<rparr>]))"
proof -
  let ?h = "some_hosts [zero_host\<lparr>ID := ''n''\<rparr>]"
  have "hosts ?h ''n'' = Some (zero_host\<lparr>ID := ''n''\<rparr>)" "failures ?h ''n'' = 0" "downMark ?h ''n'' = None"
    by (simp_all add: some_hosts_def load_def load_row_def zero_host_def)
  moreover have "\<not> IsHome (zero_host\<lparr>ID := ''n''\<rparr>)" by code_simp
  ultimately show ?thesis
    using Fail_three_strikes [of ?h "''n''" _ 0 "[1, 2, 3]" DefaultSettings] by simp
qed

text \<open>One host's transition changes no host's liveness, and its own record of it.\<close>

lemma aliveLocked_cong:
  "hosts h' = hosts h \<Longrightarrow> downMark h' i = downMark h i \<Longrightarrow> own_protocol h' = own_protocol h
    \<Longrightarrow> aliveLocked i s h' = aliveLocked i s h"
  by (simp add: aliveLocked_def split: option.split)

lemma transition_alive [simp]:
  "aliveLocked j s' (snd (transition s now i acc)) = aliveLocked j s' (snd acc)"
  by (rule aliveLocked_cong) (auto simp: transition_def Let_def split: prod.splits)

lemma transition_frame [simp]:
  "alive (snd (transition s now i acc)) = (alive (snd acc))(i \<mapsto> fst (aliveLocked i s (snd acc)))"
  "fst (transition s now i acc) = fst acc @
     (if alive (snd acc) i = Some True \<and> \<not> fst (aliveLocked i s (snd acc)) then [i] else [])"
  "order (snd (transition s now i acc)) = order (snd acc)"
  by (auto simp: transition_def Let_def split: prod.splits)

lemma run_transition:
  assumes "distinct is"
  shows "aliveLocked j s' (snd (run (transition s now) is acc)) = aliveLocked j s' (snd acc)
    \<and> alive (snd (run (transition s now) is acc))
       = (\<lambda>i. if i \<in> set is then Some (fst (aliveLocked i s (snd acc))) else alive (snd acc) i)
    \<and> fst (run (transition s now) is acc) = fst acc @
       filter (\<lambda>i. alive (snd acc) i = Some True \<and> \<not> fst (aliveLocked i s (snd acc))) is"
  using assms
proof (induction "is" arbitrary: acc)
  case (Cons i "is")
  have "filter (\<lambda>j. alive (snd (transition s now i acc)) j = Some True \<and> \<not> fst (aliveLocked j s (snd acc))) is
      = filter (\<lambda>j. alive (snd acc) j = Some True \<and> \<not> fst (aliveLocked j s (snd acc))) is"
    using Cons.prems by (intro filter_cong) auto
  with Cons.IH [of "transition s now i acc"] Cons.prems show ?case by auto
qed (simp add: fun_eq_iff)

lemma load_rows:
  "order (run (load_row now) xs h) = order h @ map ID xs
   \<and> alive (run (load_row now) xs h) = alive h
   \<and> (\<forall>i. i \<notin> ID ` set xs \<longrightarrow> hosts (run (load_row now) xs h) i = hosts h i)
   \<and> own_protocol (run (load_row now) xs h) = own_protocol h"
proof (induction xs arbitrary: h)
  case (Cons x xs)
  show ?case using Cons [of "load_row now x h"]
    by (auto simp: load_row_def Let_def split: option.splits if_splits)
qed simp

lemma load_order:
  "load (Some xs) now h = (True, h') \<Longrightarrow> order h' = sort (map ID xs) \<and> alive h' = alive h"
  using load_rows [of now xs "h\<lparr>order := []\<rparr>"] by (auto simp: load_def Let_def)

text \<open>
  The sweeper hears of every host that goes down, once: a refresh reports exactly
  the listed hosts that were alive at the last refresh that saw them and are not now, each once,
  and records the liveness it found; so a host that stays down is not reported again until a
  refresh has seen it alive. A host list that cannot be read reports nothing and changes nothing.
\<close>
theorem Refresh_reports_downs:
  assumes "Refresh (Some xs) s now h = (down, h')" and "distinct (map ID xs)"
  shows "set down = {i \<in> ID ` set xs. alive h i = Some True \<and> \<not> Alive i s h'}
    \<and> distinct down
    \<and> alive h' = (\<lambda>i. if i \<in> ID ` set xs then Some (Alive i s h') else alive h i)
    \<and> Refresh None s now h = ([], h)"
proof -
  obtain h1 where l: "load (Some xs) now h = (True, h1)" by (simp add: load_def Let_def)
  from load_order [OF l] have o1: "order h1 = sort (map ID xs)" "alive h1 = alive h" by auto
  then have d: "distinct (order h1)" "set (order h1) = ID ` set xs" using assms(2) by auto
  have r: "run (transition s now) (order h1) ([], h1) = (down, h')"
    using assms(1) l by (simp add: Refresh_def transitionsLocked_def)
  from run_transition [OF d(1), of _ s s now "([], h1)"] r
  have al: "aliveLocked j s h' = aliveLocked j s h1" for j by simp
  from run_transition [OF d(1), of _ s s now "([], h1)"] r o1(2)
  have "down = filter (\<lambda>i. alive h i = Some True \<and> \<not> Alive i s h') (order h1)"
    and "alive h' = (\<lambda>i. if i \<in> ID ` set xs then Some (Alive i s h') else alive h i)"
    by (simp_all add: Alive_def al d(2) cong: if_cong)
  moreover have "Refresh None s now h = ([], h)" by (simp add: Refresh_def load_def)
  ultimately show ?thesis using d by (intro conjI) (auto simp only: set_filter intro: distinct_filter)
qed

theorem Refresh_reports_downs_witness:
  "fst (Refresh (Some [zero_host\<lparr>ID := ''n'', BeatAge := 20 * second\<rparr>]) DefaultSettings 7
     (some_hosts []\<lparr>alive := [''n'' \<mapsto> True]\<rparr>)) = [''n'']"
proof -
  let ?xs = "[zero_host\<lparr>ID := ''n'', BeatAge := 20 * second\<rparr>]"
  let ?h = "some_hosts []\<lparr>alive := [''n'' \<mapsto> True]\<rparr>"
  obtain down h' where r: "Refresh (Some ?xs) DefaultSettings 7 ?h = (down, h')" by (rule prod.exhaust)
  then have "\<not> Alive ''n'' DefaultSettings h'"
    by (auto simp: Refresh_def transitionsLocked_def load_def load_row_def some_hosts_def Alive_def
        aliveLocked_def zero_host_def transition_def pruneOld_def dead_after_def DefaultSettings_def Let_def)
  then have "set down = {''n''}" "distinct down"
    using Refresh_reports_downs [OF r] by (auto simp: zero_host_def)
  then have "down = [''n'']"
    by (cases down; cases "tl down") auto
  with r show ?thesis by simp
qed

text \<open>
  The admin page and the balancer agree: \<open>State\<close> says online exactly for the
  hosts \<open>Choose\<close> may pick, and that means: a fresh beat, no failure mark, a matching protocol,
  nothing unfit, enabled, not draining, home or nodes on, and any flap hold over.
\<close>
theorem State_online_iff:
  "(fst (State i s now h) = StateOnline \<longleftrightarrow> fst (eligibleLocked i s now h))
    \<and> (fst (eligibleLocked i s now h) \<longleftrightarrow>
        (\<exists>x. hosts h i = Some x \<and> BeatAge x < dead_after s \<and> downMark h i = None
          \<and> \<not> (own_protocol h \<noteq> 0 \<and> Protocol x \<noteq> 0 \<and> Protocol x \<noteq> own_protocol h)
          \<and> Unfit x = '''' \<and> Enabled x \<and> \<not> Draining x \<and> (IsHome x \<or> NodesStream s)
          \<and> (case heldUntil h i of Some till \<Rightarrow> till \<le> now | None \<Rightarrow> True)))"
  by (auto simp: State_def eligibleLocked_def aliveLocked_def StateOnline_def StateDown_def
      StateUnfit_def StateDisabled_def StateDraining_def not_le not_less
      split: option.splits if_splits prod.splits bool.splits)

text \<open>
  Flapping: when a refresh finds a host back that went down at least twice in the
  last ten minutes, the host takes no new channel for the ten minutes that follow, however well
  it beats.
\<close>
theorem flapping_is_held:
  assumes "distinct (order h)" and "i \<in> set (order h)"
    and "alive h i = Some False" and "Alive i s h"
    and "2 \<le> length (filter (\<lambda>t. now - t < 10 * minute) (downs h i))"
    and "t < now + 10 * minute"
  shows "\<not> fst (eligibleLocked i s' t (snd (transitionsLocked s now h)))"
proof -
  obtain pre post where order: "order h = pre @ i # post" and i: "i \<notin> set pre" "i \<notin> set post"
    using assms(1,2) by (metis split_list distinct.simps(2) distinct_append not_distinct_conv_prefix)
  have frame: "downs (snd (run (transition s now) is acc)) i = downs (snd acc) i
      \<and> heldUntil (snd (run (transition s now) is acc)) i = heldUntil (snd acc) i"
    if "i \<notin> set is" for "is" acc
    using that
  proof (induction "is" arbitrary: acc)
    case (Cons j "is")
    then have "downs (snd (transition s now j acc)) i = downs (snd acc) i"
      "heldUntil (snd (transition s now j acc)) i = heldUntil (snd acc) i"
      by (auto simp: transition_def Let_def split: prod.splits)
    with Cons show ?case by auto
  qed simp
  let ?a = "run (transition s now) pre ([], h)"
  have dist: "distinct pre" using assms(1) order by simp
  have a: "alive (snd ?a) i = Some False" "fst (aliveLocked i s (snd ?a))" "downs (snd ?a) i = downs h i"
    using run_transition [OF dist, of i s s now "([], h)"] frame [OF i(1), of "([], h)"] i assms(3,4)
    by (auto simp: Alive_def)
  have "heldUntil (snd (transition s now i ?a)) i = Some (now + flapHold)"
    using a assms(5) by (auto simp: transition_def pruneOld_def flapWindow_def Let_def split: prod.splits)
  then have "heldUntil (snd (transitionsLocked s now h)) i = Some (now + flapHold)"
    using frame [OF i(2), of "transition s now i ?a"] by (simp add: transitionsLocked_def order)
  then show ?thesis
    using assms(6) by (simp add: eligibleLocked_def flapHold_def split: prod.splits option.splits bool.splits)
qed

theorem flapping_is_held_witness:
  "\<not> fst (eligibleLocked ''n'' DefaultSettings 30 (snd (transitionsLocked DefaultSettings 20
     (some_hosts [zero_host\<lparr>ID := ''n''\<rparr>]\<lparr>alive := [''n'' \<mapsto> False], downs := (\<lambda>_. [5, 10])\<rparr>))))"
  by (rule flapping_is_held)
    (simp_all add: some_hosts_def load_def load_row_def zero_host_def Alive_def aliveLocked_def
      dead_after_def DefaultSettings_def)

end
