(* ===== verification/Placement_Store.thy ===== *)
theory Placement_Store
  imports Placement_Hosts
begin

text \<open>
  The placement table of \<^verbatim>\<open>streaming/internal/placement/store.go\<close>: which host runs a channel and
  under which generation, as the store of a single machine (\<open>MemStore\<close>) keeps it. The Postgres
  store behind the same Go interface makes the same writes in SQL and is not modelled.

  A Go map is an association list without duplicate keys: the order of the list is the order
  the runtime happens to iterate in, which no statement fixes. Each operation runs under the
  store's locks and is one step. \<open>notified\<close> collects the calls of \<open>OnNotify\<close>.
\<close>

section \<open>Placements\<close>

definition StatePlacing :: string where "StatePlacing = ''placing''"
definition StateLive :: string where "StateLive = ''live''"
definition StateMoving :: string where "StateMoving = ''moving''"
definition StateReleased :: string where "StateReleased = ''released''"

definition ReasonFirstRequest :: string where "ReasonFirstRequest = ''first_request''"
definition ReasonFailover :: string where "ReasonFailover = ''failover''"
definition ReasonDrain :: string where "ReasonDrain = ''drain''"
definition ReasonMove :: string where "ReasonMove = ''move''"
definition ReasonPin :: string where "ReasonPin = ''pin''"

lemmas placement_states [names] =
  StatePlacing_def StateLive_def StateMoving_def StateReleased_def

lemmas placement_reasons [names] =
  ReasonFirstRequest_def ReasonFailover_def ReasonDrain_def ReasonMove_def ReasonPin_def

record Placement =
  Channel :: string
  PHost :: string
  Gen :: int
  PState :: string
  Reason :: string
  PlacedAt :: instant
  AckedAt :: "instant option"
  Age :: duration

definition Active :: "Placement \<Rightarrow> bool" where
  "Active p \<longleftrightarrow> PState p = StatePlacing \<or> PState p = StateLive \<or> PState p = StateMoving"

definition Takeover :: "Placement \<Rightarrow> bool" where
  "Takeover p \<longleftrightarrow> Reason p = ReasonFailover \<or> Reason p = ReasonMove \<or> Reason p = ReasonDrain"

record Decision =
  Keep :: bool
  DHost :: string
  DReason :: string

section \<open>The in-memory store\<close>

record MemStore =
  rows :: "(string \<times> Placement) list"
  gen :: int
  mhosts :: "Host list"
  slugs :: "string \<Rightarrow> string"
  mlive :: "string \<Rightarrow> bool"
  notified :: "Placement list"

definition NewMemStore :: MemStore where
  "NewMemStore = \<lparr>rows = [], gen = 0, mhosts = [], slugs = (\<lambda>_. ''''), mlive = (\<lambda>_. False),
     notified = []\<rparr>"

abbreviation row :: "MemStore \<Rightarrow> string \<Rightarrow> Placement option" where
  "row m \<equiv> map_of (rows m)"

text \<open>Writing a map key: in place where it is, at some place where it is not.\<close>

fun put_row :: "string \<Rightarrow> Placement \<Rightarrow> (string \<times> Placement) list \<Rightarrow> (string \<times> Placement) list" where
  "put_row ch p [] = [(ch, p)]"
| "put_row ch p (r # rs) = (if fst r = ch then (ch, p) # rs else r # put_row ch p rs)"

definition set_row :: "Placement \<Rightarrow> MemStore \<Rightarrow> MemStore" where
  "set_row p m = m\<lparr>rows := put_row (Channel p) p (rows m)\<rparr>"

definition SetHosts :: "Host list \<Rightarrow> MemStore \<Rightarrow> MemStore" where
  "SetHosts hs m = m\<lparr>mhosts := hs\<rparr>"

definition SetSlug :: "string \<Rightarrow> string \<Rightarrow> MemStore \<Rightarrow> MemStore" where
  "SetSlug ch slug m = m\<lparr>slugs := (slugs m)(ch := slug)\<rparr>"

definition SetLive :: "string \<Rightarrow> bool \<Rightarrow> MemStore \<Rightarrow> MemStore" where
  "SetLive ch v m = m\<lparr>mlive := (mlive m)(ch := v)\<rparr>"

definition Put :: "Placement \<Rightarrow> MemStore \<Rightarrow> MemStore" where
  "Put p m = (let m' = set_row p m in if gen m' < Gen p then m'\<lparr>gen := Gen p\<rparr> else m')"

definition withAge :: "instant \<Rightarrow> Placement \<Rightarrow> Placement" where
  "withAge now p = p\<lparr>Age := now - PlacedAt p\<rparr>"

definition Get :: "string \<Rightarrow> instant \<Rightarrow> MemStore \<Rightarrow> Placement option" where
  "Get ch now m = map_option (withAge now) (row m ch)"

text \<open>The active placements per host, those of one channel left out.\<close>

definition used_by :: "string \<Rightarrow> MemStore \<Rightarrow> string \<Rightarrow> int" where
  "used_by ch m host =
     int (length (filter (\<lambda>(i, p). i \<noteq> ch \<and> Active p \<and> PHost p = host) (rows m)))"

text \<open>
  \<open>Place\<close>: what \<open>decide\<close> leaves in the variables it captures is the first component of its
  result, which \<open>Place\<close> hands on.
\<close>

definition Place ::
  "string \<Rightarrow> (Placement option \<Rightarrow> (string \<Rightarrow> int) \<Rightarrow> 'x \<times> ('e + Decision)) \<Rightarrow> instant \<Rightarrow> MemStore
    \<Rightarrow> 'x \<times> ('e + Placement) \<times> MemStore" where
  "Place ch decide now m =
    (let cur = map_option (withAge now) (row m ch) in
     case decide cur (used_by ch m) of
       (x, Inl e) \<Rightarrow> (x, Inl e, m)
     | (x, Inr d) \<Rightarrow>
         if Keep d \<and> cur \<noteq> None then (x, Inr (the cur), m)
         else
           let g = gen m + 1;
               p = \<lparr>Channel = ch, PHost = DHost d, Gen = g,
                    PState = (if DReason d = ReasonMove \<or> DReason d = ReasonDrain
                              then StateMoving else StatePlacing),
                    Reason = DReason d, PlacedAt = now, AckedAt = None, Age = 0\<rparr>
           in (x, Inr p, (set_row p (m\<lparr>gen := g\<rparr>))\<lparr>notified := notified m @ [p]\<rparr>))"

definition Stop :: "string \<Rightarrow> MemStore \<Rightarrow> bool \<times> MemStore" where
  "Stop ch m =
    (case row m ch of
       None \<Rightarrow> (False, m)
     | Some p \<Rightarrow>
         if PState p = StateReleased then (False, m)
         else let g = gen m + 1; p' = p\<lparr>Gen := g, PState := StateReleased\<rparr> in
              (True, (set_row p' (m\<lparr>gen := g\<rparr>))\<lparr>notified := notified m @ [p']\<rparr>))"

definition Ack :: "string \<Rightarrow> int \<Rightarrow> instant \<Rightarrow> MemStore \<Rightarrow> bool \<times> MemStore" where
  "Ack ch g now m =
    (case row m ch of
       None \<Rightarrow> (False, m)
     | Some p \<Rightarrow>
         if Gen p \<noteq> g \<or> \<not> Active p then (False, m)
         else (True, set_row (p\<lparr>PState := StateLive, AckedAt := Some now\<rparr>) m))"

definition Release :: "string \<Rightarrow> int \<Rightarrow> MemStore \<Rightarrow> bool \<times> MemStore" where
  "Release ch g m =
    (case row m ch of
       None \<Rightarrow> (False, m)
     | Some p \<Rightarrow>
         if Gen p \<noteq> g \<or> PState p = StateReleased then (False, m)
         else let p' = p\<lparr>PState := StateReleased\<rparr> in
              (True, (set_row p' m)\<lparr>notified := notified m @ [p']\<rparr>))"

definition OnHost :: "string \<Rightarrow> instant \<Rightarrow> MemStore \<Rightarrow> Placement list" where
  "OnHost host now m =
     map (withAge now \<circ> snd) (filter (\<lambda>(_, p). PHost p = host \<and> Active p) (rows m))"

definition All_rows :: "instant \<Rightarrow> MemStore \<Rightarrow> Placement list" where
  "All_rows now m = map (withAge now \<circ> snd) (rows m)"

definition ChannelSlug :: "string \<Rightarrow> MemStore \<Rightarrow> string" where
  "ChannelSlug ch m = slugs m ch"

definition HasLiveBlocks :: "string \<Rightarrow> MemStore \<Rightarrow> bool" where
  "HasLiveBlocks ch m = mlive m ch"

section \<open>The table is a map of channels to their own rows\<close>

definition table_ok :: "MemStore \<Rightarrow> bool" where
  "table_ok m \<longleftrightarrow> distinct (map fst (rows m))
     \<and> (\<forall>(ch, p) \<in> set (rows m). Channel p = ch \<and> Gen p \<le> gen m)"

lemma table_okD: "table_ok m \<Longrightarrow> row m ch = Some p \<Longrightarrow> Channel p = ch \<and> Gen p \<le> gen m"
  by (auto simp: table_ok_def dest: map_of_SomeD)

lemma keys_put_row [simp]: "fst ` set (put_row ch p rs) = insert ch (fst ` set rs)"
  by (induction rs) auto

lemma distinct_put_row [simp]:
  "distinct (map fst rs) \<Longrightarrow> distinct (map fst (put_row ch p rs))"
  using keys_put_row by (induction rs) (fastforce simp flip: set_map)+

lemma map_of_put_row [simp]: "map_of (put_row ch p rs) = (map_of rs)(ch \<mapsto> p)"
  by (induction rs) (auto simp: fun_eq_iff)

lemma row_set_row [simp]: "row (set_row p m) = (row m)(Channel p \<mapsto> p)"
  unfolding set_row_def by (simp del: fun_upd_apply)

lemma set_row_frame [simp]:
  "gen (set_row p m) = gen m" "mhosts (set_row p m) = mhosts m" "slugs (set_row p m) = slugs m"
  "mlive (set_row p m) = mlive m" "notified (set_row p m) = notified m"
  by (simp_all add: set_row_def)

lemma table_ok_set_row [keeps]:
  assumes "table_ok m" and "Gen p \<le> gen m"
  shows "table_ok (set_row p m)"
proof -
  have "set (put_row (Channel p) p rs) \<subseteq> insert (Channel p, p) (set rs)" for rs
    by (induction rs) auto
  with assms show ?thesis by (fastforce simp: table_ok_def set_row_def)
qed

lemma table_ok_gen [keeps]: "table_ok m \<Longrightarrow> gen m \<le> g \<Longrightarrow> table_ok (m\<lparr>gen := g\<rparr>)"
  by (fastforce simp: table_ok_def)

lemma table_ok_notified [simp]: "table_ok (m\<lparr>notified := ns\<rparr>) = table_ok m"
  by (simp add: table_ok_def)

lemmas table_keeps = table_ok_set_row table_ok_gen

lemma Place_cases:
  assumes "Place ch decide now m = (x, r, m')"
  obtains (error) e where "r = Inl e" "m' = m"
    | (kept) p where "row m ch = Some p" "r = Inr (withAge now p)" "m' = m"
        "\<exists>d. snd (decide (Some (withAge now p)) (used_by ch m)) = Inr d \<and> Keep d"
    | (placed) p d where "r = Inr p" "m' = (set_row p (m\<lparr>gen := gen m + 1\<rparr>))\<lparr>notified := notified m @ [p]\<rparr>"
        "Channel p = ch" "Gen p = gen m + 1" "Active p" "AckedAt p = None" "PHost p = DHost d"
        "Reason p = DReason d" "Age p = 0"
        "decide (map_option (withAge now) (row m ch)) (used_by ch m) = (x, Inr d)"
        "Keep d \<Longrightarrow> row m ch = None"
proof -
  let ?cur = "map_option (withAge now) (row m ch)"
  obtain y rd where d: "decide ?cur (used_by ch m) = (y, rd)" by (rule prod.exhaust)
  show thesis
  proof (cases rd)
    case (Inl e)
    with d assms show thesis by (intro error [of e]) (auto simp: Place_def Let_def)
  next
    case (Inr dec)
    show thesis
    proof (cases "Keep dec \<and> ?cur \<noteq> None")
      case True
      then obtain p where "row m ch = Some p" by auto
      with True Inr d assms show thesis by (intro kept [of p]) (auto simp: Place_def Let_def)
    next
      case False
      with Inr d assms show thesis
        by (intro placed [of "projr r" dec]) (auto simp: Place_def Let_def Active_def)
    qed
  qed
qed

lemma Place_table_ok [keeps]:
  assumes "Place ch decide now m = (x, r, m')" and "table_ok m"
  shows "table_ok m'"
  using assms(1) by (cases rule: Place_cases) (auto simp: assms(2) intro!: table_keeps)

lemma Stop_table_ok [keeps]: "table_ok m \<Longrightarrow> table_ok (snd (Stop ch m))"
  by (auto simp: Stop_def Let_def split: option.split intro!: table_keeps)

lemma Ack_table_ok [keeps]: "table_ok m \<Longrightarrow> table_ok (snd (Ack ch g now m))"
  by (auto simp: Ack_def Let_def dest: table_okD split: option.split intro!: table_keeps)

lemma Release_table_ok [keeps]: "table_ok m \<Longrightarrow> table_ok (snd (Release ch g m))"
  by (auto simp: Release_def Let_def dest: table_okD split: option.split intro!: table_keeps)

section \<open>Generations\<close>

text \<open>
  What a host may rely on when it holds a generation, from any table that keeps the law of
  \<open>write_law\<close>: each write of a row gives it a generation above all before it, or leaves its
  generation and its host as they were.
\<close>

locale generations =
  fixes get :: "'s \<Rightarrow> string \<Rightarrow> Placement option"
    and top :: "'s \<Rightarrow> int"
    and ok :: "'s \<Rightarrow> bool"
    and step :: "'s \<Rightarrow> 's \<Rightarrow> bool"
  assumes bounded: "ok s \<Longrightarrow> get s ch = Some p \<Longrightarrow> Gen p \<le> top s"
    and keeps_ok: "ok s \<Longrightarrow> step s s' \<Longrightarrow> ok s'"
    and write_law: "ok s \<Longrightarrow> step s s' \<Longrightarrow> get s ch = Some p \<Longrightarrow>
      \<exists>p'. get s' ch = Some p' \<and> (top s < Gen p' \<or> Gen p' = Gen p \<and> PHost p' = PHost p)"
begin

lemma host_change_new_gen:
  assumes "step\<^sup>*\<^sup>* s s'" and "ok s" and "get s ch = Some p"
  shows "\<exists>p'. get s' ch = Some p' \<and> Gen p \<le> Gen p' \<and> (Gen p' = Gen p \<longrightarrow> PHost p' = PHost p) \<and> ok s'"
  using assms
proof (induction rule: rtranclp_induct)
  case (step s1 s2)
  then obtain p1 where p1: "get s1 ch = Some p1" "Gen p \<le> Gen p1"
    "Gen p1 = Gen p \<longrightarrow> PHost p1 = PHost p" "ok s1" by auto
  from write_law [OF this(4) step(2) this(1)] bounded [OF p1(4) p1(1)] p1 keeps_ok [OF p1(4) step(2)]
  show ?case by (elim exE) (auto simp: not_less)
qed auto

text \<open>A generation held for a host that no longer has the channel names no row again.\<close>

lemma lost_stays_lost:
  assumes "ok s" and "get s ch = Some p" and "step\<^sup>*\<^sup>* s s'" and "get s' ch = Some p'"
    and "PHost p' \<noteq> PHost p" and "step\<^sup>*\<^sup>* s' s''" and "get s'' ch = Some p''"
  shows "Gen p < Gen p''"
proof -
  from host_change_new_gen [OF assms(3,1,2)] assms(4,5) have "Gen p < Gen p'" "ok s'" by auto
  with host_change_new_gen [OF assms(6) _ assms(4)] assms(7) show ?thesis by force
qed

end

text \<open>The store's operations as steps; \<open>decide\<close> may answer anything.\<close>

inductive store_step :: "MemStore \<Rightarrow> MemStore \<Rightarrow> bool" where
  place: "Place ch decide now m = (x :: unit, r :: string + Placement, m') \<Longrightarrow> store_step m m'"
| stop: "store_step m (snd (Stop ch m))"
| ack: "store_step m (snd (Ack ch g now m))"
| release: "store_step m (snd (Release ch g m))"

inductive_cases store_stepE: "store_step m m'"

lemma store_step_ok: "store_step m m' \<Longrightarrow> table_ok m \<Longrightarrow> table_ok m'"
  by (erule store_stepE) (auto intro: keeps simp: Place_table_ok)

lemma store_step_row:
  assumes "store_step m m'" and ok: "table_ok m" and p: "row m ch = Some p"
  shows "\<exists>p'. row m' ch = Some p' \<and> (gen m < Gen p' \<or> Gen p' = Gen p \<and> PHost p' = PHost p)"
  using assms(1)
proof cases
  case (place c decide now x r)
  from place show ?thesis using p by (cases rule: Place_cases) auto
next
  case (stop c)
  with p show ?thesis using table_okD [OF ok, of c "the (row m c)"]
    by (auto simp: Stop_def Let_def split: option.splits)
next
  case (ack c g now)
  with p show ?thesis using table_okD [OF ok, of c "the (row m c)"]
    by (auto simp: Ack_def split: option.splits)
next
  case (release c g)
  with p show ?thesis using table_okD [OF ok, of c "the (row m c)"]
    by (auto simp: Release_def Let_def split: option.splits)
qed

interpretation mem: generations row gen table_ok store_step
proof
  fix m m' :: MemStore and ch :: string and p :: Placement
  show "table_ok m \<Longrightarrow> row m ch = Some p \<Longrightarrow> Gen p \<le> gen m" by (rule table_okD [THEN conjunct2])
  show "table_ok m \<Longrightarrow> store_step m m' \<Longrightarrow> table_ok m'" by (rule store_step_ok)
  show "table_ok m \<Longrightarrow> store_step m m' \<Longrightarrow> row m ch = Some p \<Longrightarrow>
    \<exists>p'. row m' ch = Some p' \<and> (gen m < Gen p' \<or> Gen p' = Gen p \<and> PHost p' = PHost p)"
    by (rule store_step_row)
qed

text \<open>
  A host that lost a channel is fenced off for good: once the channel's row
  names another host, whatever places, stops, acknowledgements and releases follow, in any
  order and by anyone, an acknowledgement or release under the generation the first host held
  is refused and changes nothing. (Generations per channel never go back.)
\<close>
theorem stale_generation_refused:
  assumes "table_ok m" and "row m ch = Some p" and "store_step\<^sup>*\<^sup>* m m'"
    and "row m' ch = Some p'" and "PHost p' \<noteq> PHost p" and "store_step\<^sup>*\<^sup>* m' m''"
  shows "Ack ch (Gen p) now m'' = (False, m'') \<and> Release ch (Gen p) m'' = (False, m'')"
proof (cases "row m'' ch")
  case (Some p'')
  with mem.lost_stays_lost [OF assms(1-6)] have "Gen p'' \<noteq> Gen p" by auto
  with Some show ?thesis by (simp add: Ack_def Release_def)
qed (simp add: Ack_def Release_def)

definition place_on :: "string \<Rightarrow> string \<Rightarrow> MemStore \<Rightarrow> MemStore" where
  "place_on ch host m = snd (snd (Place ch
     (\<lambda>_ _. ((), (Inr \<lparr>Keep = False, DHost = host, DReason = ReasonMove\<rparr> :: string + Decision))) 0 m))"

lemma place_on_step: "store_step m (place_on ch host m)"
proof -
  obtain x r m' where "Place ch (\<lambda>_ _. ((), (Inr \<lparr>Keep = False, DHost = host, DReason = ReasonMove\<rparr> ::
      string + Decision))) 0 m = (x, r, m')" by (rule prod_cases3)
  then show ?thesis by (auto simp: place_on_def intro: store_step.place)
qed

theorem stale_generation_refused_witness:
  "fst (Ack ''c'' 1 9 (place_on ''c'' ''a'' (place_on ''c'' ''b'' (place_on ''c'' ''a'' NewMemStore)))) = False"
proof -
  let ?m = "place_on ''c'' ''a'' NewMemStore"
  have 1: "table_ok ?m" "row ?m ''c'' = Some \<lparr>Channel = ''c'', PHost = ''a'', Gen = 1,
      PState = StateMoving, Reason = ReasonMove, PlacedAt = 0, AckedAt = None, Age = 0\<rparr>"
    by (simp_all add: place_on_def Place_def NewMemStore_def set_row_def table_ok_def Let_def)
  have 2: "row (place_on ''c'' ''b'' ?m) ''c'' = Some \<lparr>Channel = ''c'', PHost = ''b'', Gen = 2,
      PState = StateMoving, Reason = ReasonMove, PlacedAt = 0, AckedAt = None, Age = 0\<rparr>"
    by (simp add: place_on_def Place_def NewMemStore_def set_row_def Let_def)
  from stale_generation_refused [OF 1 r_into_rtranclp [of store_step, OF place_on_step] 2 _
      r_into_rtranclp [of store_step, OF place_on_step]]
  show ?thesis by simp
qed

end
