(* ===== verification/Placement_Service.thy ===== *)
theory Placement_Service
  imports Placement_Store
begin

text \<open>
  The balancer's decisions: \<open>Service\<close> (\<^verbatim>\<open>placement/placement.go\<close>), the fences that let a station
  start and keep running, and the sweeper that moves channels off hosts that went down
  (\<^verbatim>\<open>placement/sweeper.go\<close>).

  A call runs in an environment: the settings and the clock it reads, and which of its store
  queries fail. The state holds the store and the hosts the service points at, its caches, and
  in \<open>changes\<close> the channels its listeners were told of. Logs and metrics are left out.
\<close>

section \<open>The service\<close>

datatype place_error = ErrNoHost string | ErrUnknownHost | StoreError

datatype query = QGet | QLive | QSlug | QPlaceBegin | QPlaceCommit | QStop | QOnHost | QRelease

record Env =
  settings :: Settings
  now :: instant
  fails_on :: "query \<Rightarrow> string \<Rightarrow> bool"

record NoRoom =
  NRChannel :: string
  NRReason :: string
  NRAt :: instant

record Service =
  store :: MemStore
  host_health :: Hosts
  Self :: string
  cache :: "string \<rightharpoonup> Placement \<times> instant"
  live_facts :: "string \<rightharpoonup> bool \<times> instant"
  slug_cache :: "string \<rightharpoonup> string"
  pinNotes :: "string \<rightharpoonup> string"
  lastNoRm :: "NoRoom option"
  changes :: "string list"

definition cacheTTL :: duration where "cacheTTL = 2 * second"
definition liveCacheTTL :: duration where "liveCacheTTL = 5 * minute"
definition AckTimeout :: duration where "AckTimeout = 20 * second"

definition Invalidate :: "string \<Rightarrow> Service \<Rightarrow> Service" where
  "Invalidate ch v = v\<lparr>cache := (cache v)(ch := None)\<rparr>"

definition changed :: "string \<Rightarrow> Service \<Rightarrow> Service" where
  "changed ch v = (Invalidate ch v)\<lparr>changes := changes v @ [ch]\<rparr>"

definition Cached :: "Env \<Rightarrow> string \<Rightarrow> Service \<Rightarrow> Placement option" where
  "Cached e ch v =
    (case cache v ch of
       None \<Rightarrow> None
     | Some (p, until) \<Rightarrow> if until < now e then None else Some p)"

definition put_cache :: "Env \<Rightarrow> Placement \<Rightarrow> Service \<Rightarrow> Service" where
  "put_cache e p v = v\<lparr>cache := (cache v)(Channel p \<mapsto> (p, now e + cacheTTL))\<rparr>"

text \<open>A fact that is read again and cannot be keeps its old value.\<close>

definition need :: "Env \<Rightarrow> string \<Rightarrow> Service \<Rightarrow> bool \<times> Service" where
  "need e ch v =
    (let known = live_facts v ch in
     if (case known of Some (f, t) \<Rightarrow> now e - t < liveCacheTTL | None \<Rightarrow> False)
     then (fst (the known), v)
     else if fails_on e QLive ch then (case known of Some (f, t) \<Rightarrow> f | None \<Rightarrow> False, v)
     else let b = HasLiveBlocks ch (store v) in
          (b, v\<lparr>live_facts := (live_facts v)(ch \<mapsto> (b, now e))\<rparr>))"

definition slug :: "Env \<Rightarrow> string \<Rightarrow> Service \<Rightarrow> string \<times> Service" where
  "slug e ch v =
    (case slug_cache v ch of
       Some s \<Rightarrow> (s, v)
     | None \<Rightarrow>
         if fails_on e QSlug ch then ('''', v)
         else let s = ChannelSlug ch (store v) in (s, v\<lparr>slug_cache := (slug_cache v)(ch \<mapsto> s)\<rparr>))"

definition valid :: "Env \<Rightarrow> Placement \<Rightarrow> bool \<Rightarrow> Hosts \<Rightarrow> bool" where
  "valid e p live hs \<longleftrightarrow>
     Active p \<and> Alive (PHost p) (settings e) hs
     \<and> \<not> (PState p \<noteq> StateLive \<and> AckedAt p = None \<and> AckTimeout < Age p)
     \<and> \<not> (live \<and> (case hosts hs (PHost p) of Some x \<Rightarrow> \<not> CanLive x | None \<Rightarrow> False))"

text \<open>The target a caller names: the first candidate of that id or name, when it can take it.\<close>

fun named_target ::
  "Candidate list \<Rightarrow> (string \<Rightarrow> int) \<Rightarrow> bool \<Rightarrow> string \<Rightarrow> string \<Rightarrow> place_error + Decision" where
  "named_target [] used live host reason = Inl ErrUnknownHost"
| "named_target (c # cs) used live host reason =
     (if ID c = host \<or> Name c = host
      then if \<not> Eligible c \<or> Capacity c \<le> used (ID c) \<or> (live \<and> \<not> CanLive c)
           then Inl ErrUnknownHost
           else Inr \<lparr>Keep = False, DHost = ID c, DReason = reason\<rparr>
      else named_target cs used live host reason)"

text \<open>The decision \<open>Place\<close> takes under the lock; it leaves its choice and whether it kept.\<close>

definition decide ::
  "Env \<Rightarrow> string \<Rightarrow> string \<Rightarrow> string \<Rightarrow> bool \<Rightarrow> Hosts \<Rightarrow> Placement option \<Rightarrow> (string \<Rightarrow> int)
    \<Rightarrow> (Choice \<times> bool) \<times> (place_error + Decision)" where
  "decide e reason host pinName live hs cur used =
    (let forced = (reason = ReasonMove \<or> reason = ReasonDrain) in
     if (case cur of Some p \<Rightarrow> \<not> forced \<and> host = '''' \<and> valid e p live hs | None \<Rightarrow> False)
     then ((no_choice, True), Inr \<lparr>Keep = True, DHost = '''', DReason = ''''\<rparr>)
     else
       let cands = Candidates (settings e) (now e) hs;
           exclude = (case cur of Some p \<Rightarrow> if forced \<and> Active p then PHost p else '''' | None \<Rightarrow> '''')
       in if host \<noteq> '''' then ((no_choice, False), named_target cands used live host reason)
          else
            let choice = Choose cands used (settings e) live pinName exclude in
            if ChoiceHost choice = '''' then ((choice, False), Inl (ErrNoHost (ChoiceWhy choice)))
            else ((choice, False), Inr \<lparr>Keep = False, DHost = ChoiceHost choice,
                    DReason = (if pinName \<noteq> '''' \<and> PinSkipped choice = '''' \<and> reason = ReasonFirstRequest
                               then ReasonPin else reason)\<rparr>))"

definition notePin :: "string \<Rightarrow> string \<Rightarrow> Service \<Rightarrow> Service" where
  "notePin pin why v =
    (if pin = '''' then v
     else if why = '''' then v\<lparr>pinNotes := (pinNotes v)(pin := None)\<rparr>
     else v\<lparr>pinNotes := (pinNotes v)(pin \<mapsto> why)\<rparr>)"

text \<open>The store's \<open>Place\<close> under the service's decision, with the two ways it can fail.\<close>

definition store_place ::
  "Env \<Rightarrow> string \<Rightarrow> string \<Rightarrow> string \<Rightarrow> string \<Rightarrow> bool \<Rightarrow> Service
    \<Rightarrow> (Choice \<times> bool) \<times> (place_error + Placement) \<times> MemStore" where
  "store_place e ch reason host pinName live v =
    (if fails_on e QPlaceBegin ch then ((no_choice, False), Inl StoreError, store v)
     else
       let (x, r, m) = Placement_Store.Place ch (decide e reason host pinName live (host_health v)) (now e) (store v) in
       case r of
         Inl err \<Rightarrow> (x, Inl err, m)
       | Inr p \<Rightarrow> if fails_on e QPlaceCommit ch then (x, Inl StoreError, store v) else (x, Inr p, m))"

definition Place :: "Env \<Rightarrow> string \<Rightarrow> string \<Rightarrow> string \<Rightarrow> Service \<Rightarrow> (place_error + Placement) \<times> Service" where
  "Place e ch reason host v =
    (let (live, v1) = need e ch v;
         (sl, v2) = slug e ch v1;
         pinName = (if sl = '''' then '''' else case Pins (settings e) sl of Some p \<Rightarrow> p | None \<Rightarrow> '''');
         ((choice, kept), r, m) = store_place e ch reason host pinName live v2;
         v3 = notePin pinName (PinSkipped choice) (v2\<lparr>store := m\<rparr>)
     in case r of
          Inl err \<Rightarrow>
            let v4 = (case err of
                        ErrNoHost why \<Rightarrow> v3\<lparr>lastNoRm := Some \<lparr>NRChannel = ch, NRReason = why, NRAt = now e\<rparr>\<rparr>
                      | _ \<Rightarrow> v3)
            in (Inl err, v4\<lparr>live_facts := (live_facts v4)(ch := None),
                             slug_cache := (slug_cache v4)(ch := None)\<rparr>)
        | Inr p \<Rightarrow>
            if kept then (Inr p, put_cache e p v3)
            else (Inr p, put_cache e p (changed ch v3)))"

definition resolve_uncached :: "Env \<Rightarrow> string \<Rightarrow> Service \<Rightarrow> (place_error + Placement) \<times> Service" where
  "resolve_uncached e ch v =
    (let (live, v1) = need e ch v in
     if fails_on e QGet ch then (Inl StoreError, v1)
     else
       let found = Get ch (now e) (store v1) in
       case found of
         Some p \<Rightarrow>
           if valid e p live (host_health v1) then (Inr p, put_cache e p v1)
           else Place e ch (if Active p then ReasonFailover else ReasonFirstRequest) '''' v1
       | None \<Rightarrow> Place e ch ReasonFirstRequest '''' v1)"

definition Resolve :: "Env \<Rightarrow> string \<Rightarrow> Service \<Rightarrow> (place_error + Placement) \<times> Service" where
  "Resolve e ch v =
    (case Cached e ch v of
       Some p \<Rightarrow> if Alive (PHost p) (settings e) (host_health v) then (Inr p, v) else resolve_uncached e ch v
     | None \<Rightarrow> resolve_uncached e ch v)"

definition Service_Stop :: "Env \<Rightarrow> string \<Rightarrow> Service \<Rightarrow> bool \<times> Service" where
  "Service_Stop e ch v =
    (if fails_on e QStop ch then (False, changed ch v)
     else (True, changed ch (v\<lparr>store := snd (Stop ch (store v))\<rparr>)))"

definition drain_one :: "Env \<Rightarrow> Placement \<Rightarrow> int \<times> Service \<Rightarrow> int \<times> Service" where
  "drain_one e p acc =
    (case Place e (Channel p) ReasonDrain '''' (snd acc) of
       (Inl _, v) \<Rightarrow> (fst acc, v)
     | (Inr _, v) \<Rightarrow> (fst acc + 1, v))"

definition DrainNow :: "Env \<Rightarrow> string \<Rightarrow> Service \<Rightarrow> int option \<times> Service" where
  "DrainNow e host v =
    (if fails_on e QOnHost host then (None, v)
     else let (n, v') = run (drain_one e) (OnHost host (now e) (store v)) (0, v) in (Some n, v'))"

section \<open>The fences\<close>

record Grant =
  GGen :: int
  Discontinuity :: bool

datatype fence_error = PlaceFailed place_error | RunningElsewhere string string string

text \<open>\<open>checkRow\<close>: may the station go on, and the newer generation it adopts (0: none).\<close>

definition checkRow :: "Env \<Rightarrow> string \<Rightarrow> string \<Rightarrow> int \<Rightarrow> MemStore \<Rightarrow> bool \<times> int" where
  "checkRow e self ch g m =
    (if fails_on e QGet ch then (True, 0)
     else case Get ch (now e) m of
            None \<Rightarrow> (False, 0)
          | Some p \<Rightarrow>
              if \<not> Active p \<or> PHost p \<noteq> self then (False, 0)
              else if Gen p \<noteq> g then (True, Gen p)
              else (True, 0))"

definition HomeFence_Allow :: "Env \<Rightarrow> string \<Rightarrow> Service \<Rightarrow> (fence_error + Grant) \<times> Service" where
  "HomeFence_Allow e ch v =
    (case Resolve e ch v of
       (Inl err, v') \<Rightarrow> (Inl (PlaceFailed err), v')
     | (Inr p, v') \<Rightarrow>
         if PHost p \<noteq> Self v'
         then let x = host_of (host_health v') (PHost p) in
              (Inl (RunningElsewhere (PHost p) (Name x) (BaseURL x)), v')
         else (Inr \<lparr>GGen = Gen p, Discontinuity = Takeover p\<rparr>, v'))"

definition HomeFence_Check :: "Env \<Rightarrow> string \<Rightarrow> int \<Rightarrow> Service \<Rightarrow> bool \<times> int" where
  "HomeFence_Check e ch g v = checkRow e (Self v) ch g (store v)"

definition HomeFence_Ack :: "Env \<Rightarrow> string \<Rightarrow> int \<Rightarrow> Service \<Rightarrow> Service" where
  "HomeFence_Ack e ch g v =
    (let (ok, m) = Ack ch g (now e) (store v); v' = v\<lparr>store := m\<rparr> in
     if ok then Invalidate ch v' else v')"

definition HomeFence_Release :: "string \<Rightarrow> int \<Rightarrow> Service \<Rightarrow> Service" where
  "HomeFence_Release ch g v = Invalidate ch (v\<lparr>store := snd (Release ch g (store v))\<rparr>)"

text \<open>The node's fence: \<open>g\<close> is the generation the signed front-door request carries.\<close>

definition NodeFence_Allow :: "Env \<Rightarrow> string \<Rightarrow> string \<Rightarrow> int \<Rightarrow> MemStore \<Rightarrow> fence_error + Grant" where
  "NodeFence_Allow e self ch g m =
    (if fails_on e QGet ch then Inl (PlaceFailed StoreError)
     else case Get ch (now e) m of
            None \<Rightarrow> Inl (RunningElsewhere '''' ''another host'' '''')
          | Some p \<Rightarrow>
              if g = 0 \<or> \<not> Active p \<or> PHost p \<noteq> self \<or> Gen p \<noteq> g
              then Inl (RunningElsewhere '''' ''another host'' '''')
              else Inr \<lparr>GGen = Gen p, Discontinuity = Takeover p\<rparr>)"

definition NodeFence_Check :: "Env \<Rightarrow> string \<Rightarrow> string \<Rightarrow> int \<Rightarrow> MemStore \<Rightarrow> bool \<times> int" where
  "NodeFence_Check = checkRow"

section \<open>The sweeper\<close>

text \<open>One item of \<open>failover\<close>: the placement with its viewers; the channels moved so far.\<close>

definition failover_one :: "Env \<Rightarrow> Placement \<times> int \<Rightarrow> string list \<times> Service \<Rightarrow> string list \<times> Service" where
  "failover_one e it acc =
    (let (p, n) = it; (moved, v) = acc; ch = Channel p; v1 = Invalidate ch v in
     if n = 0 \<or> \<not> Failover (settings e)
     then let m = (if fails_on e QRelease ch then store v1 else snd (Release ch (Gen p) (store v1)))
          in (moved, changed ch (v1\<lparr>store := m\<rparr>))
     else (case Place e ch ReasonFailover '''' v1 of
             (Inl _, v2) \<Rightarrow> (moved, v2)
           | (Inr _, v2) \<Rightarrow> (moved @ [ch], v2)))"

definition failover_items :: "(string \<Rightarrow> int) \<Rightarrow> Placement list \<Rightarrow> (Placement \<times> int) list" where
  "failover_items demand ps =
     sort_by (\<lambda>a b. snd b < snd a) (map (\<lambda>p. (p, demand (Channel p))) ps)"

definition failover :: "Env \<Rightarrow> (string \<Rightarrow> int) \<Rightarrow> string \<Rightarrow> Service \<Rightarrow> string list \<times> Service" where
  "failover e demand host v =
    (if fails_on e QOnHost host then ([], v)
     else run (failover_one e) (failover_items demand (OnHost host (now e) (store v))) ([], v))"

text \<open>\<open>SweepOnce\<close>: the answer of the host source is an argument.\<close>

definition SweepOnce ::
  "Env \<Rightarrow> (string \<Rightarrow> int) \<Rightarrow> Host list option \<Rightarrow> Service \<Rightarrow> string list \<times> Service" where
  "SweepOnce e demand answer v =
    (let (down, hs) = Refresh answer (settings e) (now e) (host_health v) in
     run (\<lambda>h (moved, v). let (more, v') = failover e demand h v in (moved @ more, v'))
       down ([], v\<lparr>host_health := hs\<rparr>))"

section \<open>What the operations read and write\<close>

text \<open>Every host is filed under its own id, as \<open>load\<close> does.\<close>

definition hosts_ok :: "Hosts \<Rightarrow> bool" where
  "hosts_ok hs \<longleftrightarrow> (\<forall>i x. hosts hs i = Some x \<longrightarrow> ID x = i)"

lemma load_row_hosts_ok: "hosts_ok h \<Longrightarrow> hosts_ok (load_row t x h)"
  by (auto simp: load_row_def hosts_ok_def Let_def split: option.splits)

lemma load_hosts_ok [keeps]: "hosts_ok h \<Longrightarrow> hosts_ok (snd (load answer t h))"
proof (cases answer)
  case (Some xs)
  assume "hosts_ok h"
  then have "hosts_ok (run (load_row t) xs (h\<lparr>order := []\<rparr>))"
    by (intro run_invariant [where P = hosts_ok] load_row_hosts_ok) (auto simp: hosts_ok_def)
  with Some show ?thesis by (auto simp: load_def hosts_ok_def Let_def restrict_map_def split: if_splits)
qed (simp add: load_def)

lemma transition_hosts [simp]: "hosts (snd (transition s t i acc)) = hosts (snd acc)"
  by (auto simp: transition_def Let_def split: prod.splits)

lemma Refresh_hosts_ok [keeps]: "hosts_ok h \<Longrightarrow> hosts_ok (snd (Refresh answer s t h))"
proof -
  assume "hosts_ok h"
  then have h: "hosts_ok (snd (load answer t h))" by (rule load_hosts_ok)
  have "hosts (snd (run (transition s t) is acc)) = hosts (snd acc)" for "is" acc
    by (induction "is" arbitrary: acc) auto
  with h show ?thesis
    by (auto simp: Refresh_def transitionsLocked_def hosts_ok_def split: prod.splits bool.splits)
qed

lemma eligible_alive: "fst (eligibleLocked i s t h) \<Longrightarrow> Alive i s h"
  by (auto simp: eligibleLocked_def Alive_def split: prod.splits bool.splits)

lemma alive_known: "Alive i s h \<Longrightarrow> \<exists>x. hosts h i = Some x"
  by (auto simp: Alive_def aliveLocked_def split: option.splits)

text \<open>A candidate that is eligible is a host the balancer knows, under its own id.\<close>

lemma candidate_host:
  assumes "hosts_ok hs" and "c \<in> set (Candidates s t hs)" and "Eligible c"
  shows "fst (eligibleLocked (ID c) s t hs) \<and> Capacity c = Capacity (host_of hs (ID c))
    \<and> CanLive c = CanLive (host_of hs (ID c)) \<and> ID c \<in> set (order hs)"
proof -
  from assms(2) have "c \<in> (\<lambda>i. let (ok, why) = eligibleLocked i s t hs in
      Host.extend (host_of hs i) (Candidate.fields ok why)) ` set (order hs)"
    by (simp only: Candidates_def set_map)
  then obtain i where i: "c = (let (ok, why) = eligibleLocked i s t hs in
      Host.extend (host_of hs i) (Candidate.fields ok why))" "i \<in> set (order hs)"
    by (rule imageE)
  have fields: "ID c = ID (host_of hs i)" "Capacity c = Capacity (host_of hs i)"
    "CanLive c = CanLive (host_of hs i)" "Eligible c = fst (eligibleLocked i s t hs)"
    unfolding i(1) by (simp_all add: Host.defs Candidate.defs split: prod.split)
  with assms(3) have el: "fst (eligibleLocked i s t hs)" by simp
  then obtain x where x: "hosts hs i = Some x" using eligible_alive alive_known by blast
  then have "ID x = i" using assms(1) by (simp add: hosts_ok_def)
  with x have "ID (host_of hs i) = i" by (simp add: host_of_def)
  with fields el i(2) show ?thesis by simp
qed

lemma named_target_fits:
  "named_target cands used live host reason = Inr d \<Longrightarrow>
    \<not> Keep d \<and> (\<exists>c \<in> set cands. ID c = DHost d \<and> fits used live c) \<and> DReason d = reason"
  by (induction cands) (auto simp: fits_def not_le split: if_splits)

text \<open>A placed channel goes to a host that may take it and has a place by the counts given.\<close>

lemma decide_cases:
  assumes "decide e reason host pinName live hs cur used = (x, Inr d)"
  obtains (keep) p where "cur = Some p" "reason \<noteq> ReasonMove" "reason \<noteq> ReasonDrain" "host = ''''"
      "valid e p live hs" "snd x" "Keep d"
    | (named) "named_target (Candidates (settings e) (now e) hs) used live host reason = Inr d"
      "\<not> snd x" "host \<noteq> ''''"
    | (chosen) exclude where "host = ''''" "\<not> snd x" "\<not> Keep d" "DHost d \<noteq> ''''"
      "DHost d = ChoiceHost (Choose (Candidates (settings e) (now e) hs) used (settings e) live pinName exclude)"
      "DReason d = reason \<or> DReason d = ReasonPin \<and> reason = ReasonFirstRequest"
proof (cases "case cur of Some p \<Rightarrow> \<not> (reason = ReasonMove \<or> reason = ReasonDrain) \<and> host = ''''
    \<and> valid e p live hs | None \<Rightarrow> False")
  case True
  with assms show thesis
    by (intro keep [of "the cur"]) (auto simp: decide_def Let_def split: option.splits)
next
  case False
  note d = assms [unfolded decide_def Let_def if_not_P [OF False]]
  show thesis
  proof (cases "host = ''''")
    case nm: False
    with d show thesis by (intro named) auto
  next
    case True
    let ?ex = "case cur of Some p \<Rightarrow> if (reason = ReasonMove \<or> reason = ReasonDrain) \<and> Active p
      then PHost p else '''' | None \<Rightarrow> ''''"
    from True d show thesis
      by (intro chosen [of ?ex]) (auto split: if_split_asm)
  qed
qed

lemma decide_spec:
  assumes "hosts_ok hs" and "decide e reason host pinName live hs cur used = (x, Inr d)"
  shows "if Keep d then snd x \<and> (\<exists>p. cur = Some p \<and> valid e p live hs \<and> host = ''''
              \<and> reason \<noteq> ReasonMove \<and> reason \<noteq> ReasonDrain)
    else \<not> snd x \<and> fst (eligibleLocked (DHost d) (settings e) (now e) hs)
      \<and> used (DHost d) < Capacity (host_of hs (DHost d))
      \<and> (live \<longrightarrow> CanLive (host_of hs (DHost d)))
      \<and> (DReason d = reason \<or> DReason d = ReasonPin \<and> reason = ReasonFirstRequest)"
  using assms(2)
proof (cases rule: decide_cases)
  case keep
  then show ?thesis by simp
next
  case named
  from named_target_fits [OF named(1)] obtain c where c: "c \<in> set (Candidates (settings e) (now e) hs)"
    "ID c = DHost d" "fits used live c" "\<not> Keep d" "DReason d = reason" by blast
  then show ?thesis
    using named candidate_host [OF assms(1) c(1)] unfolding fits_def by simp
next
  case (chosen exclude)
  from chosen(4) Choose_fits obtain c where c: "c \<in> set (Candidates (settings e) (now e) hs)"
    "ID c = DHost d" "fits used live c" unfolding chosen(5) by blast
  then show ?thesis
    using chosen candidate_host [OF assms(1) c(1)] unfolding fits_def by simp
qed
lemma need_frame [simp]:
  "store (snd (need e ch v)) = store v" "host_health (snd (need e ch v)) = host_health v"
  "Self (snd (need e ch v)) = Self v" "cache (snd (need e ch v)) = cache v"
  by (auto simp: need_def Let_def)

lemma slug_frame [simp]:
  "store (snd (slug e ch v)) = store v" "host_health (snd (slug e ch v)) = host_health v"
  "Self (snd (slug e ch v)) = Self v" "cache (snd (slug e ch v)) = cache v"
  by (auto simp: slug_def Let_def split: option.split)

lemma notePin_frame [simp]:
  "store (notePin pin why v) = store v" "host_health (notePin pin why v) = host_health v"
  "Self (notePin pin why v) = Self v" "cache (notePin pin why v) = cache v"
  by (auto simp: notePin_def)

lemma cache_frame [simp]:
  "store (put_cache e p v) = store v" "host_health (put_cache e p v) = host_health v"
  "Self (put_cache e p v) = Self v"
  "store (changed ch v) = store v" "host_health (changed ch v) = host_health v"
  "Self (changed ch v) = Self v"
  "store (Invalidate ch v) = store v" "host_health (Invalidate ch v) = host_health v"
  "Self (Invalidate ch v) = Self v"
  by (auto simp: put_cache_def changed_def Invalidate_def)

section \<open>What a placement does\<close>

text \<open>
  The outcomes of \<open>Place\<close>: an error, which leaves the table; the row that was kept; or a new
  row, for a host that may take it.
\<close>

lemma Place_outcomes:
  assumes "Place e ch reason host v = (r, v')" and "hosts_ok (host_health v)"
  obtains (error) err where "r = Inl err" "store v' = store v"
    | (kept) q where "r = Inr (withAge (now e) q)" "row (store v) ch = Some q" "store v' = store v"
      "Active q" "Alive (PHost q) (settings e) (host_health v)"
    | (placed) p where "r = Inr p" "rows (store v') = put_row ch p (rows (store v))"
      "gen (store v') = gen (store v) + 1"
      "Channel p = ch" "Gen p = gen (store v) + 1" "Active p" "Age p = 0"
      "fst (eligibleLocked (PHost p) (settings e) (now e) (host_health v))"
      "used_by ch (store v) (PHost p) < Capacity (host_of (host_health v) (PHost p))"
      "Reason p = reason \<or> Reason p = ReasonPin \<and> reason = ReasonFirstRequest"
proof -
  obtain live v1 where nd: "need e ch v = (live, v1)" by (rule prod.exhaust)
  obtain sl v2 where sg: "slug e ch v1 = (sl, v2)" by (rule prod.exhaust)
  have fr: "store v2 = store v" "host_health v2 = host_health v"
    using need_frame [of e ch v] slug_frame [of e ch v1] nd sg by auto
  let ?pin = "if sl = '''' then '''' else case Pins (settings e) sl of Some p \<Rightarrow> p | None \<Rightarrow> ''''"
  obtain choice kept r' m where sp: "store_place e ch reason host ?pin live v2 = ((choice, kept), r', m)"
    by (metis prod.exhaust)
  note P = assms(1) [unfolded Place_def nd sg sp Let_def prod.case]
  obtain x pr m' where pl: "Placement_Store.Place ch (decide e reason host ?pin live (host_health v2)) (now e)
      (store v2) = (x, pr, m')" by (rule prod_cases3)
  show thesis
  proof (cases r')
    case (Inl err)
    with sp have "m = store v2"
      using pl by (auto simp: store_place_def split: if_splits sum.splits elim: Place_cases)
    with Inl P fr show thesis
      by (intro error [of err]) (auto split: place_error.splits)
  next
    case (Inr p)
    with sp pl have pr: "pr = Inr p" "m = m'" "x = (choice, kept)"
      by (auto simp: store_place_def split: if_splits sum.splits)
    from pl [unfolded pr] show thesis
    proof (cases rule: Place_cases)
      case (kept q)
      then obtain d where "decide e reason host ?pin live (host_health v2) (Some (withAge (now e) q))
          (used_by ch (store v2)) = (fst (decide e reason host ?pin live (host_health v2) (Some (withAge (now e) q))
          (used_by ch (store v2))), Inr d)" "Keep d" by (metis prod.collapse)
      from decide_spec [OF _ this(1)] this(2) assms(2) fr have "valid e (withAge (now e) q) live (host_health v)"
        by auto
      then have "Active q" "Alive (PHost q) (settings e) (host_health v)"
        by (auto simp: valid_def withAge_def Active_def)
      moreover have "r = Inr p" "store v' = m" using P Inr by (auto split: if_splits)
      ultimately show thesis using kept fr pr by (intro that(2) [of q]) auto
    next
      case (placed p' d)
      have "r = Inr p" "store v' = m" using P Inr by (auto split: if_splits)
      from placed(1) have eq: "p' = p" by simp
      have hs: "hosts_ok (host_health v2)" using assms(2) fr by simp
      have nk: "\<not> Keep d"
      proof
        assume k: "Keep d"
        with placed(11) have "row (store v2) ch = None" .
        with decide_spec [OF hs placed(10)] k show False by simp
      qed
      have "rows (store v') = put_row ch p (rows (store v))" "gen (store v') = gen (store v) + 1"
        using placed(2,3) pr(2) fr eq \<open>store v' = m\<close> by (simp_all add: set_row_def)
      with decide_spec [OF hs placed(10), unfolded if_not_P [OF nk]] \<open>r = Inr p\<close> placed(3-9) fr eq
      show thesis by (intro that(3) [of p]) simp_all
    qed (use pr in simp)
  qed
qed

section \<open>Capacity\<close>

text \<open>The active placements of a host.\<close>

definition active_on :: "string \<Rightarrow> MemStore \<Rightarrow> int" where
  "active_on host m = int (length (filter (\<lambda>(i, p). Active p \<and> PHost p = host) (rows m)))"

lemma active_on_put_row:
  assumes "distinct (map fst rs)"
  shows "length (filter (\<lambda>(i, q). Active q \<and> PHost q = host) (put_row ch p rs))
    = length (filter (\<lambda>(i, q). i \<noteq> ch \<and> Active q \<and> PHost q = host) rs)
      + (if Active p \<and> PHost p = host then 1 else 0)"
  using assms
proof (induction rs)
  case (Cons r rs)
  have "filter (\<lambda>(i, q). i \<noteq> ch \<and> Active q \<and> PHost q = host) rs
      = filter (\<lambda>(i, q). Active q \<and> PHost q = host) rs" if "ch \<notin> fst ` set rs"
    using that by (intro filter_cong) force+
  with Cons show ?case by (cases r) auto
qed simp

lemma used_by_le: "used_by ch m host \<le> active_on host m"
proof -
  have "length (filter (\<lambda>(i, p). i \<noteq> ch \<and> Active p \<and> PHost p = host) rs)
      \<le> length (filter (\<lambda>(i, p). Active p \<and> PHost p = host) rs)" for rs :: "(string \<times> Placement) list"
    by (induction rs) auto
  then show ?thesis by (simp add: used_by_def active_on_def)
qed

text \<open>
  Property C4. No host is overfilled: whatever a placement does, for whatever reason, target
  and faults, each host's active placements stay within its capacity or do not grow. So a host
  within its capacity stays there however many channels are placed.
\<close>
theorem Place_within_capacity:
  assumes "table_ok (store v)" and "hosts_ok (host_health v)"
  shows "active_on h (store (snd (Place e ch reason host v)))
    \<le> max (active_on h (store v)) (Capacity (host_of (host_health v) h))"
proof -
  obtain r v' where pl: "Place e ch reason host v = (r, v')" by (rule prod.exhaust)
  from this assms(2) show ?thesis
  proof (cases rule: Place_outcomes)
    case (placed p)
    have "active_on h (store v') = used_by ch (store v) h + (if PHost p = h then 1 else 0)"
      using placed active_on_put_row [of "rows (store v)" h ch p] assms(1)
      by (auto simp: active_on_def used_by_def table_ok_def)
    then show ?thesis
      using placed(9) used_by_le [of ch "store v" h] pl by (auto split: if_splits)
  qed (use pl in simp_all)
qed

text \<open>A service at its start, on a store and hosts.\<close>

definition new_service :: "string \<Rightarrow> MemStore \<Rightarrow> Hosts \<Rightarrow> Service" where
  "new_service self m hs = \<lparr>store = m, host_health = hs, Self = self, cache = Map.empty,
     live_facts = Map.empty, slug_cache = Map.empty, pinNotes = Map.empty, lastNoRm = None, changes = []\<rparr>"

abbreviation plain_env :: "instant \<Rightarrow> Env" where
  "plain_env t \<equiv> \<lparr>settings = DefaultSettings\<lparr>NodesStream := True\<rparr>, now = t, fails_on = (\<lambda>_ _. False)\<rparr>"

definition node :: "string \<Rightarrow> int \<Rightarrow> Host" where
  "node i cap = zero_host\<lparr>ID := i, Capacity := cap, Enabled := True, Role := ''node''\<rparr>"

theorem Place_within_capacity_witness:
  "active_on ''n'' (store (snd (Place (plain_env 5) ''c'' ReasonFirstRequest ''''
     (new_service ''h'' (NewMemStore\<lparr>rows := []\<rparr>) (some_hosts [node ''n'' 1]))))) \<le> 1"
proof -
  let ?v = "new_service ''h'' (NewMemStore\<lparr>rows := []\<rparr>) (some_hosts [node ''n'' 1])"
  have "table_ok (store ?v)" "hosts_ok (host_health ?v)" "active_on ''n'' (store ?v) = 0"
    "Capacity (host_of (host_health ?v) ''n'') = 1"
    by (auto simp: new_service_def NewMemStore_def table_ok_def hosts_ok_def some_hosts_def load_def
        load_row_def node_def zero_host_def active_on_def host_of_def restrict_map_def split: if_splits)
  then show ?thesis
    using Place_within_capacity [of ?v "''n''" "plain_env 5" "''c''" ReasonFirstRequest "''''"] by simp
qed

section \<open>Resolving a channel\<close>

lemma Place_frame:
  assumes "Place e ch reason host v = (r, v')"
  shows "host_health v' = host_health v" "Self v' = Self v"
proof -
  obtain live v1 where nd: "need e ch v = (live, v1)" by (rule prod.exhaust)
  obtain sl v2 where sg: "slug e ch v1 = (sl, v2)" by (rule prod.exhaust)
  let ?pin = "if sl = '''' then '''' else case Pins (settings e) sl of Some p \<Rightarrow> p | None \<Rightarrow> ''''"
  obtain choice kept r' m where sp: "store_place e ch reason host ?pin live v2 = ((choice, kept), r', m)"
    by (metis prod.exhaust)
  have "host_health v2 = host_health v" "Self v2 = Self v"
    using need_frame [of e ch v] slug_frame [of e ch v1] nd sg by auto
  with assms [unfolded Place_def nd sg sp Let_def prod.case]
  show "host_health v' = host_health v" "Self v' = Self v"
    by (auto split: sum.splits if_splits place_error.splits)
qed

lemma resolve_uncached_outcomes:
  assumes "resolve_uncached e ch v = (r, v')" and "hosts_ok (host_health v)"
  obtains (error) err where "r = Inl err" "store v' = store v"
    | (served) p q where "r = Inr p" "row (store v') ch = Some q" "Active q" "PHost p = PHost q"
      "Gen p = Gen q" "Alive (PHost q) (settings e) (host_health v)"
      "row (store v) ch \<noteq> Some q \<longrightarrow> fst (eligibleLocked (PHost q) (settings e) (now e) (host_health v))
         \<and> gen (store v) < Gen q"
proof -
  obtain live v1 where nd: "need e ch v = (live, v1)" by (rule prod.exhaust)
  have fr: "store v1 = store v" "host_health v1 = host_health v"
    using need_frame [of e ch v] nd by auto
  then have hs: "hosts_ok (host_health v1)" using assms(2) by simp
  note R = assms(1) [unfolded resolve_uncached_def nd Let_def prod.case]
  have placing: thesis if "Place e ch reason '''' v1 = (r, v')" for reason
    using that hs
  proof (cases rule: Place_outcomes)
    case (kept q)
    then show thesis using fr by (intro served [of "withAge (now e) q" q]) (auto simp: withAge_def)
  next
    case (placed p)
    then show thesis using fr eligible_alive
      by (intro served [of p p]) auto
  qed (use fr error in auto)
  show thesis
  proof (cases "fails_on e QGet ch")
    case True
    with R fr error show thesis by auto
  next
    case False
    show thesis
    proof (cases "row (store v) ch")
      case None
      with R False placing fr show thesis by (auto simp: Get_def)
    next
      case (Some q)
      show thesis
      proof (cases "valid e (withAge (now e) q) live (host_health v1)")
        case True
        with R False Some fr show thesis
          by (intro served [of "withAge (now e) q" q])
            (auto simp: Get_def withAge_def valid_def Active_def put_cache_def)
      next
        case nv: False
        with R False Some placing fr show thesis by (auto simp: Get_def)
      qed
    qed
  qed
qed

text \<open>
  What a viewer is sent to: a resolved placement is either the cached one of a
  host that is still alive, or the channel's row in the store after the call: active, with the
  same host and generation, on a host that is alive; and when the call wrote that row, the host
  may take new channels and the generation is above all before it.
\<close>
theorem Resolve_answer:
  assumes "Resolve e ch v = (Inr p, v')" and "hosts_ok (host_health v)"
  shows "Cached e ch v = Some p \<and> Alive (PHost p) (settings e) (host_health v) \<and> v' = v
    \<or> (\<exists>q. row (store v') ch = Some q \<and> Active q \<and> PHost q = PHost p \<and> Gen q = Gen p
        \<and> Alive (PHost p) (settings e) (host_health v)
        \<and> (row (store v) ch \<noteq> Some q \<longrightarrow>
             fst (eligibleLocked (PHost p) (settings e) (now e) (host_health v)) \<and> gen (store v) < Gen p))"
proof (cases "\<exists>c. Cached e ch v = Some c \<and> Alive (PHost c) (settings e) (host_health v)")
  case True
  with assms(1) show ?thesis by (auto simp: Resolve_def)
next
  case False
  with assms(1) have "resolve_uncached e ch v = (Inr p, v')"
    by (auto simp: Resolve_def split: option.splits)
  from this assms(2) show ?thesis by (cases rule: resolve_uncached_outcomes) auto
qed

lemma map_ID_Candidates:
  assumes "hosts_ok hs" and "set (order hs) = dom (hosts hs)"
  shows "map ID (Candidates s t hs) = order hs"
proof -
  have "ID (let (ok, why) = eligibleLocked i s t hs in Host.extend (host_of hs i) (Candidate.fields ok why)) = i"
    if i: "i \<in> set (order hs)" for i
  proof -
    from i assms(2) obtain x where x: "hosts hs i = Some x" by auto
    then have "ID x = i" using assms(1) by (simp add: hosts_ok_def)
    with x show ?thesis by (simp add: Host.defs Candidate.defs host_of_def split: prod.split)
  qed
  then show ?thesis by (simp add: Candidates_def map_idI)
qed

lemma candidate_of:
  assumes "hosts_ok hs" and "set (order hs) = dom (hosts hs)" and "fst (eligibleLocked i s t hs)"
  shows "\<exists>c \<in> set (Candidates s t hs). ID c = i \<and> Eligible c \<and> Capacity c = Capacity (host_of hs i)
    \<and> CanLive c = CanLive (host_of hs i)"
proof -
  from eligible_alive [OF assms(3)] alive_known obtain x where x: "hosts hs i = Some x" by blast
  then have "ID x = i" "i \<in> set (order hs)" using assms(1,2) by (auto simp: hosts_ok_def)
  let ?c = "let (ok, why) = eligibleLocked i s t hs in Host.extend (host_of hs i) (Candidate.fields ok why)"
  have "?c \<in> set (Candidates s t hs)"
    unfolding Candidates_def set_map using \<open>i \<in> set (order hs)\<close> by (rule imageI)
  moreover have "ID ?c = i \<and> Eligible ?c \<and> Capacity ?c = Capacity (host_of hs i) \<and> CanLive ?c = CanLive (host_of hs i)"
    using x \<open>ID x = i\<close> assms(3)
    by (cases "eligibleLocked i s t hs") (simp add: Host.defs Candidate.defs host_of_def)
  ultimately show ?thesis by blast
qed

lemma Place_serves:
  assumes "\<And>q c. \<not> fails_on e q c" and "hosts_ok (host_health v)" and "distinct (order (host_health v))"
    and "set (order (host_health v)) = dom (hosts (host_health v))" and "'''' \<notin> dom (hosts (host_health v))"
    and "fst (eligibleLocked i (settings e) (now e) (host_health v))"
    and "used_by ch (store v) i < Capacity (host_of (host_health v) i)" and "CanLive (host_of (host_health v) i)"
  shows "\<exists>p v'. Place e ch reason '''' v = (Inr p, v')"
proof -
  obtain live v1 where nd: "need e ch v = (live, v1)" by (rule prod.exhaust)
  obtain sl v2 where sg: "slug e ch v1 = (sl, v2)" by (rule prod.exhaust)
  have fr: "store v2 = store v" "host_health v2 = host_health v"
    using need_frame [of e ch v] slug_frame [of e ch v1] nd sg by auto
  let ?pin = "if sl = '''' then '''' else case Pins (settings e) sl of Some p \<Rightarrow> p | None \<Rightarrow> ''''"
  let ?cands = "Candidates (settings e) (now e) (host_health v)"
  have ids: "map ID ?cands = order (host_health v)" using assms(2,4) by (rule map_ID_Candidates)
  then have "ID ` set ?cands = dom (hosts (host_health v))" by (metis assms(4) set_map)
  then have ne: "\<forall>c \<in> set ?cands. ID c \<noteq> ''''" using assms(5) by (metis imageI)
  from candidate_of [OF assms(2,4,6)] assms(7,8) have fit: "\<exists>c \<in> set ?cands. fits (used_by ch (store v)) live c"
    unfolding fits_def by metis
  have choose: "ChoiceHost (Choose ?cands (used_by ch (store v)) (settings e) live ?pin x) \<noteq> ''''" for x
    by (rule Choose_serves [OF _ ne fit]) (simp add: ids assms(3))
  let ?cur = "map_option (withAge (now e)) (row (store v) ch)"
  have "\<exists>x d. decide e reason '''' ?pin live (host_health v) ?cur (used_by ch (store v)) = (x, Inr d)"
    unfolding decide_def Let_def using choose by (auto simp only: if_True if_False split: if_split)
  then obtain x d where "decide e reason '''' ?pin live (host_health v) ?cur (used_by ch (store v)) = (x, Inr d)"
    by blast
  then have "\<exists>p m. store_place e ch reason '''' ?pin live v2 = (x, Inr p, m)"
    using assms(1) fr by (auto simp: store_place_def Placement_Store.Place_def Let_def)
  then show ?thesis
    by (cases x) (auto simp: Place_def nd sg Let_def)
qed

lemma Resolve_returns:
  assumes "\<And>q c. \<not> fails_on e q c" and "hosts_ok (host_health v)" and "distinct (order (host_health v))"
    and "set (order (host_health v)) = dom (hosts (host_health v))" and "'''' \<notin> dom (hosts (host_health v))"
    and "fst (eligibleLocked i (settings e) (now e) (host_health v))"
    and "used_by ch (store v) i < Capacity (host_of (host_health v) i)" and "CanLive (host_of (host_health v) i)"
  shows "\<exists>p v'. Resolve e ch v = (Inr p, v')"
proof -
  obtain live v1 where nd: "need e ch v = (live, v1)" by (rule prod.exhaust)
  have fr: "store v1 = store v" "host_health v1 = host_health v"
    using need_frame [of e ch v] nd by auto
  have "\<exists>p v'. Place e ch reason '''' v1 = (Inr p, v')" for reason
    by (rule Place_serves [where i = i]) (use assms fr in simp_all)
  then have "\<exists>p v'. resolve_uncached e ch v = (Inr p, v')"
    using assms(1) by (auto simp: resolve_uncached_def nd Let_def split: option.split)
  then show ?thesis by (auto simp: Resolve_def split: option.split)
qed

text \<open>
  A channel is served whenever it can be: with the store answering and one host
  that may take it and has a place by the store's counts (and runs live blocks), \<open>Resolve\<close>
  returns a placement, whatever the pins, the policy, the caches and the channel's last row.
\<close>
theorem Resolve_serves:
  assumes "\<And>q c. \<not> fails_on e q c" and "hosts_ok (host_health v)" and "distinct (order (host_health v))"
    and "set (order (host_health v)) = dom (hosts (host_health v))" and "'''' \<notin> dom (hosts (host_health v))"
    and "fst (eligibleLocked i (settings e) (now e) (host_health v))"
    and "used_by ch (store v) i < Capacity (host_of (host_health v) i)" and "CanLive (host_of (host_health v) i)"
  shows "\<exists>p v'. Resolve e ch v = (Inr p, v')"
  by (rule Resolve_returns) (fact assms)+

definition one_node_service :: Service where
  "one_node_service = new_service ''h'' NewMemStore (some_hosts [(node ''n'' 1)\<lparr>CanLive := True\<rparr>])"

lemma one_node_service_facts:
  "table_ok (store one_node_service)" "hosts_ok (host_health one_node_service)"
  "order (host_health one_node_service) = [''n'']" "dom (hosts (host_health one_node_service)) = {''n''}"
  "fst (eligibleLocked ''n'' (settings (plain_env 5)) (now (plain_env 5)) (host_health one_node_service))"
  "host_of (host_health one_node_service) ''n'' = (node ''n'' 1)\<lparr>CanLive := True\<rparr>"
  "rows (store one_node_service) = []"
  by (auto simp: one_node_service_def new_service_def NewMemStore_def table_ok_def hosts_ok_def
      some_hosts_def load_def load_row_def node_def zero_host_def host_of_def restrict_map_def
      eligibleLocked_def aliveLocked_def dead_after_def DefaultSettings_def split: if_splits)

theorem Resolve_serves_witness:
  "\<exists>p v'. Resolve (plain_env 5) ''c'' one_node_service = (Inr p, v')"
  by (rule Resolve_serves [where i = "''n''"])
    (simp_all only: one_node_service_facts, simp_all add: used_by_def one_node_service_facts node_def)

theorem Resolve_answer_witness:
  "\<exists>p v' q. Resolve (plain_env 5) ''c'' one_node_service = (Inr p, v')
     \<and> row (store v') ''c'' = Some q \<and> PHost q = PHost p"
proof -
  have "\<exists>p v'. Resolve (plain_env 5) ''c'' one_node_service = (Inr p, v')"
    by (rule Resolve_returns [where i = "''n''"])
      (simp_all only: one_node_service_facts, simp_all add: used_by_def one_node_service_facts node_def)
  then obtain p v' where r: "Resolve (plain_env 5) ''c'' one_node_service = (Inr p, v')" by blast
  have "Cached (plain_env 5) ''c'' one_node_service = None"
    by (simp add: Cached_def one_node_service_def new_service_def)
  with Resolve_answer [OF r one_node_service_facts(2)] r show ?thesis by auto
qed

section \<open>Failover\<close>

text \<open>
  What became of a placement of the host that went down, given whether its channel is among
  those moved: released when nobody watches it or failover is off; otherwise moved, or, when no
  host could take it, left as it was.
\<close>

definition failed_over :: "Env \<Rightarrow> Hosts \<Rightarrow> int \<Rightarrow> bool \<Rightarrow> Placement \<Rightarrow> Placement \<Rightarrow> bool" where
  "failed_over e hs viewers was_moved p q \<longleftrightarrow>
    (if viewers = 0 \<or> \<not> Failover (settings e)
     then \<not> was_moved \<and> (\<not> fails_on e QRelease (Channel p) \<longrightarrow> q = p\<lparr>PState := StateReleased\<rparr>)
     else if was_moved
     then Active q \<and> PHost q \<noteq> PHost p \<and> fst (eligibleLocked (PHost q) (settings e) (now e) hs)
        \<and> Gen p < Gen q \<and> Takeover q
     else q = p)"

text \<open>The rows a sweep finds: each is active on the host, under the generation of the item.\<close>

definition on_host :: "string \<Rightarrow> Service \<Rightarrow> Placement \<Rightarrow> bool" where
  "on_host host v p \<longleftrightarrow> (\<exists>p0. row (store v) (Channel p) = Some p0 \<and> Gen p0 = Gen p \<and> Active p0 \<and> PHost p0 = host)"

lemma failover_one_spec:
  assumes "failover_one e (p, n) (moved, v) = (moved', v')"
    and "row (store v) (Channel p) = Some p0" "Gen p0 = Gen p" "Active p0" "PHost p0 = host"
    and "\<not> Alive host (settings e) (host_health v)" "hosts_ok (host_health v)" "table_ok (store v)"
  shows "\<exists>q b. row (store v') = (row (store v))(Channel p \<mapsto> q) \<and> moved' = moved @ (if b then [Channel p] else [])
    \<and> failed_over e (host_health v) n b p0 q \<and> host_health v' = host_health v \<and> table_ok (store v')"
proof -
  let ?ch = "Channel p"
  have ch: "Channel p0 = ?ch" using table_okD [OF assms(8,2)] by simp
  have same: "row (store v) = (row (store v))(?ch \<mapsto> p0)" using assms(2) by auto
  show ?thesis
  proof (cases "n = 0 \<or> \<not> Failover (settings e)")
    case True
    have st: "moved' = moved" "host_health v' = host_health v"
        "store v' = (if fails_on e QRelease ?ch then store v else snd (Release ?ch (Gen p) (store v)))"
      using assms(1) True by (auto simp: failover_one_def Let_def)
    have act: "PState p0 \<noteq> StateReleased"
      using assms(4) by (auto simp: Active_def placement_states)
    show ?thesis
    proof (cases "fails_on e QRelease ?ch")
      case True
      with st same assms(8) \<open>n = 0 \<or> \<not> Failover (settings e)\<close> ch show ?thesis
        by (intro exI [of _ p0] exI [of _ False]) (simp add: failed_over_def)
    next
      case False
      then have "row (store v') = (row (store v))(?ch \<mapsto> p0\<lparr>PState := StateReleased\<rparr>)"
        using st assms(2,3) act ch by (simp add: Release_def Let_def)
      with st True False ch Release_table_ok [OF assms(8), of ?ch "Gen p"] show ?thesis
        by (intro exI [of _ "p0\<lparr>PState := StateReleased\<rparr>"] exI [of _ False]) (simp add: failed_over_def)
    qed
  next
    case False
    obtain r v2 where pl: "Place e ?ch ReasonFailover '''' (Invalidate ?ch v) = (r, v2)" by (rule prod.exhaust)
    have st: "v' = v2" "moved' = moved @ (case r of Inl _ \<Rightarrow> [] | Inr _ \<Rightarrow> [?ch])"
      using assms(1) False pl by (auto simp: failover_one_def Let_def split: sum.splits)
    have hh: "host_health v' = host_health v" using Place_frame(1) [OF pl] st by simp
    have hs: "hosts_ok (host_health (Invalidate ?ch v))" using assms(7) by simp
    from pl hs show ?thesis
    proof (cases rule: Place_outcomes)
      case (error err)
      with st same assms(8) False hh show ?thesis
        by (intro exI [of _ p0] exI [of _ False]) (simp add: failed_over_def)
    next
      case (kept q)
      then show ?thesis using assms(2,5,6) by simp
    next
      case (placed q)
      have "row (store v') = (row (store v))(?ch \<mapsto> q)"
        using placed(2) st by simp
      moreover have "table_ok (store v')"
        using table_ok_set_row [OF table_ok_gen [OF assms(8), of "gen (store v) + 1"], of q] placed(2-5) st
        by (simp add: table_ok_def set_row_def)
      moreover have "PHost q \<noteq> host"
        using placed(8) eligible_alive assms(6) by auto
      moreover have "Gen p0 < Gen q" using table_okD [OF assms(8,2)] placed(5) by simp
      moreover have "Takeover q"
        using placed(10) by (auto simp: Takeover_def placement_reasons)
      ultimately show ?thesis
        using placed st False hh assms(5)
        by (intro exI [of _ q] exI [of _ True]) (simp add: failed_over_def)
    qed
  qed
qed

lemma run_failover:
  assumes "run (failover_one e) items (moved, v) = (moved', v')"
    and "distinct (map (Channel \<circ> fst) items)" and "\<forall>it \<in> set items. on_host host v (fst it)"
    and "\<not> Alive host (settings e) (host_health v)" "hosts_ok (host_health v)" "table_ok (store v)"
  shows "\<exists>more. moved' = moved @ more \<and> subseq more (map (Channel \<circ> fst) items)
    \<and> (\<forall>ch. ch \<notin> set (map (Channel \<circ> fst) items) \<longrightarrow> row (store v') ch = row (store v) ch)
    \<and> (\<forall>(p, n) \<in> set items. \<exists>p0 q. row (store v) (Channel p) = Some p0 \<and> row (store v') (Channel p) = Some q
         \<and> failed_over e (host_health v) n (Channel p \<in> set more) p0 q)"
  using assms
proof (induction items arbitrary: moved v)
  case (Cons it items)
  obtain p n where it: "it = (p, n)" by (rule prod.exhaust)
  obtain m1 v1 where one: "failover_one e it (moved, v) = (m1, v1)" by (rule prod.exhaust)
  from Cons.prems(3) it obtain p0 where p0: "row (store v) (Channel p) = Some p0" "Gen p0 = Gen p" "Active p0"
    "PHost p0 = host" by (auto simp: on_host_def)
  from failover_one_spec [OF one [unfolded it] p0 Cons.prems(4-6)] obtain q b where
    q: "row (store v1) = (row (store v))(Channel p \<mapsto> q)" "m1 = moved @ (if b then [Channel p] else [])"
      "failed_over e (host_health v) n b p0 q" "host_health v1 = host_health v" "table_ok (store v1)" by blast
  have new: "Channel p \<notin> set (map (Channel \<circ> fst) items)" using Cons.prems(2) it by simp
  have rest: "\<forall>it \<in> set items. on_host host v1 (fst it)"
    using Cons.prems(3) new q(1) by (force simp: on_host_def)
  have runit: "run (failover_one e) items (m1, v1) = (moved', v')" using Cons.prems(1) one by simp
  have dist: "distinct (map (Channel \<circ> fst) items)" using Cons.prems(2) by (simp add: comp_def)
  have hs: "\<not> Alive host (settings e) (host_health v1)" "hosts_ok (host_health v1)"
    using Cons.prems(4,5) q(4) by simp_all
  from Cons.IH [OF runit dist rest hs q(5)] obtain more where more:
    "moved' = m1 @ more" "subseq more (map (Channel \<circ> fst) items)"
    "\<forall>ch. ch \<notin> set (map (Channel \<circ> fst) items) \<longrightarrow> row (store v') ch = row (store v1) ch"
    "\<forall>(p, n) \<in> set items. \<exists>p0 q. row (store v1) (Channel p) = Some p0 \<and> row (store v') (Channel p) = Some q
         \<and> failed_over e (host_health v1) n (Channel p \<in> set more) p0 q" by blast
  let ?more = "(if b then [Channel p] else []) @ more"
  have pmore: "Channel p \<notin> set more"
    using subseq_subset [OF more(2)] new by blast
  have items: "\<exists>p1 q'. row (store v) (Channel p') = Some p1 \<and> row (store v') (Channel p') = Some q'
      \<and> failed_over e (host_health v) n' (Channel p' \<in> set ?more) p1 q'" if "(p', n') \<in> set items" for p' n'
  proof -
    have ne: "Channel p' \<noteq> Channel p" using that new by force
    moreover have "Channel p' \<in> set ?more \<longleftrightarrow> Channel p' \<in> set more" using ne by simp
    ultimately show ?thesis using more(4) that q(1,4) by fastforce
  qed
  have first: "row (store v') (Channel p) = Some q" using more(3) new q(1) by simp
  have "Channel p \<in> set ?more \<longleftrightarrow> b" using pmore by simp
  with first p0(1) q(3) items have "\<forall>(p', n') \<in> set (it # items). \<exists>p1 q'. row (store v) (Channel p') = Some p1
      \<and> row (store v') (Channel p') = Some q'
      \<and> failed_over e (host_health v) n' (Channel p' \<in> set ?more) p1 q'"
    unfolding it by auto
  moreover have "moved' = moved @ ?more" using more(1) q(2) by simp
  moreover have "subseq ?more (map (Channel \<circ> fst) (it # items))" using more(2) it by (auto intro: list_emb_Cons)
  moreover have "\<forall>ch. ch \<notin> set (map (Channel \<circ> fst) (it # items)) \<longrightarrow> row (store v') ch = row (store v) ch"
    using more(3) q(1) it by simp
  ultimately show ?case by blast
qed simp

lemma OnHost_items:
  assumes "table_ok m"
  shows "distinct (map Channel (OnHost host t m))"
    and "p \<in> set (OnHost host t m) \<longleftrightarrow> (\<exists>p0. row m (Channel p) = Some p0 \<and> p = withAge t p0 \<and> Active p0 \<and> PHost p0 = host)"
proof -
  have own: "Channel q = ch" if "(ch, q) \<in> set (rows m)" for ch q
    using assms that by (auto simp: table_ok_def)
  have "map Channel (OnHost host t m) = map fst (filter (\<lambda>(_, p). PHost p = host \<and> Active p) (rows m))"
    using own by (auto simp: OnHost_def withAge_def)
  then show "distinct (map Channel (OnHost host t m))"
    using assms by (simp add: table_ok_def distinct_map_filter)
  have row: "row m ch = Some q \<longleftrightarrow> (ch, q) \<in> set (rows m)" for ch q
    using assms by (simp add: table_ok_def map_of_eq_Some_iff)
  have "p \<in> set (OnHost host t m) \<longleftrightarrow> (\<exists>ch p0. (ch, p0) \<in> set (rows m) \<and> p = withAge t p0 \<and> Active p0 \<and> PHost p0 = host)"
    unfolding OnHost_def by (auto simp: image_iff)
  also have "\<dots> \<longleftrightarrow> (\<exists>p0. (Channel p, p0) \<in> set (rows m) \<and> p = withAge t p0 \<and> Active p0 \<and> PHost p0 = host)"
  proof -
    have "Channel (withAge t p0) = Channel p0" for p0 by (simp add: withAge_def)
    then show ?thesis using own by metis
  qed
  finally show "p \<in> set (OnHost host t m) \<longleftrightarrow>
    (\<exists>p0. row m (Channel p) = Some p0 \<and> p = withAge t p0 \<and> Active p0 \<and> PHost p0 = host)"
    unfolding row .
qed

lemma failover_items_set:
  "set (failover_items demand ps) = (\<lambda>p. (p, demand (Channel p))) ` set ps"
  by (simp add: failover_items_def)

lemma failover_items_order:
  "sorted_wrt (\<lambda>a b. demand b \<le> demand a) (map (Channel \<circ> fst) (failover_items demand ps))"
proof -
  have "sorted_wrt (\<lambda>a b. \<not> snd a < snd b) (failover_items demand ps)"
    unfolding failover_items_def by (rule sort_by_sorted) simp_all
  then show ?thesis
    unfolding sorted_wrt_map by (rule sorted_wrt_mono_rel [rotated]) (auto simp: failover_items_set)
qed

lemma failover_items_distinct:
  "distinct (map Channel ps) \<Longrightarrow> distinct (map (Channel \<circ> fst) (failover_items demand ps))"
proof -
  have "image_mset (Channel \<circ> fst) (mset (failover_items demand ps)) = image_mset Channel (mset ps)"
    unfolding failover_items_def by (simp add: image_mset.compositionality comp_def)
  then have "mset (map (Channel \<circ> fst) (failover_items demand ps)) = mset (map Channel ps)"
    by (simp only: mset_map)
  then show "distinct (map Channel ps) \<Longrightarrow> ?thesis" by (metis mset_eq_imp_distinct_iff)
qed

text \<open>
  When a host goes down, its channels are dealt with and nobody else's: the
  most watched are taken first; a placement nobody watches is released; a watched one moves to
  another host that may take it, under a newer generation and as a takeover, or, if no host can,
  stays as it was; and the rows of all other channels are untouched.
\<close>
theorem failover_deals_with_host:
  assumes "failover e demand host v = (moved, v')" and "\<not> fails_on e QOnHost host"
    and "\<not> Alive host (settings e) (host_health v)" and "hosts_ok (host_health v)" and "table_ok (store v)"
  shows "sorted_wrt (\<lambda>a b. demand b \<le> demand a) moved
    \<and> (\<forall>ch p. row (store v) ch = Some p \<longrightarrow> Active p \<longrightarrow> PHost p = host \<longrightarrow>
         (\<exists>q. row (store v') ch = Some q \<and> failed_over e (host_health v) (demand ch) (ch \<in> set moved) p q))
    \<and> (\<forall>ch. \<not> (\<exists>p. row (store v) ch = Some p \<and> Active p \<and> PHost p = host)
         \<longrightarrow> row (store v') ch = row (store v) ch)"
proof -
  let ?ps = "OnHost host (now e) (store v)"
  let ?items = "failover_items demand ?ps"
  note on = OnHost_items(1) [OF assms(5), of host "now e"] OnHost_items(2) [OF assms(5), of _ host "now e"]
  have run: "run (failover_one e) ?items ([], v) = (moved, v')"
    using assms(1,2) by (simp add: failover_def)
  have found: "\<forall>it \<in> set ?items. on_host host v (fst it)"
    using on(2) by (auto simp: failover_items_set on_host_def withAge_def)
  from run_failover [OF run failover_items_distinct [OF on(1)] found assms(3-5)] obtain
    sub: "subseq moved (map (Channel \<circ> fst) ?items)"
    and others: "\<forall>ch. ch \<notin> set (map (Channel \<circ> fst) ?items) \<longrightarrow> row (store v') ch = row (store v) ch"
    and items: "\<forall>(p, n) \<in> set ?items. \<exists>p0 q. row (store v) (Channel p) = Some p0
       \<and> row (store v') (Channel p) = Some q \<and> failed_over e (host_health v) n (Channel p \<in> set moved) p0 q"
    by auto
  have chans: "set (map (Channel \<circ> fst) ?items) = {ch. \<exists>p. row (store v) ch = Some p \<and> Active p \<and> PHost p = host}"
    (is "?L = ?R")
  proof
    show "?L \<subseteq> ?R" using on(2) by (auto simp: failover_items_set)
    show "?R \<subseteq> ?L"
    proof
      fix ch assume "ch \<in> ?R"
      then obtain p where p: "row (store v) ch = Some p" "Active p" "PHost p = host" by blast
      then have "Channel p = ch" using table_okD [OF assms(5)] by blast
      have chw: "Channel (withAge (now e) p) = ch" using \<open>Channel p = ch\<close> by (simp add: withAge_def)
      with p on(2) [of "withAge (now e) p"] have "withAge (now e) p \<in> set ?ps" by auto
      then have "(withAge (now e) p, demand ch) \<in> set ?items"
        using chw by (auto simp: failover_items_set)
      then have "(Channel \<circ> fst) (withAge (now e) p, demand ch) \<in> ?L"
        unfolding set_map by (rule imageI)
      with chw show "ch \<in> ?L" by simp
    qed
  qed
  have "\<exists>q. row (store v') ch = Some q \<and> failed_over e (host_health v) (demand ch) (ch \<in> set moved) p q"
    if "row (store v) ch = Some p" "Active p" "PHost p = host" for ch p
  proof -
    from that chans have "ch \<in> set (map (Channel \<circ> fst) ?items)" by blast
    then obtain p' n where it: "(p', n) \<in> set ?items" "ch = Channel p'" by auto
    then have "n = demand ch" by (auto simp: failover_items_set)
    with items it that(1) show ?thesis by fastforce
  qed
  moreover have "sorted_wrt (\<lambda>a b. demand b \<le> demand a) moved"
    by (rule subseq_sorted_wrt [OF sub failover_items_order])
  ultimately show ?thesis using others chans by blast
qed

text \<open>A channel on a host that is gone, watched or not.\<close>

definition orphaned :: Service where
  "orphaned = one_node_service\<lparr>store := (store one_node_service)\<lparr>rows := [(''c'', \<lparr>Channel = ''c'',
     PHost = ''x'', Gen = 1, PState = StateLive, Reason = ReasonFirstRequest, PlacedAt = 0,
     AckedAt = Some 0, Age = 0\<rparr>)], gen := 1\<rparr>\<rparr>"

theorem failover_deals_with_host_witness:
  "\<exists>q. row (store (snd (failover (plain_env 5) (\<lambda>_. 0) ''x'' orphaned))) ''c'' = Some q
     \<and> PState q = StateReleased"
proof -
  obtain moved v' where f: "failover (plain_env 5) (\<lambda>_. 0) ''x'' orphaned = (moved, v')" by (rule prod.exhaust)
  have o: "host_health orphaned = host_health one_node_service" by (simp add: orphaned_def)
  have "hosts (host_health one_node_service) ''x'' = None"
  proof -
    have "''x'' \<notin> dom (hosts (host_health one_node_service))"
      unfolding one_node_service_facts(4) by simp
    then show ?thesis by (simp add: domIff)
  qed
  then have dead: "\<not> Alive ''x'' (settings (plain_env 5)) (host_health orphaned)"
    unfolding o using alive_known [of "''x''" _ "host_health one_node_service"] by (metis option.distinct(1))
  have "table_ok (store orphaned)" "hosts_ok (host_health orphaned)"
    using one_node_service_facts(2) o by (simp_all add: orphaned_def table_ok_def)
  from failover_deals_with_host [OF f _ dead this(2,1)] f show ?thesis
    by (auto simp: orphaned_def failed_over_def Active_def)
qed

section \<open>Fencing\<close>



end
