(* ===== verification/Tv_Change.thy ===== *)
theory Tv_Change
  imports Prelude
begin

text \<open>
  A change of the TV on its way to the air: the state machine of
  \<^verbatim>\<open>api/internal/tvchange/machine.go\<close>, the auto-promote rules of \<^verbatim>\<open>rules.go\<close>, and the part of the
  controller that starts a swap (\<^verbatim>\<open>controller.go\<close>: \<open>ready\<close>, \<open>startSwap\<close>, \<open>Promote\<close>), over the
  store's optimistic move (\<^verbatim>\<open>store.go\<close>: \<open>Move\<close>).
\<close>

section \<open>States and actions (store.go, machine.go)\<close>

definition StateDraft :: string where "StateDraft = ''draft''"
definition StateStaged :: string where "StateStaged = ''staged''"
definition StateVerifying :: string where "StateVerifying = ''verifying''"
definition StateReady :: string where "StateReady = ''ready''"
definition StateApproved :: string where "StateApproved = ''approved''"
definition StateSwapping :: string where "StateSwapping = ''swapping''"
definition StateLive :: string where "StateLive = ''live''"
definition StateSuperseded :: string where "StateSuperseded = ''superseded''"
definition StateFailed :: string where "StateFailed = ''failed''"
definition StateCancelled :: string where "StateCancelled = ''cancelled''"
definition StateRolledBack :: string where "StateRolledBack = ''rolled_back''"

lemmas tv_states [names] = StateDraft_def StateStaged_def StateVerifying_def StateReady_def
  StateApproved_def StateSwapping_def StateLive_def StateSuperseded_def StateFailed_def
  StateCancelled_def StateRolledBack_def

definition ActionStage :: string where "ActionStage = ''stage''"
definition ActionVerify :: string where "ActionVerify = ''verify''"
definition ActionApprove :: string where "ActionApprove = ''approve''"
definition ActionSchedule :: string where "ActionSchedule = ''schedule''"
definition ActionPromote :: string where "ActionPromote = ''promote''"
definition ActionCancel :: string where "ActionCancel = ''cancel''"
definition ActionRollback :: string where "ActionRollback = ''rollback''"
definition ActionStartVerify :: string where "ActionStartVerify = ''start_verify''"
definition ActionPass :: string where "ActionPass = ''pass''"
definition ActionFail :: string where "ActionFail = ''fail''"
definition ActionRecheckFail :: string where "ActionRecheckFail = ''recheck_fail''"
definition ActionAutoApprove :: string where "ActionAutoApprove = ''approved_ahead''"
definition ActionAutoPromote :: string where "ActionAutoPromote = ''auto_promote''"
definition ActionSwapStart :: string where "ActionSwapStart = ''swap_start''"
definition ActionSwap :: string where "ActionSwap = ''swap''"
definition ActionSwapFailed :: string where "ActionSwapFailed = ''swap_failed''"
definition ActionSupersede :: string where "ActionSupersede = ''supersede''"
definition ActionReopen :: string where "ActionReopen = ''reopen''"
definition ActionSwapDone :: string where "ActionSwapDone = ''swap_done''"
definition ActionSetAside :: string where "ActionSetAside = ''set_aside''"
definition ActionRecheckAfterUpdate :: string where "ActionRecheckAfterUpdate = ''recheck_after_update''"
definition ActionSwapNotStarted :: string where "ActionSwapNotStarted = ''swap_not_started''"

lemmas tv_actions [names] = ActionStage_def ActionVerify_def ActionApprove_def ActionSchedule_def
  ActionPromote_def ActionCancel_def ActionRollback_def ActionStartVerify_def ActionPass_def
  ActionFail_def ActionRecheckFail_def ActionAutoApprove_def ActionAutoPromote_def
  ActionSwapStart_def ActionSwap_def ActionSwapFailed_def ActionSupersede_def ActionReopen_def
  ActionSwapDone_def ActionSetAside_def ActionRecheckAfterUpdate_def ActionSwapNotStarted_def

definition table :: "(string \<times> (string \<times> string) list) list" where
  "table =
    [(StateDraft,
       [(ActionStage, StateStaged), (ActionApprove, StateDraft), (ActionSchedule, StateDraft),
        (ActionCancel, StateCancelled), (ActionSupersede, StateSuperseded)]),
     (StateStaged,
       [(ActionReopen, StateDraft), (ActionSupersede, StateSuperseded),
        (ActionStartVerify, StateVerifying), (ActionSchedule, StateStaged),
        (ActionApprove, StateStaged), (ActionCancel, StateCancelled), (ActionFail, StateDraft),
        (ActionSetAside, StateDraft)]),
     (StateVerifying,
       [(ActionReopen, StateDraft), (ActionSupersede, StateSuperseded), (ActionPass, StateReady),
        (ActionFail, StateDraft), (ActionVerify, StateVerifying), (ActionSchedule, StateVerifying),
        (ActionApprove, StateVerifying), (ActionCancel, StateCancelled), (ActionSetAside, StateDraft)]),
     (StateReady,
       [(ActionReopen, StateDraft), (ActionSupersede, StateSuperseded),
        (ActionApprove, StateApproved), (ActionVerify, StateVerifying), (ActionSchedule, StateReady),
        (ActionCancel, StateCancelled), (ActionRecheckFail, StateVerifying),
        (ActionAutoApprove, StateApproved), (ActionAutoPromote, StateSwapping),
        (ActionPromote, StateSwapping), (ActionSetAside, StateDraft),
        (ActionRecheckAfterUpdate, StateDraft)]),
     (StateApproved,
       [(ActionPromote, StateSwapping), (ActionSwapStart, StateSwapping),
        (ActionSchedule, StateApproved), (ActionCancel, StateCancelled)]),
     (StateSwapping,
       [(ActionSwap, StateLive), (ActionSwapDone, StateLive), (ActionSwapFailed, StateReady),
        (ActionRollback, StateRolledBack)]),
     (StateLive, [(ActionSupersede, StateSuperseded), (ActionRollback, StateRolledBack)]),
     (StateFailed, []), (StateCancelled, []), (StateSuperseded, []), (StateRolledBack, [])]"

definition actions_of :: "string \<Rightarrow> (string \<times> string) list" where
  "actions_of s = (case map_of table s of Some as \<Rightarrow> as | None \<Rightarrow> [])"

definition adminActions :: "string list" where
  "adminActions = [ActionStage, ActionVerify, ActionApprove, ActionSchedule, ActionPromote,
     ActionCancel, ActionRollback]"

definition Next :: "string \<Rightarrow> string \<Rightarrow> string option" where
  "Next s a = map_of (actions_of s) a"

definition States :: "string list" where
  "States = sort (map fst table)"

definition appendOnce :: "string list \<Rightarrow> string \<Rightarrow> string list" where
  "appendOnce xs x = (if x \<in> set xs then xs else xs @ [x])"

definition AllowedActions :: "string \<Rightarrow> string \<Rightarrow> string list" where
  "AllowedActions s sourceKind =
    (let out = filter (\<lambda>a. a \<in> set adminActions
                 \<and> \<not> (s = StateReady \<and> a = ActionPromote)
                 \<and> \<not> (s = StateDraft \<and> a = ActionStage \<and> sourceKind = ''write_channels''))
               (map fst (actions_of s))
     in sort (if s = StateLive \<or> s = StateSwapping then appendOnce out ActionRollback else out))"

definition Terminal :: "string \<Rightarrow> bool" where
  "Terminal s \<longleftrightarrow> actions_of s = []"

section \<open>The auto-promote rules (rules.go)\<close>

definition RuleApproval :: string where "RuleApproval = ''approval''"
definition RuleQuietWindow :: string where "RuleQuietWindow = ''quiet_window''"
definition RuleImmediate :: string where "RuleImmediate = ''immediate''"
definition OriginAuto :: string where "OriginAuto = ''auto''"
definition SourceAutoUpdate :: string where "SourceAutoUpdate = ''auto_update''"

lemmas tv_rules [names] = RuleApproval_def RuleQuietWindow_def RuleImmediate_def OriginAuto_def
  SourceAutoUpdate_def

text \<open>The fields of \<open>Config\<close> the rules read; a kind with no rule reads as the empty string.\<close>

record Config =
  AutoPromote_rules :: "string \<Rightarrow> string"
  QuietWindow :: string
  QuietMaxViewers :: int

text \<open>A moment, with its hour and minute in the station's time zone.\<close>

record LocalTime =
  moment :: instant
  Hour :: int
  Minute :: int

record Change =
  ID :: string
  CState :: string
  Kinds :: "string list"
  SourceKind :: string
  Origin :: string
  ApprovedBy :: "string list"
  SwapAt :: "instant option"

definition ruleRank :: "string \<Rightarrow> int option" where
  "ruleRank r = map_of [(RuleApproval, 0), (RuleQuietWindow, 1), (RuleImmediate, 2)] r"

definition autoRule :: "string \<Rightarrow> string" where
  "autoRule r = (if r = RuleQuietWindow then RuleQuietWindow else RuleImmediate)"

text \<open>Reading the rank of an unknown rule gives 0; \<open>best\<close> is empty before the first kind.\<close>

definition rank_of :: "string \<Rightarrow> int" where
  "rank_of r = (case ruleRank r of Some n \<Rightarrow> n | None \<Rightarrow> 0)"

definition strictest_step :: "Config \<Rightarrow> string \<Rightarrow> string \<Rightarrow> string" where
  "strictest_step c k best =
    (let r0 = AutoPromote_rules c k; r = (if ruleRank r0 = None then RuleApproval else r0) in
     if best = '''' \<or> rank_of r < rank_of best then r else best)"

definition StrictestRule :: "Config \<Rightarrow> string list \<Rightarrow> string" where
  "StrictestRule c kinds =
    (let best = run (strictest_step c) kinds '''' in if best = '''' then RuleApproval else best)"

definition ChangeRule :: "Config \<Rightarrow> Change \<Rightarrow> string" where
  "ChangeRule c ch =
    (if Origin ch \<noteq> OriginAuto then RuleApproval
     else if SourceKind ch = SourceAutoUpdate \<and> length (Kinds ch) = 1 \<and> hd (Kinds ch) = ''binary''
     then RuleImmediate
     else if \<exists>k \<in> set (Kinds ch). autoRule (AutoPromote_rules c k) = RuleQuietWindow
     then RuleQuietWindow else RuleImmediate)"

definition hm :: "string \<Rightarrow> int option" where
  "hm s =
    (case cut_at (CHR '':'') (trim_space s) of
       None \<Rightarrow> None
     | Some (h, m) \<Rightarrow>
         (case (atoi h, atoi m) of
            (Some hh, Some mm) \<Rightarrow>
              if hh < 0 \<or> 24 < hh \<or> mm < 0 \<or> 59 < mm then None else Some (hh * 60 + mm)
          | _ \<Rightarrow> None))"

definition InQuietWindow :: "string \<Rightarrow> LocalTime \<Rightarrow> bool" where
  "InQuietWindow window t =
    (case cut_at (CHR ''-'') (trim_space window) of
       None \<Rightarrow> False
     | Some (a, b) \<Rightarrow>
         (case (hm a, hm b) of
            (Some from_m, Some to_m) \<Rightarrow>
              let m = Hour t * 60 + Minute t in
              if from_m \<le> to_m then from_m \<le> m \<and> m < to_m else from_m \<le> m \<or> m < to_m
          | _ \<Rightarrow> False))"

definition AutoPromoteRule :: "Config \<Rightarrow> string \<Rightarrow> LocalTime \<Rightarrow> int \<Rightarrow> instant option \<Rightarrow> bool" where
  "AutoPromoteRule c rule t viewers swapAt =
    (if (case swapAt of Some at' \<Rightarrow> moment t < at' | None \<Rightarrow> False) then False
     else if rule = RuleImmediate then True
     else if rule = RuleQuietWindow then InQuietWindow (QuietWindow c) t \<and> viewers \<le> QuietMaxViewers c
     else False)"

definition AutoPromote :: "Config \<Rightarrow> string list \<Rightarrow> LocalTime \<Rightarrow> int \<Rightarrow> instant option \<Rightarrow> bool" where
  "AutoPromote c kinds t viewers swapAt = AutoPromoteRule c (StrictestRule c kinds) t viewers swapAt"

section \<open>The controller's swap (controller.go, store.go)\<close>

text \<open>
  The rows of \<open>tv_changes\<close> (their state), the events written so far and the jobs enqueued.
  An event keeps its change, the states, the action and whether an admin did it.
\<close>

record Event =
  EvChange :: string
  FromState :: string
  ToState :: string
  EvAction :: string
  ByAdmin :: bool

record DB =
  tv_changes :: "string \<rightharpoonup> string"
  events :: "Event list"
  jobs :: "(string \<times> string) list"

text \<open>Which queries fail in a call, and whether the controller has a queue.\<close>

record Faults =
  f_move :: bool
  f_held :: bool
  f_config :: bool
  f_enqueue :: bool
  f_revert :: bool
  no_queue :: bool

datatype error = ConflictError string string | StoreFailed | ConfigFailed | NoQueue | EnqueueFailed

text \<open>
  \<open>Move\<close>: the state and its event in one transaction, for a row still in the state the caller
  read. Fault and conflict leave the database and the caller's change as they were.
\<close>

definition Move ::
  "Faults \<Rightarrow> Change \<Rightarrow> string \<Rightarrow> string \<Rightarrow> bool \<Rightarrow> DB \<Rightarrow> error option \<times> Change \<times> DB" where
  "Move f c to action admin w =
    (if f_move f then (Some StoreFailed, c, w)
     else if tv_changes w (ID c) \<noteq> Some (CState c) then (Some (ConflictError (CState c) ''''), c, w)
     else (None, c\<lparr>CState := to\<rparr>,
           w\<lparr>tv_changes := (tv_changes w)(ID c \<mapsto> to),
             events := events w @ [\<lparr>EvChange = ID c, FromState = CState c, ToState = to,
               EvAction = action, ByAdmin = admin\<rparr>]\<rparr>))"

text \<open>Ids of events count from 1 in the order of the list; \<open>MAX\<close> of none is 0.\<close>

fun last_id :: "(Event \<Rightarrow> bool) \<Rightarrow> nat \<Rightarrow> Event list \<Rightarrow> nat" where
  "last_id P n [] = 0"
| "last_id P n (e # es) = (let l = last_id P (Suc n) es in if l \<noteq> 0 then l else if P e then n else 0)"

definition HeldAfterSwapFailure :: "string \<Rightarrow> DB \<Rightarrow> bool" where
  "HeldAfterSwapFailure cid w \<longleftrightarrow>
     last_id (\<lambda>e. EvChange e = cid \<and> ByAdmin e) 1 (events w)
     < last_id (\<lambda>e. EvChange e = cid \<and> EvAction e = ActionSwapFailed) 1 (events w)"

definition revertSwapStart :: "Faults \<Rightarrow> string \<Rightarrow> string \<Rightarrow> bool \<Rightarrow> DB \<Rightarrow> DB" where
  "revertSwapStart f cid prev admin w =
    (if f_revert f \<or> tv_changes w cid \<noteq> Some StateSwapping then w
     else w\<lparr>tv_changes := (tv_changes w)(cid \<mapsto> prev),
            events := events w @ [\<lparr>EvChange = cid, FromState = StateSwapping, ToState = prev,
              EvAction = ActionSwapNotStarted, ByAdmin = admin\<rparr>]\<rparr>)"

definition StageTVSwap :: string where "StageTVSwap = ''tv_swap''"

text \<open>\<open>startSwap\<close> (by the controller) and \<open>startSwapBy\<close> (by an admin) differ in the state they revert to.\<close>

definition start_swap ::
  "Faults \<Rightarrow> Change \<Rightarrow> string \<Rightarrow> string \<Rightarrow> bool \<Rightarrow> DB \<Rightarrow> error option \<times> Change \<times> DB" where
  "start_swap f c action prev admin w =
    (if no_queue f then (Some NoQueue, c, w)
     else case Move f c StateSwapping action admin w of
            (Some err, c', w') \<Rightarrow> (Some err, c', w')
          | (None, c', w') \<Rightarrow>
              if f_enqueue f then (Some EnqueueFailed, c', revertSwapStart f (ID c) prev admin w')
              else (None, c', w'\<lparr>jobs := jobs w' @ [(StageTVSwap, ID c)]\<rparr>))"

definition startSwap :: "Faults \<Rightarrow> Change \<Rightarrow> string \<Rightarrow> DB \<Rightarrow> error option \<times> Change \<times> DB" where
  "startSwap f c action w =
     start_swap f c action (if action = ActionAutoPromote then StateReady else StateApproved) False w"

definition startSwapBy :: "Faults \<Rightarrow> Change \<Rightarrow> string \<Rightarrow> bool \<Rightarrow> DB \<Rightarrow> error option \<times> Change \<times> DB" where
  "startSwapBy f c action admin w = start_swap f c action (CState c) admin w"

text \<open>The viewers of all channels; an unreadable count is never quiet.\<close>

definition viewers :: "int option \<Rightarrow> int" where
  "viewers n = (case n of Some k \<Rightarrow> k | None \<Rightarrow> 2 ^ 20)"

definition ready ::
  "Faults \<Rightarrow> Config \<Rightarrow> Change \<Rightarrow> LocalTime \<Rightarrow> int option \<Rightarrow> DB \<Rightarrow> error option \<times> Change \<times> DB" where
  "ready f cfg c t n w =
    (if f_held f then (Some StoreFailed, c, w)
     else if HeldAfterSwapFailure (ID c) w then (None, c, w)
     else if ApprovedBy c \<noteq> [] then Move f c StateApproved ActionAutoApprove False w
     else
       let rule = ChangeRule cfg c in
       if rule = RuleApproval then (None, c, w)
       else if AutoPromoteRule cfg rule t (viewers n) (SwapAt c) then startSwap f c ActionAutoPromote w
       else (None, c, w))"

text \<open>The tick's case for an approved change: its swap starts once \<open>swap_at\<close> has come.\<close>

definition tick_approved :: "Faults \<Rightarrow> Change \<Rightarrow> instant \<Rightarrow> DB \<Rightarrow> error option \<times> Change \<times> DB" where
  "tick_approved f c now w =
    (if (case SwapAt c of None \<Rightarrow> True | Some t \<Rightarrow> t \<le> now) then startSwap f c ActionSwapStart w
     else (None, c, w))"

definition Promote :: "Faults \<Rightarrow> Config \<Rightarrow> Change \<Rightarrow> bool \<Rightarrow> DB \<Rightarrow> error option \<times> Change \<times> DB" where
  "Promote f cfg c admin w =
    (if CState c = StateApproved then startSwapBy f c ActionPromote admin w
     else if CState c = StateReady then
       (if f_config f then (Some ConfigFailed, c, w)
        else if ChangeRule cfg c = RuleApproval
        then (Some (ConflictError (CState c) ''approval_required''), c, w)
        else startSwapBy f c ActionPromote admin w)
     else (Some (ConflictError (CState c) ''''), c, w))"

section \<open>The life of a change\<close>

text \<open>A history of actions from a state, each allowed where it is taken.\<close>

fun path :: "string \<Rightarrow> string list \<Rightarrow> string option" where
  "path s [] = Some s"
| "path s (a # as) = (case Next s a of None \<Rightarrow> None | Some s' \<Rightarrow> path s' as)"

lemma path_append: "path s (as @ bs) = (case path s as of None \<Rightarrow> None | Some s' \<Rightarrow> path s' bs)"
  by (induction as arbitrary: s) (auto split: option.split)

lemma Next_edges:
  "Next s a = Some s' \<longleftrightarrow> (\<exists>as. (s, as) \<in> set table \<and> (a, s') \<in> set as)"
proof -
  have keys: "distinct (map fst table)" by (simp add: table_def tv_states)
  have "distinct (map fst as)" if "(s, as) \<in> set table" for as
    using that by (auto simp: table_def tv_states tv_actions)
  with keys show ?thesis
    by (auto simp: Next_def actions_of_def split: option.splits dest: map_of_SomeD)
qed

text \<open>The checks a change has gone through by the time it is in a state.\<close>

definition checks_done :: "string \<Rightarrow> string list" where
  "checks_done s =
    (if s = StateStaged then [ActionStage]
     else if s = StateVerifying then [ActionStage, ActionStartVerify]
     else if s \<in> {StateReady, StateApproved, StateSwapping, StateLive, StateRolledBack}
     then [ActionStage, ActionStartVerify, ActionPass] else [])"

lemma checks_done_simps:
  "checks_done StateDraft = []" "checks_done StateStaged = [ActionStage]"
  "checks_done StateVerifying = [ActionStage, ActionStartVerify]"
  "checks_done StateReady = [ActionStage, ActionStartVerify, ActionPass]"
  "checks_done StateApproved = [ActionStage, ActionStartVerify, ActionPass]"
  "checks_done StateSwapping = [ActionStage, ActionStartVerify, ActionPass]"
  "checks_done StateLive = [ActionStage, ActionStartVerify, ActionPass]"
  "checks_done StateRolledBack = [ActionStage, ActionStartVerify, ActionPass]"
  "checks_done StateSuperseded = []" "checks_done StateCancelled = []" "checks_done StateFailed = []"
  by (simp_all add: checks_done_def tv_states)

lemma checks_step:
  assumes "Next s a = Some s'"
  shows "prefix (checks_done s') (checks_done s) \<or> checks_done s' = checks_done s @ [a]"
proof -
  obtain as where "(s, as) \<in> set table" "(a, s') \<in> set as" using assms unfolding Next_edges by blast
  then show ?thesis
    unfolding table_def by (auto simp: checks_done_simps)
qed

lemma path_checks:
  assumes "path StateDraft as = Some s"
  shows "subseq (checks_done s) as"
  using assms
proof (induction as arbitrary: s rule: rev_induct)
  case Nil
  then have "s = StateDraft" by simp
  then show ?case by (simp add: checks_done_simps)
next
  case (snoc a as)
  then obtain s0 where s0: "path StateDraft as = Some s0" "Next s0 a = Some s"
    by (auto simp: path_append split: option.splits)
  have grow: "subseq (xs @ ys) (as @ [a])" if "subseq xs as" "subseq ys [a]" for xs ys
    using that by (rule list_emb_append_mono)
  from checks_step [OF s0(2)] show ?case
  proof
    assume "prefix (checks_done s) (checks_done s0)"
    then have "subseq (checks_done s) as"
      using snoc.IH [OF s0(1)] prefix_imp_subseq subseq_order.trans by blast
    from grow [OF this, of "[]"] show ?thesis by simp
  next
    assume "checks_done s = checks_done s0 @ [a]"
    with grow [OF snoc.IH [OF s0(1)], of "[a]"] show ?thesis by simp
  qed
qed

text \<open>
  Property C6. Nothing goes on the air unchecked: every history of actions that takes a draft
  to live holds, in this order, a staging, a start of its verification, a pass, and a promotion
  (by an admin, by a rule or by the controller), and ends with the swap.
\<close>
theorem live_only_after_checks:
  assumes "path StateDraft as = Some StateLive"
  shows "subseq [ActionStage, ActionStartVerify, ActionPass] as
    \<and> last as \<in> {ActionSwap, ActionSwapDone}
    \<and> (\<exists>a \<in> {ActionPromote, ActionAutoPromote, ActionSwapStart}. a \<in> set as)"
proof -
  have swapping: "\<exists>a \<in> {ActionPromote, ActionAutoPromote, ActionSwapStart}. a \<in> set bs"
    if "path StateDraft bs = Some StateSwapping" for bs
    using that
  proof (cases bs rule: rev_cases)
    case (snoc bs' a)
    with that obtain s0 where "Next s0 a = Some StateSwapping"
      by (auto simp: path_append split: option.splits)
    then have "a \<in> {ActionPromote, ActionAutoPromote, ActionSwapStart}"
      unfolding Next_edges by (auto simp: table_def tv_states)
    with snoc show ?thesis by auto
  qed (simp add: tv_states)
  obtain bs a where as: "as = bs @ [a]"
    using assms by (cases as rule: rev_cases) (auto simp: tv_states)
  with assms obtain s0 where s0: "path StateDraft bs = Some s0" "Next s0 a = Some StateLive"
    by (auto simp: path_append split: option.splits)
  then have "s0 = StateSwapping" "a \<in> {ActionSwap, ActionSwapDone}"
    unfolding Next_edges by (auto simp: table_def tv_states)
  with swapping s0(1) as path_checks [OF assms] show ?thesis
    by (auto simp: checks_done_simps)
qed

theorem live_only_after_checks_witness:
  "path StateDraft [ActionStage, ActionStartVerify, ActionPass, ActionApprove, ActionSwapStart, ActionSwapDone]
     = Some StateLive
   \<and> subseq [ActionStage, ActionStartVerify, ActionPass]
       [ActionStage, ActionStartVerify, ActionPass, ActionApprove, ActionSwapStart, ActionSwapDone]"
proof -
  have "path StateDraft [ActionStage, ActionStartVerify, ActionPass, ActionApprove, ActionSwapStart, ActionSwapDone]
     = Some StateLive" by code_simp
  with live_only_after_checks [OF this] show ?thesis by blast
qed

text \<open>
  What the Changes page offers can be done: the actions offered in a state are
  sorted, without repetition, an admin's, and each is an edge of the state machine, whatever the
  state and the source; and in a terminal state none is offered.
\<close>
theorem AllowedActions_are_edges:
  "sorted (AllowedActions s k) \<and> distinct (AllowedActions s k)
   \<and> set (AllowedActions s k) \<subseteq> {a \<in> set adminActions. Next s a \<noteq> None}
   \<and> (Terminal s \<longleftrightarrow> (\<forall>a. Next s a = None))
   \<and> (Terminal s \<longrightarrow> AllowedActions s k = [])"
proof -
  have edge: "Next s a \<noteq> None \<longleftrightarrow> a \<in> fst ` set (actions_of s)" for a
    unfolding Next_def by (metis domIff dom_map_of_conv_image_fst)
  have dist: "distinct (map fst (actions_of s))"
  proof (cases "map_of table s")
    case (Some as)
    then have "(s, as) \<in> set table" by (rule map_of_SomeD)
    then have "distinct (map fst as)" by (auto simp: table_def tv_actions)
    with Some show ?thesis by (simp add: actions_of_def)
  qed (simp add: actions_of_def)
  have "ActionRollback \<in> set (map fst (actions_of StateLive))"
    "ActionRollback \<in> set (map fst (actions_of StateSwapping))" by code_simp+
  then have rollback: "ActionRollback \<in> fst ` set (actions_of s)" if "s = StateLive \<or> s = StateSwapping"
    using that by auto
  have "\<not> Terminal StateLive" "\<not> Terminal StateSwapping" by code_simp+
  then have "s \<noteq> StateLive \<and> s \<noteq> StateSwapping" if "Terminal s"
    using that by auto
  then have none: "Terminal s \<longrightarrow> AllowedActions s k = []"
    by (auto simp: AllowedActions_def Terminal_def)
  have "(\<forall>a. Next s a = None) \<longleftrightarrow> (\<forall>a. a \<notin> fst ` set (actions_of s))"
    unfolding edge [symmetric] by simp
  also have "\<dots> \<longleftrightarrow> fst ` set (actions_of s) = {}" by (rule all_not_in_conv)
  finally have "Terminal s \<longleftrightarrow> (\<forall>a. Next s a = None)"
    by (simp add: Terminal_def)
  moreover have "set (AllowedActions s k) \<subseteq> {a \<in> set adminActions. Next s a \<noteq> None}"
  proof -
    have "ActionRollback \<in> set adminActions" by (simp add: adminActions_def)
    then show ?thesis
      using rollback unfolding AllowedActions_def Let_def edge
      by (cases "s = StateLive \<or> s = StateSwapping") (auto simp: appendOnce_def)
  qed
  moreover have "distinct (AllowedActions s k)"
    using dist unfolding AllowedActions_def Let_def by (auto simp: appendOnce_def distinct_map_filter)
  ultimately show ?thesis using none by (simp add: AllowedActions_def Let_def)
qed

theorem AllowedActions_are_edges_witness:
  "AllowedActions StateFailed ''editor'' = []"
proof -
  have "Terminal StateFailed" by code_simp
  then show ?thesis using AllowedActions_are_edges [of StateFailed "''editor''"] by blast
qed

section \<open>What the controller may put on the air\<close>

lemma Move_success:
  "Move f c to a admin w = (None, c', w') \<longleftrightarrow>
     \<not> f_move f \<and> tv_changes w (ID c) = Some (CState c) \<and> c' = c\<lparr>CState := to\<rparr>
     \<and> w' = w\<lparr>tv_changes := (tv_changes w)(ID c \<mapsto> to), events := events w @ [\<lparr>EvChange = ID c,
          FromState = CState c, ToState = to, EvAction = a, ByAdmin = admin\<rparr>]\<rparr>"
  by (auto simp: Move_def)

lemma Move_failure: "Move f c to a admin w = (Some err, c', w') \<Longrightarrow> c' = c \<and> w' = w"
  by (auto simp: Move_def split: if_splits)

text \<open>A swap job is enqueued only for a change whose row moved to swapping by the action given.\<close>

lemma start_swap_jobs:
  assumes "start_swap f c a prev admin w = (err, c', w')"
  shows "(jobs w' = jobs w @ [(StageTVSwap, ID c)] \<and> err = None \<and> tv_changes w (ID c) = Some (CState c)
           \<and> tv_changes w' (ID c) = Some StateSwapping)
       \<or> (jobs w' = jobs w \<and> err \<noteq> None)"
  using assms
  by (auto simp: start_swap_def revertSwapStart_def Move_success split: if_splits prod.splits option.splits
      dest: Move_failure)

lemma AutoPromoteRule_cases:
  "AutoPromoteRule cfg rule t n sw \<Longrightarrow>
     (case sw of Some at' \<Rightarrow> at' \<le> moment t | None \<Rightarrow> True)
     \<and> (rule = RuleImmediate \<or> rule = RuleQuietWindow \<and> InQuietWindow (QuietWindow cfg) t \<and> n \<le> QuietMaxViewers cfg)"
  by (auto simp: AutoPromoteRule_def split: if_splits option.splits)

text \<open>
  Property C7. Nothing of a person's goes on the air by itself. If a tick's look at a ready
  change enqueues a swap, the change was made by the system, nobody approved it ahead (then it is
  approved, not swapped), its last swap did not fail without an admin acting since, its \<open>swap_at\<close>
  has come, and its rule is immediate, or it is the quiet window with few enough viewers known to
  watch. \<open>Promote\<close> on a ready change refuses one that waits for an approval, and changes nothing.
\<close>
theorem automatic_swap_justified:
  assumes "ready f cfg c t n w = (err, c', w')"
  shows "(jobs w' \<noteq> jobs w \<longrightarrow>
      Origin c = OriginAuto \<and> ApprovedBy c = [] \<and> \<not> HeldAfterSwapFailure (ID c) w
      \<and> (case SwapAt c of Some at' \<Rightarrow> at' \<le> moment t | None \<Rightarrow> True)
      \<and> (ChangeRule cfg c = RuleImmediate
         \<or> ChangeRule cfg c = RuleQuietWindow \<and> InQuietWindow (QuietWindow cfg) t \<and> viewers n \<le> QuietMaxViewers cfg)
      \<and> tv_changes w (ID c) = Some (CState c) \<and> tv_changes w' (ID c) = Some StateSwapping)
    \<and> (CState c = StateReady \<longrightarrow> Origin c \<noteq> OriginAuto \<longrightarrow>
         (\<exists>e. Promote f cfg c admin w = (Some e, c, w)))"
proof (intro conjI impI)
  assume j: "jobs w' \<noteq> jobs w"
  have nm: "\<not> f_held f" "\<not> HeldAfterSwapFailure (ID c) w"
    using assms j by (auto simp: ready_def split: if_splits)
  have na: "ApprovedBy c = []"
  proof (rule ccontr)
    assume "ApprovedBy c \<noteq> []"
    with assms nm have "Move f c StateApproved ActionAutoApprove False w = (err, c', w')"
      by (simp add: ready_def)
    with j show False by (cases err) (auto simp: Move_success dest: Move_failure)
  qed
  with assms nm j have auto: "AutoPromoteRule cfg (ChangeRule cfg c) t (viewers n) (SwapAt c)"
    and sw: "startSwap f c ActionAutoPromote w = (err, c', w')" and rule: "ChangeRule cfg c \<noteq> RuleApproval"
    by (auto simp: ready_def Let_def split: if_splits)
  from rule have o: "Origin c = OriginAuto" by (auto simp: ChangeRule_def split: if_splits)
  from sw j start_swap_jobs [of f c ActionAutoPromote _ False w err c' w'] have
    "tv_changes w (ID c) = Some (CState c)" "tv_changes w' (ID c) = Some StateSwapping"
    unfolding startSwap_def by auto
  with o na nm AutoPromoteRule_cases [OF auto]
  show "Origin c = OriginAuto" "ApprovedBy c = []" "\<not> HeldAfterSwapFailure (ID c) w"
    "case SwapAt c of Some at' \<Rightarrow> at' \<le> moment t | None \<Rightarrow> True"
    "ChangeRule cfg c = RuleImmediate \<or> ChangeRule cfg c = RuleQuietWindow
      \<and> InQuietWindow (QuietWindow cfg) t \<and> viewers n \<le> QuietMaxViewers cfg"
    "tv_changes w (ID c) = Some (CState c)" "tv_changes w' (ID c) = Some StateSwapping" by auto
next
  assume "CState c = StateReady" and "Origin c \<noteq> OriginAuto"
  then show "\<exists>e. Promote f cfg c admin w = (Some e, c, w)"
    by (auto simp: Promote_def ChangeRule_def tv_states)
qed

abbreviation quiet_config :: Config where
  "quiet_config \<equiv> \<lparr>AutoPromote_rules = (\<lambda>_. RuleQuietWindow), QuietWindow = ''23:00-02:00'', QuietMaxViewers = 0\<rparr>"

definition ready_change :: Change where
  "ready_change = \<lparr>ID = ''c'', CState = StateReady, Kinds = [''lineup''], SourceKind = ''schedule'',
     Origin = OriginAuto, ApprovedBy = [], SwapAt = None\<rparr>"

definition ready_db :: DB where
  "ready_db = \<lparr>tv_changes = [''c'' \<mapsto> StateReady], events = [], jobs = []\<rparr>"

abbreviation works :: Faults where
  "works \<equiv> \<lparr>f_move = False, f_held = False, f_config = False, f_enqueue = False, f_revert = False, no_queue = False\<rparr>"

theorem automatic_swap_justified_witness:
  "InQuietWindow ''23:00-02:00'' \<lparr>moment = 5, Hour = 0, Minute = 30\<rparr>"
proof -
  let ?t = "\<lparr>moment = 5, Hour = 0, Minute = 30\<rparr>"
  obtain err c' w' where r: "ready works quiet_config ready_change ?t (Some 0) ready_db = (err, c', w')"
    by (rule prod_cases3)
  have "jobs (snd (snd (ready works quiet_config ready_change ?t (Some 0) ready_db))) = [(StageTVSwap, ''c'')]"
    by code_simp
  moreover have "jobs ready_db = []" "ChangeRule quiet_config ready_change \<noteq> RuleImmediate" by code_simp+
  ultimately show ?thesis
    using automatic_swap_justified [OF r] r by auto
qed

text \<open>
  The hour may be 24 with any minutes: \<open>24:59\<close> is not a time, yet a window to it is not taken
  for malformed but covers the day to its end.
\<close>

lemma hour_24_is_taken:
  "hm ''24:59'' = Some 1499"
  "InQuietWindow ''23:00-24:59'' \<lparr>moment = 0, Hour = 23, Minute = 59\<rparr>"
  "\<not> InQuietWindow ''23:00-24:59'' \<lparr>moment = 0, Hour = 0, Minute = 30\<rparr>"
  by code_simp+

end
