(* ===== verification/Version_Order.thy ===== *)
theory Version_Order
  imports Prelude "HOL-Library.Product_Lexorder"
begin

text \<open>
  The order of release versions and the watermark no update goes below:
  \<^verbatim>\<open>shared/go/releaseverify/version/version.go\<close>, \<^verbatim>\<open>releaseverify/monotonic.go\<close> and \<^verbatim>\<open>order.go\<close>, and
  the second order of the install layout, \<^verbatim>\<open>shared/go/layout/semver.go\<close>. Version strings are
  ASCII. The regular expression of a \<open>git describe\<close> build has a \<open>-\<close> only between its parts, so
  it is matched on the parts.
\<close>

section \<open>Release versions (version.go)\<close>

definition trim_prefix_v :: "string \<Rightarrow> string" where
  "trim_prefix_v s = (case s of c # cs \<Rightarrow> if c = CHR ''v'' then cs else s | [] \<Rightarrow> s)"

definition before_plus :: "string \<Rightarrow> string" where
  "before_plus s = takeWhile (\<lambda>c. c \<noteq> CHR ''+'') s"

definition cut_dirty :: "string \<Rightarrow> string \<times> bool" where
  "cut_dirty s = (if suffix ''-dirty'' s then (take (length s - 6) s, True) else (s, False))"

definition digits :: "string \<Rightarrow> bool" where
  "digits s \<longleftrightarrow> s \<noteq> [] \<and> list_all is_digit s"

definition core_shape :: "string \<Rightarrow> bool" where
  "core_shape s = (case split_on (CHR ''.'') s of [a, b, c] \<Rightarrow> digits a \<and> digits b \<and> digits c | _ \<Rightarrow> False)"

definition hash_shape :: "string \<Rightarrow> bool" where
  "hash_shape s = (case s of c # h \<Rightarrow> c = CHR ''g'' \<and> 4 \<le> length h \<and> length h \<le> 40
       \<and> list_all (\<lambda>x. is_digit x \<or> CHR ''a'' \<le> x \<and> x \<le> CHR ''f'') h | [] \<Rightarrow> False)"

text \<open>The two groups of \<open>describeBuild\<close>: the tag and the commits; \<open>letter\<close> is the suffix's class.\<close>

definition describeBuild :: "(char \<Rightarrow> bool) \<Rightarrow> string \<Rightarrow> (string \<times> string) option" where
  "describeBuild letter v =
    (case split_on (CHR ''-'') v of
       [core, n, g] \<Rightarrow>
         if core_shape core \<and> digits n \<and> hash_shape g then Some (core, n) else None
     | [core, pre, n, g] \<Rightarrow>
         if core_shape core \<and> pre \<noteq> [] \<and> list_all letter pre \<and> digits n \<and> hash_shape g
         then Some (core @ ''-'' @ pre, n) else None
     | _ \<Rightarrow> None)"

definition lower_suffix :: "char \<Rightarrow> bool" where
  "lower_suffix c \<longleftrightarrow> is_digit c \<or> CHR ''a'' \<le> c \<and> c \<le> CHR ''z'' \<or> c = CHR ''.''"

definition describe_of :: "(char \<Rightarrow> bool) \<Rightarrow> string \<Rightarrow> string \<times> int \<times> bool" where
  "describe_of letter v =
    (let (v, dirty) = cut_dirty v in
     case describeBuild letter v of
       Some (tag, n) \<Rightarrow> (case atoi n of Some k \<Rightarrow> (tag, k, dirty) | None \<Rightarrow> (v, 0, dirty))
     | None \<Rightarrow> (v, 0, dirty))"

definition splitDescribe :: "string \<Rightarrow> string \<times> int \<times> bool" where
  "splitDescribe v = describe_of lower_suffix (before_plus (trim_prefix_v (trim_space (to_lower v))))"

definition cmpInt :: "int \<Rightarrow> int \<Rightarrow> int" where
  "cmpInt x y = (if y < x then 1 else if x < y then -1 else 0)"

text \<open>\<open>None\<close> in a part, or a negative number, makes the whole core empty.\<close>

fun core_ints :: "string list \<Rightarrow> int list option" where
  "core_ints [] = Some []"
| "core_ints (p # ps) =
     (case (atoi p, core_ints ps) of (Some n, Some ns) \<Rightarrow> if n < 0 then None else Some (n # ns) | _ \<Rightarrow> None)"

definition splitVersion :: "string \<Rightarrow> int list \<times> string" where
  "splitVersion v =
    (let v = before_plus (trim_prefix_v (trim_space (to_lower v)));
         (core, pre) = (case cut_at (CHR ''-'') v of Some (c, p) \<Rightarrow> (c, p) | None \<Rightarrow> (v, ''''))
     in if core = '''' then ([], pre)
        else (case core_ints (split_on (CHR ''.'') core) of Some ns \<Rightarrow> (ns, pre) | None \<Rightarrow> ([], pre)))"

definition string_compare :: "string \<Rightarrow> string \<Rightarrow> int" where
  "string_compare a b = (if a = b then 0 else if a < b then -1 else 1)"

text \<open>The loop over the cores: a missing part is 0.\<close>

fun compare_cores :: "int list \<Rightarrow> int list \<Rightarrow> int" where
  "compare_cores [] [] = 0"
| "compare_cores (x # xs) [] = (if x \<noteq> 0 then cmpInt x 0 else compare_cores xs [])"
| "compare_cores [] (y # ys) = (if y \<noteq> 0 then cmpInt 0 y else compare_cores [] ys)"
| "compare_cores (x # xs) (y # ys) = (if x \<noteq> y then cmpInt x y else compare_cores xs ys)"

text \<open>The loop over the identifiers of two prereleases; at its end the lengths decide.\<close>

fun compare_idents :: "string list \<Rightarrow> string list \<Rightarrow> int" where
  "compare_idents (x # xs) (y # ys) =
     (case (atoi x, atoi y) of
        (Some m, Some n) \<Rightarrow> if m \<noteq> n then cmpInt m n else compare_idents xs ys
      | (Some _, None) \<Rightarrow> -1
      | (None, Some _) \<Rightarrow> 1
      | (None, None) \<Rightarrow> if string_compare x y \<noteq> 0 then string_compare x y else compare_idents xs ys)"
| "compare_idents xs ys = cmpInt (int (length xs)) (int (length ys))"

definition compareReleases :: "string \<Rightarrow> string \<Rightarrow> int" where
  "compareReleases a b =
    (let (ac, ap) = splitVersion a; (bc, bp) = splitVersion b; c = compare_cores ac bc in
     if c \<noteq> 0 then c
     else if ap = '''' \<and> bp = '''' then 0
     else if ap = '''' then 1
     else if bp = '''' then -1
     else compare_idents (split_on (CHR ''.'') ap) (split_on (CHR ''.'') bp))"

definition Compare :: "string \<Rightarrow> string \<Rightarrow> int" where
  "Compare a b =
    (let (ta, na, da) = splitDescribe a; (tb, nb, db) = splitDescribe b; c = compareReleases ta tb in
     if c \<noteq> 0 then c
     else if cmpInt na nb \<noteq> 0 then cmpInt na nb
     else if da = db then 0 else if da then 1 else -1)"

definition IsPrerelease :: "string \<Rightarrow> bool" where
  "IsPrerelease v = (let (tag, _, _) = splitDescribe v in snd (splitVersion tag) \<noteq> '''')"

definition SameLine :: "string \<Rightarrow> string \<Rightarrow> bool" where
  "SameLine a b =
    (let ca = fst (splitVersion (fst (splitDescribe a))); cb = fst (splitVersion (fst (splitDescribe b))) in
     if length ca < 2 \<or> length cb < 2 then False else ca ! 0 = cb ! 0 \<and> ca ! 1 = cb ! 1)"

section \<open>The layout's order (semver.go, layout.go)\<close>

definition NormalizeVersion :: "string \<Rightarrow> string" where
  "NormalizeVersion v =
    (let v = trim_space v in
     case v of a # b # rest \<Rightarrow> if (a = CHR ''v'' \<or> a = CHR ''V'') \<and> is_digit b then b # rest else v
     | _ \<Rightarrow> v)"

definition any_suffix :: "char \<Rightarrow> bool" where
  "any_suffix c \<longleftrightarrow> lower_suffix c \<or> CHR ''A'' \<le> c \<and> c \<le> CHR ''Z''"

definition layout_SplitDescribe :: "string \<Rightarrow> string \<times> int \<times> bool" where
  "layout_SplitDescribe v = describe_of any_suffix (before_plus (NormalizeVersion v))"

definition ParseUint :: "string \<Rightarrow> int option" where
  "ParseUint s = (if digits s \<and> digits_val 0 s < 2 ^ 64 then Some (digits_val 0 s) else None)"

definition numericCore :: "string \<Rightarrow> bool" where
  "numericCore c = list_all (\<lambda>p. ParseUint p \<noteq> None) (split_on (CHR ''.'') c)"

text \<open>One position of \<open>compareDotted\<close>: \<open>None\<close> goes on to the next.\<close>

definition dotted_part :: "string \<Rightarrow> string \<Rightarrow> int option" where
  "dotted_part x y =
    (if x = y then None
     else if x = '''' then Some (-1)
     else if y = '''' then Some 1
     else (case (ParseUint x, ParseUint y) of
             (Some m, Some n) \<Rightarrow> if m < n then Some (-1) else Some 1
           | (Some _, None) \<Rightarrow> Some (-1)
           | (None, Some _) \<Rightarrow> Some 1
           | (None, None) \<Rightarrow> if x < y then Some (-1) else Some 1))"

fun dotted_loop :: "string \<Rightarrow> string list \<Rightarrow> string list \<Rightarrow> int" where
  "dotted_loop fill [] [] = 0"
| "dotted_loop fill (x # xs) [] = (case dotted_part x fill of Some r \<Rightarrow> r | None \<Rightarrow> dotted_loop fill xs [])"
| "dotted_loop fill [] (y # ys) = (case dotted_part fill y of Some r \<Rightarrow> r | None \<Rightarrow> dotted_loop fill [] ys)"
| "dotted_loop fill (x # xs) (y # ys) = (case dotted_part x y of Some r \<Rightarrow> r | None \<Rightarrow> dotted_loop fill xs ys)"

definition compareDotted :: "string \<Rightarrow> string \<Rightarrow> bool \<Rightarrow> int" where
  "compareDotted a b core =
     dotted_loop (if core then ''0'' else '''') (split_on (CHR ''.'') a) (split_on (CHR ''.'') b)"

definition cut_dash :: "string \<Rightarrow> string \<times> string" where
  "cut_dash s = (case cut_at (CHR ''-'') s of Some p \<Rightarrow> p | None \<Rightarrow> (s, ''''))"

definition layout_compareReleases :: "string \<Rightarrow> string \<Rightarrow> int" where
  "layout_compareReleases a b =
    (let a = before_plus (to_lower (NormalizeVersion a)); b = before_plus (to_lower (NormalizeVersion b));
         (ac, ap) = cut_dash a; (bc, bp) = cut_dash b;
         an = numericCore ac; bn = numericCore bc in
     if an \<and> \<not> bn then 1
     else if \<not> an \<and> bn then -1
     else if \<not> an \<and> \<not> bn then string_compare a b
     else
       let c = compareDotted ac bc True in
       if c \<noteq> 0 then c
       else if ap = '''' \<and> bp = '''' then 0
       else if ap = '''' then 1
       else if bp = '''' then -1
       else compareDotted ap bp False)"

definition CompareVersions :: "string \<Rightarrow> string \<Rightarrow> int" where
  "CompareVersions a b =
    (let (ta, na, da) = layout_SplitDescribe a; (tb, nb, db) = layout_SplitDescribe b;
         c = layout_compareReleases ta tb in
     if c \<noteq> 0 then c
     else if cmpInt na nb \<noteq> 0 then cmpInt na nb
     else if da = db then 0 else if da then 1 else -1)"

definition SortVersions :: "string list \<Rightarrow> string list" where
  "SortVersions vs = sort_by (\<lambda>a b. CompareVersions a b < 0) vs"

section \<open>The order is the order of a key\<close>

text \<open>The comparison the code's three-way results are, on any linear order.\<close>

definition ord_of :: "'a :: linorder \<Rightarrow> 'a \<Rightarrow> int" where
  "ord_of x y = (if y < x then 1 else if x < y then -1 else 0)"

lemma ord_of_pair: "ord_of (a, b) (c, d) = (if ord_of a c \<noteq> 0 then ord_of a c else ord_of b d)"
  by (auto simp: ord_of_def less_prod_simp)

lemma ord_of_Cons: "ord_of (x # xs) (y # ys) = (if x \<noteq> y then ord_of x y else ord_of xs ys)"
  by (auto simp: ord_of_def)

lemma ord_of_Nil: "ord_of [] [] = 0" "ord_of (x # xs) [] = 1" "ord_of [] (y # ys) = -1"
  by (simp_all add: ord_of_def)

lemma ord_of_eq_0 [simp]: "ord_of x y = 0 \<longleftrightarrow> x = y"
  by (auto simp: ord_of_def)

lemma ord_of_props:
  "ord_of x y \<in> {-1, 0, 1}" "ord_of y x = - ord_of x y" "ord_of x y \<le> 0 \<longleftrightarrow> x \<le> y"
  by (auto simp: ord_of_def)

lemma cmpInt_ord: "cmpInt x y = ord_of x y"
  by (simp add: cmpInt_def ord_of_def)

lemma string_compare_ord: "string_compare x y = ord_of x y"
  by (auto simp: string_compare_def ord_of_def)

text \<open>A core without the zeros at its end; an identifier, numeric ones first.\<close>

fun strip0 :: "int list \<Rightarrow> int list" where
  "strip0 [] = []"
| "strip0 (x # xs) = (let r = strip0 xs in if x = 0 \<and> r = [] then [] else x # r)"

definition ident_key :: "string \<Rightarrow> bool \<times> int \<times> string" where
  "ident_key s = (case atoi s of Some n \<Rightarrow> (False, n, []) | None \<Rightarrow> (True, 0, s))"

definition pre_key :: "string \<Rightarrow> bool \<times> (bool \<times> int \<times> string) list" where
  "pre_key p = (if p = '''' then (True, []) else (False, map ident_key (split_on (CHR ''.'') p)))"

definition version_key :: "string \<Rightarrow> int list \<times> (bool \<times> (bool \<times> int \<times> string) list) \<times> int \<times> bool" where
  "version_key v =
    (let (t, n, d) = splitDescribe v; (core, pre) = splitVersion t in (strip0 core, pre_key pre, n, d))"

lemma compare_cores_ord:
  assumes "\<forall>x \<in> set xs. 0 \<le> x" and "\<forall>y \<in> set ys. 0 \<le> y"
  shows "compare_cores xs ys = ord_of (strip0 xs) (strip0 ys)"
  using assms
proof (induction xs ys rule: compare_cores.induct)
  case (2 x xs)
  then show ?case
    by (cases "strip0 xs") (auto simp: Let_def cmpInt_def ord_of_Nil ord_of_Cons)
next
  case (3 y ys)
  then show ?case
    by (cases "strip0 ys") (auto simp: Let_def cmpInt_def ord_of_Nil ord_of_Cons)
next
  case (4 x xs y ys)
  then have IH: "compare_cores xs ys = ord_of (strip0 xs) (strip0 ys)" if "x = y" using that by simp
  show ?case
  proof (cases "x = y")
    case True
    with IH show ?thesis
      by (cases "strip0 xs"; cases "strip0 ys") (auto simp: Let_def ord_of_Nil ord_of_Cons)
  next
    case False
    with 4(2,3) show ?thesis
      by (cases "strip0 xs"; cases "strip0 ys")
        (auto simp: Let_def ord_of_Nil ord_of_Cons cmpInt_def ord_of_def)
  qed
qed (simp add: ord_of_def)

lemma compare_idents_Nil1: "compare_idents [] ys = ord_of (map ident_key []) (map ident_key ys)"
  by (cases ys) (simp_all add: cmpInt_def ord_of_Nil)

lemma compare_idents_Nil2: "compare_idents xs [] = ord_of (map ident_key xs) (map ident_key [])"
  by (cases xs) (simp_all add: cmpInt_def ord_of_Nil)

lemma compare_idents_ord: "compare_idents xs ys = ord_of (map ident_key xs) (map ident_key ys)"
proof (induction xs arbitrary: ys)
  case Nil
  show ?case by (rule compare_idents_Nil1)
next
  case (Cons x xs)
  show ?case
  proof (cases ys)
    case Nil
    then show ?thesis by (simp only: compare_idents_Nil2)
  next
    case (Cons y zs)
    then show ?thesis using Cons.IH [of zs]
      by (auto simp: ident_key_def ord_of_Cons ord_of_pair cmpInt_ord string_compare_ord split: option.splits)
        (auto simp: ord_of_def)
  qed
qed

lemma core_ints_nonneg: "core_ints ps = Some ns \<Longrightarrow> \<forall>n \<in> set ns. 0 \<le> n"
  by (induction ps arbitrary: ns) (auto split: option.splits if_splits)

lemma splitVersion_nonneg: "splitVersion v = (ns, pre) \<Longrightarrow> \<forall>n \<in> set ns. 0 \<le> n"
  by (auto simp: splitVersion_def Let_def split: prod.splits if_splits option.splits dest: core_ints_nonneg)

lemma split_on_nonempty [simp]: "split_on c s \<noteq> []"
  by (induction s) (auto split: list.split)

lemma compareReleases_ord:
  assumes "splitVersion a = (ac, ap)" and "splitVersion b = (bc, bp)"
  shows "compareReleases a b = ord_of (strip0 ac, pre_key ap) (strip0 bc, pre_key bp)"
proof -
  have "compare_cores ac bc = ord_of (strip0 ac) (strip0 bc)"
    using assms by (intro compare_cores_ord splitVersion_nonneg)
  then show ?thesis
    by (auto simp: compareReleases_def assms Let_def ord_of_pair pre_key_def compare_idents_ord)
      (auto simp: ord_of_def)
qed

lemma Compare_key: "Compare a b = ord_of (version_key a) (version_key b)"
proof -
  obtain ta na da where sa: "splitDescribe a = (ta, na, da)" by (rule prod_cases3)
  obtain tb nb db where sb: "splitDescribe b = (tb, nb, db)" by (rule prod_cases3)
  obtain ac ap where va: "splitVersion ta = (ac, ap)" by (rule prod.exhaust)
  obtain bc bp where vb: "splitVersion tb = (bc, bp)" by (rule prod.exhaust)
  show ?thesis
    by (simp add: Compare_def version_key_def sa sb va vb Let_def compareReleases_ord ord_of_pair cmpInt_ord)
      (auto simp: ord_of_def)
qed

text \<open>
  Every updater orders releases consistently: on any two strings at all the order
  gives -1, 0 or 1, swapping them flips the sign, and it is reflexive and transitive; it is the
  order of a key: the core without its trailing zeros, then the prerelease (none ranks highest),
  then the commits after the tag, then dirty after clean.
\<close>
theorem Compare_total_preorder:
  "Compare a b \<in> {-1, 0, 1} \<and> Compare b a = - Compare a b \<and> Compare a a = 0
   \<and> (Compare a b \<le> 0 \<longrightarrow> Compare b c \<le> 0 \<longrightarrow> Compare a c \<le> 0)
   \<and> (Compare a b \<le> 0 \<longleftrightarrow> version_key a \<le> version_key b)"
  unfolding Compare_key ord_of_props(3)
  by (intro conjI impI) (rule ord_of_props(1) ord_of_props(2) refl | simp only: ord_of_eq_0 | erule (1) order_trans)+

theorem Compare_total_preorder_witness:
  "Compare ''v0.2.0'' ''0.2.1'' \<le> 0"
proof -
  have "Compare ''v0.2.0'' ''v0.2.0-1-gabc1234'' \<le> 0" "Compare ''v0.2.0-1-gabc1234'' ''0.2.1'' \<le> 0"
    by code_simp+
  then show ?thesis using Compare_total_preorder [of "''v0.2.0''"] by blast
qed

text \<open>
  The layout's order is not one: with a leading zero each of two versions is above the other,
  so the result of the sort depends on the order the versions came in. And a name that is no
  release ranks with 0.0.0, not below every release, in the first order.
\<close>

lemma layout_order_not_antisymmetric:
  "CompareVersions ''1.01'' ''1.1'' = 1" "CompareVersions ''1.1'' ''1.01'' = 1"
  "SortVersions [''1.01'', ''1.1''] = [''1.01'', ''1.1'']" "SortVersions [''1.1'', ''1.01''] = [''1.1'', ''1.01'']"
  by code_simp+

lemma unparseable_is_zero:
  "Compare ''dev'' ''0.0.0'' = 0" "Compare ''dev'' ''0.0.0-rc.1'' = 1" "CompareVersions ''dev'' ''0.0.0'' = -1"
  by code_simp+

section \<open>The watermark (monotonic.go, order.go)\<close>

text \<open>A zero time is \<open>None\<close>. Of a verified release the watermark reads these three fields.\<close>

record Watermark =
  WVersion :: string
  ChecksumsSHA256 :: string
  SignedAt :: "instant option"

record Result =
  RVersion :: string
  RChecksumsSHA256 :: string
  RSignedAt :: "instant option"

datatype kind = ErrManifest | ErrDowngrade | ErrReplay | ErrOlderBuild

abbreviation zero_watermark :: Watermark where
  "zero_watermark \<equiv> \<lparr>WVersion = '''', ChecksumsSHA256 = '''', SignedAt = None\<rparr>"

definition OlderBuild :: "string \<Rightarrow> instant option \<Rightarrow> string \<Rightarrow> instant option \<Rightarrow> bool" where
  "OlderBuild cand candSigned installed installedSigned =
    (case (candSigned, installedSigned) of
       (Some c, Some i) \<Rightarrow> if Compare cand installed \<le> 0 then False else c < i \<and> SameLine cand installed
     | _ \<Rightarrow> False)"

definition CheckMonotonic :: "Watermark \<Rightarrow> Result option \<Rightarrow> kind option" where
  "CheckMonotonic w r =
    (case r of
       None \<Rightarrow> Some ErrManifest
     | Some r \<Rightarrow>
         if trim_space (WVersion w) = '''' then None
         else
           let v = RVersion r; c = Compare v (WVersion w) in
           if c < 0 then Some ErrDowngrade
           else if c = 0 \<and> ChecksumsSHA256 w \<noteq> '''' \<and> ChecksumsSHA256 w \<noteq> RChecksumsSHA256 r then Some ErrReplay
           else (case (SignedAt w, RSignedAt r) of
                   (Some ws, Some rs) \<Rightarrow>
                     if \<not> rs < ws then None
                     else if Compare v (WVersion w) = 0 then Some ErrReplay
                     else if OlderBuild v (RSignedAt r) (WVersion w) (SignedAt w) then Some ErrOlderBuild
                     else None
                 | _ \<Rightarrow> None))"

text \<open>The two files: the version on a line, and the record (\<open>None\<close>: none, or not JSON).\<close>

record WatermarkFile =
  plain :: "string option"
  full :: "Watermark option"

definition Load :: "WatermarkFile \<Rightarrow> Watermark" where
  "Load f =
    (case plain f of
       None \<Rightarrow> zero_watermark
     | Some b \<Rightarrow>
         let w = zero_watermark\<lparr>WVersion := trim_space b\<rparr> in
         if WVersion w = '''' then zero_watermark
         else (case full f of
                 Some u \<Rightarrow> if Compare (WVersion u) (WVersion w) = 0 then u else w
               | None \<Rightarrow> w))"

text \<open>
  A commit that reads the file (or not: \<open>readable\<close>) and whose writes stop, by an error or a
  crash, after \<open>writes\<close> of its two; each write replaces its file as a whole.
\<close>

definition Commit :: "bool \<Rightarrow> nat \<Rightarrow> Result option \<Rightarrow> WatermarkFile \<Rightarrow> bool \<times> WatermarkFile" where
  "Commit readable writes r f =
    (case r of
       None \<Rightarrow> (False, f)
     | Some r' \<Rightarrow>
         if \<not> readable then (False, f)
         else if CheckMonotonic (Load f) r \<noteq> None then (False, f)
         else
           let w = \<lparr>WVersion = RVersion r', ChecksumsSHA256 = RChecksumsSHA256 r', SignedAt = RSignedAt r'\<rparr>;
               f1 = (if 1 \<le> writes then f\<lparr>full := Some w\<rparr> else f);
               f2 = (if 2 \<le> writes then f1\<lparr>plain := Some (WVersion w @ [CHR 0x0A])\<rparr> else f1)
           in (2 \<le> writes, f2))"

lemma is_space_lower: "is_space (to_lower_char c) = is_space c"
proof (cases "CHR ''A'' \<le> c \<and> c \<le> CHR ''Z''")
  case True
  then have c: "65 \<le> (of_char c :: nat)" "(of_char c :: nat) \<le> 90"
    by (simp_all add: less_eq_char_def)
  then have "of_char (to_lower_char c) = (of_char c :: nat) + 32"
    using True by (simp add: to_lower_char_def)
  with c have "\<not> is_space (to_lower_char c)" "\<not> is_space c"
    by (auto simp: is_space_def)
  then show ?thesis by simp
qed (auto simp: to_lower_char_def)

lemma trim_space_idem [simp]: "trim_space (trim_space s) = trim_space s"
proof -
  let ?t = "dropWhile is_space s"
  have "dropWhile is_space (rev (dropWhile is_space (rev ?t))) = rev (dropWhile is_space (rev ?t))"
  proof (cases "dropWhile is_space (rev ?t) = []")
    case False
    then obtain c u where u: "rev (dropWhile is_space (rev ?t)) = c # u"
      by (cases "rev (dropWhile is_space (rev ?t))") auto
    obtain pre where "rev ?t = pre @ dropWhile is_space (rev ?t)"
      by (metis takeWhile_dropWhile_id)
    then have "?t = rev (dropWhile is_space (rev ?t)) @ rev pre"
      by (metis rev_append rev_rev_ident)
    with u have "hd ?t = c" "?t \<noteq> []" by auto
    then have "\<not> is_space c" using hd_dropWhile by blast
    with u show ?thesis by simp
  next
    case True
    then show ?thesis by (simp only: rev.simps dropWhile.simps)
  qed
  then show ?thesis by (simp add: trim_space_def dropWhile_idem)
qed

lemma trim_space_newline [simp]: "trim_space (s @ [CHR 0x0A]) = trim_space s"
proof -
  have nl: "is_space (CHR 0x0A)" by (simp add: is_space_def)
  show ?thesis
  proof (cases "\<forall>c \<in> set s. is_space c")
    case True
    then have "\<forall>c \<in> set (s @ [CHR 0x0A]). is_space c" using nl by auto
    with True have "dropWhile is_space s = []" "dropWhile is_space (s @ [CHR 0x0A]) = []"
      by (simp_all only: dropWhile_eq_Nil_conv)
    then show ?thesis by (simp only: trim_space_def)
  next
    case False
    then have "dropWhile is_space (s @ [CHR 0x0A]) = dropWhile is_space s @ [CHR 0x0A]"
      by (simp add: dropWhile_append)
    then show ?thesis using nl by (simp add: trim_space_def)
  qed
qed

lemma to_lower_trim: "to_lower (trim_space s) = trim_space (to_lower s)"
proof -
  have "is_space \<circ> to_lower_char = is_space" by (simp add: fun_eq_iff is_space_lower)
  then show ?thesis by (simp add: to_lower_def trim_space_def dropWhile_map rev_map)
qed

lemma version_key_trim [simp]: "version_key (trim_space v) = version_key v"
  by (simp add: version_key_def splitDescribe_def to_lower_trim)

lemma Load_level:
  assumes "plain f = Some b" and "trim_space b \<noteq> ''''"
  shows "version_key (WVersion (Load f)) = version_key b"
  using assms by (auto simp: Load_def Let_def Compare_key split: option.splits)

lemma CheckMonotonic_not_lower:
  assumes "CheckMonotonic w (Some r) = None" and "trim_space (WVersion w) \<noteq> ''''"
  shows "version_key (WVersion w) \<le> version_key (RVersion r)"
proof -
  have "\<not> Compare (RVersion r) (WVersion w) < 0"
    using assms by (auto simp: CheckMonotonic_def Let_def split: if_splits)
  then show ?thesis by (auto simp: Compare_key ord_of_def split: if_splits)
qed

text \<open>A machine with a watermark not below \<open>v\<close>; the record, if there is one, names a version.\<close>

definition at_least :: "string \<Rightarrow> WatermarkFile \<Rightarrow> bool" where
  "at_least v f \<longleftrightarrow> (\<exists>b. plain f = Some b \<and> trim_space b \<noteq> '''' \<and> version_key v \<le> version_key b)
     \<and> (\<forall>u. full f = Some u \<longrightarrow> trim_space (WVersion u) \<noteq> '''')"

lemma Commit_at_least:
  assumes "at_least v f" and "trim_space (RVersion r) \<noteq> ''''"
  shows "at_least v (snd (Commit readable writes (Some r) f))"
proof (cases "readable \<and> CheckMonotonic (Load f) (Some r) = None")
  case True
  obtain b where b: "plain f = Some b" "trim_space b \<noteq> ''''" "version_key v \<le> version_key b"
    using assms(1) by (auto simp: at_least_def)
  have "trim_space (WVersion (Load f)) \<noteq> ''''"
    using b assms(1) by (auto simp: Load_def at_least_def Let_def split: option.splits)
  with True have "version_key (WVersion (Load f)) \<le> version_key (RVersion r)"
    by (intro CheckMonotonic_not_lower) auto
  then have le: "version_key v \<le> version_key (RVersion r)"
    using Load_level [OF b(1,2)] b(3) by (metis order_trans)
  have "version_key (RVersion r @ [CHR 0x0A]) = version_key (RVersion r)"
    by (metis trim_space_newline version_key_trim)
  with True le b assms show ?thesis
    by (auto simp: Commit_def at_least_def Let_def)
next
  case False
  with assms show ?thesis by (auto simp: Commit_def Let_def)
qed

text \<open>A history of commits, each with its release and how far it came.\<close>

definition commits :: "(bool \<times> nat \<times> Result) list \<Rightarrow> WatermarkFile \<Rightarrow> WatermarkFile" where
  "commits = run (\<lambda>(readable, writes, r) f. snd (Commit readable writes (Some r) f))"

text \<open>
  Property C8. The watermark never goes down: after a release is committed, no history of
  commits, whatever their versions, content and times, unreadable files and writes cut short at
  any point included, leaves a watermark below it, and a release below it is refused as a
  downgrade ever after.
\<close>
theorem watermark_never_lowers:
  assumes "Commit True 2 (Some r) f = (True, f')" and "trim_space (RVersion r) \<noteq> ''''"
    and "\<forall>(_, _, r') \<in> set cs. trim_space (RVersion r') \<noteq> ''''"
  shows "Compare (RVersion r) (WVersion (Load (commits cs f'))) \<le> 0
    \<and> (\<forall>old. Compare (RVersion old) (RVersion r) < 0 \<longrightarrow>
         CheckMonotonic (Load (commits cs f')) (Some old) = Some ErrDowngrade)"
proof -
  have nl: "version_key (RVersion r @ [CHR 0x0A]) = version_key (RVersion r)"
    by (metis trim_space_newline version_key_trim)
  have "at_least (RVersion r) f'"
    using assms(1,2) nl by (auto simp: Commit_def at_least_def Let_def split: if_splits)
  then have al: "at_least (RVersion r) (commits cs f')"
    using assms(3) unfolding commits_def
  proof (induction cs arbitrary: f')
    case (Cons c cs)
    obtain rd wr rel where c: "c = (rd, wr, rel)" by (rule prod_cases3)
    with Cons show ?case using Commit_at_least by simp
  qed simp
  then obtain b where b: "plain (commits cs f') = Some b" "trim_space b \<noteq> ''''"
    "version_key (RVersion r) \<le> version_key b" by (auto simp: at_least_def)
  from b(3) have le: "version_key (RVersion r) \<le> version_key (WVersion (Load (commits cs f')))"
    by (simp only: Load_level [OF b(1,2)])
  have "trim_space (WVersion (Load (commits cs f'))) \<noteq> ''''"
    using b al by (auto simp: Load_def at_least_def Let_def split: option.splits)
  moreover have "Compare (RVersion old) (WVersion (Load (commits cs f'))) < 0"
    if "Compare (RVersion old) (RVersion r) < 0" for old
  proof -
    from that have "version_key (RVersion old) < version_key (RVersion r)"
      by (auto simp: Compare_key ord_of_def split: if_splits)
    then have "version_key (RVersion old) < version_key (WVersion (Load (commits cs f')))"
      using le by (rule order_less_le_trans)
    then show ?thesis by (auto simp: Compare_key ord_of_def)
  qed
  moreover have "CheckMonotonic w (Some old) = Some ErrDowngrade"
    if "trim_space (WVersion w) \<noteq> ''''" "Compare (RVersion old) (WVersion w) < 0" for w old
    using that by (simp add: CheckMonotonic_def Let_def)
  moreover have "Compare (RVersion r) (WVersion (Load (commits cs f'))) \<le> 0"
    using le by (simp add: Compare_key ord_of_props(3))
  ultimately show ?thesis by blast
qed

abbreviation release :: "string \<Rightarrow> string \<Rightarrow> Result" where
  "release v digest \<equiv> \<lparr>RVersion = v, RChecksumsSHA256 = digest, RSignedAt = Some 1\<rparr>"

definition no_watermark :: WatermarkFile where
  "no_watermark = \<lparr>plain = None, full = None\<rparr>"

theorem watermark_never_lowers_witness:
  "CheckMonotonic (Load (commits [(True, 1, release ''1.6.0'' ''b'')]
     (snd (Commit True 2 (Some (release ''1.5.0'' ''a'')) no_watermark)))) (Some (release ''1.4.9'' ''c''))
   = Some ErrDowngrade"
proof -
  have "fst (Commit True 2 (Some (release ''1.5.0'' ''a'')) no_watermark)" by code_simp
  then have c: "Commit True 2 (Some (release ''1.5.0'' ''a'')) no_watermark
      = (True, snd (Commit True 2 (Some (release ''1.5.0'' ''a'')) no_watermark))"
    by (simp add: prod_eq_iff)
  have "trim_space ''1.5.0'' \<noteq> ''''" "trim_space ''1.6.0'' \<noteq> ''''" "Compare ''1.4.9'' ''1.5.0'' < 0"
    by code_simp+
  with watermark_never_lowers [OF c, of "[(True, 1, release ''1.6.0'' ''b'')]"] show ?thesis
    by simp
qed

text \<open>
  A commit cut short between its writes forgets the digest of the release before it: that same
  version with other content, refused as a replay until then, is accepted.
\<close>

lemma replay_after_cut_commit:
  "CheckMonotonic (Load (snd (Commit True 2 (Some (release ''1.5.0'' ''a'')) no_watermark)))
     (Some (release ''1.5.0'' ''x'')) = Some ErrReplay"
  "CheckMonotonic (Load (snd (Commit True 1 (Some (release ''1.6.0'' ''b''))
     (snd (Commit True 2 (Some (release ''1.5.0'' ''a'')) no_watermark)))))
     (Some (release ''1.5.0'' ''x'')) = None"
  by code_simp+

end
