(* ===== verification/Relay_Wire.thy ===== *)
theory Relay_Wire
  imports Prelude
begin

text \<open>
  What goes over a home's tunnel (\<^verbatim>\<open>cloud/internal/relay\<close>): the frames (\<^verbatim>\<open>protocol.go\<close>), the resume
  tickets (\<^verbatim>\<open>ticket.go\<close>), and a proxied response's stream with its flow control (\<^verbatim>\<open>tunnel.go\<close>:
  \<open>stream\<close>, \<open>streamBody\<close>).

  The bytes a reader still holds are a list. The ticket's MAC (HMAC-SHA256 under the derived key)
  and its text encoding (unpadded base64url) are arguments.
\<close>

section \<open>Frames (protocol.go)\<close>

definition KindRequestHead :: byte where "KindRequestHead = 0x01"
definition KindRequestBody :: byte where "KindRequestBody = 0x02"
definition KindResponseHead :: byte where "KindResponseHead = 0x03"
definition KindResponseBody :: byte where "KindResponseBody = 0x04"
definition KindPing :: byte where "KindPing = 0x05"
definition KindPong :: byte where "KindPong = 0x06"
definition KindCloseStream :: byte where "KindCloseStream = 0x07"
definition KindHeartbeat :: byte where "KindHeartbeat = 0x0b"
definition KindWindowUpdate :: byte where "KindWindowUpdate = 0x0c"

lemmas frame_kinds [names] = KindRequestHead_def KindRequestBody_def KindResponseHead_def
  KindResponseBody_def KindPing_def KindPong_def KindCloseStream_def KindHeartbeat_def
  KindWindowUpdate_def

definition InitialWindow :: nat where "InitialWindow = 1048576"
definition MaxFrameBytes :: nat where "MaxFrameBytes = 16 * 1024 * 1024"

record Frame =
  Kind :: byte
  StreamID :: "32 word"
  Payload :: bytes

datatype read_error = EOF | UnexpectedEOF | ErrFrameTooLarge

text \<open>\<open>io.ReadFull\<close>: it reads what is there; nothing at all is \<open>EOF\<close>, too little \<open>UnexpectedEOF\<close>.\<close>

definition ReadFull :: "nat \<Rightarrow> bytes \<Rightarrow> (read_error + bytes) \<times> bytes" where
  "ReadFull n r =
    (if n \<le> length r then (Inr (take n r), drop n r)
     else if r = [] then (Inl EOF, []) else (Inl UnexpectedEOF, []))"

definition ReadFrame :: "bytes \<Rightarrow> (read_error + Frame) \<times> bytes" where
  "ReadFrame r =
    (case ReadFull 9 r of
       (Inl e, r1) \<Rightarrow> (Inl e, r1)
     | (Inr hdr, r1) \<Rightarrow>
         let len = unat (unbe32 (drop 5 hdr)) in
         if MaxFrameBytes < len then (Inl ErrFrameTooLarge, r1)
         else
           let f = \<lparr>Kind = hdr ! 0, StreamID = unbe32 (drop 1 hdr), Payload = []\<rparr> in
           if len = 0 then (Inr f, r1)
           else (case ReadFull len r1 of
                   (Inl e, r2) \<Rightarrow> (Inl e, r2)
                 | (Inr p, r2) \<Rightarrow> (Inr (f\<lparr>Payload := p\<rparr>), r2)))"

text \<open>The bytes written; \<open>None\<close> is \<open>ErrFrameTooLarge\<close>, with nothing written.\<close>

definition WriteFrame :: "Frame \<Rightarrow> bytes option" where
  "WriteFrame f =
    (if MaxFrameBytes < length (Payload f) then None
     else Some (Kind f # be32 (StreamID f) @ be32 (of_nat (length (Payload f))) @ Payload f))"

lemma ReadFrame_shrinks:
  assumes "ReadFrame r = (Inr f, r')"
  shows "length r' + 9 \<le> length r"
proof -
  have "9 \<le> length r"
    using assms by (auto simp: ReadFrame_def ReadFull_def split: if_splits)
  then show ?thesis
    using assms by (auto simp: ReadFrame_def ReadFull_def Let_def split: if_splits)
qed

text \<open>Reading frame after frame, as the read loop does, until the first error.\<close>

function read_all :: "bytes \<Rightarrow> Frame list \<times> read_error" where
  "read_all r =
    (case ReadFrame r of
       (Inl e, _) \<Rightarrow> ([], e)
     | (Inr f, r') \<Rightarrow> let (fs, e) = read_all r' in (f # fs, e))"
  by pat_completeness auto

termination read_all
  by (relation "measure length") (auto dest: ReadFrame_shrinks[OF sym] ReadFrame_shrinks)

declare read_all.simps [simp del]

lemma unat_len:
  "n \<le> MaxFrameBytes \<Longrightarrow> unat (of_nat n :: 32 word) = n"
  by (simp add: unsigned_of_nat take_bit_nat_eq_self_iff MaxFrameBytes_def)

lemma ReadFrame_WriteFrame:
  assumes "WriteFrame f = Some bs"
  shows "ReadFrame (bs @ rest) = (Inr f, rest)"
proof -
  let ?p = "Payload f"
  from assms have len: "length ?p \<le> MaxFrameBytes"
    and bs: "bs = Kind f # be32 (StreamID f) @ be32 (of_nat (length ?p)) @ ?p"
    by (auto simp: WriteFrame_def split: if_splits)
  let ?hdr = "Kind f # be32 (StreamID f) @ be32 (of_nat (length ?p))"
  have hdr: "ReadFull 9 (bs @ rest) = (Inr ?hdr, ?p @ rest)"
    by (simp add: ReadFull_def bs)
  have "drop 5 ?hdr = be32 (of_nat (length ?p))" by simp
  then have l: "unat (unbe32 (drop 5 ?hdr)) = length ?p"
    using unbe32_be32 [of "of_nat (length ?p)" "[]"] unat_len [OF len] by simp
  have s: "unbe32 (drop 1 ?hdr) = StreamID f"
    by simp
  have k: "?hdr ! 0 = Kind f" by simp
  show ?thesis
  proof (cases "?p = []")
    case True
    then show ?thesis using len by (simp add: ReadFrame_def hdr l s k Let_def)
  next
    case False
    have "ReadFull (length ?p) (?p @ rest) = (Inr ?p, rest)" by (simp add: ReadFull_def)
    with False show ?thesis using len by (simp add: ReadFrame_def hdr l s k Let_def unat_len)
  qed
qed

lemma read_all_prefix:
  assumes "list_all2 (\<lambda>f bs. WriteFrame f = Some bs) fs bss"
  shows "read_all (concat bss @ rest) = (fs @ fst (read_all rest), snd (read_all rest))"
  using assms
proof (induction fs bss rule: list_all2_induct)
  case (Cons f fs bs bss)
  then show ?case
    using ReadFrame_WriteFrame [of f bs "concat bss @ rest"]
    by (subst read_all.simps) (simp add: case_prod_beta)
qed simp

text \<open>
  Property C9. The tunnel loses and invents nothing: any frames that could be written, written
  one after the other, are read back as they were, in order, and then the end; and when the bytes
  stop short of the last frame's end, what is read is those frames' beginning and an error, never
  another frame. A payload over the bound is refused by the writer, and by the reader before it
  allocates.
\<close>
theorem frames_roundtrip:
  assumes "list_all2 (\<lambda>f bs. WriteFrame f = Some bs) fs bss" and "WriteFrame g = Some bs" and "n < length bs"
  shows "read_all (concat bss) = (fs, EOF)
    \<and> read_all (concat bss @ take n bs) = (fs, snd (read_all (take n bs)))
    \<and> (WriteFrame f = None \<longleftrightarrow> MaxFrameBytes < length (Payload f))
    \<and> (\<forall>hdr. length hdr = 9 \<longrightarrow> MaxFrameBytes < unat (unbe32 (drop 5 hdr)) \<longrightarrow>
         fst (ReadFrame (hdr @ rest)) = Inl ErrFrameTooLarge)"
proof -
  let ?p = "Payload g"
  from assms(2) have len: "length ?p \<le> MaxFrameBytes"
    and bs: "bs = Kind g # be32 (StreamID g) @ be32 (of_nat (length ?p)) @ ?p"
    by (auto simp: WriteFrame_def split: if_splits)
  have cut: "\<exists>e. ReadFrame (take n bs) = (Inl e, [])"
  proof (cases "n < 9")
    case True
    then show ?thesis using assms(3) by (auto simp: ReadFrame_def ReadFull_def)
  next
    case False
    let ?hdr = "Kind g # be32 (StreamID g) @ be32 (of_nat (length ?p))"
    have t: "take n bs = ?hdr @ take (n - 9) ?p"
    proof -
      have b: "bs = ?hdr @ ?p" by (simp add: bs)
      have "length ?hdr = 9" by simp
      with False have "take n ?hdr = ?hdr" "n - length ?hdr = n - 9" by simp_all
      then show ?thesis by (simp only: b take_append)
    qed
    have hdr: "ReadFull 9 (take n bs) = (Inr ?hdr, take (n - 9) ?p)"
      by (simp add: ReadFull_def t)
    have "drop 5 ?hdr = be32 (of_nat (length ?p))" by simp
    then have l: "unat (unbe32 (drop 5 ?hdr)) = length ?p"
      using unbe32_be32 [of "of_nat (length ?p)" "[]"] unat_len [OF len] by simp
    have "n - 9 < length ?p" using assms(3) False by (simp add: bs)
    then show ?thesis
      using len unfolding ReadFrame_def hdr prod.case sum.case Let_def l by (auto simp: ReadFull_def)
  qed
  then have "fst (read_all (take n bs)) = []"
    by (subst read_all.simps) auto
  moreover have "read_all [] = ([], EOF)"
    by (subst read_all.simps) (simp add: ReadFrame_def ReadFull_def)
  moreover have "fst (ReadFrame (hdr @ rest)) = Inl ErrFrameTooLarge"
    if "length hdr = 9" "MaxFrameBytes < unat (unbe32 (drop 5 hdr))" for hdr
    using that by (simp add: ReadFrame_def ReadFull_def Let_def)
  ultimately show ?thesis
    using read_all_prefix [OF assms(1), of "[]"] read_all_prefix [OF assms(1), of "take n bs"]
    by (auto simp: WriteFrame_def)
qed

theorem frames_roundtrip_witness:
  "read_all (concat [[0x05, 0, 0, 0, 1, 0, 0, 0, 0]]) = ([\<lparr>Kind = KindPing, StreamID = 1, Payload = []\<rparr>], EOF)"
proof -
  let ?f = "\<lparr>Kind = KindPing, StreamID = 1, Payload = []\<rparr>"
  have w: "WriteFrame ?f = Some [0x05, 0, 0, 0, 1, 0, 0, 0, 0]"
    by (simp add: WriteFrame_def KindPing_def be32_def)
  have "list_all2 (\<lambda>f bs. WriteFrame f = Some bs) [?f] [[0x05, 0, 0, 0, 1, 0, 0, 0, 0]]"
    by (simp add: w)
  from frames_roundtrip [OF this w, of 0] show ?thesis by simp
qed

text \<open>A frame cut right after its header reads as a clean end of the stream.\<close>

lemma cut_after_header_is_EOF:
  "fst (ReadFrame [0x04, 0, 0, 0, 1, 0, 0, 0, 5]) = Inl EOF"
  by (simp add: ReadFrame_def ReadFull_def Let_def unbe32_def MaxFrameBytes_def)

section \<open>Resume tickets (ticket.go)\<close>

definition TicketTTL :: int where "TicketTTL = 600"
definition macLen :: nat where "macLen = 32"

datatype ticket_error = ErrTicketMalformed | ErrTicketExpired | ErrTicketBadMAC | ErrTicketWrongServer

text \<open>\<open>on\<close>: there is a key. Server ids are their bytes, times are Unix seconds.\<close>

definition Mint ::
  "bool \<Rightarrow> (bytes \<Rightarrow> bytes) \<Rightarrow> (bytes \<Rightarrow> string) \<Rightarrow> int \<Rightarrow> bytes \<Rightarrow> string" where
  "Mint on mac enc now serverID =
    (if \<not> on \<or> serverID = [] \<or> 255 < length serverID then ''''
     else
       let body = of_nat (length serverID) # serverID @ be64 (word_of_int now)
                  @ be64 (word_of_int (now + TicketTTL))
       in enc (body @ mac body))"

definition Verify ::
  "bool \<Rightarrow> (bytes \<Rightarrow> bytes) \<Rightarrow> (string \<Rightarrow> bytes option) \<Rightarrow> int \<Rightarrow> string \<Rightarrow> bytes \<Rightarrow> ticket_error option" where
  "Verify on mac dec now ticket serverID =
    (if \<not> on then Some ErrTicketMalformed
     else case dec ticket of
            None \<Rightarrow> Some ErrTicketMalformed
          | Some [] \<Rightarrow> Some ErrTicketMalformed
          | Some (b0 # bs) \<Rightarrow>
              let b = b0 # bs; n = unat b0 in
              if length b \<noteq> 1 + n + 16 + macLen then Some ErrTicketMalformed
              else
                let body = take (length b - macLen) b; tag = drop (length b - macLen) b in
                if tag \<noteq> mac body then Some ErrTicketBadMAC
                else if take n (drop 1 body) \<noteq> serverID then Some ErrTicketWrongServer
                else if sint (unbe64 (drop (1 + n + 8) body)) \<le> now then Some ErrTicketExpired
                else None)"

lemma drop_mid: "length s = n \<Longrightarrow> length a = k \<Longrightarrow> drop (1 + n + k) (x # s @ a @ b) = b"
proof -
  have "drop (1 + n + k) xs = drop k (drop n (drop 1 xs))" for xs :: "'a list"
    by (simp only: drop_drop ac_simps)
  then show "length s = n \<Longrightarrow> length a = k \<Longrightarrow> ?thesis" by simp
qed

text \<open>What \<open>Verify\<close> says of a ticket with the parts of one.\<close>

lemma Verify_parts:
  assumes "dec ticket = Some (body @ tag)" and "length tag = macLen"
    and "body = lb # s @ a @ z" and "unat lb = length s" and "length a = 8" and "length z = 8"
  shows "Verify True mac dec t ticket sid =
    (if tag \<noteq> mac body then Some ErrTicketBadMAC
     else if s \<noteq> sid then Some ErrTicketWrongServer
     else if sint (unbe64 z) \<le> t then Some ErrTicketExpired else None)"
proof -
  let ?b = "lb # s @ a @ z @ tag"
  have d: "dec ticket = Some ?b" using assms(1,3) by simp
  have len: "length ?b = 1 + unat lb + 16 + macLen" using assms by simp
  have body: "take (length ?b - macLen) ?b = body" "drop (length ?b - macLen) ?b = tag"
    using assms(2,3) by simp_all
  have sid: "take (unat lb) (drop 1 body) = s" using assms(3,4) by simp
  have z: "drop (1 + unat lb + 8) body = z"
    unfolding assms(3) by (rule drop_mid) (simp_all add: assms(4,5))
  show ?thesis
    unfolding Verify_def d Let_def option.case list.case body sid z if_not_P [OF not_not [THEN iffD2, OF len]]
    by simp
qed

text \<open>
  Property C10. A ticket is good for its server and ten minutes, and for nothing else: a
  minted ticket verifies for exactly the server it was minted for and exactly until ten minutes
  after; and whatever text verifies for a server carries the MAC of a body that names that server
  and has not expired, so it cannot be made or altered without the key.
\<close>
theorem ticket_valid_iff:
  assumes "\<And>b. dec (enc b) = Some b" and "\<And>b. length (mac b) = 32"
    and "sid \<noteq> []" and "length sid \<le> 255" and "0 \<le> t0" and "t0 < 2 ^ 62"
  shows "Verify True mac dec t (Mint True mac enc t0 sid) sid' =
           (if sid' \<noteq> sid then Some ErrTicketWrongServer
            else if t0 + 600 \<le> t then Some ErrTicketExpired else None)
    \<and> (Verify True mac dec t ticket sid' = None \<longrightarrow>
         (\<exists>stamps. dec ticket = Some ((of_nat (length sid') # sid' @ stamps)
              @ mac (of_nat (length sid') # sid' @ stamps))
            \<and> length stamps = 16 \<and> t < sint (unbe64 (drop 8 stamps))))"
proof (intro conjI impI)
  let ?n = "of_nat (length sid) :: byte"
  let ?stamps = "be64 (word_of_int t0) @ be64 (word_of_int (t0 + TicketTTL))"
  let ?body = "?n # sid @ ?stamps"
  have n: "unat ?n = length sid"
    using assms(4) by (simp add: unsigned_of_nat take_bit_nat_eq_self_iff)
  have e: "sint (word_of_int (t0 + TicketTTL) :: 64 word) = t0 + 600"
  proof -
    have "sint (word_of_int k :: 64 word) = k" if "0 \<le> k" "k < 2 ^ 63" for k
      using that by (simp add: signed_of_int signed_take_bit_int_eq_self_iff)
    from this [of "t0 + TicketTTL"] show ?thesis using assms(5,6) by (simp only: TicketTTL_def) simp
  qed
  have "Mint True mac enc t0 sid = enc (?body @ mac ?body)"
    using assms(3,4) by (simp add: Mint_def Let_def del: of_int_add)
  then have "dec (Mint True mac enc t0 sid) = Some (?body @ mac ?body)" by (simp only: assms(1))
  from Verify_parts [where mac = mac and dec = dec and ticket = "Mint True mac enc t0 sid" and body = ?body and tag = "mac ?body" and lb = ?n and s = sid
      and a = "be64 (word_of_int t0)" and z = "be64 (word_of_int (t0 + TicketTTL))", OF this _ refl n, of t sid']
    assms(2) [of ?body] e
  show "Verify True mac dec t (Mint True mac enc t0 sid) sid' =
           (if sid' \<noteq> sid then Some ErrTicketWrongServer
            else if t0 + 600 \<le> t then Some ErrTicketExpired else None)"
    by (simp add: macLen_def del: of_int_add)
next
  assume v: "Verify True mac dec t ticket sid' = None"
  then obtain b0 bs where d: "dec ticket = Some (b0 # bs)"
    by (auto simp: Verify_def split: option.splits list.splits)
  let ?b = "b0 # bs" and ?n = "unat b0"
  let ?body = "take (length ?b - macLen) ?b" and ?tag = "drop (length ?b - macLen) ?b"
  from v have f: "length ?b = 1 + ?n + 16 + macLen" "?tag = mac ?body" "take ?n (drop 1 ?body) = sid'"
    "t < sint (unbe64 (drop (1 + ?n + 8) ?body))"
    by (simp_all add: Verify_def d Let_def not_le split: if_split_asm)
  have body: "length ?body = 1 + ?n + 16" using f(1) by simp
  have len: "length sid' = ?n" using f(3) body by auto
  let ?stamps = "drop ?n (drop 1 ?body)"
  have "?body = b0 # drop 1 ?body" using f(1) by (simp add: macLen_def take_Cons')
  then have "?body = b0 # take ?n (drop 1 ?body) @ ?stamps" by (simp only: append_take_drop_id)
  then have "?body = of_nat (length sid') # sid' @ ?stamps" using f(3) len by simp
  moreover have "?b = ?body @ ?tag" by simp
  ultimately show "\<exists>stamps. dec ticket = Some ((of_nat (length sid') # sid' @ stamps)
              @ mac (of_nat (length sid') # sid' @ stamps))
            \<and> length stamps = 16 \<and> t < sint (unbe64 (drop 8 stamps))"
  proof (intro exI [of _ ?stamps] conjI)
    assume b: "?body = of_nat (length sid') # sid' @ ?stamps" and "?b = ?body @ ?tag"
    with d f(2) show "dec ticket = Some ((of_nat (length sid') # sid' @ ?stamps)
              @ mac (of_nat (length sid') # sid' @ ?stamps))" by metis
    show "length ?stamps = 16" using body by simp
    have "drop (1 + ?n + 8) ?body = drop 8 ?stamps" by (simp only: drop_drop ac_simps)
    with f(4) show "t < sint (unbe64 (drop 8 ?stamps))" by simp
  qed
qed

text \<open>Any codec and any 32-byte tag will do; here the identity on bytes as text, and zeros.\<close>

theorem ticket_valid_iff_witness:
  "Verify True (\<lambda>_. replicate 32 0) (\<lambda>s. Some (map (\<lambda>c. of_nat (of_char c)) s)) 1599
     (Mint True (\<lambda>_. replicate 32 0) (map (\<lambda>w. char_of (unat w))) 1000 [65]) [65] = None"
proof -
  have "map (\<lambda>c. of_nat (of_char c)) (map (\<lambda>w. char_of (unat w)) b :: string) = b" for b :: bytes
  proof -
    have "of_nat (of_char (char_of (unat w) :: char)) = w" for w :: byte
    proof -
      have "unat w < 2 ^ LENGTH(8)" by (rule unsigned_less)
      then show ?thesis by simp
    qed
    then show ?thesis by (simp add: map_idI)
  qed
  then show ?thesis
    by (subst ticket_valid_iff [THEN conjunct1]) simp_all
qed

section \<open>A response's stream and its window (tunnel.go)\<close>

datatype stream_error = errTunnelClosed | errStreamDone | errStreamOverflow | errStreamStalled | ErrCtx

definition flowBufferMax :: int where "flowBufferMax = 1048576 + 64 * 1024"
definition legacyBufferMax :: int where "legacyBufferMax = 1048576"
definition grantEvery :: int where "grantEvery = 262144"

record stream =
  q :: "Frame list"
  qBytes :: int
  serr :: "stream_error option"
  gone :: bool

definition newStream :: stream where
  "newStream = \<lparr>q = [], qBytes = 0, serr = None, gone = False\<rparr>"

abbreviation plen :: "Frame \<Rightarrow> int" where "plen f \<equiv> int (length (Payload f))"

text \<open>
  \<open>push\<close>: \<open>Wait\<close> is an unwindowed stream with no room, tried again when the reader made some;
  \<open>timeout\<close> says that it has waited too long.
\<close>

datatype pushed = Ok stream | Fail stream_error | Wait

definition push :: "Frame \<Rightarrow> bool \<Rightarrow> bool \<Rightarrow> stream \<Rightarrow> pushed" where
  "push f flow timeout s =
    (let n = plen f; queued = Ok (s\<lparr>q := q s @ [f], qBytes := qBytes s + n\<rparr>) in
     if gone s \<or> serr s \<noteq> None then Ok s
     else if flow then
       (if Kind f = KindResponseBody \<and> flowBufferMax < qBytes s + n then Fail errStreamOverflow else queued)
     else if 0 < qBytes s \<and> legacyBufferMax < qBytes s + n
     then (if timeout then Fail errStreamStalled else Wait)
     else queued)"

definition fail :: "stream_error \<Rightarrow> stream \<Rightarrow> stream" where
  "fail e s = (if serr s = None then s\<lparr>serr := Some e\<rparr> else s)"

definition abandon :: "stream \<Rightarrow> stream" where
  "abandon s = s\<lparr>gone := True, q := [], qBytes := 0\<rparr>"

text \<open>\<open>pop\<close>: \<open>None\<close> is to wait, for a frame or the end of the client's context.\<close>

definition pop :: "stream \<Rightarrow> (stream_error + Frame) option \<times> stream" where
  "pop s =
    (if gone s then (Some (Inl errStreamDone), s)
     else case q s of
            f # fs \<Rightarrow> (Some (Inr f), s\<lparr>q := fs, qBytes := qBytes s - plen f\<rparr>)
          | [] \<Rightarrow> (case serr s of Some e \<Rightarrow> (Some (Inl e), s) | None \<Rightarrow> (None, s)))"

text \<open>
  The body the proxy reads: its stream, what is left of the frame it is in, the bytes read but not
  granted back, and what it wrote to the home: the credits granted, and whether it told it to stop.
\<close>

record streamBody =
  st :: stream
  buf :: bytes
  bdone :: bool
  unacked :: int
  grants :: "32 word list"
  told_stop :: bool

definition grant :: "bool \<Rightarrow> nat \<Rightarrow> streamBody \<Rightarrow> streamBody" where
  "grant flow n b =
    (if \<not> flow \<or> n = 0 then b
     else if unacked b + int n < grantEvery then b\<lparr>unacked := unacked b + int n\<rparr>
     else b\<lparr>unacked := 0, grants := grants b @ [word_of_int (unacked b + int n)]\<rparr>)"

text \<open>\<open>finish\<close>: terminal; the release abandons the stream and, when early, tells the home.\<close>

definition finish :: "bool \<Rightarrow> streamBody \<Rightarrow> streamBody" where
  "finish early b = b\<lparr>bdone := True, st := abandon (st b), told_stop := told_stop b \<or> early\<rparr>"

datatype read_result = ReadBytes bytes | ReadEOF | ReadError stream_error | HomeError bytes | Blocked

text \<open>A read of up to \<open>k\<close> bytes; \<open>ended\<close>: the client's context has ended.\<close>

definition read_buf :: "bool \<Rightarrow> nat \<Rightarrow> streamBody \<Rightarrow> read_result \<times> streamBody" where
  "read_buf flow k b =
    (let n = min k (length (buf b)) in
     (ReadBytes (take n (buf b)), grant flow n (b\<lparr>buf := drop n (buf b)\<rparr>)))"

definition Read :: "bool \<Rightarrow> nat \<Rightarrow> bool \<Rightarrow> streamBody \<Rightarrow> read_result \<times> streamBody" where
  "Read flow k ended b =
    (if buf b \<noteq> [] then read_buf flow k b
     else if bdone b then (ReadEOF, b)
     else case pop (st b) of
            (None, _) \<Rightarrow> if ended then (ReadError ErrCtx, finish True b) else (Blocked, b)
          | (Some (Inl e), s) \<Rightarrow>
              if e = errStreamDone then (ReadEOF, b\<lparr>bdone := True\<rparr>)
              else (ReadError e, finish True (b\<lparr>st := s\<rparr>))
          | (Some (Inr f), s) \<Rightarrow>
              let b = b\<lparr>st := s\<rparr> in
              if Kind f = KindCloseStream then
                (if Payload f \<noteq> [] then (HomeError (Payload f), finish False b) else (ReadEOF, finish False b))
              else if Payload f = [] then (ReadEOF, finish False b)
              else read_buf flow k (b\<lparr>buf := Payload f\<rparr>))"

definition Close :: "streamBody \<Rightarrow> streamBody" where
  "Close b = finish (\<not> bdone b) b"

end
