(* ===== verification/Relay_Flow.thy ===== *)
theory Relay_Flow
  imports Relay_Wire
begin

text \<open>
  The two ends of one response on a windowed tunnel: the home's send window
  (\<open>credit\<close> and \<open>sink.WriteFrame\<close> of \<open>cloud/internal/cloudlink/multiplex.go\<close>, the chunks
  of \<open>LocalProxy.serve\<close>) and the cloud's stream with the credits its reader grants
  (\<open>Relay_Wire\<close>), joined by the frames on the wire in each direction. The two ends, the
  wire and the client move in any order. A step for the end of the response or for a
  client that leaves is not part of it: both give up the stream.
\<close>

section \<open>The home's window\<close>

record credit =
  avail :: int

definition newCredit :: "int \<Rightarrow> credit" where
  "newCredit n = \<lparr>avail = n\<rparr>"

definition add :: "int \<Rightarrow> credit \<Rightarrow> credit" where
  "add n c = c\<lparr>avail := avail c + n\<rparr>"

text \<open>\<open>take\<close>; \<open>None\<close> is to wait for more.\<close>

definition take_credit :: "int \<Rightarrow> credit \<Rightarrow> credit option" where
  "take_credit n c = (if n \<le> avail c then Some (c\<lparr>avail := avail c - n\<rparr>) else None)"

text \<open>\<open>sink.WriteFrame\<close>: a body chunk spends its window first.\<close>

definition sink_WriteFrame :: "Frame \<Rightarrow> credit \<Rightarrow> credit option" where
  "sink_WriteFrame f c =
    (if Kind f = KindResponseBody \<and> 0 < length (Payload f) then take_credit (plen f) c else Some c)"

definition InitialWindow_int :: int where "InitialWindow_int = 1048576"
definition chunkMax :: nat where "chunkMax = 32 * 1024"

section \<open>The two ends and the wire\<close>

record flow =
  home :: credit
  wire :: "Frame list"
  acks :: "32 word list"
  client :: streamBody
  begun :: bool
  overflow :: bool

text \<open>\<open>begun\<close>: the proxy has taken the response's head and the client reads the body.\<close>

definition flow_start :: "Frame \<Rightarrow> flow" where
  "flow_start hd_frame =
    \<lparr>home = newCredit InitialWindow_int, wire = [hd_frame], acks = [],
     client = \<lparr>st = newStream, buf = [], bdone = False, unacked = 0, grants = [], told_stop = False\<rparr>,
     begun = False, overflow = False\<rparr>"

inductive flow_step :: "flow \<Rightarrow> flow \<Rightarrow> bool" where
  send: "Kind f = KindResponseBody \<Longrightarrow> 0 < length (Payload f) \<Longrightarrow> length (Payload f) \<le> chunkMax \<Longrightarrow>
    sink_WriteFrame f (home s) = Some c \<Longrightarrow>
    flow_step s (s\<lparr>home := c, wire := wire s @ [f]\<rparr>)"
| deliver: "wire s = f # fs \<Longrightarrow> push f True False (st (client s)) = Ok t \<Longrightarrow>
    flow_step s (s\<lparr>wire := fs, client := (client s)\<lparr>st := t\<rparr>\<rparr>)"
| burst: "wire s = f # fs \<Longrightarrow> push f True False (st (client s)) = Fail e \<Longrightarrow>
    flow_step s (s\<lparr>wire := fs, client := (client s)\<lparr>st := fail e (st (client s))\<rparr>, overflow := True\<rparr>)"
| head: "\<not> begun s \<Longrightarrow> pop (st (client s)) = (Some (Inr f), t) \<Longrightarrow>
    flow_step s (s\<lparr>begun := True, client := (client s)\<lparr>st := t\<rparr>\<rparr>)"
| read: "begun s \<Longrightarrow> Read True k False (client s) = (r, b) \<Longrightarrow>
    flow_step s (s\<lparr>client := b, acks := acks s @ drop (length (grants (client s))) (grants b)\<rparr>)"
| update: "acks s = g # gs \<Longrightarrow>
    flow_step s (s\<lparr>acks := gs, home := add (uint g) (home s)\<rparr>)"

inductive flow_reach :: "Frame \<Rightarrow> flow \<Rightarrow> bool" for hd_frame where
  start: "flow_reach hd_frame (flow_start hd_frame)"
| step: "flow_reach hd_frame s \<Longrightarrow> flow_step s t \<Longrightarrow> flow_reach hd_frame t"

section \<open>Where the window is\<close>

definition bytes_of :: "Frame list \<Rightarrow> int" where
  "bytes_of fs = sum_list (map plen fs)"

lemma bytes_of_simps [simp]:
  "bytes_of [] = 0" "bytes_of (f # fs) = plen f + bytes_of fs" "bytes_of (xs @ ys) = bytes_of xs + bytes_of ys"
  by (simp_all add: bytes_of_def)

lemma bytes_of_nonneg: "0 \<le> bytes_of fs"
  by (induction fs) simp_all

definition granted :: "32 word list \<Rightarrow> int" where
  "granted gs = sum_list (map uint gs)"

lemma granted_simps [simp]: "granted [] = 0" "granted (g # gs) = uint g + granted gs"
  "granted (xs @ ys) = granted xs + granted ys"
  by (simp_all add: granted_def)

lemma granted_nonneg: "0 \<le> granted gs"
  by (induction gs) simp_all

definition is_chunk :: "Frame \<Rightarrow> bool" where
  "is_chunk f \<longleftrightarrow> Kind f = KindResponseBody \<and> 0 < length (Payload f)"

text \<open>
  Every byte of the window is in one place: the home may still send it, it is in a frame on
  the wire or in the cloud's queue, in the client's buffer, read but not granted back, or
  granted back and on its way to the home.
\<close>

definition flow_inv :: "Frame \<Rightarrow> flow \<Rightarrow> bool" where
  "flow_inv h s \<longleftrightarrow>
    (let b = client s; bodies = q (st b) @ wire s in
     \<not> gone (st b) \<and> serr (st b) = None \<and> \<not> bdone b \<and> \<not> overflow s \<and>
     (begun s \<longrightarrow> list_all is_chunk bodies) \<and>
     (\<not> begun s \<longrightarrow> buf b = [] \<and> unacked b = 0 \<and> bodies \<noteq> [] \<and> hd bodies = h \<and> list_all is_chunk (tl bodies)) \<and>
     qBytes (st b) = bytes_of (q (st b)) \<and>
     0 \<le> avail (home s) \<and> 0 \<le> unacked b \<and> unacked b < grantEvery \<and>
     avail (home s) + bytes_of bodies + int (length (buf b)) + unacked b + granted (acks s)
       = InitialWindow_int + (if begun s then 0 else plen h))"

lemma flow_invD:
  assumes "flow_inv h s"
  shows "\<not> gone (st (client s))" "serr (st (client s)) = None" "\<not> bdone (client s)" "\<not> overflow s"
    "begun s \<Longrightarrow> list_all is_chunk (q (st (client s)) @ wire s)"
    "\<not> begun s \<Longrightarrow> buf (client s) = []" "\<not> begun s \<Longrightarrow> unacked (client s) = 0"
    "\<not> begun s \<Longrightarrow> q (st (client s)) @ wire s \<noteq> []"
    "\<not> begun s \<Longrightarrow> hd (q (st (client s)) @ wire s) = h"
    "\<not> begun s \<Longrightarrow> list_all is_chunk (tl (q (st (client s)) @ wire s))"
    "qBytes (st (client s)) = bytes_of (q (st (client s)))" "0 \<le> avail (home s)"
    "0 \<le> unacked (client s)" "unacked (client s) < grantEvery"
    "avail (home s) + bytes_of (q (st (client s)) @ wire s) + int (length (buf (client s))) + unacked (client s)
       + granted (acks s) = InitialWindow_int + (if begun s then 0 else plen h)"
  using assms unfolding flow_inv_def Let_def by auto

lemma inv_send:
  assumes "flow_inv h s" "is_chunk f" "sink_WriteFrame f (home s) = Some c"
  shows "flow_inv h (s\<lparr>home := c, wire := wire s @ [f]\<rparr>)"
proof -
  have c: "avail c = avail (home s) - plen f" "0 \<le> avail c"
    using assms(2,3) by (auto simp: sink_WriteFrame_def take_credit_def is_chunk_def split: if_splits)
  note inv = flow_invD[OF assms(1)]
  show ?thesis
  proof (cases "begun s")
    case True
    then show ?thesis
      using inv assms(2) c unfolding flow_inv_def Let_def by simp
  next
    case False
    have tl: "tl (q (st (client s)) @ wire s @ [f]) = tl (q (st (client s)) @ wire s) @ [f]"
      using inv(8)[OF False] by (metis append.assoc tl_append2)
    have hd: "hd (q (st (client s)) @ wire s @ [f]) = h"
      using inv(8,9)[OF False] by (metis append.assoc hd_append2)
    show ?thesis
      using inv False assms(2) c tl hd unfolding flow_inv_def Let_def by simp
  qed
qed

lemma inv_deliver:
  assumes "flow_inv h s" "wire s = f # fs" "push f True False (st (client s)) = Ok t"
  shows "flow_inv h (s\<lparr>wire := fs, client := (client s)\<lparr>st := t\<rparr>\<rparr>)"
proof -
  note inv = flow_invD[OF assms(1)]
  have t: "t = (st (client s))\<lparr>q := q (st (client s)) @ [f], qBytes := qBytes (st (client s)) + plen f\<rparr>"
    using assms(3) inv(1,2) by (auto simp: push_def Let_def split: if_splits)
  show ?thesis
    using inv assms(2) unfolding flow_inv_def Let_def t by (cases "begun s") simp_all
qed

lemma never_bursts:
  assumes "flow_inv h s" "wire s = f # fs" "length (Payload h) \<le> 64 * 1024"
  shows "push f True False (st (client s)) \<noteq> Fail e"
proof -
  note inv = flow_invD[OF assms(1)]
  have "qBytes (st (client s)) + plen f \<le> InitialWindow_int + 64 * 1024"
    using inv(11,12,13,15) assms(2,3) bytes_of_nonneg[of fs] granted_nonneg[of "acks s"]
    by (cases "begun s") (simp_all add: of_nat_diff)
  then have "qBytes (st (client s)) + plen f \<le> flowBufferMax"
    by (simp add: flowBufferMax_def InitialWindow_int_def)
  then show ?thesis using inv(1,2) by (auto simp: push_def Let_def)
qed

lemma inv_head:
  assumes "flow_inv h s" "\<not> begun s" "pop (st (client s)) = (Some (Inr f), t)"
  shows "flow_inv h (s\<lparr>begun := True, client := (client s)\<lparr>st := t\<rparr>\<rparr>)"
proof -
  note inv = flow_invD[OF assms(1)]
  from assms(3) inv(1) obtain fs where q: "q (st (client s)) = f # fs"
    and t: "t = (st (client s))\<lparr>q := fs, qBytes := qBytes (st (client s)) - plen f\<rparr>"
    by (auto simp: pop_def split: if_splits list.splits option.splits)
  have "f = h" using inv(9)[OF assms(2)] q by simp
  then show ?thesis
    using inv assms(2) q unfolding flow_inv_def Let_def t by simp
qed

text \<open>A read moves bytes from the buffer to the unacknowledged ones, and those to a grant.\<close>

lemma read_buf_moves:
  assumes "read_buf True k b = (r, b')" "0 \<le> unacked b" "unacked b < grantEvery"
    and "int (length (buf b)) + unacked b \<le> InitialWindow_int"
  shows "st b' = st b \<and> bdone b' = bdone b \<and> 0 \<le> unacked b' \<and> unacked b' < grantEvery \<and>
    (\<exists>gs. grants b' = grants b @ gs \<and>
      int (length (buf b')) + unacked b' + granted gs = int (length (buf b)) + unacked b)"
proof -
  define n where "n = min k (length (buf b))"
  have b': "b' = grant True n (b\<lparr>buf := drop n (buf b)\<rparr>)"
    using assms(1) by (simp add: read_buf_def n_def Let_def)
  have n: "n \<le> length (buf b)" by (simp add: n_def)
  have small: "uint (word_of_int (unacked b + int n) :: 32 word) = unacked b + int n"
    using assms(2,4) n by (simp add: unsigned_of_int take_bit_int_eq_self_iff InitialWindow_int_def del: of_int_add)
  consider "n = 0" | "n \<noteq> 0" "unacked b + int n < grantEvery" | "n \<noteq> 0" "\<not> unacked b + int n < grantEvery"
    by blast
  then show ?thesis
  proof cases
    case 1
    then show ?thesis using assms b' by (simp add: grant_def)
  next
    case 2
    then show ?thesis using assms b' n by (simp add: grant_def of_nat_diff)
  next
    case 3
    then show ?thesis using assms b' n small
      by (simp add: grant_def of_nat_diff grantEvery_def del: of_int_add)
  qed
qed


lemma inv_read:
  assumes "flow_inv h s" "begun s" "Read True k False (client s) = (r, b)"
  shows "flow_inv h (s\<lparr>client := b, acks := acks s @ drop (length (grants (client s))) (grants b)\<rparr>)"
proof -
  note inv = flow_invD[OF assms(1)]
  let ?b = "client s"
  have moved: "flow_inv h (s\<lparr>client := b, acks := acks s @ drop (length (grants ?b)) (grants b)\<rparr>)"
    if m: "read_buf True k b0 = (r, b)" and e: "\<not> gone (st b0)" "serr (st b0) = None" "\<not> bdone b0"
      "unacked b0 = unacked ?b" "grants b0 = grants ?b" "list_all is_chunk (q (st b0) @ wire s)"
      "qBytes (st b0) = bytes_of (q (st b0))"
      "bytes_of (q (st b0)) + int (length (buf b0)) = bytes_of (q (st ?b)) + int (length (buf ?b))" for b0
  proof -
    have tot: "avail (home s) + bytes_of (q (st ?b)) + bytes_of (wire s) + int (length (buf ?b)) + unacked ?b
        + granted (acks s) = InitialWindow_int"
      using inv(15) assms(2) by simp
    have le: "int (length (buf b0)) + unacked b0 \<le> InitialWindow_int"
      using tot e(4,8) inv(12,13) bytes_of_nonneg[of "wire s"] granted_nonneg[of "acks s"]
        bytes_of_nonneg[of "q (st b0)"] by linarith
    obtain gs where g: "st b = st b0" "bdone b = bdone b0" "0 \<le> unacked b" "unacked b < grantEvery"
      "grants b = grants b0 @ gs"
      "int (length (buf b)) + unacked b + granted gs = int (length (buf b0)) + unacked b0"
      using read_buf_moves[OF m _ _ le] inv(13,14) e(4) by auto
    show ?thesis
      using inv(4,12) assms(2) e g tot unfolding flow_inv_def Let_def by simp
  qed
  show ?thesis
  proof (cases "buf ?b = []")
    case False
    then have "read_buf True k ?b = (r, b)" using assms(3) by (simp add: Read_def)
    then show ?thesis using inv assms(2) by (intro moved) simp_all
  next
    case empty: True
    show ?thesis
    proof (cases "q (st ?b)")
      case Nil
      then have "b = ?b" using assms(3) empty inv(1,2,3) by (simp add: Read_def pop_def)
      then show ?thesis using assms(1) by simp
    next
      case (Cons f fs)
      let ?t = "(st ?b)\<lparr>q := fs, qBytes := qBytes (st ?b) - plen f\<rparr>"
      have f: "Kind f = KindResponseBody" "Payload f \<noteq> []"
        using inv(5)[OF assms(2)] Cons by (auto simp: is_chunk_def)
      have "KindResponseBody \<noteq> KindCloseStream" by (simp add: KindResponseBody_def KindCloseStream_def)
      then have "read_buf True k (?b\<lparr>st := ?t, buf := Payload f\<rparr>) = (r, b)"
        using assms(3) empty inv(1,3) Cons f by (simp add: Read_def pop_def Let_def)
      then show ?thesis using inv assms(2) Cons empty
        by (intro moved[of "?b\<lparr>st := ?t, buf := Payload f\<rparr>"]) simp_all
    qed
  qed
qed

lemma inv_update:
  assumes "flow_inv h s" "acks s = g # gs"
  shows "flow_inv h (s\<lparr>acks := gs, home := add (uint g) (home s)\<rparr>)"
  using flow_invD[OF assms(1)] assms(2) unfolding flow_inv_def Let_def
  by (cases "begun s") (simp_all add: add_def)

lemma flow_reach_inv:
  assumes "flow_reach h s" "length (Payload h) \<le> 64 * 1024"
  shows "flow_inv h s"
  using assms(1)
proof (induction rule: flow_reach.induct)
  case start
  show ?case
    by (simp add: flow_inv_def flow_start_def newCredit_def newStream_def grantEvery_def InitialWindow_int_def)
next
  case (step s t)
  from step(2) show ?case
  proof cases
    case (send f c)
    then show ?thesis using inv_send[OF step(3)] by (simp add: is_chunk_def)
  next
    case (deliver f fs u)
    then show ?thesis using inv_deliver[OF step(3)] by simp
  next
    case (burst f fs e)
    then show ?thesis using never_bursts[OF step(3) _ assms(2)] by blast
  next
    case (head f u)
    then show ?thesis using inv_head[OF step(3)] by simp
  next
    case (read k r b)
    then show ?thesis using inv_read[OF step(3)] by simp
  next
    case (update g gs)
    then show ?thesis using inv_update[OF step(3)] by simp
  qed
qed


definition sample_head :: Frame where
  "sample_head = \<lparr>Kind = KindResponseHead, StreamID = 1, Payload = [72, 84, 84, 80]\<rparr>"


text \<open>
  Without the bound on the head it is not so: a long head that has not been taken yet
  counts against the buffer, and the frame that fits the window is refused.
\<close>

lemma long_head_overruns:
  assumes "q s = hd_frame # bodies" "qBytes s = bytes_of (q s)" "serr s = None" "\<not> gone s"
    and "64 * 1024 < length (Payload hd_frame)" "Kind f = KindResponseBody"
    and "bytes_of bodies + plen f = InitialWindow_int"
  shows "push f True False s = Fail errStreamOverflow"
  using assms by (simp add: push_def flowBufferMax_def Let_def InitialWindow_int_def)

end

