(* ===== verification/Relay_Registry.thy ===== *)
theory Relay_Registry
  imports Prelude
begin

text \<open>
  The registry of live tunnels of one relay process (\<open>cloud/internal/relay/registry.go\<close>,
  with \<open>nextSeq\<close> and \<open>Close\<close> of \<open>tunnel.go\<close>, the draining of \<open>drain.go\<close>, and what
  \<open>TunnelServer.ServeHTTP\<close> of \<open>ws.go\<close> does around them), and the directory of tunnels
  that the processes share (\<open>directory.go\<close>, its in-memory form).

  A tunnel is named by its sequence number: the numbers are handed out strictly
  increasing, so comparing pointers is comparing numbers. A tunnel's state lives in a map
  from numbers, since the registry, the handler and the readers share it.

  Up and Down hold the slug's lock over several actions that others can see between; the
  step relation at the end has each of those actions as a step of its own, and readers may
  close a tunnel, and drains begin, at any point.
\<close>

section \<open>Tunnels\<close>

record Tunnel =
  tn_server :: string
  tn_slug :: string
  tn_closed :: bool
  tn_draining :: bool
  canDrain :: bool
  inflight :: int

definition nextSeq :: "nat \<Rightarrow> nat \<Rightarrow> nat" where
  "nextSeq now last_seq = max now (last_seq + 1)"

definition NewTunnel :: "string \<Rightarrow> string \<Rightarrow> bool \<Rightarrow> Tunnel" where
  "NewTunnel server slug can_drain =
    \<lparr>tn_server = server, tn_slug = slug, tn_closed = False, tn_draining = False,
     canDrain = can_drain, inflight = 0\<rparr>"

definition Busy :: "Tunnel \<Rightarrow> bool" where
  "Busy t \<longleftrightarrow> 0 < inflight t"

definition CloseTunnel :: "Tunnel \<Rightarrow> Tunnel" where
  "CloseTunnel t = t\<lparr>tn_closed := True\<rparr>"

text \<open>
  The first \<open>Drain\<close> of a tunnel; its watcher closes an idle tunnel of a home that cannot
  move by itself at once, and when a poll finds it idle, and any at the deadline.
\<close>

definition Drain :: "Tunnel \<Rightarrow> Tunnel" where
  "Drain t =
    (if tn_draining t then t
     else let d = t\<lparr>tn_draining := True\<rparr> in
       if \<not> canDrain d \<and> \<not> Busy d then CloseTunnel d else d)"

datatype drain_event = Poll | Deadline

definition drainWatch :: "drain_event \<Rightarrow> Tunnel \<Rightarrow> Tunnel" where
  "drainWatch e t =
    (if tn_closed t then t
     else case e of
       Poll \<Rightarrow> if \<not> canDrain t \<and> \<not> Busy t then CloseTunnel t else t
     | Deadline \<Rightarrow> CloseTunnel t)"

section \<open>The registry\<close>

record Registry =
  conns :: "string \<rightharpoonup> nat"
  opened :: "nat set"
  seen :: "string \<rightharpoonup> instant"
  tunnels :: "nat \<Rightarrow> Tunnel"

datatype lookup_error = ErrNoTunnel

definition NewRegistry :: "(nat \<Rightarrow> Tunnel) \<Rightarrow> Registry" where
  "NewRegistry heap = \<lparr>conns = Map.empty, opened = {}, seen = Map.empty, tunnels = heap\<rparr>"

definition close_id :: "nat \<Rightarrow> Registry \<Rightarrow> Registry" where
  "close_id i r = r\<lparr>tunnels := (tunnels r)(i := CloseTunnel (tunnels r i))\<rparr>"

definition drain_id :: "nat \<Rightarrow> Registry \<Rightarrow> Registry" where
  "drain_id i r = r\<lparr>tunnels := (tunnels r)(i := Drain (tunnels r i))\<rparr>"

definition track :: "nat \<Rightarrow> Registry \<Rightarrow> Registry" where
  "track i r = r\<lparr>opened := insert i (opened r)\<rparr>"

definition Register :: "string \<Rightarrow> nat \<Rightarrow> instant \<Rightarrow> Registry \<Rightarrow> Registry" where
  "Register slug i now r0 =
    (let r = (case conns r0 slug of
                Some old \<Rightarrow> if old \<noteq> i \<and> \<not> tn_draining (tunnels r0 old) then close_id old r0 else r0
              | None \<Rightarrow> r0) in
     track i (r\<lparr>conns := (conns r)(slug \<mapsto> i), seen := (seen r)(slug \<mapsto> now)\<rparr>))"

definition Unregister :: "string \<Rightarrow> nat \<Rightarrow> instant \<Rightarrow> Registry \<Rightarrow> bool \<times> Registry" where
  "Unregister slug i now r =
    (if conns r slug = Some i
     then (True, r\<lparr>conns := (conns r)(slug := None), seen := (seen r)(slug \<mapsto> now)\<rparr>)
     else (False, r))"

text \<open>What makes \<open>Up\<close> refuse an attempt that has the slug's lock.\<close>

definition stale :: "string \<Rightarrow> nat \<Rightarrow> Registry \<Rightarrow> bool" where
  "stale slug i r \<longleftrightarrow> tn_closed (tunnels r i) \<or>
    (case conns r slug of Some cur \<Rightarrow> i < cur | None \<Rightarrow> False)"

definition Up :: "string \<Rightarrow> nat \<Rightarrow> ('s \<Rightarrow> 's) \<Rightarrow> instant \<Rightarrow> Registry \<times> 's \<Rightarrow> bool \<times> (Registry \<times> 's)" where
  "Up slug i rec now rs =
    (let (r, s) = rs in
     if stale slug i r then (False, rs) else (True, (Register slug i now r, rec s)))"

definition Down :: "string \<Rightarrow> nat \<Rightarrow> ('s \<Rightarrow> 's) \<Rightarrow> instant \<Rightarrow> Registry \<times> 's \<Rightarrow> bool \<times> (Registry \<times> 's)" where
  "Down slug i rec now rs =
    (let (r, s) = rs in
     case Unregister slug i now r of
       (False, _) \<Rightarrow> (False, rs)
     | (True, r') \<Rightarrow> (True, (r', rec s)))"

definition LastSeen :: "string \<Rightarrow> instant \<Rightarrow> Registry \<Rightarrow> instant option" where
  "LastSeen slug now r = (case conns r slug of Some _ \<Rightarrow> Some now | None \<Rightarrow> seen r slug)"

definition Lookup :: "string \<Rightarrow> Registry \<Rightarrow> lookup_error + nat" where
  "Lookup slug r = (case conns r slug of Some i \<Rightarrow> Inr i | None \<Rightarrow> Inl ErrNoTunnel)"

definition Len :: "Registry \<Rightarrow> nat" where
  "Len r = card (dom (conns r))"


definition All :: "Registry \<Rightarrow> nat list" where
  "All r = sorted_list_of_set (opened r)"

definition Live :: "Registry \<Rightarrow> nat" where
  "Live r = card (opened r)"

text \<open>The goroutine of \<open>track\<close>, once the tunnel has closed.\<close>

definition untrack :: "nat \<Rightarrow> Registry \<Rightarrow> Registry" where
  "untrack i r = r\<lparr>opened := opened r - {i}\<rparr>"

section \<open>The shared directory\<close>

record Peer =
  RelayID :: string
  Addr :: string
  Seq :: nat

type_synonym rows = "string \<rightharpoonup> Peer"

definition dirUp :: "string \<Rightarrow> string \<Rightarrow> string \<Rightarrow> nat \<Rightarrow> rows \<Rightarrow> rows" where
  "dirUp rid addr slug s d =
    (case d slug of
       Some cur \<Rightarrow> if s \<le> Seq cur then d else d(slug \<mapsto> \<lparr>RelayID = rid, Addr = addr, Seq = s\<rparr>)
     | None \<Rightarrow> d(slug \<mapsto> \<lparr>RelayID = rid, Addr = addr, Seq = s\<rparr>))"

definition dirDown :: "string \<Rightarrow> string \<Rightarrow> nat \<Rightarrow> rows \<Rightarrow> rows" where
  "dirDown rid slug s d =
    (case d slug of
       Some cur \<Rightarrow> if RelayID cur = rid \<and> Seq cur = s then d(slug := None) else d
     | None \<Rightarrow> d)"

definition dirLookup :: "string \<Rightarrow> string \<Rightarrow> rows \<Rightarrow> Peer option" where
  "dirLookup rid slug d =
    (case d slug of Some p \<Rightarrow> if RelayID p = rid then None else Some p | None \<Rightarrow> None)"

definition dirDrop :: "string \<Rightarrow> rows \<Rightarrow> rows" where
  "dirDrop rid d slug =
    (case d slug of Some p \<Rightarrow> if RelayID p = rid then None else Some p | None \<Rightarrow> None)"

section \<open>The handlers, step by step\<close>

text \<open>
  Where a tunnel's handler is: its tunnel made and waiting for the slug's lock; past the
  test of \<open>Up\<close>; with the server recorded online; installed; past \<open>Unregister\<close> of the live
  tunnel; done. In \<open>Recording\<close>, \<open>Installing\<close> and \<open>Erasing\<close> it holds the lock.
\<close>

datatype phase = Unmade | Attempting | Recording | Installing | Serving | Erasing | Ended

record relay =
  reg :: Registry
  phases :: "nat \<Rightarrow> phase"
  locked :: "string \<rightharpoonup> nat"
  online :: "string \<Rightarrow> bool"
  lastSeq :: nat

definition slug_of :: "relay \<Rightarrow> nat \<Rightarrow> string" where
  "slug_of s i = tn_slug (tunnels (reg s) i)"

definition server_of :: "relay \<Rightarrow> nat \<Rightarrow> string" where
  "server_of s i = tn_server (tunnels (reg s) i)"

definition make :: "nat \<Rightarrow> string \<Rightarrow> string \<Rightarrow> bool \<Rightarrow> relay \<Rightarrow> relay" where
  "make now server slug cd s =
    (let i = nextSeq now (lastSeq s) in
     s\<lparr>lastSeq := i, phases := (phases s)(i := Attempting),
       reg := (reg s)\<lparr>tunnels := (tunnels (reg s))(i := NewTunnel server slug cd)\<rparr>\<rparr>)"

text \<open>
  \<open>srv\<close> is the database's answer to which server has a slug: a slug belongs to one
  server and a server has one slug.
\<close>

inductive relay_step :: "(string \<Rightarrow> string) \<Rightarrow> relay \<Rightarrow> relay \<Rightarrow> bool" for srv where
  make: "relay_step srv s (make now (srv slug) slug cd s)"
| refuse: "phases s i = Attempting \<Longrightarrow> locked s (slug_of s i) = None \<Longrightarrow> stale (slug_of s i) i (reg s) \<Longrightarrow>
    relay_step srv s (s\<lparr>phases := (phases s)(i := Ended), reg := close_id i (reg s)\<rparr>)"
| admit: "phases s i = Attempting \<Longrightarrow> locked s (slug_of s i) = None \<Longrightarrow> \<not> stale (slug_of s i) i (reg s) \<Longrightarrow>
    relay_step srv s (s\<lparr>phases := (phases s)(i := Recording), locked := (locked s)(slug_of s i \<mapsto> i)\<rparr>)"
| record_online: "phases s i = Recording \<Longrightarrow>
    relay_step srv s (s\<lparr>phases := (phases s)(i := Installing), online := (online s)(server_of s i := True)\<rparr>)"
| install: "phases s i = Installing \<Longrightarrow>
    relay_step srv s (s\<lparr>phases := (phases s)(i := Serving), locked := (locked s)(slug_of s i := None),
      reg := Register (slug_of s i) i now (reg s)\<rparr>)"
| remove: "phases s i = Serving \<Longrightarrow> tn_closed (tunnels (reg s) i) \<Longrightarrow> locked s (slug_of s i) = None \<Longrightarrow>
    Unregister (slug_of s i) i now (reg s) = (True, r) \<Longrightarrow>
    relay_step srv s (s\<lparr>phases := (phases s)(i := Erasing), locked := (locked s)(slug_of s i \<mapsto> i), reg := r\<rparr>)"
| superseded: "phases s i = Serving \<Longrightarrow> tn_closed (tunnels (reg s) i) \<Longrightarrow> locked s (slug_of s i) = None \<Longrightarrow>
    Unregister (slug_of s i) i now (reg s) = (False, r) \<Longrightarrow>
    relay_step srv s (s\<lparr>phases := (phases s)(i := Ended)\<rparr>)"
| record_offline: "phases s i = Erasing \<Longrightarrow>
    relay_step srv s (s\<lparr>phases := (phases s)(i := Ended), locked := (locked s)(slug_of s i := None),
      online := (online s)(server_of s i := False)\<rparr>)"
| close: "phases s i \<noteq> Unmade \<Longrightarrow> relay_step srv s (s\<lparr>reg := close_id i (reg s)\<rparr>)"
| drain: "phases s i \<noteq> Unmade \<Longrightarrow> relay_step srv s (s\<lparr>reg := drain_id i (reg s)\<rparr>)"
| watch: "phases s i \<noteq> Unmade \<Longrightarrow> tn_draining (tunnels (reg s) i) \<Longrightarrow>
    relay_step srv s (s\<lparr>reg := (reg s)\<lparr>tunnels := (tunnels (reg s))(i := drainWatch e (tunnels (reg s) i))\<rparr>\<rparr>)"
| traffic: "relay_step srv s (s\<lparr>reg := (reg s)\<lparr>tunnels :=
      (tunnels (reg s))(i := (tunnels (reg s) i)\<lparr>inflight := n\<rparr>)\<rparr>\<rparr>)"
| untrack: "tn_closed (tunnels (reg s) i) \<Longrightarrow> relay_step srv s (s\<lparr>reg := untrack i (reg s)\<rparr>)"

definition relay_start :: relay where
  "relay_start = \<lparr>reg = NewRegistry (\<lambda>_. NewTunnel '''' '''' False), phases = (\<lambda>_. Unmade),
    locked = Map.empty, online = (\<lambda>_. False), lastSeq = 0\<rparr>"

inductive relay_reach :: "(string \<Rightarrow> string) \<Rightarrow> relay \<Rightarrow> bool" for srv where
  start: "relay_reach srv relay_start"
| step: "relay_reach srv s \<Longrightarrow> relay_step srv s t \<Longrightarrow> relay_reach srv t"


section \<open>The invariant\<close>

definition holding :: "phase \<Rightarrow> bool" where
  "holding p \<longleftrightarrow> p = Recording \<or> p = Installing \<or> p = Erasing"

lemma holding_simps [simp]:
  "holding Recording" "holding Installing" "holding Erasing"
  "\<not> holding Unmade" "\<not> holding Attempting" "\<not> holding Serving" "\<not> holding Ended"
  by (simp_all add: holding_def)

definition inv_names :: "(string \<Rightarrow> string) \<Rightarrow> relay \<Rightarrow> bool" where
  "inv_names srv s \<longleftrightarrow> (\<forall>i. phases s i \<noteq> Unmade \<longrightarrow> server_of s i = srv (slug_of s i) \<and> i \<le> lastSeq s)"

definition inv_lock :: "relay \<Rightarrow> bool" where
  "inv_lock s \<longleftrightarrow> (\<forall>g i. locked s g = Some i \<longleftrightarrow> slug_of s i = g \<and> holding (phases s i))"

definition inv_conns :: "relay \<Rightarrow> bool" where
  "inv_conns s \<longleftrightarrow> (\<forall>g i. conns (reg s) g = Some i \<longrightarrow> slug_of s i = g \<and> phases s i = Serving)"

definition inv_serving :: "relay \<Rightarrow> bool" where
  "inv_serving s \<longleftrightarrow> (\<forall>i. phases s i = Serving \<longrightarrow> conns (reg s) (slug_of s i) = Some i \<or>
     tn_closed (tunnels (reg s) i) \<or> tn_draining (tunnels (reg s) i))"

definition inv_newer :: "relay \<Rightarrow> bool" where
  "inv_newer s \<longleftrightarrow> (\<forall>i cur. phases s i = Recording \<or> phases s i = Installing \<longrightarrow>
     conns (reg s) (slug_of s i) = Some cur \<longrightarrow> cur < i)"

definition inv_erasing :: "relay \<Rightarrow> bool" where
  "inv_erasing s \<longleftrightarrow> (\<forall>i. phases s i = Erasing \<longrightarrow> conns (reg s) (slug_of s i) = None)"

text \<open>The slug's tunnel is between the recording and the routing, on the way up or down.\<close>

definition in_between :: "relay \<Rightarrow> string \<Rightarrow> bool" where
  "in_between s g \<longleftrightarrow>
    (case locked s g of None \<Rightarrow> False | Some i \<Rightarrow> phases s i = Installing \<or> phases s i = Erasing)"

definition inv_online :: "(string \<Rightarrow> string) \<Rightarrow> relay \<Rightarrow> bool" where
  "inv_online srv s \<longleftrightarrow> (\<forall>g. online s (srv g) \<longleftrightarrow> conns (reg s) g \<noteq> None \<or> in_between s g)"

definition relay_inv :: "(string \<Rightarrow> string) \<Rightarrow> relay \<Rightarrow> bool" where
  "relay_inv srv s \<longleftrightarrow> inv_names srv s \<and> inv_lock s \<and> inv_conns s \<and> inv_serving s \<and>
     inv_newer s \<and> inv_erasing s \<and> inv_online srv s"

lemmas inv_defs = inv_names_def inv_lock_def inv_conns_def inv_serving_def inv_newer_def
  inv_erasing_def inv_online_def

text \<open>Tunnels only ever close or start to drain: such changes keep the invariant.\<close>

lemma heap_change_inv:
  assumes "relay_inv srv s" "phases t = phases s" "locked t = locked s" "online t = online s"
    "lastSeq t = lastSeq s" "conns (reg t) = conns (reg s)"
    "\<And>i. tn_slug (tunnels (reg t) i) = tn_slug (tunnels (reg s) i)"
    "\<And>i. tn_server (tunnels (reg t) i) = tn_server (tunnels (reg s) i)"
    "\<And>i. tn_closed (tunnels (reg s) i) \<Longrightarrow> tn_closed (tunnels (reg t) i)"
    "\<And>i. tn_draining (tunnels (reg s) i) \<Longrightarrow> tn_draining (tunnels (reg t) i)"
  shows "relay_inv srv t"
proof -
  have same: "slug_of t = slug_of s" "server_of t = server_of s"
    using assms(7,8) by (auto simp: slug_of_def server_of_def fun_eq_iff)
  have "inv_serving t"
    using assms(1,9,10) unfolding relay_inv_def inv_serving_def same assms(2-6) by meson
  then show ?thesis
    using assms(1) unfolding relay_inv_def inv_names_def inv_lock_def inv_conns_def inv_newer_def
      inv_erasing_def inv_online_def in_between_def same assms(2-6) by meson
qed

lemma close_id_fields [simp]:
  "conns (close_id i r) = conns r" "tn_slug (tunnels (close_id i r) j) = tn_slug (tunnels r j)"
  "tn_server (tunnels (close_id i r) j) = tn_server (tunnels r j)"
  "tn_draining (tunnels (close_id i r) j) = tn_draining (tunnels r j)"
  "tn_closed (tunnels (close_id i r) j) \<longleftrightarrow> j = i \<or> tn_closed (tunnels r j)"
  by (auto simp: close_id_def CloseTunnel_def)

lemma Register_fields [simp]:
  "conns (Register slug i now r) = (conns r)(slug \<mapsto> i)"
  "tn_slug (tunnels (Register slug i now r) j) = tn_slug (tunnels r j)"
  "tn_server (tunnels (Register slug i now r) j) = tn_server (tunnels r j)"
  "tn_draining (tunnels (Register slug i now r) j) = tn_draining (tunnels r j)"
  "tn_closed (tunnels (Register slug i now r) j) \<longleftrightarrow>
     tn_closed (tunnels r j) \<or> (conns r slug = Some j \<and> j \<noteq> i \<and> \<not> tn_draining (tunnels r j))"
  by (auto simp: Register_def Let_def track_def split: option.split)

lemma Unregister_True:
  "Unregister slug i now r = (True, r') \<Longrightarrow>
    conns r slug = Some i \<and> conns r' = (conns r)(slug := None) \<and> tunnels r' = tunnels r"
  by (auto simp: Unregister_def split: if_splits)

lemma Unregister_False: "Unregister slug i now r = (False, r') \<Longrightarrow> conns r slug \<noteq> Some i"
  by (auto simp: Unregister_def split: if_splits)

lemma Drain_fields [simp]:
  "tn_slug (Drain t) = tn_slug t" "tn_server (Drain t) = tn_server t"
  "tn_closed t \<Longrightarrow> tn_closed (Drain t)" "tn_draining (Drain t)"
  by (auto simp: Drain_def Let_def CloseTunnel_def)

lemma drainWatch_fields [simp]:
  "tn_slug (drainWatch e t) = tn_slug t" "tn_server (drainWatch e t) = tn_server t"
  "tn_draining (drainWatch e t) = tn_draining t" "tn_closed t \<Longrightarrow> tn_closed (drainWatch e t)"
  by (auto simp: drainWatch_def CloseTunnel_def split: drain_event.split)

lemma slug_of_upd [simp]:
  "slug_of (s\<lparr>phases := p\<rparr>) = slug_of s" "slug_of (s\<lparr>locked := l\<rparr>) = slug_of s"
  "slug_of (s\<lparr>online := n\<rparr>) = slug_of s" "slug_of (s\<lparr>reg := close_id j (reg s)\<rparr>) = slug_of s"
  "slug_of (s\<lparr>reg := Register g j now (reg s)\<rparr>) = slug_of s"
  "server_of (s\<lparr>phases := p\<rparr>) = server_of s" "server_of (s\<lparr>locked := l\<rparr>) = server_of s"
  "server_of (s\<lparr>online := n\<rparr>) = server_of s" "server_of (s\<lparr>reg := close_id j (reg s)\<rparr>) = server_of s"
  "server_of (s\<lparr>reg := Register g j now (reg s)\<rparr>) = server_of s"
  by (auto simp: slug_of_def server_of_def fun_eq_iff)


lemma holder_unique:
  "relay_inv srv s \<Longrightarrow> holding (phases s i) \<Longrightarrow> holding (phases s j) \<Longrightarrow> slug_of s i = slug_of s j \<Longrightarrow> i = j"
  unfolding relay_inv_def inv_lock_def by (metis option.inject)

lemma relay_inv_parts:
  "relay_inv srv s \<Longrightarrow> inv_names srv s" "relay_inv srv s \<Longrightarrow> inv_lock s" "relay_inv srv s \<Longrightarrow> inv_conns s"
  "relay_inv srv s \<Longrightarrow> inv_serving s" "relay_inv srv s \<Longrightarrow> inv_newer s" "relay_inv srv s \<Longrightarrow> inv_erasing s"
  "relay_inv srv s \<Longrightarrow> inv_online srv s"
  by (simp_all add: relay_inv_def)

lemma lock_holder:
  assumes "relay_inv srv s"
  shows "locked s g = Some i \<Longrightarrow> g = slug_of s i" "locked s g = Some i \<Longrightarrow> holding (phases s i)"
    "holding (phases s i) \<Longrightarrow> locked s (slug_of s i) = Some i"
  using relay_inv_parts(2)[OF assms] by (auto simp: inv_lock_def)

lemma not_holding: "relay_inv srv s \<Longrightarrow> \<not> holding (phases s i) \<Longrightarrow> locked s g \<noteq> Some i"
  using lock_holder by blast

lemma in_between_other:
  "locked t g = locked s g \<Longrightarrow> (\<And>j. locked s g = Some j \<Longrightarrow> phases t j = phases s j) \<Longrightarrow>
    in_between t g = in_between s g"
  by (simp add: in_between_def split: option.split)

lemma inv_onlineI:
  assumes "relay_inv srv s"
    and "\<And>g. g \<noteq> slug_of s i \<Longrightarrow> locked t g = locked s g \<and> conns (reg t) g = conns (reg s) g
           \<and> online t (srv g) = online s (srv g)"
    and "\<And>j. j \<noteq> i \<Longrightarrow> phases t j = phases s j"
    and "online t (srv (slug_of s i)) \<longleftrightarrow> conns (reg t) (slug_of s i) \<noteq> None \<or> in_between t (slug_of s i)"
  shows "inv_online srv t"
  unfolding inv_online_def
proof
  fix g
  show "online t (srv g) \<longleftrightarrow> conns (reg t) g \<noteq> None \<or> in_between t g"
  proof (cases "g = slug_of s i")
    case True
    then show ?thesis using assms(4) by simp
  next
    case False
    have "in_between t g = in_between s g"
    proof (rule in_between_other)
      show "locked t g = locked s g" using assms(2)[OF False] by simp
      show "phases t j = phases s j" if "locked s g = Some j" for j
        using lock_holder(1)[OF assms(1) that] False by (intro assms(3)) auto
    qed
    then show ?thesis
      using assms(2)[OF False] relay_inv_parts(7)[OF assms(1)] by (simp add: inv_online_def)
  qed
qed

lemma inv_leave:
  assumes "relay_inv srv s" "phases s i = Attempting \<or> phases s i = Serving" "\<And>g. conns (reg s) g \<noteq> Some i"
  shows "relay_inv srv (s\<lparr>phases := (phases s)(i := Ended)\<rparr>)"
proof -
  note parts = relay_inv_parts[OF assms(1)]
  let ?t = "s\<lparr>phases := (phases s)(i := Ended)\<rparr>"
  have "inv_names srv ?t" using parts(1) assms(2) by (auto simp: inv_names_def)
  moreover have "inv_lock ?t" using parts(2) assms(2) by (auto simp: inv_lock_def)
  moreover have "inv_conns ?t" using parts(3) assms(3) by (auto simp: inv_conns_def)
  moreover have "inv_serving ?t" using parts(4) by (simp add: inv_serving_def)
  moreover have "inv_newer ?t" using parts(5) by (simp add: inv_newer_def)
  moreover have "inv_erasing ?t" using parts(6) by (simp add: inv_erasing_def)
  moreover have "inv_online srv ?t"
  proof -
    have "phases s i \<noteq> Installing" "phases s i \<noteq> Erasing" using assms(2) by auto
    then have "in_between ?t g = in_between s g" for g
      using not_holding[OF assms(1), of i g] assms(2) by (intro in_between_other) auto
    then show ?thesis using parts(7) by (simp add: inv_online_def)
  qed
  ultimately show ?thesis by (simp add: relay_inv_def)
qed

lemma inv_admit:
  assumes "relay_inv srv s" "phases s i = Attempting" "locked s (slug_of s i) = None" "\<not> stale (slug_of s i) i (reg s)"
  shows "relay_inv srv (s\<lparr>phases := (phases s)(i := Recording), locked := (locked s)(slug_of s i \<mapsto> i)\<rparr>)"
proof -
  have le: "cur < i" if "conns (reg s) (slug_of s i) = Some cur" for cur
  proof -
    have "phases s cur = Serving"
      using that relay_inv_parts(3)[OF assms(1)] by (simp add: inv_conns_def)
    then have "cur \<noteq> i" using assms(2) by auto
    then show ?thesis using that assms(4) by (auto simp: stale_def)
  qed
  note parts = relay_inv_parts[OF assms(1)]
  have free: "\<not> holding (phases s j)" if "slug_of s j = slug_of s i" for j
    using lock_holder(3)[OF assms(1), of j] assms(3) that by auto
  let ?t = "s\<lparr>phases := (phases s)(i := Recording), locked := (locked s)(slug_of s i \<mapsto> i)\<rparr>"
  have "inv_names srv ?t" using parts(1) assms(2) by (simp add: inv_names_def)
  moreover have "inv_lock ?t" using parts(2) free unfolding inv_lock_def by auto
  moreover have "inv_conns ?t" using parts(3) assms(2) by (auto simp: inv_conns_def)
  moreover have "inv_serving ?t" using parts(4) by (simp add: inv_serving_def)
  moreover have "inv_newer ?t" using parts(5) le by (simp add: inv_newer_def)
  moreover have "inv_erasing ?t" using parts(6) by (simp add: inv_erasing_def)
  moreover have "inv_online srv ?t"
    using parts(7) assms(3) by (intro inv_onlineI[OF assms(1), of i]) (auto simp: inv_online_def in_between_def)
  ultimately show ?thesis by (simp add: relay_inv_def)
qed


lemma inv_record_online:
  assumes "relay_inv srv s" "phases s i = Recording" "inj srv"
  shows "relay_inv srv (s\<lparr>phases := (phases s)(i := Installing), online := (online s)(server_of s i := True)\<rparr>)"
proof -
  note parts = relay_inv_parts[OF assms(1)]
  let ?t = "s\<lparr>phases := (phases s)(i := Installing), online := (online s)(server_of s i := True)\<rparr>"
  have srv: "server_of s i = srv (slug_of s i)" using parts(1) assms(2) by (simp add: inv_names_def)
  have lock: "locked s (slug_of s i) = Some i" using parts(2) assms(2) by (simp add: inv_lock_def)
  have "inv_names srv ?t" using parts(1) assms(2) by (simp add: inv_names_def)
  moreover have "inv_lock ?t" using parts(2) assms(2) by (auto simp: inv_lock_def)
  moreover have "inv_conns ?t" using parts(3) assms(2) by (auto simp: inv_conns_def)
  moreover have "inv_serving ?t" using parts(4) by (simp add: inv_serving_def)
  moreover have "inv_newer ?t" using parts(5) assms(2) by (simp add: inv_newer_def)
  moreover have "inv_erasing ?t" using parts(6) by (simp add: inv_erasing_def)
  moreover have "inv_online srv ?t"
    using lock assms(3) srv by (intro inv_onlineI[OF assms(1), of i]) (auto simp: inj_eq in_between_def)
  ultimately show ?thesis by (simp add: relay_inv_def)
qed

lemma inv_install:
  assumes "relay_inv srv s" "phases s i = Installing"
  shows "relay_inv srv (s\<lparr>phases := (phases s)(i := Serving), locked := (locked s)(slug_of s i := None),
      reg := Register (slug_of s i) i now (reg s)\<rparr>)"
proof -
  note parts = relay_inv_parts[OF assms(1)]
  let ?t = "s\<lparr>phases := (phases s)(i := Serving), locked := (locked s)(slug_of s i := None),
      reg := Register (slug_of s i) i now (reg s)\<rparr>"
  have slug: "slug_of ?t = slug_of s" "server_of ?t = server_of s"
    by (auto simp: slug_of_def server_of_def fun_eq_iff)
  have lock: "locked s (slug_of s i) = Some i" using parts(2) assms(2) by (simp add: inv_lock_def)
  have on: "online s (srv (slug_of s i))"
    using parts(7) lock assms(2) by (auto simp: inv_online_def in_between_def)
  have uniq: "j = i" if "holding (phases s j)" "slug_of s j = slug_of s i" for j
    using holder_unique[OF assms(1) that(1) _ that(2)] assms(2) by simp
  have "inv_names srv ?t" using parts(1) assms(2) unfolding inv_names_def slug by simp
  moreover have "inv_lock ?t" using parts(2) lock uniq unfolding inv_lock_def slug by auto
  moreover have "inv_conns ?t" using parts(3) unfolding inv_conns_def slug by auto
  moreover have "inv_serving ?t"
    using parts(4) unfolding inv_serving_def slug by (auto split: if_splits)
  moreover have "inv_newer ?t"
    using parts(5) uniq unfolding inv_newer_def slug by (auto split: if_splits simp: holding_def)
  moreover have "inv_erasing ?t"
    using parts(6) uniq unfolding inv_erasing_def slug by (auto split: if_splits simp: holding_def)
  moreover have "inv_online srv ?t"
    using on by (intro inv_onlineI[OF assms(1), of i]) auto
  ultimately show ?thesis by (simp add: relay_inv_def)
qed

lemma inv_remove:
  assumes "relay_inv srv s" "phases s i = Serving" "locked s (slug_of s i) = None"
    "Unregister (slug_of s i) i now (reg s) = (True, r)"
  shows "relay_inv srv (s\<lparr>phases := (phases s)(i := Erasing), locked := (locked s)(slug_of s i \<mapsto> i), reg := r\<rparr>)"
proof -
  note parts = relay_inv_parts[OF assms(1)]
  note un = Unregister_True[OF assms(4)]
  let ?t = "s\<lparr>phases := (phases s)(i := Erasing), locked := (locked s)(slug_of s i \<mapsto> i), reg := r\<rparr>"
  have slug: "slug_of ?t = slug_of s" "server_of ?t = server_of s"
    using un by (auto simp: slug_of_def server_of_def fun_eq_iff)
  have free: "\<not> holding (phases s j)" if "slug_of s j = slug_of s i" for j
    using parts(2) assms(3) that unfolding inv_lock_def by (metis option.distinct(1))
  have "inv_names srv ?t" using parts(1) assms(2) unfolding inv_names_def slug by simp
  moreover have "inv_lock ?t" using parts(2) assms(2,3) free unfolding inv_lock_def slug by auto
  moreover have "inv_conns ?t" using parts(3) un unfolding inv_conns_def slug by auto
  moreover have "inv_serving ?t"
    using parts(4) un unfolding inv_serving_def slug by auto
  moreover have "inv_newer ?t"
    using parts(5) free un unfolding inv_newer_def slug by auto
  moreover have "inv_erasing ?t"
    using parts(6) un unfolding inv_erasing_def slug by auto
  moreover have "inv_online srv ?t"
    using un parts(7) by (intro inv_onlineI[OF assms(1), of i]) (auto simp: in_between_def inv_online_def)
  ultimately show ?thesis by (simp add: relay_inv_def)
qed

lemma inv_record_offline:
  assumes "relay_inv srv s" "phases s i = Erasing" "inj srv"
  shows "relay_inv srv (s\<lparr>phases := (phases s)(i := Ended), locked := (locked s)(slug_of s i := None),
      online := (online s)(server_of s i := False)\<rparr>)"
proof -
  note parts = relay_inv_parts[OF assms(1)]
  let ?t = "s\<lparr>phases := (phases s)(i := Ended), locked := (locked s)(slug_of s i := None),
      online := (online s)(server_of s i := False)\<rparr>"
  have slug: "slug_of ?t = slug_of s" "server_of ?t = server_of s"
    by (auto simp: slug_of_def server_of_def fun_eq_iff)
  have srv: "server_of s i = srv (slug_of s i)" using parts(1) assms(2) by (simp add: inv_names_def)
  have lock: "locked s (slug_of s i) = Some i" using parts(2) assms(2) by (simp add: inv_lock_def)
  have none: "conns (reg s) (slug_of s i) = None" using parts(6) assms(2) by (simp add: inv_erasing_def)
  have uniq: "j = i" if "holding (phases s j)" "slug_of s j = slug_of s i" for j
    using holder_unique[OF assms(1) that(1) _ that(2)] assms(2) by simp
  have "inv_names srv ?t" using parts(1) assms(2) unfolding inv_names_def slug by simp
  moreover have "inv_lock ?t" using parts(2) lock uniq unfolding inv_lock_def slug by auto
  moreover have "inv_conns ?t" using parts(3) assms(2) unfolding inv_conns_def slug by auto
  moreover have "inv_serving ?t" using parts(4) unfolding inv_serving_def slug by auto
  moreover have "inv_newer ?t" using parts(5) unfolding inv_newer_def slug by auto
  moreover have "inv_erasing ?t" using parts(6) unfolding inv_erasing_def slug by auto
  moreover have "inv_online srv ?t"
    using none assms(3) srv by (intro inv_onlineI[OF assms(1), of i]) (auto simp: inj_eq in_between_def)
  ultimately show ?thesis by (simp add: relay_inv_def)
qed

lemma inv_make:
  assumes "relay_inv srv s"
  shows "relay_inv srv (make now (srv slug) slug cd s)"
proof -
  note parts = relay_inv_parts[OF assms]
  define i where "i = nextSeq now (lastSeq s)"
  have new: "lastSeq s < i" by (simp add: i_def nextSeq_def)
  have un: "phases s i = Unmade"
    using parts(1) new unfolding inv_names_def by (metis not_less)
  let ?t = "make now (srv slug) slug cd s"
  have ph: "phases ?t = (phases s)(i := Attempting)" "lastSeq ?t = i" "conns (reg ?t) = conns (reg s)"
      "locked ?t = locked s" "online ?t = online s" "tunnels (reg ?t) i = NewTunnel (srv slug) slug cd"
    and other: "\<And>j. j \<noteq> i \<Longrightarrow> tunnels (reg ?t) j = tunnels (reg s) j"
    by (simp_all add: make_def Let_def i_def)
  have sl: "slug_of ?t j = (if j = i then slug else slug_of s j)"
    "server_of ?t j = (if j = i then srv slug else server_of s j)" for j
    using ph(6) other by (simp_all add: slug_of_def server_of_def NewTunnel_def)
  have "inv_names srv ?t" using parts(1) new unfolding inv_names_def ph sl by (auto intro: less_imp_le order.trans)
  moreover have "inv_lock ?t" using parts(2) un unfolding inv_lock_def ph sl by auto
  moreover have "inv_conns ?t" using parts(3) un unfolding inv_conns_def ph sl by auto
  moreover have "inv_serving ?t" using parts(4) other unfolding inv_serving_def ph sl by auto
  moreover have "inv_newer ?t" using parts(5) unfolding inv_newer_def ph sl by auto
  moreover have "inv_erasing ?t" using parts(6) unfolding inv_erasing_def ph sl by auto
  moreover have "inv_online srv ?t"
  proof -
    have "in_between ?t g = in_between s g" for g
      using not_holding[OF assms, of i g] un by (intro in_between_other) (auto simp: ph)
    then show ?thesis using parts(7) by (simp add: inv_online_def ph)
  qed
  ultimately show ?thesis by (simp add: relay_inv_def)
qed


lemma step_inv:
  assumes "relay_step srv s t" "relay_inv srv s" "inj srv"
  shows "relay_inv srv t"
  using assms(1)
proof cases
  case (make now slug cd)
  then show ?thesis using inv_make[OF assms(2)] by simp
next
  case (refuse i)
  have "conns (reg s) g \<noteq> Some i" for g
    using relay_inv_parts(3)[OF assms(2)] refuse(2) by (auto simp: inv_conns_def)
  then have "relay_inv srv (s\<lparr>phases := (phases s)(i := Ended)\<rparr>)"
    using refuse(2) by (intro inv_leave[OF assms(2)]) auto
  then show ?thesis unfolding refuse(1) by (rule heap_change_inv) simp_all
next
  case (admit i)
  then show ?thesis using inv_admit[OF assms(2)] by simp
next
  case (record_online i)
  then show ?thesis using inv_record_online[OF assms(2) _ assms(3)] by simp
next
  case (install i now)
  then show ?thesis using inv_install[OF assms(2)] by simp
next
  case (remove i now r)
  then show ?thesis using inv_remove[OF assms(2)] by simp
next
  case (superseded i now r)
  have "conns (reg s) g \<noteq> Some i" for g
    using relay_inv_parts(3)[OF assms(2)] Unregister_False[OF superseded(5)] by (auto simp: inv_conns_def)
  then show ?thesis
    unfolding superseded(1) using superseded(2) by (intro inv_leave[OF assms(2)]) auto
next
  case (record_offline i)
  then show ?thesis using inv_record_offline[OF assms(2) _ assms(3)] by simp
next
  case (close i)
  then show ?thesis by (intro heap_change_inv[OF assms(2)]) simp_all
next
  case (drain i)
  then show ?thesis by (intro heap_change_inv[OF assms(2)]) (auto simp: drain_id_def)
next
  case (watch i e)
  then show ?thesis by (intro heap_change_inv[OF assms(2)]) auto
next
  case (traffic i n)
  then show ?thesis by (intro heap_change_inv[OF assms(2)]) auto
next
  case (untrack i)
  then show ?thesis by (intro heap_change_inv[OF assms(2)]) (simp_all add: untrack_def)
qed

lemma start_inv: "relay_inv srv relay_start"
  by (simp add: relay_inv_def inv_defs relay_start_def NewRegistry_def in_between_def)

lemma reach_inv: "relay_reach srv s \<Longrightarrow> inj srv \<Longrightarrow> relay_inv srv s"
  by (induction rule: relay_reach.induct) (auto intro: start_inv step_inv)


text \<open>One server per slug, and a run that brings a tunnel up.\<close>

definition relay_up :: relay where
  "relay_up =
    (let s1 = make 5 ''srv-a'' ''a'' True relay_start;
         s2 = s1\<lparr>phases := (phases s1)(5 := Recording), locked := (locked s1)(slug_of s1 5 \<mapsto> 5)\<rparr>;
         s3 = s2\<lparr>phases := (phases s2)(5 := Installing), online := (online s2)(server_of s2 5 := True)\<rparr> in
     s3\<lparr>phases := (phases s3)(5 := Serving), locked := (locked s3)(slug_of s3 5 := None),
       reg := Register (slug_of s3 5) 5 0 (reg s3)\<rparr>)"

lemma relay_up_reach: "relay_reach (\<lambda>g. ''srv-'' @ g) relay_up"
proof -
  let ?srv = "\<lambda>g. ''srv-'' @ g"
  define s1 where "s1 = make 5 (?srv ''a'') ''a'' True relay_start"
  define s2 where "s2 = s1\<lparr>phases := (phases s1)(5 := Recording), locked := (locked s1)(slug_of s1 5 \<mapsto> 5)\<rparr>"
  define s3 where "s3 = s2\<lparr>phases := (phases s2)(5 := Installing), online := (online s2)(server_of s2 5 := True)\<rparr>"
  have 1: "relay_reach ?srv s1" unfolding s1_def by (intro relay_reach.step[OF relay_reach.start] relay_step.make)
  have f1: "phases s1 5 = Attempting" "locked s1 (slug_of s1 5) = None" "\<not> stale (slug_of s1 5) 5 (reg s1)"
    by (simp_all add: s1_def make_def nextSeq_def relay_start_def stale_def NewTunnel_def NewRegistry_def)
  have 2: "relay_reach ?srv s2" unfolding s2_def by (rule relay_reach.step[OF 1 relay_step.admit[OF f1]])
  have 3: "relay_reach ?srv s3"
    unfolding s3_def by (rule relay_reach.step[OF 2 relay_step.record_online]) (simp add: s2_def)
  have "relay_reach ?srv (s3\<lparr>phases := (phases s3)(5 := Serving), locked := (locked s3)(slug_of s3 5 := None),
       reg := Register (slug_of s3 5) 5 0 (reg s3)\<rparr>)"
    by (rule relay_reach.step[OF 3 relay_step.install]) (simp add: s3_def)
  then show ?thesis by (simp add: relay_up_def s1_def s2_def s3_def Let_def)
qed

lemma srv_inj: "inj (\<lambda>g. ''srv-'' @ g)"
  by (simp add: inj_def)

lemma relay_up_Lookup: "Lookup ''a'' (reg relay_up) = Inr 5"
  by (simp add: relay_up_def Let_def Lookup_def make_def nextSeq_def relay_start_def NewRegistry_def
      slug_of_def NewTunnel_def)


text \<open>
  A live tunnel is only ever replaced by a newer one. Every tunnel that is
  still served is the one its slug's requests take, or is closed or draining; and no step of any
  handler, reader or drain takes a slug from a tunnel that is not closed except to give it
  to a tunnel made later - a stale attempt, an old tunnel's end or a drain never does.
\<close>

theorem live_tunnel_only_superseded:
  assumes "relay_reach srv s" "inj srv"
  shows "(phases s i = Serving \<longrightarrow> Lookup (slug_of s i) (reg s) = Inr i \<or>
      tn_closed (tunnels (reg s) i) \<or> tn_draining (tunnels (reg s) i)) \<and>
    (relay_step srv s t \<longrightarrow> Lookup g (reg s) = Inr i \<longrightarrow> \<not> tn_closed (tunnels (reg s) i) \<longrightarrow>
      (\<exists>j \<ge> i. Lookup g (reg t) = Inr j))"
proof (intro conjI impI)
  note parts = relay_inv_parts[OF reach_inv[OF assms]]
  show "Lookup (slug_of s i) (reg s) = Inr i \<or> tn_closed (tunnels (reg s) i) \<or> tn_draining (tunnels (reg s) i)"
    if "phases s i = Serving"
    using that parts(4) by (auto simp: inv_serving_def Lookup_def)
  assume step: "relay_step srv s t" and "Lookup g (reg s) = Inr i" and live: "\<not> tn_closed (tunnels (reg s) i)"
  then have c: "conns (reg s) g = Some i"
    by (simp add: Lookup_def split: option.splits)
  have "\<exists>j \<ge> i. conns (reg t) g = Some j"
    using step
  proof cases
    case (install k now)
    show ?thesis
    proof (cases "slug_of s k = g")
      case True
      then have "i < k" using parts(5) install(2) c by (simp add: inv_newer_def)
      then show ?thesis using install(1) True by (auto intro: less_imp_le)
    qed (use install(1) c in simp)
  next
    case (remove k now r)
    note un = Unregister_True[OF remove(5)]
    have "slug_of s k \<noteq> g"
      using un c remove(3) live by auto
    then show ?thesis using un c remove(1) by auto
  qed (use c in \<open>auto simp: make_def Let_def drain_id_def untrack_def\<close>)
  then show "\<exists>j \<ge> i. Lookup g (reg t) = Inr j"
    by (auto simp: Lookup_def)
qed

theorem live_tunnel_only_superseded_witness:
  "\<exists>j \<ge> 5. Lookup ''a'' (reg (relay_up\<lparr>reg := drain_id 5 (reg relay_up)\<rparr>)) = Inr j"
proof -
  have "relay_step (\<lambda>g. ''srv-'' @ g) relay_up (relay_up\<lparr>reg := drain_id 5 (reg relay_up)\<rparr>)"
    by (rule relay_step.drain) (simp add: relay_up_def Let_def)
  moreover have "\<not> tn_closed (tunnels (reg relay_up) 5)"
    by (simp add: relay_up_def Let_def make_def nextSeq_def relay_start_def NewTunnel_def NewRegistry_def)
  ultimately show ?thesis
    using live_tunnel_only_superseded[OF relay_up_reach srv_inj, of 5 _ "''a''"] relay_up_Lookup by blast
qed

text \<open>
  The directory: a record gives way only to a higher sequence number, and an erasure takes
  only the very tunnel of the very process that asks for it.
\<close>

lemma directory_keeps_newer:
  assumes "d g = Some p"
  shows "\<exists>q. dirUp rid addr slug s d g = Some q \<and> Seq p \<le> Seq q"
    and "RelayID p \<noteq> rid \<or> Seq p \<noteq> s \<Longrightarrow> dirDown rid slug s d g = Some p"
    and "RelayID p \<noteq> rid \<Longrightarrow> dirLookup rid g d = Some p \<and> dirDrop rid d g = Some p"
  using assms by (auto simp: dirUp_def dirDown_def dirLookup_def dirDrop_def split: option.split)

end
