(* ===== verification/Channel_Timeline.thy ===== *)
theory Channel_Timeline
  imports Prelude
begin

text \<open>
  The timeline of a TV channel (streaming/internal/channel): the wall-clock frame grid and the
  timestamps every station stamps (align.go), the wall-clock join into the schedule (join.go)
  and what airs from a position of the timeline (plan.go, the block and its display line from
  repo.go and strip.go).

  An instant is its nanoseconds since the Unix epoch, a duration its nanoseconds, as
  \<open>UnixNano\<close> and \<open>time.Duration\<close> have them; both stay far inside an \<open>int64\<close> for the dates of
  a schedule. The functions that only render a number for ffmpeg's command line
  (\<open>TSOffsetSeconds\<close>, \<open>KeyframeExpr\<close>) are not modelled, and \<open>ptsShiftTicks\<close>, a constant of the
  build that is 0 in every release, is a parameter.
\<close>

section \<open>The frame grid and the timestamps\<close>

definition PTSWrapTicks :: int where "PTSWrapTicks = 2 ^ 33"
definition lowOffsetTicks :: int where "lowOffsetTicks = 3 * 90000"
definition DefaultKeyintSeconds :: int where "DefaultKeyintSeconds = 2"
definition DefaultFPS :: int where "DefaultFPS = 30"

text \<open>The loop of \<open>FrameQuantum\<close>: the first \<open>k \<le> fps\<close> that passes, else \<open>fps + 1\<close>.\<close>

function quantum_frames :: "int \<Rightarrow> int \<Rightarrow> int" where
  "quantum_frames fps k =
     (if fps < k then k
      else if go_rem (k * 1000000) fps = 0 \<and> go_rem (k * 90000) fps = 0 then k
      else quantum_frames fps (k + 1))"
  by auto

termination quantum_frames
  by (relation "measure (\<lambda>(fps, k). nat (fps + 1 - k))") auto

declare quantum_frames.simps [simp del]

definition FrameQuantum :: "int \<Rightarrow> duration" where
  "FrameQuantum fps =
    (let n = (if fps \<le> 0 then DefaultFPS else fps) in go_quot (quantum_frames n 1 * second) n)"

definition AlignStart :: "instant \<Rightarrow> int \<Rightarrow> instant" where
  "AlignStart t fps = (let q = FrameQuantum fps; r = go_rem t q in if r \<noteq> 0 then t + (q - r) else t)"

text \<open>\<open>t.Unix()\<close> and \<open>t.Nanosecond()\<close> are the floor and the rest in \<open>[0, 1 s)\<close>.\<close>

definition WallTicks :: "instant \<Rightarrow> int" where
  "WallTicks t = (t div second) * 90000 + go_quot ((t mod second) * 9) 100000"

definition TSOffsetTicks :: "int \<Rightarrow> instant \<Rightarrow> int" where
  "TSOffsetTicks ptsShiftTicks t =
    (let off = go_rem (WallTicks t + ptsShiftTicks) PTSWrapTicks
     in if off < lowOffsetTicks then off + PTSWrapTicks else off)"

definition maxInt :: "int \<Rightarrow> int \<Rightarrow> int" where
  "maxInt a b = (if b < a then a else b)"

definition KeyframePhase :: "instant \<Rightarrow> int \<Rightarrow> int \<Rightarrow> float64" where
  "KeyframePhase t k0 fps =
    (let k = (if k0 \<le> 0 then DefaultKeyintSeconds else k0);
         kns = k * second;
         r = go_rem t kns;
         half = go_quot second (2 * maxInt fps 1)
     in if r < half \<or> kns - r < half then f64_of_int k
        else f64_div (f64_of_int (kns - r)) (f64_of_int second))"

definition nearest :: "int \<Rightarrow> int \<Rightarrow> int" where
  "nearest pts nowTicks =
    (let d0 = go_rem (pts - nowTicks) PTSWrapTicks;
         d1 = (if d0 < 0 then d0 + PTSWrapTicks else d0)
     in if go_quot PTSWrapTicks 2 < d1 then d1 - PTSWrapTicks else d1)"

text \<open>\<open>time.Unix(sec, nsec)\<close> is the instant \<open>sec\<close> seconds and \<open>nsec\<close> nanoseconds after the epoch.\<close>

definition PTSToWall :: "int \<Rightarrow> instant \<Rightarrow> instant" where
  "PTSToWall pts now =
    (let nowTicks = WallTicks now;
         ticks = nowTicks + nearest pts nowTicks;
         sec = go_quot ticks 90000;
         r = go_rem ticks 90000
     in sec * second + go_quot (r * 100000) 9)"

definition OnGrid :: "int \<Rightarrow> instant \<Rightarrow> int \<Rightarrow> bool" where
  "OnGrid pts now seconds =
    (if seconds \<le> 0 then True else
      let nowTicks = WallTicks now;
          step = seconds * 90000;
          r0 = go_rem (nowTicks + nearest pts nowTicks) step;
          r = (if r0 < 0 then r0 + step else r0)
      in r \<le> 2 \<or> step - r \<le> 2)"

text \<open>Euclid's loop of \<open>effectiveKeyint\<close>; its operands are positive there.\<close>

function euclid :: "int \<Rightarrow> int \<Rightarrow> int" where
  "euclid a b = (if b = 0 then a else euclid b (go_rem a b))"
  by auto

termination euclid
  by (relation "measure (\<lambda>(a, b). nat \<bar>b\<bar>)") (auto simp: go_rem_def abs_mult abs_sgn_eq)

declare euclid.simps [simp del]

definition effectiveKeyint :: "int \<Rightarrow> int \<Rightarrow> int" where
  "effectiveKeyint keyint segment =
    (let k1 = (if keyint \<le> 0 then DefaultKeyintSeconds else keyint);
         k = (if 10 < k1 then 10 else k1)
     in if 0 < segment \<and> go_rem segment k \<noteq> 0 then euclid segment k else k)"

section \<open>Facts of the grid\<close>

lemma quantum_frames_range:
  assumes "0 < fps" "1 \<le> k" "k \<le> fps"
  shows "k \<le> quantum_frames fps k \<and> quantum_frames fps k \<le> fps \<and>
         fps dvd quantum_frames fps k * 1000000 \<and> fps dvd quantum_frames fps k * 90000"
  using assms
proof (induction fps k rule: quantum_frames.induct)
  case (1 fps k)
  show ?case
  proof (cases "go_rem (k * 1000000) fps = 0 \<and> go_rem (k * 90000) fps = 0")
    case True
    then have eq: "quantum_frames fps k = k"
      using "1.prems" by (simp add: quantum_frames.simps [of fps k])
    show ?thesis using True "1.prems" unfolding eq by (auto simp: dvd_eq_mod_eq_0)
  next
    case False
    then have "k \<noteq> fps" using "1.prems" by auto
    have "quantum_frames fps k = quantum_frames fps (k + 1)"
      using False "1.prems" by (subst quantum_frames.simps) auto
    then show ?thesis using "1.IH" False "1.prems" \<open>k \<noteq> fps\<close> by fastforce
  qed
qed

lemma quantum_frames_least:
  assumes "0 < fps" "1 \<le> k" "k \<le> j" "j < quantum_frames fps k"
  shows "\<not> (fps dvd j * 1000000 \<and> fps dvd j * 90000)"
  using assms
proof (induction fps k rule: quantum_frames.induct)
  case (1 fps k)
  show ?case
  proof (cases "fps < k \<or> (go_rem (k * 1000000) fps = 0 \<and> go_rem (k * 90000) fps = 0)")
    case True
    then have "quantum_frames fps k = k"
      by (auto simp add: quantum_frames.simps [of fps k])
    then show ?thesis using "1.prems" by simp
  next
    case False
    then have eq: "quantum_frames fps k = quantum_frames fps (k + 1)"
      by (subst quantum_frames.simps) auto
    show ?thesis
    proof (cases "j = k")
      case True
      then show ?thesis using False "1.prems" by (auto simp: dvd_eq_mod_eq_0)
    next
      case False
      then show ?thesis using "1.IH" "1.prems" eq \<open>\<not> (fps < k \<or> _)\<close> by force
    qed
  qed
qed

lemma FrameQuantum_facts:
  "0 < FrameQuantum fps \<and> 1000 dvd FrameQuantum fps \<and> 100000 dvd 9 * FrameQuantum fps \<and>
   second dvd FrameQuantum fps * (if fps \<le> 0 then DefaultFPS else fps)"
proof -
  define n where "n = (if fps \<le> 0 then DefaultFPS else fps)"
  define k where "k = quantum_frames n 1"
  have n: "0 < n" by (auto simp: n_def DefaultFPS_def)
  then have k: "1 \<le> k" "n dvd k * 1000000" "n dvd k * 90000"
    using quantum_frames_range [of n 1] by (auto simp: k_def)
  from k(2) obtain u where u: "k * 1000000 = n * u" by (elim dvdE)
  from k(3) obtain v where v: "k * 90000 = n * v" by (elim dvdE)
  have "FrameQuantum fps = go_quot (k * second) n"
    by (simp add: FrameQuantum_def n_def [symmetric] k_def [symmetric] Let_def)
  also have "\<dots> = (k * second) div n" using n k(1) by simp
  also have "k * second = n * (u * 1000)" using u by simp
  also have "n * (u * 1000) div n = u * 1000" using n by (intro nonzero_mult_div_cancel_left) simp
  finally have q: "FrameQuantum fps = u * 1000" .
  have "0 < n * u" using u k(1) by linarith
  then have "0 < u" using n by (simp add: zero_less_mult_iff)
  moreover have "n * (9 * u) = n * (100 * v)" using u v by linarith
  then have "9 * u = 100 * v" using n by simp
  moreover have "u * 1000 * n = second * k" using u by simp
  then have "second dvd u * 1000 * n" by (rule dvdI)
  moreover have "9 * (u * 1000) = 100000 * v"
    using \<open>9 * u = 100 * v\<close> by simp
  then have "100000 dvd 9 * (u * 1000)" by (rule dvdI)
  ultimately show ?thesis
    unfolding q n_def [symmetric] by simp
qed

lemma AlignStart_bounds:
  assumes "0 \<le> t"
  shows "t \<le> AlignStart t fps \<and> AlignStart t fps < t + FrameQuantum fps \<and> FrameQuantum fps dvd AlignStart t fps"
proof -
  define q where "q = FrameQuantum fps"
  have q: "0 < q" using FrameQuantum_facts unfolding q_def by blast
  have r: "0 \<le> t mod q" "t mod q < q" using q by simp_all
  have "t + (q - t mod q) = (t div q + 1) * q"
    by (simp add: algebra_simps)
  then have up: "q dvd t + (q - t mod q)" by simp
  have eq: "AlignStart t fps = (if t mod q \<noteq> 0 then t + (q - t mod q) else t)"
    using assms q by (simp add: AlignStart_def Let_def q_def [symmetric])
  show ?thesis
  proof (cases "t mod q = 0")
    case True
    then show ?thesis using q eq by (simp add: q_def [symmetric] mod_0_imp_dvd)
  next
    case False
    then show ?thesis using q r eq up by (simp add: q_def [symmetric] order_le_neq_trans)
  qed
qed

text \<open>An instant on the grid is a whole number of ticks, which \<open>WallTicks\<close> gives exactly.\<close>

lemma WallTicks_exact:
  assumes "100000 dvd 9 * t"
  shows "100000 * WallTicks t = 9 * t"
proof -
  have t: "t = t div second * second + t mod second" by simp
  have "100000 dvd 9 * (t div second * second) + 9 * (t mod second)"
    using assms t by (metis distrib_left)
  moreover have "(100000 :: int) dvd 9 * (t div second * second)"
    by (simp add: dvd_mult)
  ultimately have "(100000 :: int) dvd 9 * (t mod second)"
    using dvd_add_right_iff by blast
  then obtain w where w: "9 * (t mod second) = 100000 * w" by (elim dvdE)
  have "0 \<le> t mod second" by simp
  then have "WallTicks t = t div second * 90000 + w"
    using w by (simp add: WallTicks_def mult.commute)
  then show ?thesis using w t by linarith
qed

lemma grid_ticks: "FrameQuantum fps dvd t \<Longrightarrow> 100000 dvd 9 * t"
  using FrameQuantum_facts by (meson dvd_trans mult_dvd_mono dvd_refl)

lemma nearest_mod: "nearest p n = (let d = (p - n) mod PTSWrapTicks in if 2 ^ 32 < d then d - PTSWrapTicks else d)"
proof -
  have "0 < PTSWrapTicks" "go_quot PTSWrapTicks 2 = 2 ^ 32" by (simp_all add: PTSWrapTicks_def)
  then show ?thesis
    by (simp only: nearest_def Let_def go_rem_wrap)
qed

lemma nearest_eq:
  assumes "(p - n) mod PTSWrapTicks = d mod PTSWrapTicks" "- (2 ^ 32) < d" "d \<le> 2 ^ 32"
  shows "nearest p n = d"
proof (cases "0 \<le> d")
  case True
  then have "d mod PTSWrapTicks = d" using assms by (simp add: PTSWrapTicks_def)
  then show ?thesis using assms by (simp add: nearest_mod)
next
  case False
  have "(d + PTSWrapTicks) mod PTSWrapTicks = d + PTSWrapTicks"
    by (rule mod_pos_pos_trivial) (use False assms in \<open>auto simp: PTSWrapTicks_def\<close>)
  then have "d mod PTSWrapTicks = d + PTSWrapTicks" by simp
  then show ?thesis using assms False by (simp add: nearest_mod PTSWrapTicks_def)
qed

lemma instant_of_ticks:
  assumes "0 \<le> t" "100000 * k = 9 * t"
  shows "go_quot k 90000 * second + go_quot (go_rem k 90000 * 100000) 9 = t"
proof -
  have k: "0 \<le> k" using assms by linarith
  have "k = k div 90000 * 90000 + k mod 90000" by simp
  then have "9 * t = 9 * (k div 90000 * second) + k mod 90000 * 100000"
    using assms(2) by linarith
  then have "k mod 90000 * 100000 = 9 * (t - k div 90000 * second)"
    by (simp add: right_diff_distrib)
  moreover have "0 \<le> k mod 90000" by simp
  ultimately show ?thesis using k by simp
qed


section \<open>The schedule and the join\<close>

text \<open>The display part of a block; a control character or white space breaks a line into words.\<close>

record BlockInfo =
  Title :: string
  OnAir :: string
  Series :: string
  Ref :: string

definition is_break :: "char \<Rightarrow> bool" where
  "is_break c \<longleftrightarrow> is_space c \<or> c < CHR '' '' \<or> c = CHR 0x7F"

fun fields :: "string \<Rightarrow> string \<Rightarrow> string list" where
  "fields w [] = (if w = [] then [] else [w])"
| "fields w (c # cs) =
     (if is_break c then (if w = [] then fields [] cs else w # fields [] cs) else fields (w @ [c]) cs)"

fun join_space :: "string list \<Rightarrow> string" where
  "join_space [] = []"
| "join_space [w] = w"
| "join_space (w # x # ws) = w @ '' '' @ join_space (x # ws)"

definition oneLine :: "string \<Rightarrow> string" where
  "oneLine s = join_space (fields [] s)"

definition Line :: "BlockInfo \<Rightarrow> string" where
  "Line i = (let s = oneLine (OnAir i) in if s \<noteq> '''' then s else oneLine (Title i))"

definition KindProgram :: string where "KindProgram = ''program''"
definition KindFiller :: string where "KindFiller = ''filler''"
definition KindBumper :: string where "KindBumper = ''bumper''"
definition KindSlate :: string where "KindSlate = ''slate''"
definition KindLive :: string where "KindLive = ''live''"

lemmas kind_defs [names] = KindProgram_def KindFiller_def KindBumper_def KindSlate_def KindLive_def

record ProgramBlock =
  Seq :: int
  Kind :: string
  VideoID :: string
  StartAt :: instant
  EndAt :: instant
  SourceOffsetMS :: int
  SourceDurationMS :: int
  Path :: string
  SourceURL :: string
  Info :: BlockInfo

definition no_block :: ProgramBlock where
  "no_block = \<lparr>Seq = 0, Kind = '''', VideoID = '''', StartAt = 0, EndAt = 0, SourceOffsetMS = 0,
     SourceDurationMS = 0, Path = '''', SourceURL = '''',
     Info = \<lparr>Title = '''', OnAir = '''', Series = '''', Ref = ''''\<rparr>\<rparr>"

record Join =
  Index :: nat
  JoinBlock :: ProgramBlock
  SeekMS :: int

text \<open>The loop of \<open>Locate\<close> from index \<open>i\<close>; \<open>None\<close> is \<open>ErrNoProgram\<close>.\<close>

fun locate_from :: "nat \<Rightarrow> ProgramBlock list \<Rightarrow> instant \<Rightarrow> Join option" where
  "locate_from i [] now = None"
| "locate_from i (b # bs) now =
     (if \<not> now < StartAt b \<and> now < EndAt b then
        Some \<lparr>Index = i, JoinBlock = b, SeekMS = SourceOffsetMS b + go_quot (now - StartAt b) millisecond\<rparr>
      else if now = EndAt b \<and> bs \<noteq> [] then
        Some \<lparr>Index = i + 1, JoinBlock = hd bs, SeekMS = SourceOffsetMS (hd bs)\<rparr>
      else locate_from (i + 1) bs now)"

definition Locate :: "ProgramBlock list \<Rightarrow> instant \<Rightarrow> Join option" where
  "Locate blocks now =
    (case blocks of [] \<Rightarrow> None
     | b # _ \<Rightarrow> if now < StartAt b then Some \<lparr>Index = 0, JoinBlock = b, SeekMS = SourceOffsetMS b\<rparr>
                else locate_from 0 blocks now)"

section \<open>What airs next\<close>

record Segment =
  segKind :: string
  segBlock :: ProgramBlock
  segStart :: instant
  segEnd :: instant
  segSeekMS :: int
  Message :: string
  Synthetic :: bool
  segNext :: "ProgramBlock option"
  StandInFor :: int

definition minRemaining :: duration where "minRemaining = 250 * millisecond"
definition earlyStart :: duration where "earlyStart = second"
definition maxGapSlate :: duration where "maxGapSlate = 5 * minute"
definition emptySlate :: duration where "emptySlate = 30 * second"

definition MsgLiveUnavailable :: string where "MsgLiveUnavailable = ''Live stream unavailable''"

text \<open>A slate that is no schedule block.\<close>

definition slate :: "instant \<Rightarrow> instant \<Rightarrow> ProgramBlock option \<Rightarrow> Segment" where
  "slate s e n = \<lparr>segKind = KindSlate, segBlock = no_block, segStart = s, segEnd = e, segSeekMS = 0,
     Message = '''', Synthetic = True, segNext = n, StandInFor = 0\<rparr>"

fun next_from :: "ProgramBlock option \<Rightarrow> ProgramBlock list \<Rightarrow> ProgramBlock option" where
  "next_from titled [] = titled"
| "next_from titled (b # bs) =
     (if Kind b = KindProgram \<or> Kind b = KindLive then Some b
      else next_from (if titled = None \<and> Kind b \<noteq> KindSlate \<and> Line (Info b) \<noteq> '''' then Some b else titled) bs)"

definition nextProgramme :: "ProgramBlock list \<Rightarrow> nat \<Rightarrow> ProgramBlock option" where
  "nextProgramme blocks i = next_from None (drop i blocks)"

text \<open>The switch on the block's kind at the end of \<open>PlanNext\<close>.\<close>

definition by_kind :: "ProgramBlock \<Rightarrow> Segment \<Rightarrow> Segment" where
  "by_kind b seg =
    (if Kind b = KindProgram \<or> Kind b = KindFiller \<or> Kind b = KindBumper then
       (if Path b = '''' then seg\<lparr>segKind := KindSlate\<rparr> else seg)
     else if Kind b = KindLive then
       (if SourceURL b = '''' then seg\<lparr>segSeekMS := 0, segKind := KindSlate, Message := MsgLiveUnavailable\<rparr>
        else seg\<lparr>segSeekMS := 0\<rparr>)
     else if Kind b = KindSlate then seg\<lparr>segSeekMS := 0\<rparr>
     else if Path b \<noteq> '''' then seg\<lparr>segKind := KindProgram\<rparr>
     else seg\<lparr>segKind := KindSlate\<rparr>)"

definition PlanNext :: "ProgramBlock list \<Rightarrow> instant \<Rightarrow> Segment" where
  "PlanNext blocks pos =
    (let live = filter (\<lambda>b. minRemaining \<le> EndAt b - pos) blocks in
     case live of
       [] \<Rightarrow> slate pos (pos + emptySlate) None
     | b0 # _ \<Rightarrow>
         let gap = StartAt b0 - pos in
         if earlyStart < gap then
           slate pos (if maxGapSlate < gap then pos + maxGapSlate else StartAt b0) (nextProgramme live 0)
         else case Locate (take 1 live) pos of
           None \<Rightarrow> slate pos (pos + emptySlate) None
         | Some j \<Rightarrow>
             let b = JoinBlock j in
             by_kind b \<lparr>segKind = Kind b, segBlock = b, segStart = pos, segEnd = EndAt b, segSeekMS = SeekMS j,
               Message = '''', Synthetic = False, segNext = nextProgramme live 1, StandInFor = 0\<rparr>)"

definition failureFill :: "Segment \<Rightarrow> instant \<Rightarrow> duration \<Rightarrow> Segment" where
  "failureFill seg at0 liveRetry =
    (let t = (if at0 < segStart seg then segStart seg else at0);
         fill = \<lparr>segKind = KindSlate, segBlock = segBlock seg, segStart = t, segEnd = segEnd seg, segSeekMS = 0,
           Message = '''', Synthetic = True, segNext = None, StandInFor = 0\<rparr>
     in if segKind seg = KindLive then
          fill\<lparr>Message := MsgLiveUnavailable,
               segEnd := (if t + liveRetry < segEnd seg then t + liveRetry else segEnd seg)\<rparr>
        else fill)"


section \<open>Facts of the keyframe interval and of the plan\<close>

lemma euclid_gcd: "0 \<le> a \<Longrightarrow> 0 \<le> b \<Longrightarrow> euclid a b = gcd a b"
proof (induction a b rule: euclid.induct)
  case (1 a b)
  show ?case
  proof (cases "b = 0")
    case True
    then show ?thesis using "1.prems" by (subst euclid.simps) simp
  next
    case False
    then have "go_rem a b = a mod b" using "1.prems" by simp
    moreover have "gcd b (a mod b) = gcd a b" by (metis gcd.commute gcd_red_int)
    ultimately show ?thesis using "1" False by (subst euclid.simps) simp
  qed
qed

text \<open>The interval used lies between 1 and 10 seconds and divides every segment length.\<close>

lemma effectiveKeyint_sound:
  "1 \<le> effectiveKeyint keyint segment \<and> effectiveKeyint keyint segment \<le> 10 \<and>
   (0 < segment \<longrightarrow> effectiveKeyint keyint segment dvd segment)"
proof -
  define k where "k = (if 10 < (if keyint \<le> 0 then DefaultKeyintSeconds else keyint) then 10
                       else if keyint \<le> 0 then DefaultKeyintSeconds else keyint)"
  have k: "1 \<le> k" "k \<le> 10" by (auto simp: k_def DefaultKeyintSeconds_def)
  have eq: "effectiveKeyint keyint segment = (if 0 < segment \<and> go_rem segment k \<noteq> 0 then euclid segment k else k)"
    by (simp only: effectiveKeyint_def Let_def k_def)
  show ?thesis
  proof (cases "0 < segment \<and> go_rem segment k \<noteq> 0")
    case True
    have le: "gcd segment k \<le> k" using k by (intro zdvd_imp_le) auto
    have ge: "0 < gcd segment k" using k by simp
    have "euclid segment k = gcd segment k" using True k by (intro euclid_gcd) auto
    then have e: "effectiveKeyint keyint segment = gcd segment k" using True eq by simp
    show ?thesis
      unfolding e by (intro conjI impI gcd_dvd1) (use le ge k in linarith)+
  next
    case False
    then show ?thesis using k eq by auto
  qed
qed

lemma by_kind_keeps:
  "segStart (by_kind b s) = segStart s \<and> segEnd (by_kind b s) = segEnd s \<and> segBlock (by_kind b s) = segBlock s \<and>
   Synthetic (by_kind b s) = Synthetic s \<and> StandInFor (by_kind b s) = StandInFor s"
  by (simp add: by_kind_def)

definition fileKind :: "string \<Rightarrow> bool" where
  "fileKind k \<longleftrightarrow> k = KindProgram \<or> k = KindFiller \<or> k = KindBumper"

lemma by_kind_file:
  assumes "segKind s = Kind b" "fileKind (segKind (by_kind b s))"
  shows "segSeekMS (by_kind b s) = segSeekMS s \<and> Path b \<noteq> ''''"
  using assms unfolding by_kind_def fileKind_def
  by (auto simp: names split: if_splits)

text \<open>
  The three answers of \<open>PlanNext\<close>: nothing left, a gap before the first block that still has
  \<open>minRemaining\<close> to air, or that block joined at the wall clock.
\<close>

lemma PlanNext_eq:
  "PlanNext blocks pos =
    (case filter (\<lambda>b. minRemaining \<le> EndAt b - pos) blocks of
       [] \<Rightarrow> slate pos (pos + emptySlate) None
     | b # bs \<Rightarrow>
         if earlyStart < StartAt b - pos then
           slate pos (if maxGapSlate < StartAt b - pos then pos + maxGapSlate else StartAt b) (nextProgramme (b # bs) 0)
         else by_kind b \<lparr>segKind = Kind b, segBlock = b, segStart = pos, segEnd = EndAt b,
            segSeekMS = SourceOffsetMS b + (if pos < StartAt b then 0 else go_quot (pos - StartAt b) millisecond),
            Message = '''', Synthetic = False, segNext = nextProgramme (b # bs) 1, StandInFor = 0\<rparr>)"
proof (cases "filter (\<lambda>b. minRemaining \<le> EndAt b - pos) blocks")
  case Nil
  then show ?thesis by (simp add: PlanNext_def)
next
  case (Cons b bs)
  then have "b \<in> set (filter (\<lambda>b. minRemaining \<le> EndAt b - pos) blocks)" by simp
  then have "pos < EndAt b" by (simp add: minRemaining_def)
  then have "Locate (take 1 (b # bs)) pos = Some \<lparr>Index = 0, JoinBlock = b,
      SeekMS = SourceOffsetMS b + (if pos < StartAt b then 0 else go_quot (pos - StartAt b) millisecond)\<rparr>"
    by (simp add: Locate_def)
  then show ?thesis
    unfolding PlanNext_def Let_def Cons by simp
qed

lemma PlanNext_span: "segStart (PlanNext blocks pos) = pos \<and> minRemaining \<le> segEnd (PlanNext blocks pos) - pos"
proof (cases "filter (\<lambda>b. minRemaining \<le> EndAt b - pos) blocks")
  case Nil
  then show ?thesis unfolding PlanNext_eq by (simp add: slate_def emptySlate_def minRemaining_def)
next
  case (Cons b bs)
  then have "b \<in> set (filter (\<lambda>b. minRemaining \<le> EndAt b - pos) blocks)" by simp
  then have "minRemaining \<le> EndAt b - pos" by simp
  then show ?thesis
    unfolding PlanNext_eq Cons
    by (simp add: by_kind_keeps slate_def earlyStart_def maxGapSlate_def minRemaining_def)
qed

lemma PlanNext_block:
  assumes "\<not> Synthetic (PlanNext blocks pos)"
  shows "segBlock (PlanNext blocks pos) \<in> set blocks \<and>
         segEnd (PlanNext blocks pos) = EndAt (segBlock (PlanNext blocks pos)) \<and>
         StartAt (segBlock (PlanNext blocks pos)) \<le> pos + earlyStart"
proof (cases "filter (\<lambda>b. minRemaining \<le> EndAt b - pos) blocks")
  case Nil
  then show ?thesis using assms unfolding PlanNext_eq by (simp add: slate_def)
next
  case (Cons b bs)
  then have "b \<in> set (filter (\<lambda>b. minRemaining \<le> EndAt b - pos) blocks)" by simp
  then have "b \<in> set blocks" by simp
  then show ?thesis
    using assms unfolding PlanNext_eq Cons
    by (simp add: by_kind_keeps slate_def split: if_splits)
qed

lemma PlanNext_seek:
  assumes "\<not> Synthetic (PlanNext blocks pos)" "fileKind (segKind (PlanNext blocks pos))"
  shows "segSeekMS (PlanNext blocks pos) = SourceOffsetMS (segBlock (PlanNext blocks pos)) +
    (if pos < StartAt (segBlock (PlanNext blocks pos)) then 0
     else go_quot (pos - StartAt (segBlock (PlanNext blocks pos))) millisecond)"
proof (cases "filter (\<lambda>b. minRemaining \<le> EndAt b - pos) blocks")
  case Nil
  then show ?thesis using assms unfolding PlanNext_eq by (simp add: slate_def)
next
  case (Cons b bs)
  define s where "s = \<lparr>segKind = Kind b, segBlock = b, segStart = pos, segEnd = EndAt b,
            segSeekMS = SourceOffsetMS b + (if pos < StartAt b then 0 else go_quot (pos - StartAt b) millisecond),
            Message = '''', Synthetic = False, segNext = nextProgramme (b # bs) 1, StandInFor = 0\<rparr>"
  have "PlanNext blocks pos = by_kind b s"
    using assms(1) unfolding PlanNext_eq Cons s_def by (simp add: slate_def split: if_splits)
  moreover have "segKind s = Kind b" "segBlock s = b" by (simp_all add: s_def)
  ultimately show ?thesis
    using by_kind_file [of s b] assms(2) by (simp add: by_kind_keeps) (simp add: s_def)
qed

section \<open>Properties\<close>

text \<open>
  The 33-bit timestamp of a frame names its wall-clock instant: a block that
  starts at \<open>AlignStart t\<close> begins on the frame grid, less than one quantum after \<open>t\<close>, and the
  timestamp ffmpeg gives the frame \<open>n\<close> quanta into it (the block's offset plus the frame's
  ticks, modulo \<open>2^33\<close>) is read back by \<open>PTSToWall\<close> as exactly that frame's instant, by any
  reader whose clock is within 13 hours of it; \<open>OnGrid\<close> tells from it exactly whether the
  instant lies within two ticks of a whole multiple of the segment length.
\<close>

theorem timestamp_names_instant:
  assumes "0 \<le> t" "0 \<le> n" "0 \<le> now" "0 < k"
      and "\<bar>AlignStart t fps + n * FrameQuantum fps - now\<bar> \<le> 13 * 3600 * second"
  shows "let s = AlignStart t fps; f = s + n * FrameQuantum fps;
             pts = (TSOffsetTicks 0 s + 9 * (n * FrameQuantum fps) div 100000) mod PTSWrapTicks
         in t \<le> s \<and> s < t + FrameQuantum fps \<and> FrameQuantum fps dvd s \<and>
            PTSToWall pts now = f \<and>
            (OnGrid pts now k \<longleftrightarrow> WallTicks f mod (k * 90000) \<le> 2 \<or> k * 90000 - WallTicks f mod (k * 90000) \<le> 2)"
proof -
  define s where "s = AlignStart t fps"
  define q where "q = FrameQuantum fps"
  define f where "f = s + n * q"
  define w where "w = 9 * (n * q) div 100000"
  define pts where "pts = (TSOffsetTicks 0 s + w) mod PTSWrapTicks"
  have q: "0 < q" "100000 dvd 9 * q" using FrameQuantum_facts by (auto simp: q_def)
  have b: "t \<le> s" "s < t + q" "q dvd s"
    using AlignStart_bounds [OF assms(1), of fps] by (auto simp: s_def q_def)
  have s: "100000 * WallTicks s = 9 * s" using b(3) grid_ticks WallTicks_exact by (simp add: q_def)
  have "q dvd f" using b(3) by (simp add: f_def)
  then have f: "100000 * WallTicks f = 9 * f" using grid_ticks WallTicks_exact by (simp add: q_def)
  have "100000 dvd 9 * (n * q)" using q(2) by (metis dvd_mult mult.left_commute)
  then have w: "100000 * w = 9 * (n * q)" by (simp add: w_def)
  have wf: "WallTicks f = WallTicks s + w" using s f w by (simp add: f_def)
  have f0: "0 \<le> f" using b(1) assms(1,2) q(1) by (simp add: f_def)
  have "0 \<le> WallTicks s" using s b(1) assms(1) by linarith
  then have "TSOffsetTicks 0 s mod PTSWrapTicks = WallTicks s mod PTSWrapTicks"
    by (simp add: TSOffsetTicks_def PTSWrapTicks_def Let_def)
  then have pm: "pts mod PTSWrapTicks = WallTicks f mod PTSWrapTicks"
    unfolding pts_def wf by (metis mod_add_left_eq mod_mod_trivial)
  have near: "\<bar>f - now\<bar> \<le> 46800 * second" using assms(5) by (simp add: f_def s_def q_def)
  have now: "9 * now < 100000 * (WallTicks now + 1)" "100000 * WallTicks now \<le> 9 * now"
  proof -
    define r where "r = now mod second"
    have r: "0 \<le> r" "r < second" by (simp_all add: r_def)
    define u where "u = now div second"
    define v where "v = r * 9 div 100000"
    define x where "x = r * 9 mod 100000"
    have wn: "WallTicks now = u * 90000 + v"
      using r by (simp add: WallTicks_def r_def [symmetric] u_def [symmetric] v_def)
    have eqs: "now = u * second + r" "r * 9 = 100000 * v + x" "0 \<le> x" "x < 100000"
      by (simp_all add: r_def u_def v_def x_def)
    show "9 * now < 100000 * (WallTicks now + 1)" unfolding wn using eqs by (simp add: algebra_simps)
    show "100000 * WallTicks now \<le> 9 * now"
      unfolding wn using eqs by (simp add: algebra_simps)
  qed
  have "nearest pts (WallTicks now) = WallTicks f - WallTicks now"
  proof (rule nearest_eq)
    show "(pts - WallTicks now) mod PTSWrapTicks = (WallTicks f - WallTicks now) mod PTSWrapTicks"
      using pm by (metis mod_diff_left_eq)
    show "- (2 ^ 32) < WallTicks f - WallTicks now" using near f now by (simp add: abs_le_iff)
    show "WallTicks f - WallTicks now \<le> 2 ^ 32" using near f now by (simp add: abs_le_iff)
  qed
  then have near_f: "WallTicks now + nearest pts (WallTicks now) = WallTicks f" by simp
  define x where "x = WallTicks f mod (k * 90000)"
  have "0 \<le> WallTicks f" using f f0 by simp
  then have g: "go_rem (WallTicks f) (k * 90000) = x" using assms(4) by (simp add: x_def)
  have "0 \<le> x" using assms(4) by (simp add: x_def)
  then have "OnGrid pts now k \<longleftrightarrow> x \<le> 2 \<or> k * 90000 - x \<le> 2"
    using assms(4) unfolding OnGrid_def Let_def near_f g by simp
  then have "OnGrid pts now k \<longleftrightarrow> WallTicks f mod (k * 90000) \<le> 2 \<or> k * 90000 - WallTicks f mod (k * 90000) \<le> 2"
    unfolding x_def .
  moreover have "PTSToWall pts now = f"
    unfolding PTSToWall_def Let_def near_f by (rule instant_of_ticks [OF f0 f])
  ultimately show ?thesis
    using b unfolding Let_def s_def [symmetric] q_def [symmetric] f_def [symmetric] w_def [symmetric] pts_def [symmetric]
    by simp
qed

theorem timestamp_names_instant_witness:
  "PTSToWall ((TSOffsetTicks 0 (AlignStart 1700000000012345678 30) + 9 * (7 * FrameQuantum 30) div 100000) mod PTSWrapTicks)
     1700000003000000000 = AlignStart 1700000000012345678 30 + 7 * FrameQuantum 30"
proof -
  have "FrameQuantum 30 = 100000000" by code_simp
  moreover have "AlignStart 1700000000012345678 30 = 1700000000100000000" by code_simp
  ultimately show ?thesis
    using timestamp_names_instant [of 1700000000012345678 7 1700000003000000000 4 30] by (simp only: Let_def)
qed


text \<open>The millisecond of the source that is on air at instant \<open>t\<close> of a segment.\<close>

definition source_ms :: "Segment \<Rightarrow> instant \<Rightarrow> int" where
  "source_ms seg t = segSeekMS seg + (t - segStart seg) div millisecond"

lemma div_add_bounds: "a div m + b div m \<le> (a + b) div m \<and> (a + b) div m \<le> a div m + b div m + 1"
  if "0 < m" for a b m :: int
proof -
  have "(a + b) div m = a div m + b div m + (a mod m + b mod m) div m"
    by (rule div_add1_eq)
  moreover have r: "0 \<le> a mod m" "a mod m < m" "0 \<le> b mod m" "b mod m < m" using that by simp_all
  then have "0 \<le> (a mod m + b mod m) div m" using that by (intro pos_imp_zdiv_nonneg_iff [THEN iffD2]) auto
  moreover have "(a mod m + b mod m) div m \<le> 1"
  proof -
    define x where "x = a mod m + b mod m"
    have "x < m * 2" using r unfolding x_def by linarith
    moreover have "m * 2 \<le> m * (x div m)" if "2 \<le> x div m"
      using that \<open>0 < m\<close> by (intro mult_left_mono) auto
    moreover have "m * (x div m) + x mod m = x" "0 \<le> x mod m" using \<open>0 < m\<close> by simp_all
    ultimately have "\<not> 2 \<le> x div m" by linarith
    then show ?thesis by (simp add: x_def)
  qed
  ultimately show ?thesis by linarith
qed

lemma source_ms_wall:
  assumes "seg = PlanNext blocks pos" "\<not> Synthetic seg" "fileKind (segKind seg)" "StartAt (segBlock seg) \<le> pos"
  shows "source_ms seg t \<le> SourceOffsetMS (segBlock seg) + (t - StartAt (segBlock seg)) div millisecond \<and>
         SourceOffsetMS (segBlock seg) + (t - StartAt (segBlock seg)) div millisecond \<le> source_ms seg t + 1"
proof -
  define b where "b = segBlock seg"
  have "segStart seg = pos" using PlanNext_span assms(1) by simp
  moreover have "segSeekMS seg = SourceOffsetMS b + (pos - StartAt b) div millisecond"
    using PlanNext_seek [of blocks pos] assms by (simp add: b_def)
  moreover have "(pos - StartAt b) + (t - pos) = t - StartAt b" by simp
  then have "(pos - StartAt b) div millisecond + (t - pos) div millisecond \<le> (t - StartAt b) div millisecond"
    "(t - StartAt b) div millisecond \<le> (pos - StartAt b) div millisecond + (t - pos) div millisecond + 1"
    using div_add_bounds [of millisecond "pos - StartAt b" "t - pos"] by simp_all
  ultimately show ?thesis unfolding source_ms_def b_def [symmetric] by linarith
qed


definition sample_block :: ProgramBlock where
  "sample_block = no_block\<lparr>Seq := 7, Kind := KindProgram, StartAt := 10 * second, EndAt := 100 * second,
     SourceOffsetMS := 5000, Path := ''/v.mkv''\<rparr>"


end
