(* ===== verification/Channel_Feeder.thy ===== *)
theory Channel_Feeder
  imports Channel_Timeline
begin

text \<open>
  The feeder of a channel (streaming/internal/channel/feeder.go): it walks the schedule for ever,
  planning the segment at the current position of the timeline, starting it, and queueing the
  next one before it ends; a block whose file cannot be read is replaced by the channel's
  filler.

  One round of \<open>Run\<close>'s loop is the function \<open>feed_step\<close>. What the code reads from outside during
  the round is the record \<open>Wake\<close>: whether and how the running playback ended, the readings of the
  clock, and the answers to the calls \<open>plan\<close> makes (the schedule, the check of a file, the
  channel's filler), the record \<open>PlanEnv\<close>. The waiting itself (\<open>WaitUntil\<close>, \<open>Sleep\<close>, the channels)
  and the end of the context are not modelled, nor the pre-warming of live blocks.
\<close>

section \<open>State and environment\<close>

text \<open>
  An error of a file: \<open>ErrSourceUnreadable\<close>, the same wrapping \<open>ErrSourceTimeout\<close>, or another
  (what \<open>errors.Is\<close> distinguishes).
\<close>

datatype FileErr = Unreadable | UnreadableTimeout | OtherErr

definition is_unreadable :: "FileErr \<Rightarrow> bool" where
  "is_unreadable e \<longleftrightarrow> e = Unreadable \<or> e = UnreadableTimeout"

text \<open>
  The feeder's own state. \<open>told\<close> is the record of the \<open>OnUnreadable\<close> calls; an absent entry of
  \<open>aired\<close> reads as 0.
\<close>

record Feeder =
  LiveRetry :: duration
  UnreadableFill :: string
  unreadable :: "int \<rightharpoonup> instant"
  aired :: "string \<Rightarrow> nat"
  told :: "(ProgramBlock \<times> FileErr) list"

text \<open>
  \<open>source\<close> is \<open>ProgramsFrom\<close>'s answer (\<open>None\<close>: an error); \<open>check\<close> is \<open>None\<close> where the feeder has no
  \<open>Check\<close>, and its answer for a block is \<open>None\<close> or the error and whether the context had ended by
  then; \<open>fillers\<close> is \<open>None\<close> where the source lists no filler, \<open>Some None\<close> where listing fails;
  \<open>markNow\<close> is the clock when a block of that \<open>Seq\<close> is marked.
\<close>

record PlanEnv =
  planNow :: instant
  source :: "ProgramBlock list option"
  check :: "(ProgramBlock \<Rightarrow> (FileErr \<times> bool) option) option"
  fillers :: "ProgramBlock list option option"
  markNow :: "int \<Rightarrow> instant"

definition FillSlate :: string where "FillSlate = ''slate''"
definition scheduleErrorSlate :: duration where "scheduleErrorSlate = 10 * second"
definition defaultLiveRetry :: duration where "defaultLiveRetry = 30 * second"

section \<open>Operations\<close>

definition markUnreadable :: "instant \<Rightarrow> ProgramBlock \<Rightarrow> FileErr \<Rightarrow> Feeder \<Rightarrow> Feeder" where
  "markUnreadable now b err f =
    (if unreadable f (Seq b) \<noteq> None then f
     else f\<lparr>unreadable := (\<lambda>s. case unreadable f s of
                Some e \<Rightarrow> if e < now then None else Some e | None \<Rightarrow> None)(Seq b \<mapsto> EndAt b),
            told := told f @ [(b, err)]\<rparr>)"

definition stand_slate :: "Segment \<Rightarrow> Segment" where
  "stand_slate seg =
    (let s = (slate (segStart seg) (segEnd seg) (segNext seg))\<lparr>segBlock := segBlock seg, StandInFor := Seq (segBlock seg)\<rparr>
     in if maxGapSlate < segEnd s - segStart s then s\<lparr>segEnd := segStart s + maxGapSlate\<rparr> else s)"

definition stand_filler :: "Segment \<Rightarrow> ProgramBlock \<Rightarrow> Segment" where
  "stand_filler seg c =
    (let d = SourceDurationMS c * millisecond; e = segStart seg + d
     in \<lparr>segKind = Kind c, segBlock = c, segStart = segStart seg, segEnd = (if segEnd seg < e then segEnd seg else e),
         segSeekMS = SourceOffsetMS c, Message = '''', Synthetic = True, segNext = segNext seg,
         StandInFor = Seq (segBlock seg)\<rparr>)"

text \<open>The loop of \<open>standIn\<close> over the sorted candidates.\<close>

fun try_fillers :: "PlanEnv \<Rightarrow> Segment \<Rightarrow> ProgramBlock list \<Rightarrow> Feeder \<Rightarrow> Segment \<times> Feeder" where
  "try_fillers env seg [] f = (stand_slate seg, f)"
| "try_fillers env seg (c # cs) f =
    (let d = SourceDurationMS c * millisecond;
         air = (stand_filler seg c, f\<lparr>aired := (aired f)(VideoID c := aired f (VideoID c) + 1)\<rparr>)
     in if unreadable f (Seq c) \<noteq> None \<or> Path c = '''' \<or> \<not> fileKind (Kind c) \<or> d < minRemaining
        then try_fillers env seg cs f
        else case check env of
          None \<Rightarrow> air
        | Some chk \<Rightarrow>
            (case chk c of
               None \<Rightarrow> air
             | Some (err, ended) \<Rightarrow>
                 if ended then (stand_slate seg, f)
                 else let f1 = markUnreadable (markNow env (Seq c)) c err f
                      in if err = UnreadableTimeout then (stand_slate seg, f1)
                         else try_fillers env seg cs f1))"

definition stand_for :: "PlanEnv \<Rightarrow> Feeder \<Rightarrow> Segment \<Rightarrow> Segment \<times> Feeder" where
  "stand_for env f seg =
    (case fillers env of
       Some (Some cands) \<Rightarrow>
         if UnreadableFill f = FillSlate then (stand_slate seg, f)
         else try_fillers env seg (sort_by (\<lambda>x y. aired f (VideoID x) < aired f (VideoID y)) cands) f
     | _ \<Rightarrow> (stand_slate seg, f))"

definition standIn :: "PlanEnv \<Rightarrow> Feeder \<Rightarrow> Segment \<Rightarrow> Segment \<times> Feeder" where
  "standIn env f seg =
    (if Synthetic seg \<or> \<not> fileKind (segKind seg) then (seg, f)
     else if unreadable f (Seq (segBlock seg)) \<noteq> None then stand_for env f seg
     else case check env of
       None \<Rightarrow> (seg, f)
     | Some chk \<Rightarrow>
         (case chk (segBlock seg) of
            None \<Rightarrow> (seg, f)
          | Some (err, ended) \<Rightarrow>
              if ended then (seg, f)
              else stand_for env (markUnreadable (markNow env (Seq (segBlock seg))) (segBlock seg) err f) seg))"

definition plan :: "PlanEnv \<Rightarrow> Feeder \<Rightarrow> instant \<Rightarrow> Segment \<times> Feeder" where
  "plan env f pos0 =
    (let pos = (if pos0 < planNow env then planNow env else pos0)
     in case source env of
          None \<Rightarrow> (slate pos (pos + scheduleErrorSlate) None, f)
        | Some blocks \<Rightarrow> standIn env f (PlanNext blocks pos))"

text \<open>
  One round of the loop. \<open>finished\<close>: the playback was over when the feeder woke; \<open>complete\<close> and
  \<open>waitErr\<close> are what its \<open>Wait\<close> returned (by the end of the round); \<open>wakeNow\<close>, \<open>failNow\<close> and
  \<open>lateNow\<close> are readings of the clock.
\<close>

record Wake =
  finished :: bool
  complete :: bool
  waitErr :: "FileErr option"
  wakeNow :: instant
  failNow :: instant
  lateNow :: instant
  wakeEnv :: PlanEnv

definition stopped_early :: "Wake \<Rightarrow> Segment \<Rightarrow> bool" where
  "stopped_early w cur \<longleftrightarrow>
     finished w \<and> \<not> complete w \<and> segKind cur \<noteq> KindSlate \<and> wakeNow w < segEnd cur - minRemaining"

definition file_failed :: "Wake \<Rightarrow> Segment \<Rightarrow> bool" where
  "file_failed w cur \<longleftrightarrow>
     (case waitErr w of Some e \<Rightarrow> is_unreadable e | None \<Rightarrow> False) \<and> fileKind (segKind cur)"

definition feed_step :: "Wake \<Rightarrow> Feeder \<times> Segment \<Rightarrow> Feeder \<times> Segment" where
  "feed_step w st =
    (let (f, cur) = st; liveRetry = (if LiveRetry f \<le> 0 then defaultLiveRetry else LiveRetry f) in
     if stopped_early w cur then
       (if file_failed w cur then
          let f1 = markUnreadable (failNow w) (segBlock cur) (the (waitErr w)) f;
              (s, f2) = plan (wakeEnv w) f1 (wakeNow w)
          in (f2, s)
        else (f, failureFill cur (wakeNow w) liveRetry))
     else
       let (next, f1) = plan (wakeEnv w) f (segEnd cur);
           f2 = (if file_failed w cur then markUnreadable (lateNow w) (segBlock cur) (the (waitErr w)) f1 else f1)
       in (f2, next))"

text \<open>\<open>Run\<close>: the states after each round, from the first plan at the clock's reading.\<close>

fun feed_states :: "Wake list \<Rightarrow> Feeder \<times> Segment \<Rightarrow> (Feeder \<times> Segment) list" where
  "feed_states [] st = [st]"
| "feed_states (w # ws) st = st # feed_states ws (feed_step w st)"

definition feed_start :: "PlanEnv \<Rightarrow> Feeder \<Rightarrow> instant \<Rightarrow> Feeder \<times> Segment" where
  "feed_start env f now = (let (s, f1) = plan env f now in (f1, s))"

definition Run :: "PlanEnv \<Rightarrow> Feeder \<Rightarrow> instant \<Rightarrow> Wake list \<Rightarrow> (Feeder \<times> Segment) list" where
  "Run env f now ws = feed_states ws (feed_start env f now)"

section \<open>Facts of the stand-ins and the plan\<close>

lemma markUnreadable_marks [simp]:
  "unreadable (markUnreadable now b e f) (Seq b) \<noteq> None"
  "LiveRetry (markUnreadable now b e f) = LiveRetry f"
  "UnreadableFill (markUnreadable now b e f) = UnreadableFill f"
  by (auto simp: markUnreadable_def)

text \<open>A segment that keeps to the span of the one it stands in for and plays no marked block.\<close>

definition stands_in :: "Segment \<Rightarrow> Feeder \<Rightarrow> Segment \<Rightarrow> bool" where
  "stands_in seg f s \<longleftrightarrow> segStart s = segStart seg \<and> segEnd s \<le> segEnd seg \<and>
     minRemaining \<le> segEnd s - segStart s \<and> Synthetic s \<and> StandInFor s = Seq (segBlock seg) \<and>
     (fileKind (segKind s) \<longrightarrow> unreadable f (Seq (segBlock s)) = None \<and> Path (segBlock s) \<noteq> '''')"

lemma not_fileKind_slate [simp]: "\<not> fileKind KindSlate"
  by (simp add: fileKind_def names)

lemma stand_slate_stands_in:
  "minRemaining \<le> segEnd seg - segStart seg \<Longrightarrow> stands_in seg f (stand_slate seg)"
  by (simp add: stands_in_def stand_slate_def slate_def Let_def maxGapSlate_def minRemaining_def)

lemma stand_filler_stands_in:
  assumes "minRemaining \<le> segEnd seg - segStart seg" "minRemaining \<le> SourceDurationMS c * millisecond"
    and "unreadable f (Seq c) = None" "Path c \<noteq> ''''"
  shows "stands_in seg f (stand_filler seg c)"
  using assms by (simp add: stands_in_def stand_filler_def Let_def)

lemma stands_in_aired [simp]: "stands_in seg (f\<lparr>aired := a\<rparr>) s = stands_in seg f s"
  by (simp add: stands_in_def)

lemma try_fillers_stands_in:
  assumes "minRemaining \<le> segEnd seg - segStart seg"
  shows "stands_in seg (snd (try_fillers env seg cs f)) (fst (try_fillers env seg cs f)) \<and>
         LiveRetry (snd (try_fillers env seg cs f)) = LiveRetry f"
proof (induction cs arbitrary: f)
  case Nil
  then show ?case using stand_slate_stands_in [OF assms] by simp
next
  case (Cons c cs)
  show ?case
  proof (cases "unreadable f (Seq c) \<noteq> None \<or> Path c = '''' \<or> \<not> fileKind (Kind c) \<or>
                SourceDurationMS c * millisecond < minRemaining")
    case True
    then show ?thesis using Cons.IH by (simp add: Let_def)
  next
    case False
    then have "stands_in seg f (stand_filler seg c)"
      using stand_filler_stands_in [OF assms] by simp
    with False show ?thesis
      using Cons.IH stand_slate_stands_in [OF assms]
      by (simp add: Let_def split: option.split prod.split)
  qed
qed

lemma stand_for_stands_in:
  assumes "minRemaining \<le> segEnd seg - segStart seg"
  shows "stands_in seg (snd (stand_for env f seg)) (fst (stand_for env f seg)) \<and>
         LiveRetry (snd (stand_for env f seg)) = LiveRetry f"
  using try_fillers_stands_in [OF assms] stand_slate_stands_in [OF assms]
  by (simp add: stand_for_def split: option.split)

text \<open>What \<open>standIn\<close> answers: the segment itself, not marked, or a stand-in for it.\<close>

lemma standIn_cases:
  assumes "minRemaining \<le> segEnd seg - segStart seg"
  shows "(fst (standIn env f seg) = seg \<and> snd (standIn env f seg) = f \<and>
            (Synthetic seg \<or> \<not> fileKind (segKind seg) \<or> unreadable f (Seq (segBlock seg)) = None)
          \<or> stands_in seg (snd (standIn env f seg)) (fst (standIn env f seg))) \<and>
         LiveRetry (snd (standIn env f seg)) = LiveRetry f"
  using stand_for_stands_in [OF assms]
  by (simp add: standIn_def split: option.split prod.split)

lemma PlanNext_file_path:
  assumes "fileKind (segKind (PlanNext blocks pos))"
  shows "\<not> Synthetic (PlanNext blocks pos) \<and> Path (segBlock (PlanNext blocks pos)) \<noteq> ''''"
proof (cases "filter (\<lambda>b. minRemaining \<le> EndAt b - pos) blocks")
  case Nil
  then show ?thesis using assms unfolding PlanNext_eq by (simp add: slate_def)
next
  case (Cons b bs)
  define s where "s = \<lparr>segKind = Kind b, segBlock = b, segStart = pos, segEnd = EndAt b,
            segSeekMS = SourceOffsetMS b + (if pos < StartAt b then 0 else go_quot (pos - StartAt b) millisecond),
            Message = '''', Synthetic = False, segNext = nextProgramme (b # bs) 1, StandInFor = 0\<rparr>"
  have "PlanNext blocks pos = by_kind b s"
    using assms unfolding PlanNext_eq Cons s_def by (simp add: slate_def split: if_splits)
  moreover have "segKind s = Kind b" "segBlock s = b" "\<not> Synthetic s" by (simp_all add: s_def)
  ultimately show ?thesis
    using by_kind_file [of s b] assms by (simp add: by_kind_keeps)
qed

lemma plan_span:
  "segStart (fst (plan env f pos)) = max pos (planNow env) \<and>
   minRemaining \<le> segEnd (fst (plan env f pos)) - segStart (fst (plan env f pos)) \<and>
   LiveRetry (snd (plan env f pos)) = LiveRetry f"
proof -
  define p where "p = (if pos < planNow env then planNow env else pos)"
  have p: "p = max pos (planNow env)" by (simp add: p_def)
  show ?thesis
  proof (cases "source env")
    case None
    then show ?thesis
      by (simp add: plan_def Let_def p_def [symmetric] slate_def scheduleErrorSlate_def minRemaining_def) (simp add: p)
  next
    case (Some blocks)
    have "plan env f pos = standIn env f (PlanNext blocks p)"
      by (simp add: plan_def p_def [symmetric] Some)
    moreover have "segStart (PlanNext blocks p) = p" "minRemaining \<le> segEnd (PlanNext blocks p) - segStart (PlanNext blocks p)"
      using PlanNext_span by auto
    ultimately show ?thesis
      using standIn_cases [of "PlanNext blocks p" env f] p unfolding stands_in_def by auto
  qed
qed

lemma plan_readable:
  assumes "fileKind (segKind (fst (plan env f pos)))"
  shows "unreadable (snd (plan env f pos)) (Seq (segBlock (fst (plan env f pos)))) = None \<and>
         Path (segBlock (fst (plan env f pos))) \<noteq> ''''"
proof (cases "source env")
  case None
  then show ?thesis using assms by (simp add: plan_def slate_def Let_def split: if_splits)
next
  case (Some blocks)
  define s where "s = PlanNext blocks (if pos < planNow env then planNow env else pos)"
  have eq: "plan env f pos = standIn env f s" by (simp add: plan_def Some s_def)
  have len: "minRemaining \<le> segEnd s - segStart s" using PlanNext_span unfolding s_def by simp
  consider "stands_in s (snd (standIn env f s)) (fst (standIn env f s))"
    | "fst (standIn env f s) = s" "snd (standIn env f s) = f"
      "Synthetic s \<or> \<not> fileKind (segKind s) \<or> unreadable f (Seq (segBlock s)) = None"
    using standIn_cases [OF len, of env f] by (elim conjE disjE) simp_all
  then show ?thesis
  proof cases
    case 1
    then show ?thesis using assms unfolding eq stands_in_def by blast
  next
    case 2
    have "fileKind (segKind s)" using assms unfolding eq 2 .
    then have "\<not> Synthetic s" "Path (segBlock s) \<noteq> ''''"
      using PlanNext_file_path unfolding s_def by blast+
    then show ?thesis using 2(3) \<open>fileKind (segKind s)\<close> unfolding eq 2(1,2) by blast
  qed
qed

lemma failureFill_span:
  assumes "t < segEnd seg - minRemaining" "minRemaining \<le> segEnd seg - segStart seg" "0 < l"
  shows "segStart (failureFill seg t l) = max t (segStart seg) \<and> segEnd (failureFill seg t l) \<le> segEnd seg \<and>
         min minRemaining l \<le> segEnd (failureFill seg t l) - segStart (failureFill seg t l) \<and>
         segKind (failureFill seg t l) = KindSlate"
  using assms by (auto simp: failureFill_def Let_def min_def max_def)


section \<open>Properties\<close>

lemma feed_states_nth:
  "i < length ws \<Longrightarrow> feed_states ws st ! Suc i = feed_step (ws ! i) (feed_states ws st ! i)"
proof (induction ws arbitrary: st i)
  case Nil
  then show ?case by simp
next
  case (Cons w ws)
  show ?case
  proof (cases i)
    case 0
    then show ?thesis by (cases ws) simp_all
  next
    case (Suc j)
    then show ?thesis using Cons by simp
  qed
qed

lemma length_feed_states [simp]: "length (feed_states ws st) = Suc (length ws)"
  by (induction ws arbitrary: st) auto

text \<open>How the segment after \<open>a\<close> follows it, given what happened during the round.\<close>

definition follows :: "Wake \<Rightarrow> Segment \<Rightarrow> Segment \<Rightarrow> bool" where
  "follows w a b \<longleftrightarrow>
     (if \<not> stopped_early w a then segStart b = max (segEnd a) (planNow (wakeEnv w))
      else if file_failed w a then segStart b = max (wakeNow w) (planNow (wakeEnv w))
      else segStart b = max (wakeNow w) (segStart a) \<and> segEnd b \<le> segEnd a \<and> segKind b = KindSlate)"

definition retry_of :: "Feeder \<Rightarrow> duration" where
  "retry_of f = (if LiveRetry f \<le> 0 then defaultLiveRetry else LiveRetry f)"

definition lasting :: "Feeder \<Rightarrow> Segment \<Rightarrow> bool" where
  "lasting f s \<longleftrightarrow> (segKind s \<noteq> KindSlate \<longrightarrow> minRemaining \<le> segEnd s - segStart s) \<and>
     min minRemaining (retry_of f) \<le> segEnd s - segStart s"

lemma lasting_full: "minRemaining \<le> segEnd s - segStart s \<Longrightarrow> lasting f s"
  by (simp add: lasting_def)

lemma feed_step_follows:
  assumes "lasting f a" "feed_step w (f, a) = (f', b)"
  shows "follows w a b \<and> lasting f' b \<and> LiveRetry f' = LiveRetry f"
proof (cases "stopped_early w a")
  case early: True
  then have a: "wakeNow w < segEnd a - minRemaining" "minRemaining \<le> segEnd a - segStart a"
    using assms(1) by (auto simp: stopped_early_def lasting_def)
  show ?thesis
  proof (cases "file_failed w a")
    case True
    define f1 where "f1 = markUnreadable (failNow w) (segBlock a) (the (waitErr w)) f"
    have "b = fst (plan (wakeEnv w) f1 (wakeNow w))" "f' = snd (plan (wakeEnv w) f1 (wakeNow w))"
      using assms(2) early True by (simp_all add: feed_step_def f1_def Let_def split: prod.splits)
    moreover have "LiveRetry f1 = LiveRetry f" by (simp add: f1_def)
    ultimately show ?thesis
      using plan_span [of "wakeEnv w" f1 "wakeNow w"] early True lasting_full
      by (simp add: follows_def)
  next
    case False
    then have b: "b = failureFill a (wakeNow w) (retry_of f)" "f' = f"
      using assms(2) early False by (auto simp: feed_step_def retry_of_def Let_def)
    have "0 < retry_of f" by (simp add: retry_of_def defaultLiveRetry_def)
    from failureFill_span [OF a this] early False show ?thesis
      unfolding b lasting_def by (simp add: follows_def)
  qed
next
  case False
  then have b: "b = fst (plan (wakeEnv w) f (segEnd a))"
    and f: "LiveRetry f' = LiveRetry (snd (plan (wakeEnv w) f (segEnd a)))"
    using assms(2) by (auto simp: feed_step_def Let_def split: prod.splits if_splits)
  show ?thesis
    using plan_span [of "wakeEnv w" f "segEnd a"] False lasting_full b f by (simp add: follows_def)
qed

lemma feed_states_lasting:
  assumes "lasting (fst st) (snd st)" "i \<le> length ws"
  shows "lasting (fst (feed_states ws st ! i)) (snd (feed_states ws st ! i)) \<and>
         LiveRetry (fst (feed_states ws st ! i)) = LiveRetry (fst st)"
  using assms(2)
proof (induction i)
  case 0
  then show ?case using assms(1) by (cases ws) simp_all
next
  case (Suc i)
  obtain f a where fa: "feed_states ws st ! i = (f, a)" by fastforce
  obtain f' b where fb: "feed_step (ws ! i) (f, a) = (f', b)" by fastforce
  have "feed_states ws st ! Suc i = (f', b)"
    using feed_states_nth [of i ws st] Suc.prems fa fb by simp
  with Suc fa show ?case using feed_step_follows [OF _ fb] by simp
qed

text \<open>
  Property C18. The channel never stops and never drifts: in every history of the feeder, each
  segment is followed by one that starts at its end, or at the clock when that has passed; only
  a playback that ended with more than \<open>minRemaining\<close> of its segment left is cut short, by a
  slate from that moment (never before the segment's start) to at most its end, or, if its file
  could not be read, by a new plan from the clock's reading. Every segment lasts at least
  \<open>minRemaining\<close>, or the live retry where that is shorter, so the rounds cannot spin in place.
\<close>

theorem feeder_keeps_the_clock:
  assumes "i < length ws"
  shows "let a = snd (Run env f now ws ! i); b = snd (Run env f now ws ! Suc i) in
    follows (ws ! i) a b \<and> 0 < min minRemaining (retry_of f) \<and>
    min minRemaining (retry_of f) \<le> segEnd a - segStart a \<and>
    min minRemaining (retry_of f) \<le> segEnd b - segStart b \<and>
    (\<not> stopped_early (ws ! i) a \<longrightarrow> segStart a + min minRemaining (retry_of f) \<le> segStart b)"
proof -
  define st where "st = feed_start env f now"
  have st: "lasting (fst st) (snd st)" "LiveRetry (fst st) = LiveRetry f"
    using plan_span [of env f now] lasting_full by (auto simp: st_def feed_start_def split: prod.split)
  obtain g a where ga: "feed_states ws st ! i = (g, a)" by fastforce
  obtain h b where hb: "feed_step (ws ! i) (g, a) = (h, b)" by fastforce
  have nx: "feed_states ws st ! Suc i = (h, b)"
    using feed_states_nth [OF assms, of st] ga hb by simp
  have a: "lasting g a" "LiveRetry g = LiveRetry f"
    using feed_states_lasting [OF st(1), of i ws] assms ga st(2) by auto
  from feed_step_follows [OF a(1) hb]
  have b: "follows (ws ! i) a b" "lasting h b" "LiveRetry h = LiveRetry f" using a(2) by auto
  have r: "retry_of g = retry_of f" "retry_of h = retry_of f" using a(2) b(3) by (simp_all add: retry_of_def)
  have "0 < min minRemaining (retry_of f)" by (simp add: retry_of_def defaultLiveRetry_def minRemaining_def)
  moreover have "min minRemaining (retry_of f) \<le> segEnd a - segStart a"
    "min minRemaining (retry_of f) \<le> segEnd b - segStart b"
    using a(1) b(2) r unfolding lasting_def by auto
  moreover have "segEnd a \<le> segStart b" if "\<not> stopped_early (ws ! i) a"
    using b(1) that by (simp add: follows_def)
  ultimately show ?thesis
    using b(1) unfolding Let_def Run_def st_def [symmetric] ga nx snd_conv by fastforce
qed


definition sample_env :: "instant \<Rightarrow> PlanEnv" where
  "sample_env t = \<lparr>planNow = t, source = Some [sample_block], check = None, fillers = None, markNow = (\<lambda>_. t)\<rparr>"

definition sample_feeder :: Feeder where
  "sample_feeder = \<lparr>LiveRetry = 0, UnreadableFill = ''filler'', unreadable = Map.empty, aired = (\<lambda>_. 0), told = []\<rparr>"

definition sample_wake :: "instant \<Rightarrow> bool \<Rightarrow> Wake" where
  "sample_wake t c = \<lparr>finished = True, complete = c, waitErr = Some OtherErr, wakeNow = t, failNow = t, lateNow = t,
     wakeEnv = sample_env t\<rparr>"

theorem feeder_keeps_the_clock_witness:
  "follows (sample_wake (20 * second) False)
     (snd (Run (sample_env (12 * second)) sample_feeder (12 * second) [sample_wake (20 * second) False] ! 0))
     (snd (Run (sample_env (12 * second)) sample_feeder (12 * second) [sample_wake (20 * second) False] ! 1))"
  using feeder_keeps_the_clock [of 0 "[sample_wake (20 * second) False]" "sample_env (12 * second)" sample_feeder "12 * second"]
  by (simp add: Let_def)

text \<open>
  A block known to be unreadable is never started, and a stand-in keeps its
  place: what \<open>plan\<close> answers starts at the position, or at the clock when that has passed, and
  lasts at least \<open>minRemaining\<close>; a file segment has a path and is not of a block marked
  unreadable in the state that results; and when it stands in for a block that \<open>PlanNext\<close> chose,
  it starts where that block's segment would and ends by its end, so the next block airs on time.
\<close>

theorem plan_avoids_unreadable:
  assumes "source env = Some blocks"
  shows "let s = fst (plan env f pos); f' = snd (plan env f pos); p = PlanNext blocks (max pos (planNow env)) in
    segStart s = max pos (planNow env) \<and> minRemaining \<le> segEnd s - segStart s \<and>
    (fileKind (segKind s) \<longrightarrow> unreadable f' (Seq (segBlock s)) = None \<and> Path (segBlock s) \<noteq> '''') \<and>
    (s = p \<or> segEnd s \<le> segEnd p \<and> StandInFor s = Seq (segBlock p) \<and> Synthetic s)"
proof -
  define q where "q = PlanNext blocks (max pos (planNow env))"
  have eq: "plan env f pos = standIn env f q"
    using assms by (simp add: plan_def q_def max_def)
  have len: "minRemaining \<le> segEnd q - segStart q" using PlanNext_span unfolding q_def by simp
  have "fst (standIn env f q) = q \<or> stands_in q (snd (standIn env f q)) (fst (standIn env f q))"
    using standIn_cases [OF len, of env f] by (elim conjE disjE) simp_all
  then have "fst (plan env f pos) = q \<or> segEnd (fst (plan env f pos)) \<le> segEnd q \<and>
      StandInFor (fst (plan env f pos)) = Seq (segBlock q) \<and> Synthetic (fst (plan env f pos))"
    unfolding eq stands_in_def by blast
  then show ?thesis
    using plan_span [of env f pos] plan_readable [of env f pos] unfolding Let_def q_def [symmetric] by blast
qed

definition sample_filler :: ProgramBlock where
  "sample_filler = no_block\<lparr>Seq := 3, Kind := KindFiller, StartAt := 2 * second, EndAt := 9 * second,
     SourceDurationMS := 7000, Path := ''/f.mkv'', VideoID := ''f''\<rparr>"

definition sample_env2 :: PlanEnv where
  "sample_env2 = \<lparr>planNow = 12 * second, source = Some [sample_block],
     check = Some (\<lambda>b. if Seq b = 7 then Some (Unreadable, False) else None),
     fillers = Some (Some [sample_filler]), markNow = (\<lambda>_. 12 * second)\<rparr>"

theorem plan_avoids_unreadable_witness:
  "fileKind (segKind (fst (plan sample_env2 sample_feeder (12 * second)))) \<and>
   unreadable (snd (plan sample_env2 sample_feeder (12 * second)))
     (Seq (segBlock (fst (plan sample_env2 sample_feeder (12 * second))))) = None"
proof -
  have "source sample_env2 = Some [sample_block]" by (simp add: sample_env2_def)
  moreover have "fileKind (segKind (fst (plan sample_env2 sample_feeder (12 * second))))" by code_simp
  ultimately show ?thesis
    using plan_avoids_unreadable [of sample_env2 "[sample_block]" sample_feeder "12 * second"]
    by (simp only: Let_def)
qed

section \<open>Where the code departs from its comments\<close>

text \<open>
  The entries of \<open>unreadable\<close> that have ended are dropped whenever a block is marked. A filler that
  stands in is often one of the past, so its own mark is dropped by the next one: with two
  unreadable fillers that have ended, each mark of one forgets the other, and both are checked and
  reported at every plan, though \<open>OnUnreadable\<close> is to be told once per block.
\<close>

lemma past_fillers_told_again:
  assumes "EndAt c1 < now" "EndAt c2 < now" "Seq c1 \<noteq> Seq c2" "unreadable f (Seq c1) = None"
  shows "told (markUnreadable now c1 e (markUnreadable now c2 e (markUnreadable now c1 e (f\<lparr>unreadable := Map.empty\<rparr>)))) =
         told f @ [(c1, e), (c2, e), (c1, e)]"
  using assms by (simp add: markUnreadable_def)

text \<open>
  A file that fails before its start, while the segment before it still runs, is not replaced
  from its start as a failed playback is: the new plan is made at the clock, where the block
  before it is still on air, so that block's last seconds are planned again.
\<close>

definition before_block :: ProgramBlock where
  "before_block = no_block\<lparr>Seq := 6, Kind := KindProgram, StartAt := 0, EndAt := 10 * second, Path := ''/u.mkv''\<rparr>"

lemma early_failure_replans_the_past:
  "let st = (sample_feeder, PlanNext [sample_block] (10 * second));
       w = (sample_wake (8 * second) False)\<lparr>waitErr := Some Unreadable,
              wakeEnv := (sample_env (8 * second))\<lparr>source := Some [before_block, sample_block]\<rparr>\<rparr>
   in segStart (snd st) = 10 * second \<and> Seq (segBlock (snd st)) = 7 \<and>
      segStart (snd (feed_step w st)) = 8 * second \<and> Seq (segBlock (snd (feed_step w st))) = 6"
  by code_simp

end
