(* ===== verification/Link_Frames.thy ===== *)
theory Link_Frames
  imports Prelude
begin

text \<open>
  The control channel of the cluster link (api/internal/cluster/link): the frames
  (frames.go) and the outgoing queue that puts control frames before rpc frames (sched.go).
  The websocket that carries the messages is not modelled; the queue's channels are lists with
  the capacities the code gives them, and the goroutines' interleaving is the order of the
  steps of \<open>sender_step\<close>.
\<close>

section \<open>Frames\<close>

definition KindReq :: byte where "KindReq = 1"
definition KindResp :: byte where "KindResp = 2"
definition KindChunk :: byte where "KindChunk = 3"
definition KindEnd :: byte where "KindEnd = 4"
definition KindCancel :: byte where "KindCancel = 5"
definition KindEvent :: byte where "KindEvent = 6"
definition KindWhole :: byte where "KindWhole = 7"
definition ClassControl :: byte where "ClassControl = 0"
definition ClassRPC :: byte where "ClassRPC = 1"
definition MaxPayload :: nat where "MaxPayload = push_bit 10 16"
definition HeadSize :: nat where "HeadSize = 10"

record Frame =
  FrameID :: "32 word"
  FrameKind :: byte
  FrameClass :: byte
  Payload :: bytes

datatype frame_error = ErrFrameTooLarge | ErrBadFrame

definition Encode :: "Frame \<Rightarrow> frame_error + bytes" where
  "Encode f =
    (if MaxPayload < length (Payload f) then Inl ErrFrameTooLarge
     else if FrameClass f \<noteq> ClassControl \<and> FrameClass f \<noteq> ClassRPC then Inl ErrBadFrame
     else Inr (be32 (FrameID f) @ [FrameKind f, FrameClass f] @ be32 (word_of_nat (length (Payload f))) @ Payload f))"

definition Decode :: "bytes \<Rightarrow> frame_error + Frame" where
  "Decode b =
    (if length b < HeadSize then Inl ErrBadFrame else
      let n = unbe32 (drop 6 b) in
      if MaxPayload < unat n then Inl ErrFrameTooLarge
      else if unat n \<noteq> length b - HeadSize then Inl ErrBadFrame
      else let k = b ! 4; c = b ! 5 in
        if k < KindReq \<or> KindWhole < k \<or> (c \<noteq> ClassControl \<and> c \<noteq> ClassRPC) then Inl ErrBadFrame
        else Inr \<lparr>FrameID = unbe32 b, FrameKind = k, FrameClass = c, Payload = drop HeadSize b\<rparr>)"

function split :: "bytes \<Rightarrow> bytes list" where
  "split b = (if MaxPayload < length b then take MaxPayload b # split (drop MaxPayload b)
              else if b \<noteq> [] then [b] else [])"
  by auto

termination split
  by (relation "measure length") (auto simp: MaxPayload_def)

declare split.simps [simp del]

lemma MaxPayload_eq: "MaxPayload = 16384"
  by (simp add: MaxPayload_def push_bit_nat_def)


lemma kind_order: "KindReq \<le> KindWhole" "KindEvent \<noteq> 0"
  by (simp_all add: KindReq_def KindWhole_def KindEvent_def)

lemma Encode_Inr:
  "Encode f = Inr b \<longleftrightarrow> length (Payload f) \<le> MaxPayload \<and> (FrameClass f = ClassControl \<or> FrameClass f = ClassRPC) \<and>
     b = be32 (FrameID f) @ [FrameKind f, FrameClass f] @ be32 (word_of_nat (length (Payload f))) @ Payload f"
  by (auto simp: Encode_def)

lemma payload_length_word: "n \<le> MaxPayload \<Longrightarrow> unat (word_of_nat n :: 32 word) = n"
  by (simp add: MaxPayload_eq unat_of_nat take_bit_nat_eq_self)

lemma unbe32_take: "4 \<le> length b \<Longrightarrow> unbe32 (take 4 b) = unbe32 b"
  by (simp add: unbe32_def)

lemma split_at_head:
  assumes "10 \<le> length (b :: bytes)"
  shows "b = take 4 b @ [b ! 4, b ! 5] @ take 4 (drop 6 b) @ drop 10 b"
proof -
  have "drop 4 b = b ! 4 # b ! 5 # drop 6 b"
    using Cons_nth_drop_Suc [of 4 b] Cons_nth_drop_Suc [of 5 b] assms by simp
  moreover have "drop 6 b = take 4 (drop 6 b) @ drop 10 b"
    using append_take_drop_id [of 4 "drop 6 b"] by simp
  ultimately show ?thesis using append_take_drop_id [of 4 b] by (metis append_Cons append_Nil)
qed

lemma Decode_Encode:
  "Decode b = Inr f \<longleftrightarrow> Encode f = Inr b \<and> KindReq \<le> FrameKind f \<and> FrameKind f \<le> KindWhole"
proof
  assume d: "Decode b = Inr f"
  then have len: "10 \<le> length b"
    by (auto simp: Decode_def HeadSize_def split: if_splits)
  have n: "unat (unbe32 (drop 6 b)) \<le> MaxPayload" "unat (unbe32 (drop 6 b)) = length b - 10"
    and k: "KindReq \<le> b ! 4" "b ! 4 \<le> KindWhole" "b ! 5 = ClassControl \<or> b ! 5 = ClassRPC"
    and f: "f = \<lparr>FrameID = unbe32 b, FrameKind = b ! 4, FrameClass = b ! 5, Payload = drop 10 b\<rparr>"
    using d by (auto simp: Decode_def HeadSize_def Let_def split: if_splits)
  have "be32 (unbe32 b) = take 4 b"
    using be32_unbe32 [of "take 4 b"] unbe32_take [of b] len by simp
  moreover have "word_of_nat (length (drop 10 b)) = unbe32 (drop 6 b)"
    unfolding length_drop n(2) [symmetric] by simp
  moreover have "be32 (unbe32 (drop 6 b)) = take 4 (drop 6 b)"
    using be32_unbe32 [of "take 4 (drop 6 b)"] unbe32_take [of "drop 6 b"] len by simp
  ultimately have "b = be32 (FrameID f) @ [FrameKind f, FrameClass f] @ be32 (word_of_nat (length (Payload f))) @ Payload f"
    using split_at_head [OF len] by (simp add: f)
  then show "Encode f = Inr b \<and> KindReq \<le> FrameKind f \<and> FrameKind f \<le> KindWhole"
    using n k by (simp add: Encode_Inr f)
next
  assume e: "Encode f = Inr b \<and> KindReq \<le> FrameKind f \<and> FrameKind f \<le> KindWhole"
  then have b: "b = be32 (FrameID f) @ [FrameKind f, FrameClass f] @ be32 (word_of_nat (length (Payload f))) @ Payload f"
    and l: "length (Payload f) \<le> MaxPayload" and c: "FrameClass f = ClassControl \<or> FrameClass f = ClassRPC"
    by (auto simp: Encode_Inr)
  have "unbe32 (drop 6 b) = word_of_nat (length (Payload f))" "b ! 4 = FrameKind f" "b ! 5 = FrameClass f"
    "drop 10 b = Payload f" "unbe32 b = FrameID f" "length b = 10 + length (Payload f)"
    by (simp_all add: b nth_append)
  then show "Decode b = Inr f"
    using e l c by (auto simp: Decode_def HeadSize_def payload_length_word Let_def not_less)
qed

lemma split_concat: "concat (split b) = b"
  by (induction b rule: split.induct) (subst split.simps, simp)

lemma split_pieces: "p \<in> set (split b) \<Longrightarrow> p \<noteq> [] \<and> length p \<le> MaxPayload"
proof (induction b rule: split.induct)
  case (1 b)
  show ?case
  proof (cases "MaxPayload < length b")
    case True
    then have "split b = take MaxPayload b # split (drop MaxPayload b)" by (subst split.simps) simp
    then show ?thesis using 1 True by (auto simp: MaxPayload_eq)
  next
    case False
    then have "split b = (if b \<noteq> [] then [b] else [])" by (subst split.simps) simp
    then show ?thesis using 1 False by (auto split: if_splits)
  qed
qed


definition acceptable_kind :: "Frame \<Rightarrow> bool" where
  "acceptable_kind f \<longleftrightarrow> KindReq \<le> FrameKind f \<and> FrameKind f \<le> KindWhole"

interpretation lf: wire_codec "right \<circ> Encode" "right \<circ> Decode" acceptable_kind
  by unfold_locales (simp add: Decode_Encode acceptable_kind_def)

section \<open>The outgoing queue\<close>

record queued =
  qBytes :: bytes
  qClass :: byte
  qAt :: instant

text \<open>
  The writer's goroutine runs \<open>next\<close> over and over: \<open>Polling\<close> is before its first select,
  \<open>Waiting\<close> before its second, \<open>Writing\<close> while the message taken is written, \<open>Stopped\<close> after \<open>writeLoop\<close> has returned. \<open>pending\<close> are the calls of
  \<open>send\<close> that passed their first select and wait for room in the second.
\<close>

datatype writer_state = Polling | Waiting | Writing | Stopped

record sender =
  control :: "queued list"
  rpc :: "queued list"
  closed :: bool
  maxControlWait :: int
  maxRPCWait :: int
  writer :: writer_state
  pending :: "(bytes \<times> byte) list"

definition controlCap :: nat where "controlCap = 256"
definition rpcCap :: nat where "rpcCap = 64"

definition newSender :: sender where
  "newSender = \<lparr>control = [], rpc = [], closed = False, maxControlWait = 0, maxRPCWait = 0,
     writer = Polling, pending = []\<rparr>"

text \<open>The channel a frame goes to has room, and the frame put there.\<close>

definition has_room :: "byte \<Rightarrow> sender \<Rightarrow> bool" where
  "has_room c s \<longleftrightarrow> (if c = ClassControl then length (control s) < controlCap else length (rpc s) < rpcCap)"

definition put :: "queued \<Rightarrow> sender \<Rightarrow> sender" where
  "put q s = (if qClass q = ClassControl then s\<lparr>control := control s @ [q]\<rparr> else s\<lparr>rpc := rpc s @ [q]\<rparr>)"

text \<open>The loop at the end of \<open>next\<close>: the longest wait of the message's class.\<close>

definition note_wait :: "queued \<Rightarrow> instant \<Rightarrow> sender \<Rightarrow> sender" where
  "note_wait q now s =
    (let waited = now - qAt q in
     if qClass q = ClassControl
     then (if waited \<le> maxControlWait s then s else s\<lparr>maxControlWait := waited\<rparr>)
     else (if waited \<le> maxRPCWait s then s else s\<lparr>maxRPCWait := waited\<rparr>))"

text \<open>What a step shows: a call of \<open>send\<close> answered, a message taken by the writer, \<open>close\<close>.\<close>

datatype event =
    Accepted bytes byte
  | Refused
  | Taken byte bytes
  | Quiet

inductive sender_step :: "sender \<Rightarrow> event \<Rightarrow> sender \<Rightarrow> bool" where
  send_malformed: "Encode f = Inl e \<Longrightarrow> sender_step s Refused s"
| send_closed: "Encode f = Inr b \<Longrightarrow> closed s \<Longrightarrow> sender_step s Refused s"
| send_cancelled: "Encode f = Inr b \<Longrightarrow> sender_step s Refused s"
| send_begin: "Encode f = Inr b \<Longrightarrow> \<not> closed s \<Longrightarrow>
    sender_step s Quiet (s\<lparr>pending := pending s @ [(b, FrameClass f)]\<rparr>)"
| send_enqueue: "(b, c) \<in> set (pending s) \<Longrightarrow> has_room c s \<Longrightarrow>
    sender_step s (Accepted b c) (put \<lparr>qBytes = b, qClass = c, qAt = now\<rparr> (s\<lparr>pending := remove1 (b, c) (pending s)\<rparr>))"
| send_gives_up: "(b, c) \<in> set (pending s) \<Longrightarrow>
    sender_step s Refused (s\<lparr>pending := remove1 (b, c) (pending s)\<rparr>)"
| poll_hit: "writer s = Polling \<Longrightarrow> control s = q # qs \<Longrightarrow>
    sender_step s (Taken (qClass q) (qBytes q)) (note_wait q now (s\<lparr>control := qs, writer := Writing\<rparr>))"
| poll_miss: "writer s = Polling \<Longrightarrow> control s = [] \<Longrightarrow> sender_step s Quiet (s\<lparr>writer := Waiting\<rparr>)"
| pick_control: "writer s = Waiting \<Longrightarrow> control s = q # qs \<Longrightarrow>
    sender_step s (Taken (qClass q) (qBytes q)) (note_wait q now (s\<lparr>control := qs, writer := Writing\<rparr>))"
| pick_rpc: "writer s = Waiting \<Longrightarrow> rpc s = q # qs \<Longrightarrow>
    sender_step s (Taken (qClass q) (qBytes q)) (note_wait q now (s\<lparr>rpc := qs, writer := Writing\<rparr>))"
| pick_done: "writer s = Waiting \<Longrightarrow> closed s \<Longrightarrow> sender_step s Quiet (s\<lparr>writer := Stopped\<rparr>)"
| write_ok: "writer s = Writing \<Longrightarrow> sender_step s Quiet (s\<lparr>writer := Polling\<rparr>)"
| write_failed: "writer s = Writing \<Longrightarrow> sender_step s Quiet (s\<lparr>writer := Stopped\<rparr>)"
| close: "sender_step s Quiet (s\<lparr>closed := True\<rparr>)"



inductive_cases sender_stepE: "sender_step s e t"

inductive sender_run :: "sender \<Rightarrow> event list \<Rightarrow> sender \<Rightarrow> bool" where
  run_nil: "sender_run s [] s"
| run_cons: "sender_step s e t \<Longrightarrow> sender_run t es u \<Longrightarrow> sender_run s (e # es) u"

inductive_simps sender_run_Nil [simp]: "sender_run s [] t"
inductive_simps sender_run_Cons: "sender_run s (e # es) t"

text \<open>The messages of one class (\<open>True\<close>: control) accepted and taken in a history, and those waiting.\<close>

definition accepted_of :: "bool \<Rightarrow> event list \<Rightarrow> bytes list" where
  "accepted_of k es = concat (map (\<lambda>e. case e of
     Accepted b c \<Rightarrow> if (c = ClassControl) = k then [b] else [] | _ \<Rightarrow> []) es)"

definition taken_of :: "bool \<Rightarrow> event list \<Rightarrow> bytes list" where
  "taken_of k es = concat (map (\<lambda>e. case e of
     Taken c b \<Rightarrow> if (c = ClassControl) = k then [b] else [] | _ \<Rightarrow> []) es)"

definition waiting_of :: "bool \<Rightarrow> sender \<Rightarrow> bytes list" where
  "waiting_of k s = map qBytes (if k then control s else rpc s)"

definition sender_ok :: "sender \<Rightarrow> bool" where
  "sender_ok s \<longleftrightarrow> (\<forall>q\<in>set (control s). qClass q = ClassControl) \<and> (\<forall>q\<in>set (rpc s). qClass q \<noteq> ClassControl) \<and>
     length (control s) \<le> controlCap \<and> length (rpc s) \<le> rpcCap"

lemma note_wait_keeps [simp]:
  "control (note_wait q now s) = control s" "rpc (note_wait q now s) = rpc s" "closed (note_wait q now s) = closed s"
  "writer (note_wait q now s) = writer s" "pending (note_wait q now s) = pending s"
  by (simp_all add: note_wait_def Let_def)

lemma put_keeps [simp]:
  "control (put q s) = control s @ (if qClass q = ClassControl then [q] else [])"
  "rpc (put q s) = rpc s @ (if qClass q = ClassControl then [] else [q])"
  "writer (put q s) = writer s"
  by (simp_all add: put_def)

lemma sender_step_ok:
  assumes "sender_step s e t" "sender_ok s"
  shows "sender_ok t \<and> waiting_of k s @ accepted_of k [e] = taken_of k [e] @ waiting_of k t"
  using assms
  by (cases rule: sender_step.cases)
    (auto simp: sender_ok_def waiting_of_def accepted_of_def taken_of_def has_room_def split: if_splits)

lemma of_Cons:
  "accepted_of k (e # es) = accepted_of k [e] @ accepted_of k es"
  "taken_of k (e # es) = taken_of k [e] @ taken_of k es"
  by (simp_all add: accepted_of_def taken_of_def)

lemma of_append:
  "accepted_of k (es @ fs) = accepted_of k es @ accepted_of k fs"
  "taken_of k (es @ fs) = taken_of k es @ taken_of k fs"
  by (simp_all add: accepted_of_def taken_of_def)

lemma sender_run_ok:
  assumes "sender_run s es t" "sender_ok s"
  shows "sender_ok t \<and> waiting_of k s @ accepted_of k es = taken_of k es @ waiting_of k t"
  using assms
proof (induction rule: sender_run.induct)
  case (run_nil s)
  then show ?case by (simp add: accepted_of_def taken_of_def)
next
  case (run_cons s e t es u)
  have "sender_ok t" "waiting_of k s @ accepted_of k [e] = taken_of k [e] @ waiting_of k t"
    using sender_step_ok [OF run_cons.hyps(1) run_cons.prems] by auto
  with run_cons.IH show ?case
    unfolding of_Cons [of k e es] by (metis append.assoc)
qed

text \<open>While a control message waits, the writer takes at most the rpc message it may already be waiting for.\<close>

lemma sender_step_class:
  assumes "sender_step s e t" "sender_ok s" "control s \<noteq> []"
  shows "length (control s) \<le> length (control t) + length (taken_of True [e]) \<and>
         length (taken_of False [e]) + (if writer t = Waiting then 1 else 0) \<le> (if writer s = Waiting then 1 else 0)"
  using assms
  by (cases rule: sender_step.cases)
    (auto simp: sender_ok_def taken_of_def split: if_splits)

lemma control_waits:
  assumes "sender_run s es t" "sender_ok s" "length (taken_of True es) < length (control s)"
  shows "length (taken_of False es) \<le> (if writer s = Waiting then 1 else 0)"
  using assms
proof (induction rule: sender_run.induct)
  case (run_nil s)
  then show ?case by (simp add: taken_of_def)
next
  case (run_cons s e t es u)
  have ne: "control s \<noteq> []" using run_cons.prems(2) by auto
  note st = sender_step_class [OF run_cons.hyps(1) run_cons.prems(1) ne]
  have "length (taken_of True es) < length (control t)"
    using st run_cons.prems(2) unfolding of_Cons(2) [of True e es] by simp
  then have "length (taken_of False es) \<le> (if writer t = Waiting then 1 else 0)"
    using run_cons.IH sender_step_ok [OF run_cons.hyps(1) run_cons.prems(1)] by blast
  then show ?case using st unfolding of_Cons(2) [of False e es] by simp
qed


section \<open>Properties\<close>

text \<open>
  Property C19. What a peer reads is what was sent: \<open>Decode\<close> accepts a message exactly when it is
  the encoding of the frame it gives, of a known kind; an encoded message is the ten bytes of the
  head and at most 16 KiB; and a body of any length cut by \<open>split\<close>, each piece sent as a chunk
  frame, comes back piece by piece and is the body again, no piece empty.
\<close>

theorem messages_roundtrip:
  "(Decode m = Inr f \<longleftrightarrow> Encode f = Inr m \<and> KindReq \<le> FrameKind f \<and> FrameKind f \<le> KindWhole) \<and>
   (let frame = (\<lambda>p. \<lparr>FrameID = i, FrameKind = KindChunk, FrameClass = ClassRPC, Payload = p\<rparr>) in
      map (\<lambda>x. right (Decode (the (right (Encode x))))) (map frame (split body)) = map Some (map frame (split body)) \<and>
      list_all (\<lambda>p. p \<noteq> [] \<and> length p \<le> MaxPayload) (split body) \<and> concat (split body) = body)"
proof -
  define frame where "frame p = \<lparr>FrameID = i, FrameKind = KindChunk, FrameClass = ClassRPC, Payload = p\<rparr>" for p
  have fits: "length p \<le> MaxPayload" if "p \<in> set (split body)" for p
    using split_pieces [OF that] by simp
  have "\<forall>x\<in>set (map frame (split body)). acceptable_kind x \<and> (right \<circ> Encode) x \<noteq> None"
  proof
    fix x
    assume "x \<in> set (map frame (split body))"
    then obtain p where p: "x = frame p" "length p \<le> MaxPayload" using fits by auto
    have "KindReq \<le> KindChunk" "KindChunk \<le> KindWhole"
      by (simp_all add: KindReq_def KindChunk_def KindWhole_def)
    then show "acceptable_kind x \<and> (right \<circ> Encode) x \<noteq> None"
      using p(2) by (simp add: p(1) frame_def acceptable_kind_def right_def Encode_def split: sum.split)
  qed
  from lf.dec_all [OF this]
  have "map (\<lambda>x. right (Decode (the (right (Encode x))))) (map frame (split body)) = map Some (map frame (split body))"
    unfolding comp_apply .
  then show ?thesis
    using Decode_Encode split_concat split_pieces by (simp add: frame_def [abs_def] list_all_iff Let_def)
qed

text \<open>
  Control frames go first, whatever the interleaving of senders, writer and \<open>close\<close>:
  in every history each class is taken in the order it was accepted, nothing is dropped or
  doubled between the two, and the queues stay within their capacity; and from any moment, as
  long as a control message that is queued then has not been taken, the writer takes at most one
  rpc message, and none unless it was already waiting in its second select.
\<close>

theorem control_frames_go_first:
  assumes "sender_run newSender es0 s" "sender_run s es t"
  shows "accepted_of k (es0 @ es) = taken_of k (es0 @ es) @ waiting_of k t \<and>
         length (control t) \<le> controlCap \<and> length (rpc t) \<le> rpcCap \<and>
         (length (taken_of True es) < length (control s) \<longrightarrow>
            length (taken_of False es) \<le> (if writer s = Waiting then 1 else 0))"
proof -
  have ok0: "sender_ok newSender" "waiting_of k newSender = []"
    by (simp_all add: sender_ok_def newSender_def waiting_of_def)
  have s: "sender_ok s" "accepted_of k es0 = taken_of k es0 @ waiting_of k s"
    using sender_run_ok [OF assms(1) ok0(1), of k] ok0(2) by auto
  have t: "sender_ok t" "waiting_of k s @ accepted_of k es = taken_of k es @ waiting_of k t"
    using sender_run_ok [OF assms(2) s(1), of k] by auto
  have "accepted_of k (es0 @ es) = taken_of k (es0 @ es) @ waiting_of k t"
    unfolding of_append s(2) using t(2) by simp
  then show ?thesis
    using t(1) control_waits [OF assms(2) s(1)] unfolding sender_ok_def by blast
qed

definition sample_frame :: "byte \<Rightarrow> Frame" where
  "sample_frame c = \<lparr>FrameID = 1, FrameKind = KindReq, FrameClass = c, Payload = [7]\<rparr>"

definition sample_bytes :: "byte \<Rightarrow> bytes" where
  "sample_bytes c = [0, 0, 0, 1, 1, c, 0, 0, 0, 1, 7]"

definition sample_queue :: sender where
  "sample_queue = newSender\<lparr>control := [\<lparr>qBytes = sample_bytes ClassControl, qClass = ClassControl, qAt = 5\<rparr>],
     rpc := [\<lparr>qBytes = sample_bytes ClassRPC, qClass = ClassRPC, qAt = 3\<rparr>], writer := Waiting\<rparr>"

definition sample_history :: "event list" where
  "sample_history = [Quiet, Accepted (sample_bytes ClassRPC) ClassRPC, Quiet, Quiet,
     Accepted (sample_bytes ClassControl) ClassControl]"

lemma sample_runs:
  "sender_run newSender sample_history sample_queue"
  "sender_run sample_queue [Taken ClassRPC (sample_bytes ClassRPC)]
     (note_wait \<lparr>qBytes = sample_bytes ClassRPC, qClass = ClassRPC, qAt = 3\<rparr> 9 (sample_queue\<lparr>rpc := [], writer := Writing\<rparr>))"
proof -
  have enc: "Encode (sample_frame ClassRPC) = Inr (sample_bytes ClassRPC)"
    "Encode (sample_frame ClassControl) = Inr (sample_bytes ClassControl)" by code_simp+
  define s1 where "s1 = newSender\<lparr>pending := [(sample_bytes ClassRPC, ClassRPC)]\<rparr>"
  define s2 where "s2 = newSender\<lparr>rpc := [\<lparr>qBytes = sample_bytes ClassRPC, qClass = ClassRPC, qAt = 3\<rparr>]\<rparr>"
  define s3 where "s3 = s2\<lparr>writer := Waiting\<rparr>"
  define s4 where "s4 = s3\<lparr>pending := [(sample_bytes ClassControl, ClassControl)]\<rparr>"
  have 1: "sender_step newSender Quiet s1"
    using send_begin [OF enc(1), of newSender] by (simp add: s1_def newSender_def sample_frame_def)
  have 2: "sender_step s1 (Accepted (sample_bytes ClassRPC) ClassRPC) s2"
    using send_enqueue [of "sample_bytes ClassRPC" ClassRPC s1 3]
    by (simp add: s1_def s2_def newSender_def put_def has_room_def rpcCap_def ClassRPC_def ClassControl_def)
  have 3: "sender_step s2 Quiet s3"
    using poll_miss [of s2] by (simp add: s3_def s2_def newSender_def)
  have 4: "sender_step s3 Quiet s4"
    using send_begin [OF enc(2), of s3] by (simp add: s4_def s3_def s2_def newSender_def sample_frame_def)
  have 5: "sender_step s4 (Accepted (sample_bytes ClassControl) ClassControl) sample_queue"
    using send_enqueue [of "sample_bytes ClassControl" ClassControl s4 5]
    by (simp add: s4_def s3_def s2_def sample_queue_def newSender_def put_def has_room_def controlCap_def)
  show "sender_run newSender sample_history sample_queue"
    unfolding sample_history_def sender_run_Cons sender_run_Nil using 1 2 3 4 5 by blast
  have "sender_step sample_queue (Taken ClassRPC (sample_bytes ClassRPC))
     (note_wait \<lparr>qBytes = sample_bytes ClassRPC, qClass = ClassRPC, qAt = 3\<rparr> 9 (sample_queue\<lparr>rpc := [], writer := Writing\<rparr>))"
    using pick_rpc [of sample_queue "\<lparr>qBytes = sample_bytes ClassRPC, qClass = ClassRPC, qAt = 3\<rparr>" "[]" 9]
    by (simp add: sample_queue_def newSender_def)
  then show "sender_run sample_queue [Taken ClassRPC (sample_bytes ClassRPC)]
     (note_wait \<lparr>qBytes = sample_bytes ClassRPC, qClass = ClassRPC, qAt = 3\<rparr> 9 (sample_queue\<lparr>rpc := [], writer := Writing\<rparr>))"
    unfolding sender_run_Cons by auto
qed

theorem control_frames_go_first_witness:
  "length (taken_of False [Taken ClassRPC (sample_bytes ClassRPC)]) \<le> 1"
proof -
  have "length (taken_of True [Taken ClassRPC (sample_bytes ClassRPC)]) < length (control sample_queue)"
    "writer sample_queue = Waiting"
    by (simp_all add: taken_of_def sample_queue_def ClassRPC_def ClassControl_def)
  then show ?thesis
    using control_frames_go_first [OF sample_runs, of True] by simp
qed

end
