(* ===== verification/Float_Facts.thy ===== *)
theory Float_Facts
  imports Prelude
begin

text \<open>
  Facts of the \<open>float64\<close> operations of the prelude: the exponent, monotone rounding, the relative
  error of one rounding, and that small integers are exact.
\<close>

lemma pow2_pos [simp]: "0 < pow2 k"
  by (simp add: pow2_def)

lemma pow2_nonzero [simp]: "pow2 k \<noteq> 0"
  using pow2_pos [of k] by (metis less_irrefl)

lemma pow2_powi: "pow2 k = 2 powi k"
  by (simp add: pow2_def power_int_def inverse_eq_divide power_divide)

lemma pow2_add: "pow2 (a + b) = pow2 a * pow2 b"
  by (simp add: pow2_powi power_int_add)

lemma pow2_mono: "a \<le> b \<Longrightarrow> pow2 a \<le> pow2 b"
  by (simp add: pow2_powi power_int_increasing)

lemma bitlen_bounds_rat:
  assumes "0 < n"
  shows "pow2 (bitlen n - 1) \<le> of_int n" "of_int n < pow2 (bitlen n)"
proof -
  have "1 \<le> bitlen n" using assms bitlen_eq_zero_iff [of n] bitlen_nonneg [of n] by linarith
  then have "pow2 (bitlen n - 1) = of_int (2 ^ nat (bitlen n - 1))" "pow2 (bitlen n) = of_int (2 ^ nat (bitlen n))"
    by (simp_all add: pow2_def)
  then show "pow2 (bitlen n - 1) \<le> of_int n" "of_int n < pow2 (bitlen n)"
    using bitlen_bounds [OF assms] by (simp_all only: of_int_le_iff of_int_less_iff)
qed

lemma expo_bounds:
  assumes "0 < x"
  shows "pow2 (expo x) \<le> x" "x < pow2 (expo x + 1)"
proof -
  obtain p q where pq: "quotient_of x = (p, q)" by fastforce
  have q: "0 < q" using quotient_of_denom_pos [OF pq] .
  have x: "x = of_int p / of_int q" using quotient_of_div [OF pq] .
  have p: "0 < p" using assms q unfolding x by (simp add: zero_less_divide_iff)
  define k where "k = bitlen p - bitlen q"
  have e: "expo x = (if pow2 k \<le> x then k else k - 1)"
    by (simp add: expo_def pq k_def)
  have "pow2 (k - 1) * of_int q \<le> pow2 (k - 1) * pow2 (bitlen q)"
    using bitlen_bounds_rat(2) [OF q] by (intro mult_left_mono) (simp_all add: less_imp_le)
  also have "\<dots> = pow2 (bitlen p - 1)" by (simp add: pow2_add [symmetric] k_def)
  also have "\<dots> \<le> of_int p" using bitlen_bounds_rat(1) [OF p] .
  finally have low: "pow2 (k - 1) \<le> x" using q by (simp add: x pos_le_divide_eq)
  have "of_int p < pow2 (bitlen p)" using bitlen_bounds_rat(2) [OF p] .
  also have "\<dots> = pow2 (k + 1) * pow2 (bitlen q - 1)" by (simp add: pow2_add [symmetric] k_def)
  also have "\<dots> \<le> pow2 (k + 1) * of_int q"
    using bitlen_bounds_rat(1) [OF q] by (intro mult_left_mono) (simp_all add: less_imp_le)
  finally have high: "x < pow2 (k + 1)" using q by (simp add: x pos_divide_less_eq)
  show "pow2 (expo x) \<le> x" "x < pow2 (expo x + 1)"
    using e low high by (auto split: if_splits)
qed

lemma round_even_near: "of_int (round_even z) \<le> z + 1/2" "z \<le> of_int (round_even z) + 1/2"
  by (auto simp: round_even_def Let_def) linarith+

lemma round_even_of_int [simp]: "round_even (of_int n) = n"
  by (simp add: round_even_def)

lemma round_even_mono:
  assumes "x \<le> y"
  shows "round_even x \<le> round_even y"
proof (rule ccontr)
  assume c: "\<not> round_even x \<le> round_even y"
  then have "of_int (round_even y) + 1 \<le> (of_int (round_even x) :: rat)" by linarith
  then have "x = y" using round_even_near [of x] round_even_near [of y] assms by linarith
  then show False using c by simp
qed

lemma rnd64_pos: "0 < x \<Longrightarrow> rnd64 x = of_int (round_even (x / pow2 (expo x - 52))) * pow2 (expo x - 52)"
  by (simp add: rnd64_def Let_def)

lemma rnd64_0 [simp]: "rnd64 0 = 0"
  by (simp add: rnd64_def)

lemma rnd64_between:
  assumes "0 < x"
  shows "pow2 (expo x) \<le> rnd64 x" "rnd64 x \<le> pow2 (expo x + 1)"
proof -
  define u where "u = pow2 (expo x - 52)"
  have u: "0 < u" by (simp add: u_def)
  have e: "pow2 (expo x) = of_int (2 ^ 52) * u" "pow2 (expo x + 1) = of_int (2 ^ 53) * u"
    unfolding u_def using pow2_add [of 52 "expo x - 52"] pow2_add [of 53 "expo x - 52"] by (simp_all add: pow2_def [of 52] pow2_def [of 53] add.commute)
  have "of_int (2 ^ 52) \<le> x / u" using expo_bounds(1) [OF assms] u by (simp only: e(1) pos_le_divide_eq)
  then have "2 ^ 52 \<le> round_even (x / u)" using round_even_mono [of "of_int (2 ^ 52)" "x / u"] by (simp only: round_even_of_int)
  then have "of_int (2 ^ 52) * u \<le> of_int (round_even (x / u)) * u" using u by (intro mult_right_mono) (simp_all only: of_int_le_iff less_imp_le)
  then show "pow2 (expo x) \<le> rnd64 x" unfolding rnd64_pos [OF assms] u_def [symmetric] e(1) .
  have "x / u \<le> of_int (2 ^ 53)" using expo_bounds(2) [OF assms] u by (simp only: e(2) pos_divide_le_eq less_imp_le)
  then have "round_even (x / u) \<le> 2 ^ 53" using round_even_mono [of "x / u" "of_int (2 ^ 53)"] by (simp only: round_even_of_int)
  then have "of_int (round_even (x / u)) * u \<le> of_int (2 ^ 53) * u" using u by (intro mult_right_mono) (simp_all only: of_int_le_iff less_imp_le)
  then show "rnd64 x \<le> pow2 (expo x + 1)" unfolding rnd64_pos [OF assms] u_def [symmetric] e(2) .
qed

lemma rnd64_nonneg: "0 \<le> x \<Longrightarrow> 0 \<le> rnd64 x"
  using rnd64_between(1) [of x] pow2_pos [of "expo x"] by (cases "x = 0") (simp, linarith)

lemma rnd64_mono:
  assumes "0 \<le> x" "x \<le> y"
  shows "rnd64 x \<le> rnd64 y"
proof (cases "x = 0")
  case True
  then show ?thesis using assms rnd64_nonneg by simp
next
  case False
  then have x: "0 < x" and y: "0 < y" using assms by auto
  have "pow2 (expo x) < pow2 (expo y + 1)"
    using expo_bounds(1) [OF x] expo_bounds(2) [OF y] assms(2) by linarith
  then have "expo x \<le> expo y" using pow2_mono [of "expo y + 1" "expo x"] by linarith
  then consider "expo x = expo y" | "expo x + 1 \<le> expo y" by linarith
  then show ?thesis
  proof cases
    case 1
    have "x / pow2 (expo x - 52) \<le> y / pow2 (expo x - 52)"
      using assms(2) by (intro divide_right_mono) (simp_all add: less_imp_le)
    then show ?thesis
      unfolding rnd64_pos [OF x] rnd64_pos [OF y] 1 [symmetric]
      by (intro mult_right_mono) (simp_all add: round_even_mono less_imp_le)
  next
    case 2
    then show ?thesis
      using rnd64_between(2) [OF x] rnd64_between(1) [OF y] pow2_mono [of "expo x + 1" "expo y"] by linarith
  qed
qed

lemma rnd64_error:
  assumes "0 \<le> x"
  shows "rnd64 x \<le> x + x / 2 ^ 53" "x \<le> rnd64 x + x / 2 ^ 53"
proof -
  have "rnd64 x \<le> x + x / 2 ^ 53 \<and> x \<le> rnd64 x + x / 2 ^ 53" if x: "0 < x"
  proof -
    define u where "u = pow2 (expo x - 52)"
    have u: "0 < u" by (simp add: u_def)
    have "pow2 (expo x) = 2 ^ 52 * u"
      unfolding u_def using pow2_add [of 52 "expo x - 52"] by (simp add: pow2_def [of 52])
    then have half: "u / 2 \<le> x / 2 ^ 53" using expo_bounds(1) [OF x] by simp
    have "of_int (round_even (x / u)) * u \<le> (x / u + 1/2) * u" "x / u * u \<le> (of_int (round_even (x / u)) + 1/2) * u"
      using round_even_near [of "x / u"] u by (intro mult_right_mono; simp)+
    then have "rnd64 x \<le> x + u / 2" "x \<le> rnd64 x + u / 2"
      using u unfolding rnd64_pos [OF x] u_def [symmetric] by (simp_all add: algebra_simps)
    with half show ?thesis by linarith
  qed
  then show "rnd64 x \<le> x + x / 2 ^ 53" "x \<le> rnd64 x + x / 2 ^ 53" using assms by (cases "x = 0"; simp)+
qed

lemma rnd64_of_int:
  assumes "0 \<le> k" "k < 2 ^ 53"
  shows "rnd64 (of_int k) = of_int k"
proof (cases "k = 0")
  case False
  define x where "x = (of_int k :: rat)"
  have x: "0 < x" "x < pow2 53" using False assms by (simp_all add: x_def pow2_def)
  then have "pow2 (expo x) < pow2 53" using expo_bounds(1) [OF x(1)] by linarith
  then have "expo x < 53" using pow2_mono [of 53 "expo x"] by linarith
  then have "0 \<le> 52 - expo x" by simp
  then have p: "pow2 (52 - expo x) = of_int (2 ^ nat (52 - expo x))" by (simp add: pow2_def)
  have "pow2 (expo x - 52) * pow2 (52 - expo x) = 1" by (simp add: pow2_add [symmetric]) (simp add: pow2_def)
  then have "x / pow2 (expo x - 52) = x * pow2 (52 - expo x)"
    by (simp add: divide_eq_eq mult.assoc mult.commute)
  also have "\<dots> = of_int (k * 2 ^ nat (52 - expo x))" unfolding p by (simp add: x_def)
  finally have e: "x / pow2 (expo x - 52) = of_int (k * 2 ^ nat (52 - expo x))" .
  have "rnd64 x = x / pow2 (expo x - 52) * pow2 (expo x - 52)"
    unfolding rnd64_pos [OF x(1)] e round_even_of_int ..
  then show ?thesis by (simp add: x_def)
qed simp
end
