(* ===== verification/Word_Data.thy ===== *)
theory Word_Data
  imports Float_Facts
begin

text \<open>
  The packed words of a transcript sentence (api/internal/transcript/worddata/worddata.go): the
  little-endian layout, and the edit of a span, which gives the new text and moves, keeps or
  replaces the words.

  A text is its list of code points (\<open>[]rune\<close>), an offset an \<open>int\<close>: it comes from an \<open>int4\<close> column
  or a 16-bit field, so no sum of offsets wraps. Reading a rune out of range panics in Go; a
  panic is \<open>None\<close> here. The times of the new words are computed in \<open>float64\<close>, as the code does.
\<close>

section \<open>The layout\<close>

type_synonym rune = nat

definition Version :: byte where "Version = 1"
definition HeardDifferently :: int where "HeardDifferently = push_bit 0 1"
definition Inserted :: int where "Inserted = push_bit 1 1"
definition Quran :: int where "Quran = push_bit 2 1"
definition NoProb :: int where "NoProb = push_bit 3 1"
definition headSize :: nat where "headSize = 3"
definition wordSize :: nat where "wordSize = 9"

record Slot =
  CharStart :: int
  CharLen :: int
  StartCS :: int
  DurCS :: int
  Prob :: int
  Flags :: int

datatype werror = TooShort | BadVersion | BadLength | ErrSpan

definition dec_slot :: "bytes \<Rightarrow> Slot" where
  "dec_slot b = \<lparr>CharStart = uint (unle16 (take 2 b)), CharLen = uint (b ! 2), StartCS = uint (unle16 (drop 3 b)),
     DurCS = uint (unle16 (drop 5 b)), Prob = uint (b ! 7), Flags = uint (b ! 8)\<rparr>"

primrec dec_slots :: "nat \<Rightarrow> bytes \<Rightarrow> Slot list" where
  "dec_slots 0 b = []"
| "dec_slots (Suc n) b = dec_slot b # dec_slots n (drop wordSize b)"

definition Decode :: "bytes \<Rightarrow> werror + Slot list" where
  "Decode data =
    (if length data < headSize then Inl TooShort
     else if data ! 0 \<noteq> Version then Inl BadVersion
     else let n = unat (unle16 (drop 1 data)) in
       if length data \<noteq> headSize + n * wordSize then Inl BadLength
       else Inr (dec_slots n (drop headSize data)))"

text \<open>The conversions to \<open>uint16\<close> and \<open>byte\<close> keep the low bits.\<close>

definition enc_slot :: "Slot \<Rightarrow> bytes" where
  "enc_slot s = le16 (word_of_int (CharStart s)) @ [word_of_int (CharLen s)] @ le16 (word_of_int (StartCS s)) @
     le16 (word_of_int (DurCS s)) @ [word_of_int (Prob s), word_of_int (Flags s)]"

definition Encode :: "Slot list \<Rightarrow> bytes" where
  "Encode slots = Version # le16 (word_of_nat (length slots)) @ concat (map enc_slot slots)"

section \<open>Edits\<close>

definition shift :: "int \<Rightarrow> Slot \<Rightarrow> Slot" where
  "shift delta s = s\<lparr>CharStart := CharStart s + delta\<rparr>"

definition ShiftAfter :: "bytes \<Rightarrow> int \<Rightarrow> int \<Rightarrow> werror + bytes" where
  "ShiftAfter data charStart delta =
    (case Decode data of Inl e \<Rightarrow> Inl e
     | Inr slots \<Rightarrow> Inr (Encode (map (\<lambda>s. if charStart \<le> CharStart s then shift delta s else s) slots)))"

definition touches :: "Slot \<Rightarrow> int \<Rightarrow> int \<Rightarrow> bool" where
  "touches s a b =
    (if a < b then CharStart s < b \<and> a < CharStart s + CharLen s
     else CharStart s < a \<and> a < CharStart s + CharLen s)"

text \<open>\<open>unicode.IsSpace\<close>: the Latin-1 cases and the rest of the White\_Space property.\<close>

definition unicode_space :: "rune \<Rightarrow> bool" where
  "unicode_space r \<longleftrightarrow> r \<in> {0x09, 0x0A, 0x0B, 0x0C, 0x0D, 0x20, 0x85, 0xA0, 0x1680, 0x2028, 0x2029, 0x202F, 0x205F, 0x3000}
     \<or> (0x2000 \<le> r \<and> r \<le> 0x200A)"

definition isSpace :: "rune \<Rightarrow> bool" where
  "isSpace r \<longleftrightarrow> unicode_space r \<or> (0x1C \<le> r \<and> r \<le> 0x1F)"

definition rune_at :: "rune list \<Rightarrow> int \<Rightarrow> rune option" where
  "rune_at text i = (if 0 \<le> i \<and> nat i < length text then Some (text ! nat i) else None)"

text \<open>The inner loop of \<open>runs\<close>: the end of the run that holds \<open>j\<close>.\<close>

function run_end :: "rune list \<Rightarrow> int \<Rightarrow> int \<Rightarrow> int option" where
  "run_end text j b =
    (if j < b then
       (case rune_at text j of None \<Rightarrow> None
        | Some r \<Rightarrow> if isSpace r then Some j else run_end text (j + 1) b)
     else Some j)"
  by auto

termination run_end
  by (relation "measure (\<lambda>(text, j, b). nat (b - j))") auto

declare run_end.simps [simp del]

lemma run_end_ge: "run_end tx j b = Some e \<Longrightarrow> j \<le> e"
proof (induction tx j b arbitrary: e rule: run_end.induct)
  case (1 tx j b)
  from "1.prems" show ?case
    by (subst (asm) run_end.simps) (use "1.IH" in \<open>force split: if_splits option.splits\<close>)
qed

function runs :: "rune list \<Rightarrow> int \<Rightarrow> int \<Rightarrow> (int \<times> int) list option" where
  "runs text i b =
    (if i < b then
       (case rune_at text i of None \<Rightarrow> None
        | Some r \<Rightarrow>
            if isSpace r then runs text (i + 1) b
            else (case run_end text (i + 1) b of None \<Rightarrow> None
              | Some j \<Rightarrow> (case runs text j b of None \<Rightarrow> None | Some rs \<Rightarrow> Some ((i, j) # rs))))
     else Some [])"
  by pat_completeness auto

termination runs
  by (relation "measure (\<lambda>(text, i, b). nat (b - i))") (auto dest: run_end_ge)

declare runs.simps [simp del]

definition pyRound :: "float64 \<Rightarrow> int" where
  "pyRound x = round_even x"

definition span_slot :: "(int \<times> int) \<Rightarrow> int \<Rightarrow> int \<Rightarrow> int \<Rightarrow> Slot" where
  "span_slot r s d f = \<lparr>CharStart = fst r, CharLen = snd r - fst r, StartCS = s, DurCS = d, Prob = 255, Flags = f\<rparr>"

text \<open>The new words of an edit that touched some: they share the time from \<open>t0\<close> to \<open>t1\<close> evenly.\<close>

definition share :: "int \<Rightarrow> int \<Rightarrow> int \<Rightarrow> (int \<times> int) list \<Rightarrow> Slot list" where
  "share t0 t1 quran keep =
    (let step = f64_div (f64_of_int (t1 - t0)) (f64_of_int (int (length keep))) in
     map (\<lambda>k. let s0 = t0 + pyRound (f64_mul (f64_of_int (int k)) step);
                  s1 = t0 + pyRound (f64_mul (f64_of_int (int k + 1)) step)
              in span_slot (keep ! k) s0 (s1 - s0) quran) [0..<length keep])"

definition Edit :: "rune list \<Rightarrow> bytes option \<Rightarrow> int \<Rightarrow> int \<Rightarrow> rune list \<Rightarrow> (werror + rune list \<times> bytes option) option" where
  "Edit text data charStart charLen after =
    (if charStart < 0 \<or> charLen < 0 \<or> int (length text) < charStart + charLen then Some (Inl ErrSpan)
     else
       let nt = take (nat charStart) text @ after @ drop (nat (charStart + charLen)) text in
       case data of None \<Rightarrow> Some (Inr (nt, None))
       | Some d \<Rightarrow>
         (case Decode d of Inl e \<Rightarrow> Some (Inl e)
          | Inr slots \<Rightarrow>
              let delta = int (length after) - charLen;
                  end' = charStart + charLen;
                  hit = filter (\<lambda>i. touches (slots ! i) charStart end') [0..<length slots]
              in if hit = [] then
                   let before = filter (\<lambda>s. CharStart s + CharLen s \<le> charStart) slots;
                       rest = filter (\<lambda>s. \<not> CharStart s + CharLen s \<le> charStart) slots;
                       at0 = (if before \<noteq> [] then StartCS (last before) + DurCS (last before) else 0)
                   in (case runs nt charStart (charStart + int (length after)) of None \<Rightarrow> None
                       | Some rs \<Rightarrow> Some (Inr (nt, Some (Encode
                           (before @ map (\<lambda>r. span_slot r at0 0 0) rs @ map (shift delta) rest)))))
                 else
                   let fst' = slots ! hd hit;
                       lst = slots ! last hit;
                       uStart = min charStart (CharStart fst');
                       uEnd = max end' (CharStart lst + CharLen lst) + delta;
                       t0 = StartCS fst';
                       t1 = max t0 (StartCS lst + DurCS lst);
                       quran = foldl (\<lambda>q i. q OR (Flags (slots ! i) AND Quran)) 0 hit
                   in (case runs nt uStart uEnd of None \<Rightarrow> None
                       | Some rs \<Rightarrow>
                           let keep = filter (\<lambda>r. snd r - fst r \<le> 0xFF) rs in
                           Some (Inr (nt, Some (Encode
                             (take (hd hit) slots @ share t0 t1 quran keep @
                              map (shift delta) (drop (last hit + 1) slots))))))))"

section \<open>The layout read back\<close>

definition slot_ok :: "Slot \<Rightarrow> bool" where
  "slot_ok s \<longleftrightarrow> 0 \<le> CharStart s \<and> CharStart s < 2 ^ 16 \<and> 0 \<le> CharLen s \<and> CharLen s < 2 ^ 8 \<and>
     0 \<le> StartCS s \<and> StartCS s < 2 ^ 16 \<and> 0 \<le> DurCS s \<and> DurCS s < 2 ^ 16 \<and>
     0 \<le> Prob s \<and> Prob s < 2 ^ 8 \<and> 0 \<le> Flags s \<and> Flags s < 2 ^ 8"

definition slots_fit :: "Slot list \<Rightarrow> bool" where
  "slots_fit ss \<longleftrightarrow> length ss < 2 ^ 16 \<and> list_all slot_ok ss"

lemma uint_word16: "0 \<le> x \<Longrightarrow> x < 2 ^ 16 \<Longrightarrow> uint (word_of_int x :: 16 word) = x"
  by (simp add: unsigned_of_int take_bit_int_eq_self)

lemma uint_word8: "0 \<le> x \<Longrightarrow> x < 2 ^ 8 \<Longrightarrow> uint (word_of_int x :: byte) = x"
  by (simp add: unsigned_of_int take_bit_int_eq_self)

lemma unle16_at: "unle16 (x # y # bs) = unle16 [x, y]"
  by (simp add: unle16_def)

lemma le16_unle16: "le16 (unle16 [x, y]) = [x, y]"
proof -
  have high: "\<not> bit (z :: byte) (8 + n)" for z n
    using bit_imp_le_length [of z "8 + n"] by auto
  have "ucast (drop_bit 8 (unle16 [x, y])) = y" "ucast (unle16 [x, y]) = x"
    by (auto intro!: bit_word_eqI simp: unle16_def bit_simps high)
  then show ?thesis by (simp add: le16_def)
qed

lemma length_enc_slot [simp]: "length (enc_slot s) = wordSize"
  by (simp add: enc_slot_def wordSize_def)

lemma dec_enc_slot:
  assumes "slot_ok s"
  shows "dec_slot (enc_slot s @ bs) = s"
proof -
  define x y z where "x = (word_of_int (CharStart s) :: 16 word)" and "y = (word_of_int (StartCS s) :: 16 word)"
    and "z = (word_of_int (DurCS s) :: 16 word)"
  have e: "enc_slot s @ bs = le16 x @ word_of_int (CharLen s) # le16 y @ le16 z @
      word_of_int (Prob s) # word_of_int (Flags s) # bs"
    by (simp add: enc_slot_def x_def y_def z_def)
  have "take 2 (enc_slot s @ bs) = le16 x" "(enc_slot s @ bs) ! 2 = word_of_int (CharLen s)"
    "unle16 (drop 3 (enc_slot s @ bs)) = y" "unle16 (drop 5 (enc_slot s @ bs)) = z"
    "(enc_slot s @ bs) ! 7 = word_of_int (Prob s)" "(enc_slot s @ bs) ! 8 = word_of_int (Flags s)"
    unfolding e by (simp_all add: nth_append)
  then show ?thesis
    using assms unfolding dec_slot_def slot_ok_def
    by (simp add: x_def y_def z_def uint_word16 uint_word8 del: of_int_numeral)
qed

lemma enc_dec_slot:
  assumes "length b = wordSize"
  shows "enc_slot (dec_slot b) = b" "slot_ok (dec_slot b)"
proof -
  have "length b = 9" using assms by (simp add: wordSize_def)
  then obtain a0 a1 a2 a3 a4 a5 a6 a7 a8 where b: "b = [a0, a1, a2, a3, a4, a5, a6, a7, a8]"
    by (auto simp: numeral_eq_Suc length_Suc_conv)
  show "enc_slot (dec_slot b) = b"
    by (simp add: b enc_slot_def dec_slot_def unle16_at [of a3 a4 "[_, _, _, _]"] unle16_at [of a5 a6 "[_, _]"] le16_unle16)
  show "slot_ok (dec_slot b)"
    using uint_lt2p [where 'a = 8] uint_lt2p [where 'a = 16] by (simp add: slot_ok_def dec_slot_def)
qed

lemma dec_slots_enc: "list_all slot_ok ss \<Longrightarrow> dec_slots (length ss) (concat (map enc_slot ss)) = ss"
proof (induction ss)
  case (Cons s ss)
  have "drop wordSize (enc_slot s @ concat (map enc_slot ss)) = concat (map enc_slot ss)" by simp
  with Cons show ?case by (simp add: dec_enc_slot)
qed simp

lemma enc_dec_slots:
  "length b = n * wordSize \<Longrightarrow>
   concat (map enc_slot (dec_slots n b)) = b \<and> length (dec_slots n b) = n \<and> list_all slot_ok (dec_slots n b)"
proof (induction n arbitrary: b)
  case (Suc n)
  have t: "length (take wordSize b) = wordSize" using Suc.prems by simp
  have "dec_slot b = dec_slot (take wordSize b)"
    using Suc.prems by (simp add: dec_slot_def wordSize_def unle16_def)
  then have "enc_slot (dec_slot b) = take wordSize b" "slot_ok (dec_slot b)"
    using enc_dec_slot [OF t] by simp_all
  with Suc show ?case by simp
qed simp


lemma Decode_iff: "Decode b = Inr ss \<longleftrightarrow> Encode ss = b \<and> slots_fit ss"
proof
  assume d: "Decode b = Inr ss"
  define n where "n = unat (unle16 (drop 1 b))"
  have len: "3 \<le> length b" "b ! 0 = Version" "length b = 3 + n * wordSize" and ss: "ss = dec_slots n (drop 3 b)"
    using d unfolding Decode_def headSize_def Let_def n_def [symmetric] by (simp_all split: if_splits)
  obtain v x y r where b: "b = v # x # y # r"
    using len(1) by (auto simp: numeral_eq_Suc Suc_le_length_iff)
  have "length r = n * wordSize" using len(3) by (simp add: b)
  note c = enc_dec_slots [OF this]
  have "drop 3 b = r" unfolding b by simp
  then have sr: "ss = dec_slots n r" using ss by (simp only:)
  have l: "length ss = n" "concat (map enc_slot ss) = r" "list_all slot_ok ss"
    unfolding sr using c by blast+
  have "drop 1 b = x # y # r" unfolding b by simp
  then have n: "n = unat (unle16 [x, y])" unfolding n_def using unle16_at [of x y r] by (simp only:)
  have "le16 (word_of_nat (length ss)) = [x, y]" unfolding l n by (simp add: le16_unle16)
  moreover have "n < 2 ^ 16" unfolding n by (rule order_less_le_trans [OF unsigned_less]) simp
  ultimately show "Encode ss = b \<and> slots_fit ss"
    using l len(2) by (simp add: Encode_def slots_fit_def b)
next
  assume e: "Encode ss = b \<and> slots_fit ss"
  then have b: "b = Version # le16 (word_of_nat (length ss)) @ concat (map enc_slot ss)"
    and fit: "length ss < 2 ^ 16" "list_all slot_ok ss" by (auto simp: Encode_def slots_fit_def)
  have "unat (word_of_nat (length ss) :: 16 word) = length ss"
    using fit(1) by (simp add: unat_of_nat take_bit_nat_eq_self)
  moreover have "length (concat (map enc_slot ss)) = length ss * wordSize"
    by (simp add: length_concat comp_def sum_list_triv)
  ultimately show "Decode b = Inr ss"
    using dec_slots_enc [OF fit(2)] by (simp add: b Decode_def headSize_def)
qed

interpretation wd: wire_codec "Some \<circ> Encode" "right \<circ> Decode" slots_fit
  by unfold_locales (simp add: Decode_iff)

section \<open>Runs and shares\<close>

definition spaceless :: "rune list \<Rightarrow> bool" where
  "spaceless w \<longleftrightarrow> (\<forall>r\<in>set w. \<not> isSpace r)"

definition piece :: "rune list \<Rightarrow> int \<Rightarrow> int \<Rightarrow> rune list" where
  "piece t a b = take (nat (b - a)) (drop (nat a) t)"

lemma piece_Cons: "0 \<le> i \<Longrightarrow> i < b \<Longrightarrow> b \<le> int (length t) \<Longrightarrow> piece t i b = t ! nat i # piece t (i + 1) b"
proof -
  assume a: "0 \<le> i" "i < b" "b \<le> int (length t)"
  then have "drop (nat i) t = t ! nat i # drop (nat (i + 1)) t"
    using Cons_nth_drop_Suc [of "nat i" t] by (simp add: nat_add_distrib)
  moreover have "nat (b - i) = Suc (nat (b - (i + 1)))" using a by simp
  ultimately show ?thesis by (simp add: piece_def)
qed

lemma run_end_Some:
  assumes "0 \<le> j" "j \<le> b" "b \<le> int (length tx)"
  shows "\<exists>e. run_end tx j b = Some e \<and> j \<le> e \<and> e \<le> b \<and> spaceless (piece tx j e)"
  using assms
proof (induction tx j b rule: run_end.induct)
  case (1 tx j b)
  show ?case
  proof (cases "j < b \<and> \<not> isSpace (tx ! nat j)")
    case True
    then have r: "rune_at tx j = Some (tx ! nat j)" using "1.prems" by (auto simp: rune_at_def)
    then have eq: "run_end tx j b = run_end tx (j + 1) b" using True by (subst run_end.simps) simp
    obtain e where e: "run_end tx (j + 1) b = Some e" "j + 1 \<le> e" "e \<le> b" "spaceless (piece tx (j + 1) e)"
      using "1.IH" [OF _ r] True "1.prems" by auto
    have "spaceless (piece tx j e)"
      using e True "1.prems" piece_Cons [of j e tx] by (simp add: spaceless_def)
    then show ?thesis using e eq by auto
  next
    case False
    then have "run_end tx j b = Some j"
      using "1.prems" by (subst run_end.simps) (auto simp: rune_at_def)
    then show ?thesis using "1.prems" by (simp add: spaceless_def piece_def)
  qed
qed

text \<open>What \<open>runs\<close> gives: words of the span, in order, apart, without white space, and all of them.\<close>

definition runs_ok :: "rune list \<Rightarrow> int \<Rightarrow> int \<Rightarrow> (int \<times> int) list \<Rightarrow> bool" where
  "runs_ok t i b rs \<longleftrightarrow> (\<forall>r\<in>set rs. i \<le> fst r \<and> fst r < snd r \<and> snd r \<le> b \<and> spaceless (piece t (fst r) (snd r))) \<and>
     sorted_wrt (\<lambda>r q. snd r \<le> fst q) rs"

lemma runs_Some:
  assumes "0 \<le> i" "b \<le> int (length tx)"
  shows "\<exists>rs. runs tx i b = Some rs \<and> runs_ok tx i b rs"
  using assms
proof (induction tx i b rule: runs.induct)
  case (1 tx i b)
  consider "\<not> i < b" | "i < b" "isSpace (tx ! nat i)" | "i < b" "\<not> isSpace (tx ! nat i)" by blast
  then show ?case
  proof cases
    case 1
    then show ?thesis by (subst runs.simps) (simp add: runs_ok_def)
  next
    case 2
    then have r: "rune_at tx i = Some (tx ! nat i)" using "1.prems" by (simp add: rune_at_def)
    then have eq: "runs tx i b = runs tx (i + 1) b" using 2 by (subst runs.simps) simp
    obtain rs where rs: "runs tx (i + 1) b = Some rs" "runs_ok tx (i + 1) b rs"
      using "1.IH"(1) [OF 2(1) r 2(2)] "1.prems" by auto
    then have "runs_ok tx i b rs" unfolding runs_ok_def by fastforce
    then show ?thesis using rs eq by simp
  next
    case 3
    then have r: "rune_at tx i = Some (tx ! nat i)" using "1.prems" by (simp add: rune_at_def)
    obtain e where e: "run_end tx (i + 1) b = Some e" "i + 1 \<le> e" "e \<le> b" "spaceless (piece tx (i + 1) e)"
      using run_end_Some [of "i + 1" b tx] 3 "1.prems" by auto
    obtain rs where rs: "runs tx e b = Some rs" "runs_ok tx e b rs"
      using "1.IH"(2) [OF 3(1) r 3(2) e(1)] e "1.prems" by auto
    have eq: "runs tx i b = Some ((i, e) # rs)" using 3 r e(1) rs(1) by (subst runs.simps) simp
    have "spaceless (piece tx i e)"
      using e 3 "1.prems" piece_Cons [of i e tx] by (simp add: spaceless_def)
    then have "runs_ok tx i b ((i, e) # rs)" using rs(2) e 3 unfolding runs_ok_def by fastforce
    then show ?thesis using eq by blast
  qed
qed


text \<open>The share of the time \<open>d\<close> at the border of the words \<open>k - 1\<close> and \<open>k\<close> of \<open>n\<close>.\<close>

definition border :: "int \<Rightarrow> int \<Rightarrow> int \<Rightarrow> int" where
  "border d n k = pyRound (f64_mul (f64_of_int k) (f64_div (f64_of_int d) (f64_of_int n)))"

lemma border_mono:
  assumes "0 \<le> j" "j \<le> k" "0 \<le> d" "0 \<le> n"
  shows "border d n j \<le> border d n k"
proof -
  have s: "0 \<le> f64_div (f64_of_int d) (f64_of_int n)"
    using assms by (simp add: f64_div_def f64_of_int_def rnd64_nonneg)
  have j: "0 \<le> f64_of_int j" "f64_of_int j \<le> f64_of_int k"
    using assms by (simp_all add: f64_of_int_def rnd64_nonneg rnd64_mono)
  show ?thesis
    unfolding border_def pyRound_def f64_mul_def
    by (intro round_even_mono rnd64_mono mult_nonneg_nonneg mult_right_mono s j)
qed

lemma border_0: "border d n 0 = 0"
  using round_even_of_int [of 0] by (simp add: border_def pyRound_def f64_mul_def f64_of_int_def)

lemma border_end:
  assumes "0 \<le> d" "d < 2 ^ 20" "0 < n" "n < 2 ^ 20"
  shows "border d n n = d"
proof -
  define q where "q = (of_int d / of_int n :: rat)"
  define x where "x = of_int n * rnd64 q"
  define y where "y = rnd64 x"
  have ex: "f64_of_int d = of_int d" "f64_of_int n = of_int n"
    unfolding f64_of_int_def using assms by (intro rnd64_of_int; simp)+
  have q: "0 \<le> q" "of_int n * q = of_int d" using assms by (simp_all add: q_def)
  have n: "0 \<le> (of_int n :: rat)" using assms by simp
  have "x \<le> of_int n * (q + q / 2 ^ 53)" "of_int n * q \<le> of_int n * (rnd64 q + q / 2 ^ 53)"
    unfolding x_def by (intro mult_left_mono rnd64_error q n)+
  then have x: "x \<le> of_int d + of_int d / 2 ^ 53" "of_int d \<le> x + of_int d / 2 ^ 53"
    using q(2) by (simp_all only: distrib_left times_divide_eq_right x_def)
  have x0: "0 \<le> x" unfolding x_def by (intro mult_nonneg_nonneg n rnd64_nonneg q)
  have y: "y \<le> x + x / 2 ^ 53" "x \<le> y + x / 2 ^ 53" unfolding y_def using rnd64_error [OF x0] by blast+
  have d: "0 \<le> (of_int d :: rat)" "(of_int d :: rat) \<le> 2 ^ 20" using assms(1,2) by simp_all
  have close: "y < of_int d + 1 / 2" "of_int d < y + 1 / 2"
    using x y d by simp_all
  have "border d n n = round_even y"
    by (simp only: border_def pyRound_def f64_mul_def f64_div_def ex x_def y_def q_def)
  moreover have "(of_int (round_even y) :: rat) < of_int (d + 1)" "(of_int d :: rat) < of_int (round_even y + 1)"
    using round_even_near [of y] close by simp_all
  then have "round_even y < d + 1" "d < round_even y + 1" by (simp_all only: of_int_less_iff)
  ultimately show ?thesis by linarith
qed

lemma share_nth:
  assumes "k < length keep"
  shows "share t0 t1 q keep ! k =
    span_slot (keep ! k) (t0 + border (t1 - t0) (int (length keep)) (int k))
      (border (t1 - t0) (int (length keep)) (int k + 1) - border (t1 - t0) (int (length keep)) (int k)) q"
  using assms by (simp add: share_def border_def Let_def)

text \<open>The shares tile the time from \<open>t0\<close> to \<open>t1\<close>.\<close>

lemma share_times:
  assumes "t0 \<le> t1" "t1 - t0 < 2 ^ 20" "length keep < 2 ^ 20" "k < length keep"
  shows "t0 \<le> StartCS (share t0 t1 q keep ! k) \<and> 0 \<le> DurCS (share t0 t1 q keep ! k) \<and>
         StartCS (share t0 t1 q keep ! k) + DurCS (share t0 t1 q keep ! k) \<le> t1"
proof -
  define n where "n = int (length keep)"
  define d where "d = t1 - t0"
  have n: "0 < n" "n < 2 ^ 20" "0 \<le> int k" "int k + 1 \<le> n" using assms by (auto simp: n_def)
  have d: "0 \<le> d" "d < 2 ^ 20" using assms by (auto simp: d_def)
  have "border d n 0 \<le> border d n (int k)" "border d n (int k) \<le> border d n (int k + 1)"
    "border d n (int k + 1) \<le> border d n n"
    using n d by (intro border_mono; simp)+
  then show ?thesis
    using border_end [OF d n(1,2)] border_0 [of d n] share_nth [OF assms(4), of t0 t1 q]
    by (simp add: span_slot_def n_def d_def)
qed


section \<open>Sentences\<close>

text \<open>The words of a sentence of \<open>n\<close> code points: in the text, not empty, in order and apart.\<close>

definition words_ok :: "int \<Rightarrow> Slot list \<Rightarrow> bool" where
  "words_ok n ss \<longleftrightarrow> (\<forall>s\<in>set ss. 0 \<le> CharStart s \<and> 0 < CharLen s \<and> CharStart s + CharLen s \<le> n) \<and>
     sorted_wrt (\<lambda>s t. CharStart s + CharLen s \<le> CharStart t) ss"

definition word_of :: "rune list \<Rightarrow> Slot \<Rightarrow> rune list" where
  "word_of t s = piece t (CharStart s) (CharStart s + CharLen s)"

lemma words_ok_length: "words_ok n ss \<Longrightarrow> 0 \<le> n \<Longrightarrow> int (length ss) \<le> n"
proof (induction ss arbitrary: n rule: rev_induct)
  case (snoc s ss)
  have "words_ok (CharStart s) ss" using snoc.prems unfolding words_ok_def by (auto simp: sorted_wrt_append)
  moreover have "0 \<le> CharStart s" "CharStart s + 1 \<le> n" using snoc.prems unfolding words_ok_def by force+
  ultimately show ?case using snoc.IH by force
qed simp

text \<open>The parts before \<open>lo\<close>, within, and from \<open>hi\<close> on make a sentence again.\<close>

lemma words_ok_join:
  assumes "words_ok n pre" "\<forall>s\<in>set pre. CharStart s + CharLen s \<le> lo"
    and "words_ok n mid" "\<forall>s\<in>set mid. lo \<le> CharStart s \<and> CharStart s + CharLen s \<le> hi"
    and "words_ok n post" "\<forall>s\<in>set post. hi \<le> CharStart s" "lo \<le> hi"
  shows "words_ok n (pre @ mid @ post)"
  using assms unfolding words_ok_def by (auto simp: sorted_wrt_append) force+

lemma words_ok_shift:
  assumes "words_ok n post" "\<forall>s\<in>set post. hi \<le> CharStart s" "0 \<le> hi + delta"
  shows "words_ok (n + delta) (map (shift delta) post)"
  using assms unfolding words_ok_def
  by (fastforce simp: shift_def sorted_wrt_map)

lemma words_ok_append:
  "words_ok n (xs @ ys) \<Longrightarrow> words_ok n xs \<and> words_ok n ys \<and> (\<forall>x\<in>set xs. \<forall>y\<in>set ys. CharStart x + CharLen x \<le> CharStart y)"
  unfolding words_ok_def by (auto simp: sorted_wrt_append)

lemma words_ok_runs:
  assumes "runs_ok t i b rs" "0 \<le> i" "b \<le> n"
  shows "words_ok n (map (\<lambda>r. span_slot r s d f) rs)"
  using assms unfolding words_ok_def runs_ok_def
  by (fastforce simp: span_slot_def sorted_wrt_map)

lemma runs_ok_filter: "runs_ok t i b rs \<Longrightarrow> runs_ok t i b (filter P rs)"
  unfolding runs_ok_def by (auto intro: sorted_wrt_filter)

text \<open>A word left of the span, or moved with the text right of it, reads as before.\<close>

lemma piece_left:
  assumes "0 \<le> i" "i \<le> j" "j \<le> int (length xs)"
  shows "piece (xs @ ys) i j = piece xs i j"
  using assms by (simp add: piece_def nat_diff_distrib)

lemma piece_right:
  assumes "int (length xs) \<le> i"
  shows "piece (xs @ ys) i j = piece ys (i - int (length xs)) (j - int (length xs))"
proof -
  have "nat (i - int (length xs)) = nat i - length xs" using assms by (simp add: nat_diff_distrib)
  then show ?thesis using assms by (simp add: piece_def)
qed

lemma word_of_left:
  assumes "0 \<le> CharStart s" "0 < CharLen s" "CharStart s + CharLen s \<le> a" "0 \<le> a" "a \<le> int (length t)"
  shows "word_of (take (nat a) t @ ys) s = word_of t s"
proof -
  have l: "int (length (take (nat a) t)) = a" using assms by simp
  have "word_of (take (nat a) t @ ys) s = word_of (take (nat a) t) s"
    unfolding word_of_def by (rule piece_left) (use assms l in linarith)+
  also have "\<dots> = word_of (take (nat a) t @ drop (nat a) t) s"
    unfolding word_of_def by (rule piece_left [symmetric]) (use assms l in linarith)+
  finally show ?thesis by simp
qed

lemma word_of_right:
  assumes "0 \<le> a" "0 \<le> n" "a + n \<le> int (length t)" "a + n \<le> CharStart s"
  shows "word_of (take (nat a) t @ after @ drop (nat (a + n)) t) (shift (int (length after) - n) s) = word_of t s"
proof -
  define us where "us = take (nat a) t @ after"
  have us: "int (length us) = a + int (length after)" using assms by (simp add: us_def)
  have l: "int (length (take (nat (a + n)) t)) = a + n" using assms by simp
  have "word_of (us @ drop (nat (a + n)) t) (shift (int (length after) - n) s) =
      piece (drop (nat (a + n)) t) (CharStart s - (a + n)) (CharStart s + CharLen s - (a + n))"
    unfolding word_of_def
    by (subst piece_right) (use assms us in \<open>auto simp: shift_def algebra_simps\<close>)
  also have "\<dots> = word_of (take (nat (a + n)) t @ drop (nat (a + n)) t) s"
    unfolding word_of_def by (subst piece_right) (use assms l in auto)
  finally show ?thesis by (simp add: us_def)
qed


section \<open>The edit\<close>

lemma filter_upt_ends:
  assumes "filter P [0..<m] \<noteq> []"
  shows "hd (filter P [0..<m]) \<le> last (filter P [0..<m])" "last (filter P [0..<m]) < m"
    "P (hd (filter P [0..<m]))" "P (last (filter P [0..<m]))"
    "i < hd (filter P [0..<m]) \<Longrightarrow> \<not> P i"
    "last (filter P [0..<m]) < i \<Longrightarrow> i < m \<Longrightarrow> \<not> P i"
proof -
  define h where "h = filter P [0..<m]"
  have h: "h \<noteq> []" "set h = {i. i < m \<and> P i}" using assms by (auto simp: h_def)
  have "sorted h" unfolding h_def by (rule sorted_wrt_filter) simp
  have ends: "hd h \<in> set h" "last h \<in> set h" using h(1) by simp_all
  have low: "hd h \<le> x" if "x \<in> set h" for x
    using \<open>sorted h\<close> that h(1) by (cases h) auto
  have high: "x \<le> last h" if "x \<in> set h" for x
  proof -
    have "sorted (butlast h @ [last h])" "x \<in> set (butlast h @ [last h])"
      using \<open>sorted h\<close> that h(1) by simp_all
    then show ?thesis unfolding sorted_append by auto
  qed
  show "hd (filter P [0..<m]) \<le> last (filter P [0..<m])" using low [OF ends(2)] unfolding h_def .
  have in_h: "hd h < m" "P (hd h)" "last h < m" "P (last h)" using ends unfolding h(2) by simp_all
  then show "last (filter P [0..<m]) < m" "P (hd (filter P [0..<m]))" "P (last (filter P [0..<m]))"
    by (simp_all only: h_def)
  show "\<not> P i" if "i < hd (filter P [0..<m])"
  proof
    assume "P i"
    then have "i \<in> set h" using that in_h(1) unfolding h(2) h_def [symmetric] by simp
    then show False using low that unfolding h_def [symmetric] by (simp add: leD)
  qed
  show "\<not> P i" if "last (filter P [0..<m]) < i" "i < m"
  proof
    assume "P i"
    then have "i \<in> set h" using that(2) unfolding h(2) by simp
    then show False using high that(1) unfolding h_def [symmetric] by (simp add: leD)
  qed
qed

lemma filter_split:
  assumes "sorted_wrt R xs" "\<And>x y. R x y \<Longrightarrow> P y \<Longrightarrow> P x"
  shows "xs = filter P xs @ filter (\<lambda>x. \<not> P x) xs"
  using assms(1)
proof (induction xs)
  case (Cons x xs)
  show ?case
  proof (cases "P x")
    case False
    then have "filter P xs = []" using Cons.prems assms(2) by (fastforce simp: filter_empty_conv)
    moreover have "filter (\<lambda>x. \<not> P x) xs = xs" using Cons.IH Cons.prems calculation by simp
    ultimately show ?thesis using False by simp
  qed (use Cons in auto)
qed simp

lemma touches_left:
  assumes "touches u a e" "CharStart s + CharLen s \<le> CharStart u" "0 < CharLen s" "\<not> touches s a e"
  shows "CharStart s + CharLen s \<le> a"
  using assms by (auto simp: touches_def split: if_splits)

lemma touches_right:
  assumes "touches u a e" "CharStart u + CharLen u \<le> CharStart s" "0 < CharLen s" "\<not> touches s a e" "a \<le> e"
  shows "e \<le> CharStart s"
  using assms by (auto simp: touches_def split: if_splits)

lemma untouched:
  assumes "\<not> touches s a e" "0 < CharLen s" "a \<le> e" "\<not> CharStart s + CharLen s \<le> a"
  shows "e \<le> CharStart s"
  using assms by (auto simp: touches_def split: if_splits)

text \<open>
  What an edit leaves: the words before and after the span, each reading as before, and between
  them words of the new text, checked by a person.
\<close>

definition edited :: "rune list \<Rightarrow> Slot list \<Rightarrow> int \<Rightarrow> int \<Rightarrow> int \<Rightarrow> rune list \<Rightarrow> Slot list \<Rightarrow> bool" where
  "edited tx slots a n delta nt ss \<longleftrightarrow>
     (\<exists>pre gone post mid. slots = pre @ gone @ post \<and> ss = pre @ mid @ map (shift delta) post \<and>
        (\<forall>s\<in>set pre. \<not> touches s a (a + n) \<and> word_of nt s = word_of tx s) \<and>
        (\<forall>s\<in>set post. \<not> touches s a (a + n) \<and> word_of nt (shift delta s) = word_of tx s) \<and>
        (\<forall>s\<in>set mid. spaceless (word_of nt s) \<and> Prob s = 255 \<and> (Flags s = 0 \<or> Flags s = Quran)))"

definition sentence_ok :: "rune list \<Rightarrow> Slot list \<Rightarrow> bool" where
  "sentence_ok t ss \<longleftrightarrow> words_ok (int (length t)) ss \<and> slots_fit ss \<and> (\<forall>s\<in>set ss. StartCS s + DurCS s < 2 ^ 16)"

text \<open>The three parts put together; both branches of \<open>Edit\<close> end with this.\<close>

lemma edit_parts:
  assumes slots: "slots = pre @ gone @ post" "sentence_ok tx slots"
    and span: "0 \<le> a" "0 \<le> n" "a + n \<le> int (length tx)"
    and nt: "nt = take (nat a) tx @ after @ drop (nat (a + n)) tx" "length nt < 2 ^ 16"
    and delta: "delta = int (length after) - n"
    and pre: "\<forall>s\<in>set pre. \<not> touches s a (a + n) \<and> CharStart s + CharLen s \<le> lo" "lo \<le> a" "0 \<le> lo"
    and post: "\<forall>s\<in>set post. \<not> touches s a (a + n) \<and> hi \<le> CharStart s + delta" "a + n + delta \<le> hi"
      "hi \<le> int (length nt)"
    and mid: "words_ok (int (length nt)) mid" "\<forall>s\<in>set mid. lo \<le> CharStart s \<and> CharStart s + CharLen s \<le> hi"
      "\<forall>s\<in>set mid. CharLen s < 2 ^ 8 \<and> 0 \<le> StartCS s \<and> 0 \<le> DurCS s \<and> StartCS s + DurCS s < 2 ^ 16 \<and>
         spaceless (word_of nt s) \<and> Prob s = 255 \<and> (Flags s = 0 \<or> Flags s = Quran)"
  shows "sentence_ok nt (pre @ mid @ map (shift delta) post) \<and>
         edited tx slots a n delta nt (pre @ mid @ map (shift delta) post)"
proof -
  have wpre: "words_ok (int (length tx)) pre" and wpost: "words_ok (int (length tx)) post"
    using slots words_ok_append unfolding sentence_ok_def by blast+
  have len: "int (length nt) = int (length tx) + delta" using span nt(1) delta by simp
  have hi: "0 \<le> hi" "lo \<le> hi" using span pre(2,3) post(2) delta by auto
  have "words_ok (int (length nt)) pre"
    using wpre pre post(2,3) span delta unfolding words_ok_def by fastforce
  moreover have wpost': "words_ok (int (length nt)) (map (shift delta) post)"
    unfolding len using post hi(1) by (intro words_ok_shift [OF wpost, of "hi - delta"]) auto
  ultimately have w: "words_ok (int (length nt)) (pre @ mid @ map (shift delta) post)"
    using pre(1) mid(1,2) post(1) hi(2) by (intro words_ok_join [where lo = lo and hi = hi]) (auto simp: shift_def)
  have old: "\<forall>s\<in>set (pre @ post). slot_ok s \<and> StartCS s + DurCS s < 2 ^ 16"
    using slots unfolding sentence_ok_def slots_fit_def by (auto simp: list_all_iff)
  have small: "CharStart s < 2 ^ 16 \<and> 0 \<le> CharStart s \<and> 0 < CharLen s" if "s \<in> set (pre @ mid @ map (shift delta) post)" for s
    using w that nt(2) unfolding words_ok_def by fastforce
  have "slot_ok s \<and> StartCS s + DurCS s < 2 ^ 16" if mem: "s \<in> set (pre @ mid @ map (shift delta) post)" for s
  proof -
    consider "s \<in> set pre" | "s \<in> set mid" | r where "r \<in> set post" "s = shift delta r" using mem by auto
    then show ?thesis
    proof cases
      case 2
      then show ?thesis using mid(3) small [OF mem] by (auto simp: slot_ok_def Quran_def)
    next
      case 3
      then have "slot_ok r \<and> StartCS r + DurCS r < 2 ^ 16" using old by simp
      then show ?thesis using small [OF mem] unfolding 3(2) slot_ok_def shift_def by simp
    qed (use old in simp)
  qed
  moreover have "length (pre @ mid @ map (shift delta) post) < 2 ^ 16"
    using words_ok_length [OF w] nt(2) by simp
  ultimately have "sentence_ok nt (pre @ mid @ map (shift delta) post)"
    using w unfolding sentence_ok_def slots_fit_def list_all_iff by blast
  moreover have "word_of nt s = word_of tx s" if "s \<in> set pre" for s
    unfolding nt(1) using that wpre pre span unfolding words_ok_def by (intro word_of_left) force+
  moreover have "word_of nt (shift delta s) = word_of tx s" if "s \<in> set post" for s
    unfolding nt(1) delta using that post delta span by (intro word_of_right) force+
  ultimately show ?thesis
    using slots(1) pre(1) post(1) mid(3) unfolding edited_def by blast
qed


lemma edit_untouched:
  assumes slots: "sentence_ok tx slots"
    and span: "0 \<le> a" "0 \<le> n" "a + n \<le> int (length tx)"
    and nt: "nt = take (nat a) tx @ after @ drop (nat (a + n)) tx" "length nt < 2 ^ 16" "length after < 2 ^ 8"
    and none: "\<forall>s\<in>set slots. \<not> touches s a (a + n)"
    and before: "before = filter (\<lambda>s. CharStart s + CharLen s \<le> a) slots"
    and rest: "rest = filter (\<lambda>s. \<not> CharStart s + CharLen s \<le> a) slots"
    and at0: "at0 = (if before \<noteq> [] then StartCS (last before) + DurCS (last before) else 0)"
  shows "\<exists>rs. runs nt a (a + int (length after)) = Some rs \<and>
    sentence_ok nt (before @ map (\<lambda>r. span_slot r at0 0 0) rs @ map (shift (int (length after) - n)) rest) \<and>
    edited tx slots a n (int (length after) - n) nt
      (before @ map (\<lambda>r. span_slot r at0 0 0) rs @ map (shift (int (length after) - n)) rest)"
proof -
  have w: "words_ok (int (length tx)) slots" using slots unfolding sentence_ok_def by blast
  have len: "a + int (length after) \<le> int (length nt)" using span by (simp add: nt(1))
  obtain rs where rs: "runs nt a (a + int (length after)) = Some rs" "runs_ok nt a (a + int (length after)) rs"
    using runs_Some [OF span(1) len] by blast
  have "sorted_wrt (\<lambda>s t. CharStart s + CharLen s \<le> CharStart t \<and> 0 < CharLen t) slots"
    using w unfolding words_ok_def by (auto elim: sorted_wrt_mono_rel [rotated])
  then have split: "slots = before @ [] @ rest"
    unfolding before rest append_Nil by (rule filter_split) auto
  have at0: "0 \<le> at0 \<and> at0 < 2 ^ 16"
  proof (cases "before = []")
    case False
    then have "last before \<in> set slots" using split last_in_set by (metis UnI1 set_append)
    then have "slot_ok (last before)" "StartCS (last before) + DurCS (last before) < 2 ^ 16"
      using slots unfolding sentence_ok_def slots_fit_def by (auto simp: list_all_iff)
    then show ?thesis using False at0 by (simp add: slot_ok_def)
  qed (simp add: at0)
  have "sentence_ok nt (before @ map (\<lambda>r. span_slot r at0 0 0) rs @ map (shift (int (length after) - n)) rest) \<and>
      edited tx slots a n (int (length after) - n) nt
        (before @ map (\<lambda>r. span_slot r at0 0 0) rs @ map (shift (int (length after) - n)) rest)"
  proof (rule edit_parts [OF split slots span nt(1,2) refl _ order_refl span(1)])
    show "\<forall>s\<in>set before. \<not> touches s a (a + n) \<and> CharStart s + CharLen s \<le> a"
      using none by (simp add: before)
    show "\<forall>s\<in>set rest. \<not> touches s a (a + n) \<and> a + int (length after) \<le> CharStart s + (int (length after) - n)"
    proof
      fix s
      assume "s \<in> set rest"
      then have "s \<in> set slots" "\<not> CharStart s + CharLen s \<le> a" by (auto simp: rest)
      then show "\<not> touches s a (a + n) \<and> a + int (length after) \<le> CharStart s + (int (length after) - n)"
        using untouched [of s a "a + n"] none w span unfolding words_ok_def by auto
    qed
    show "words_ok (int (length nt)) (map (\<lambda>r. span_slot r at0 0 0) rs)"
      by (rule words_ok_runs [OF rs(2) span(1) len])
    show "\<forall>s\<in>set (map (\<lambda>r. span_slot r at0 0 0) rs). a \<le> CharStart s \<and> CharStart s + CharLen s \<le> a + int (length after)"
      using rs(2) unfolding runs_ok_def by (auto simp: span_slot_def)
    show "\<forall>s\<in>set (map (\<lambda>r. span_slot r at0 0 0) rs). CharLen s < 2 ^ 8 \<and> 0 \<le> StartCS s \<and> 0 \<le> DurCS s \<and>
        StartCS s + DurCS s < 2 ^ 16 \<and> spaceless (word_of nt s) \<and> Prob s = 255 \<and> (Flags s = 0 \<or> Flags s = Quran)"
      using rs(2) at0 nt(3) unfolding runs_ok_def by (force simp: span_slot_def word_of_def)
  qed (use len in auto)
  then show ?thesis using rs(1) by blast
qed

lemma length_share [simp]: "length (share t0 t1 q keep) = length keep"
  by (simp add: share_def Let_def)

lemma words_ok_share:
  "words_ok n (share t0 t1 q keep) \<longleftrightarrow> words_ok n (map (\<lambda>r. span_slot r 0 0 0) keep)"
proof -
  have "CharStart (share t0 t1 q keep ! k) = CharStart (map (\<lambda>r. span_slot r 0 0 0) keep ! k)"
    "CharLen (share t0 t1 q keep ! k) = CharLen (map (\<lambda>r. span_slot r 0 0 0) keep ! k)" if "k < length keep" for k
    using that by (simp_all add: share_nth span_slot_def)
  then show ?thesis
    unfolding words_ok_def all_set_conv_all_nth sorted_wrt_iff_nth_less by simp
qed

lemma quran_flag: "foldl (\<lambda>q i. q OR (f i AND Quran)) 0 hit \<in> {0, Quran}" for f :: "nat \<Rightarrow> int"
proof -
  have "x AND push_bit m 1 = (if bit x m then push_bit m 1 else 0)" for x :: int and m
    by (rule bit_eqI) (auto simp: bit_simps)
  then have and4: "x AND Quran \<in> {0, Quran}" for x :: int
    unfolding Quran_def by (metis insertCI)
  have "q \<in> {0, Quran} \<Longrightarrow> foldl (\<lambda>q i. q OR (f i AND Quran)) q hit \<in> {0, Quran}" for q
  proof (induction hit arbitrary: q)
    case (Cons i hit)
    have "q OR (f i AND Quran) \<in> {0, Quran}" using Cons.prems and4 [of "f i"] by auto
    from Cons.IH [OF this] show ?case by simp
  qed simp
  then show ?thesis by simp
qed


lemma edit_touched:
  assumes slots: "sentence_ok tx slots"
    and span: "0 \<le> a" "0 \<le> n" "a + n \<le> int (length tx)"
    and nt: "nt = take (nat a) tx @ after @ drop (nat (a + n)) tx" "length nt < 2 ^ 16"
    and hit: "hit = filter (\<lambda>i. touches (slots ! i) a (a + n)) [0..<length slots]" "hit \<noteq> []"
    and p: "p = hd hit" and q: "q = last hit"
    and lo: "lo = min a (CharStart (slots ! p))"
    and hi: "hi = max (a + n) (CharStart (slots ! q) + CharLen (slots ! q)) + (int (length after) - n)"
    and t0: "t0 = StartCS (slots ! p)" and t1: "t1 = max t0 (StartCS (slots ! q) + DurCS (slots ! q))"
    and f: "f = 0 \<or> f = Quran"
  shows "\<exists>rs. runs nt lo hi = Some rs \<and>
    sentence_ok nt (take p slots @ share t0 t1 f (filter (\<lambda>r. snd r - fst r \<le> 0xFF) rs) @
      map (shift (int (length after) - n)) (drop (q + 1) slots)) \<and>
    edited tx slots a n (int (length after) - n) nt
      (take p slots @ share t0 t1 f (filter (\<lambda>r. snd r - fst r \<le> 0xFF) rs) @
      map (shift (int (length after) - n)) (drop (q + 1) slots))"
proof -
  define delta where "delta = int (length after) - n"
  have w: "words_ok (int (length tx)) slots" using slots unfolding sentence_ok_def by blast
  have ends: "p \<le> q" "q < length slots" "touches (slots ! p) a (a + n)" "touches (slots ! q) a (a + n)"
    "\<And>i. i < p \<Longrightarrow> \<not> touches (slots ! i) a (a + n)"
    "\<And>i. q < i \<Longrightarrow> i < length slots \<Longrightarrow> \<not> touches (slots ! i) a (a + n)"
    using filter_upt_ends [of "\<lambda>i. touches (slots ! i) a (a + n)" "length slots"] hit unfolding p q by blast+
  have nth: "0 \<le> CharStart (slots ! i)" "0 < CharLen (slots ! i)" "CharStart (slots ! i) + CharLen (slots ! i) \<le> int (length tx)"
    if "i < length slots" for i
    using w that unfolding words_ok_def by auto
  have ord: "CharStart (slots ! i) + CharLen (slots ! i) \<le> CharStart (slots ! j)" if "i < j" "j < length slots" for i j
    using w that unfolding words_ok_def sorted_wrt_iff_nth_less by blast
  have len: "int (length nt) = int (length tx) + delta" using span by (simp add: nt(1) delta_def)
  have lo0: "0 \<le> lo" "lo \<le> a" using nth(1) [of p] ends(1,2) span lo by auto
  have hin: "a + n + delta \<le> hi" "hi \<le> int (length nt)"
    using nth(3) [of q] ends(2) span hi len by (auto simp: delta_def)
  obtain rs where rs: "runs nt lo hi = Some rs" "runs_ok nt lo hi rs"
    using runs_Some [OF lo0(1) hin(2)] by blast
  define keep where "keep = filter (\<lambda>r. snd r - fst r \<le> 0xFF) rs"
  have keep: "runs_ok nt lo hi keep" unfolding keep_def by (rule runs_ok_filter [OF rs(2)])
  have wk: "words_ok (int (length nt)) (map (\<lambda>r. span_slot r 0 0 0) keep)"
    by (rule words_ok_runs [OF keep lo0(1) hin(2)])
  then have lk: "length keep < 2 ^ 20" using words_ok_length [OF wk] nt(2) by simp
  have sp: "slot_ok (slots ! p)" "slot_ok (slots ! q)" "StartCS (slots ! q) + DurCS (slots ! q) < 2 ^ 16"
    using slots ends(1,2) unfolding sentence_ok_def slots_fit_def by (auto simp: list_all_length)
  have t: "0 \<le> t0" "t0 \<le> t1" "t1 < 2 ^ 16" using sp by (auto simp: t0 t1 slot_ok_def)
  have split: "slots = take p slots @ take (q + 1 - p) (drop p slots) @ drop (q + 1) slots"
    using ends(1) by (metis append_take_drop_id drop_drop le_add_diff_inverse2 trans_le_add1)
  have "sentence_ok nt (take p slots @ share t0 t1 f keep @ map (shift delta) (drop (q + 1) slots)) \<and>
      edited tx slots a n delta nt (take p slots @ share t0 t1 f keep @ map (shift delta) (drop (q + 1) slots))"
  proof (rule edit_parts [OF split slots span nt delta_def _ lo0(2,1) _ hin])
    show "\<forall>s\<in>set (take p slots). \<not> touches s a (a + n) \<and> CharStart s + CharLen s \<le> lo"
    proof
      fix s
      assume "s \<in> set (take p slots)"
      then obtain i where i: "i < p" "s = slots ! i" using ends(1,2) by (auto simp: in_set_conv_nth)
      then have o: "CharStart s + CharLen s \<le> CharStart (slots ! p)" "0 < CharLen s"
        using ord [of i p] nth(2) [of i] ends(1,2) by auto
      have nt: "\<not> touches s a (a + n)" using ends(5) [OF i(1)] i(2) by simp
      show "\<not> touches s a (a + n) \<and> CharStart s + CharLen s \<le> lo"
        using nt touches_left [OF ends(3) o nt] o lo by simp
    qed
    show "\<forall>s\<in>set (drop (q + 1) slots). \<not> touches s a (a + n) \<and> hi \<le> CharStart s + delta"
    proof
      fix s
      assume "s \<in> set (drop (q + 1) slots)"
      then obtain k where "k < length (drop (q + 1) slots)" "s = drop (q + 1) slots ! k"
        unfolding in_set_conv_nth by blast
      then have k: "q + 1 + k < length slots" "s = slots ! (q + 1 + k)" by auto
      then have o: "CharStart (slots ! q) + CharLen (slots ! q) \<le> CharStart s" "0 < CharLen s"
        using ord [of q "q + 1 + k"] nth(2) [OF k(1)] by auto
      have nt: "\<not> touches s a (a + n)" using ends(6) [OF _ k(1)] k(2) by simp
      have "a \<le> a + n" using span by simp
      from touches_right [OF ends(4) o nt this] show "\<not> touches s a (a + n) \<and> hi \<le> CharStart s + delta"
        using nt o hi by (simp add: delta_def)
    qed
    show "words_ok (int (length nt)) (share t0 t1 f keep)"
      using wk unfolding words_ok_share .
    have k: "\<forall>k<length keep. lo \<le> CharStart (share t0 t1 f keep ! k) \<and>
        CharStart (share t0 t1 f keep ! k) + CharLen (share t0 t1 f keep ! k) \<le> hi \<and>
        CharLen (share t0 t1 f keep ! k) < 2 ^ 8 \<and> spaceless (word_of nt (share t0 t1 f keep ! k)) \<and>
        Prob (share t0 t1 f keep ! k) = 255 \<and> Flags (share t0 t1 f keep ! k) = f"
    proof (intro allI impI)
      fix k
      assume k: "k < length keep"
      then have "keep ! k \<in> set keep" by simp
      then have "keep ! k \<in> set rs" "snd (keep ! k) - fst (keep ! k) \<le> 0xFF" unfolding keep_def by auto
      moreover have "lo \<le> fst (keep ! k) \<and> snd (keep ! k) \<le> hi \<and> spaceless (piece nt (fst (keep ! k)) (snd (keep ! k)))"
        using keep \<open>keep ! k \<in> set keep\<close> unfolding runs_ok_def by auto
      ultimately show "lo \<le> CharStart (share t0 t1 f keep ! k) \<and>
        CharStart (share t0 t1 f keep ! k) + CharLen (share t0 t1 f keep ! k) \<le> hi \<and>
        CharLen (share t0 t1 f keep ! k) < 2 ^ 8 \<and> spaceless (word_of nt (share t0 t1 f keep ! k)) \<and>
        Prob (share t0 t1 f keep ! k) = 255 \<and> Flags (share t0 t1 f keep ! k) = f"
        using share_nth [OF k] by (simp add: span_slot_def word_of_def)
    qed
    then show "\<forall>s\<in>set (share t0 t1 f keep). lo \<le> CharStart s \<and> CharStart s + CharLen s \<le> hi"
      unfolding all_set_conv_all_nth by simp
    have "\<forall>k<length keep. 0 \<le> StartCS (share t0 t1 f keep ! k) \<and> 0 \<le> DurCS (share t0 t1 f keep ! k) \<and>
        StartCS (share t0 t1 f keep ! k) + DurCS (share t0 t1 f keep ! k) < 2 ^ 16"
      using share_times [OF t(2) _ lk, of _ f] t by fastforce
    with k f show "\<forall>s\<in>set (share t0 t1 f keep). CharLen s < 2 ^ 8 \<and> 0 \<le> StartCS s \<and> 0 \<le> DurCS s \<and>
        StartCS s + DurCS s < 2 ^ 16 \<and> spaceless (word_of nt s) \<and> Prob s = 255 \<and> (Flags s = 0 \<or> Flags s = Quran)"
      unfolding all_set_conv_all_nth length_share by blast
  qed
  then show ?thesis using rs(1) unfolding keep_def delta_def by blast
qed


section \<open>Properties\<close>

lemma Edit_cases:
  assumes "sentence_ok tx slots" "0 \<le> a" "0 \<le> n" "a + n \<le> int (length tx)"
    and nt: "nt = take (nat a) tx @ after @ drop (nat (a + n)) tx" "length nt < 2 ^ 16" "length after < 2 ^ 8"
  shows "\<exists>ss. Edit tx (Some (Encode slots)) a n after = Some (Inr (nt, Some (Encode ss))) \<and>
    sentence_ok nt ss \<and> edited tx slots a n (int (length after) - n) nt ss"
proof -
  have d: "Decode (Encode slots) = Inr slots" using assms(1) by (simp add: Decode_iff sentence_ok_def)
  have g: "\<not> (a < 0 \<or> n < 0 \<or> int (length tx) < a + n)" using assms by auto
  define hit where "hit = filter (\<lambda>i. touches (slots ! i) a (a + n)) [0..<length slots]"
  show ?thesis
  proof (cases "hit = []")
    case True
    then have none: "\<forall>s\<in>set slots. \<not> touches s a (a + n)"
      by (auto simp: hit_def filter_empty_conv all_set_conv_all_nth)
    from edit_untouched [OF assms(1-4) nt none refl refl refl]
    obtain rs ss where rs: "runs nt a (a + int (length after)) = Some rs"
      and ss: "ss = filter (\<lambda>s. CharStart s + CharLen s \<le> a) slots @
          map (\<lambda>r. span_slot r (if filter (\<lambda>s. CharStart s + CharLen s \<le> a) slots \<noteq> []
             then StartCS (last (filter (\<lambda>s. CharStart s + CharLen s \<le> a) slots)) +
                  DurCS (last (filter (\<lambda>s. CharStart s + CharLen s \<le> a) slots)) else 0) 0 0) rs @
          map (shift (int (length after) - n)) (filter (\<lambda>s. \<not> CharStart s + CharLen s \<le> a) slots)"
        "sentence_ok nt ss" "edited tx slots a n (int (length after) - n) nt ss" by blast
    have "Edit tx (Some (Encode slots)) a n after = Some (Inr (nt, Some (Encode ss)))"
      unfolding Edit_def if_not_P [OF g] Let_def option.case d sum.case hit_def [symmetric] nt(1) [symmetric]
        if_P [OF True] rs ss(1) ..
    with ss show ?thesis by blast
  next
    case False
    from edit_touched [OF assms(1-4) nt(1,2) hit_def False refl refl refl refl refl refl]
    obtain rs ss where rs: "runs nt (min a (CharStart (slots ! hd hit)))
        (max (a + n) (CharStart (slots ! last hit) + CharLen (slots ! last hit)) + (int (length after) - n)) = Some rs"
      and ss: "ss = take (hd hit) slots @ share (StartCS (slots ! hd hit))
            (max (StartCS (slots ! hd hit)) (StartCS (slots ! last hit) + DurCS (slots ! last hit)))
            (foldl (\<lambda>q i. q OR (Flags (slots ! i) AND Quran)) 0 hit) (filter (\<lambda>r. snd r - fst r \<le> 0xFF) rs) @
          map (shift (int (length after) - n)) (drop (last hit + 1) slots)"
        "sentence_ok nt ss" "edited tx slots a n (int (length after) - n) nt ss"
      using quran_flag [of "\<lambda>i. Flags (slots ! i)" hit] by blast
    have "Edit tx (Some (Encode slots)) a n after = Some (Inr (nt, Some (Encode ss)))"
      unfolding Edit_def if_not_P [OF g] Let_def option.case d sum.case hit_def [symmetric] nt(1) [symmetric]
        if_not_P [OF False] rs ss(1) ..
    with ss show ?thesis by blast
  qed
qed


text \<open>``ab cd'' with its two words; ``ab'' becomes ``xyz''.\<close>

definition sample_text :: "rune list" where "sample_text = [97, 98, 32, 99, 100]"

definition sample_slots :: "Slot list" where
  "sample_slots = [\<lparr>CharStart = 0, CharLen = 2, StartCS = 0, DurCS = 50, Prob = 200, Flags = 0\<rparr>,
     \<lparr>CharStart = 3, CharLen = 2, StartCS = 50, DurCS = 40, Prob = 180, Flags = 4\<rparr>]"



section \<open>Where the code goes wrong\<close>

text \<open>
  Where the span touches no word, the new words are not held to 255 code points as they are in the
  other branch, and \<open>byte\<close> keeps the low bits of the length: a run of 256 code points put into an
  empty sentence becomes a word of length 0. (The pipeline's twin of this function raises there.)
\<close>

lemma run_end_all:
  assumes "0 \<le> j" "j \<le> b" "b \<le> int (length tx)" "spaceless tx"
  shows "run_end tx j b = Some b"
  using assms
proof (induction tx j b rule: run_end.induct)
  case (1 tx j b)
  show ?case
  proof (cases "j < b")
    case True
    then have r: "rune_at tx j = Some (tx ! nat j)" and ns: "\<not> isSpace (tx ! nat j)"
      using "1.prems" by (auto simp: rune_at_def spaceless_def)
    then have "run_end tx j b = run_end tx (j + 1) b" using True by (subst run_end.simps) simp
    then show ?thesis using "1.IH" [OF True r ns] "1.prems" True by simp
  next
    case False
    then show ?thesis using "1.prems" by (subst run_end.simps) simp
  qed
qed

lemma long_word_loses_its_length:
  assumes "spaceless w" "length w = 256"
  shows "\<exists>d ss. Edit [] (Some (Encode [])) 0 0 w = Some (Inr (w, Some d)) \<and> Decode d = Inr ss \<and> map CharLen ss = [0]"
proof -
  have w: "rune_at w 0 = Some (w ! 0)" "\<not> isSpace (w ! 0)"
    using assms by (auto simp: rune_at_def spaceless_def)
  have "runs w 256 256 = Some []" by (subst runs.simps) simp
  moreover have "run_end w 1 256 = Some 256" using assms by (intro run_end_all) auto
  ultimately have r: "runs w 0 256 = Some [(0, 256)]" using w by (subst runs.simps) simp
  have "Decode (Encode []) = Inr []" using Decode_iff by (simp add: slots_fit_def)
  then have e: "Edit [] (Some (Encode [])) 0 0 w = Some (Inr (w, Some (Encode [span_slot (0, 256) 0 0 0])))"
    using r assms(2) unfolding Edit_def by simp
  have "Encode [span_slot (0, 256) 0 0 0] = Encode [(span_slot (0, 256) 0 0 0)\<lparr>CharLen := 0\<rparr>]"
    by (simp add: Encode_def enc_slot_def span_slot_def)
  moreover have "slots_fit [(span_slot (0, 256) 0 0 0)\<lparr>CharLen := 0\<rparr>]"
    by (simp add: slots_fit_def slot_ok_def span_slot_def)
  ultimately have "Decode (Encode [span_slot (0, 256) 0 0 0]) = Inr [(span_slot (0, 256) 0 0 0)\<lparr>CharLen := 0\<rparr>]"
    unfolding Decode_iff by simp
  with e show ?thesis by (intro exI conjI) (assumption, assumption, simp)
qed

text \<open>A word shifted below 0 or beyond \<open>2^16\<close> comes back at a place \<open>2^16\<close> away.\<close>

lemma ShiftAfter_in_range:
  assumes "slots_fit slots" "\<forall>s\<in>set slots. c \<le> CharStart s \<longrightarrow> 0 \<le> CharStart s + delta \<and> CharStart s + delta < 2 ^ 16"
  shows "\<exists>d. ShiftAfter (Encode slots) c delta = Inr d \<and>
     Decode d = Inr (map (\<lambda>s. if c \<le> CharStart s then shift delta s else s) slots)"
proof -
  define moved where "moved = map (\<lambda>s. if c \<le> CharStart s then shift delta s else s) slots"
  have d: "Decode (Encode slots) = Inr slots" using assms(1) by (simp add: Decode_iff)
  have "slots_fit moved"
    using assms by (auto simp: moved_def slots_fit_def list_all_iff slot_ok_def shift_def)
  then have "Decode (Encode moved) = Inr moved" by (simp add: Decode_iff)
  moreover have "ShiftAfter (Encode slots) c delta = Inr (Encode moved)"
    unfolding ShiftAfter_def d moved_def by simp
  ultimately show ?thesis unfolding moved_def by blast
qed

end
