(* ===== verification/TS_Packet.thy ===== *)
theory TS_Packet
  imports Prelude
begin

text \<open>
  One MPEG-TS packet and what the relay reads and writes in it: the PID, the payload
  start, a PSI section, the program tables, the keyframe test, the 33-bit PTS, DTS and
  PCR, and the unwrapping of a 33-bit timestamp
  (\<open>streaming/internal/frontdoor/relay/tsfix.go\<close>, \<open>scan.go\<close>).

  A packet is a list of bytes; the code only ever hands 188-byte packets to these
  functions, and each index they use is below 188 by the tests in front of it. An
  \<open>int\<close> offset of \<open>-1\<close> is \<open>None\<close>, a \<open>nil\<close> slice is the empty list, and an in-place
  write is a list update. Timestamps are \<open>int64\<close>s that stay far from their bounds and
  are \<open>int\<close>s here; their bytes are 8-bit words.
\<close>

section \<open>Constants and types\<close>

type_synonym packet = bytes
type_synonym pid = "16 word"

definition tsSize :: nat where "tsSize = 188"
definition tsSync :: byte where "tsSync = 0x47"
definition ptsWrap :: int where "ptsWrap = push_bit 33 1"
definition ptsHalf :: int where "ptsHalf = push_bit 32 1"
definition clock90k :: int where "clock90k = 90000"
definition defaultFrame :: int where "defaultFrame = 3000"
definition maxJump :: int where "maxJump = 10 * clock90k"

definition stH264 :: byte where "stH264 = 0x1B"
definition stHEVC :: byte where "stHEVC = 0x24"

definition isVideo :: "byte \<Rightarrow> bool" where
  "isVideo t \<longleftrightarrow> t = stH264 \<or> t = stHEVC \<or> t = 0x02 \<or> t = 0x10"

record esInfo =
  es_pid :: pid
  es_typ :: byte

section \<open>PIDs and payloads\<close>

definition pidOf :: "packet \<Rightarrow> pid" where
  "pidOf p = push_bit 8 (ucast (p ! 1 AND 0x1f)) OR ucast (p ! 2)"

definition setPID :: "packet \<Rightarrow> pid \<Rightarrow> packet" where
  "setPID p pid = p[1 := (p ! 1 AND 0xe0) OR (ucast (drop_bit 8 pid) AND 0x1f), 2 := ucast pid]"

definition payloadStart :: "packet \<Rightarrow> nat option" where
  "payloadStart p =
    (let afc = drop_bit 4 (p ! 3) AND 3;
         off = (if afc AND 2 \<noteq> 0 then 5 + unat (p ! 4) else 4) in
     if afc AND 1 = 0 \<or> tsSize \<le> off then None else Some off)"

definition hasAdaptation :: "packet \<Rightarrow> bool" where
  "hasAdaptation p \<longleftrightarrow> drop_bit 4 (p ! 3) AND 2 \<noteq> 0 \<and> 0 < p ! 4"

text \<open>The twelve-bit length that PSI structures carry at \<open>i\<close>.\<close>

definition len12 :: "bytes \<Rightarrow> nat \<Rightarrow> nat" where
  "len12 b i = push_bit 8 (unat (b ! i AND 0x0f)) OR unat (b ! (i + 1))"

definition section_of :: "packet \<Rightarrow> bytes" where
  "section_of p =
    (if p ! 1 AND 0x40 = 0 then []
     else (case payloadStart p of
             None \<Rightarrow> []
           | Some off \<Rightarrow>
               let s = off + 1 + unat (p ! off) in
               if tsSize < s + 3 then []
               else let e = s + 3 + len12 p (s + 1) in
                    take (min e tsSize - s) (drop s p)))"

section \<open>Program tables\<close>

fun pat_entries :: "bytes \<Rightarrow> pid" where
  "pat_entries (a # b # c # d # rest) =
    (if (push_bit 8 (ucast a) OR ucast b :: 16 word) \<noteq> 0
     then push_bit 8 (ucast (c AND 0x1f)) OR ucast d
     else pat_entries rest)"
| "pat_entries _ = 0"

definition parsePAT :: "bytes \<Rightarrow> pid" where
  "parsePAT sec =
    (if length sec < 12 \<or> sec ! 0 \<noteq> 0 then 0
     else pat_entries (take (length sec - 12) (drop 8 sec)))"

function pmt_entries :: "bytes \<Rightarrow> nat \<Rightarrow> nat \<Rightarrow> esInfo list" where
  "pmt_entries sec e i =
    (if i + 5 \<le> e then
       \<lparr>es_pid = push_bit 8 (ucast (sec ! (i + 1) AND 0x1f)) OR ucast (sec ! (i + 2)), es_typ = sec ! i\<rparr>
         # pmt_entries sec e (i + (5 + len12 sec (i + 3)))
     else [])"
  by pat_completeness auto

termination pmt_entries
  by (relation "measure (\<lambda>(sec, e, i). Suc e - i)") auto

declare pmt_entries.simps [simp del]

definition parsePMT :: "bytes \<Rightarrow> esInfo list" where
  "parsePMT sec =
    (if length sec < 16 \<or> sec ! 0 \<noteq> 2 then []
     else pmt_entries sec (length sec - 4) (12 + len12 sec 10))"

section \<open>Keyframes\<close>

text \<open>An IDR slice or an SPS behind a three-byte start code at \<open>i\<close>.\<close>

definition nal_start :: "packet \<Rightarrow> nat \<Rightarrow> bool" where
  "nal_start p i \<longleftrightarrow>
    p ! i = 0 \<and> p ! (i + 1) = 0 \<and> p ! (i + 2) = 1 \<and>
    (p ! (i + 3) AND 0x1f = 5 \<or> p ! (i + 3) AND 0x1f = 7)"

definition keyframe :: "packet \<Rightarrow> bool" where
  "keyframe p =
    (if hasAdaptation p \<and> p ! 5 AND 0x40 \<noteq> 0 then True
     else (case payloadStart p of
             None \<Rightarrow> False
           | Some off \<Rightarrow>
               if tsSize < off + 9 then False
               else list_ex (nal_start p) [off + 9 + unat (p ! (off + 8)) ..< tsSize - 3]))"

section \<open>Timestamps\<close>

definition readTS :: "bytes \<Rightarrow> int" where
  "readTS b =
     push_bit 30 (uint (drop_bit 1 (b ! 0) AND 0x07)) OR push_bit 22 (uint (b ! 1)) OR
     push_bit 15 (uint (drop_bit 1 (b ! 2))) OR push_bit 7 (uint (b ! 3)) OR uint (drop_bit 1 (b ! 4))"

text \<open>The five bytes at \<open>i\<close> rewritten in place.\<close>

definition writeTS :: "packet \<Rightarrow> nat \<Rightarrow> int \<Rightarrow> packet" where
  "writeTS p i v0 =
    (let v = v0 AND (ptsWrap - 1) in
     p[i := (p ! i AND 0xf0) OR (word_of_int (drop_bit 29 v) AND 0x0e) OR 1,
       i + 1 := word_of_int (drop_bit 22 v),
       i + 2 := (word_of_int (drop_bit 14 v) AND 0xfe) OR 1,
       i + 3 := word_of_int (drop_bit 7 v),
       i + 4 := word_of_int (push_bit 1 v) OR 1])"

text \<open>\<open>(pts, dts, hasDTS)\<close>; \<open>None\<close> is \<open>ok = false\<close>.\<close>

definition pesTimes :: "packet \<Rightarrow> (int \<times> int \<times> bool) option" where
  "pesTimes p =
    (case payloadStart p of
       None \<Rightarrow> None
     | Some off \<Rightarrow>
         if tsSize < off + 14 \<or> p ! off \<noteq> 0 \<or> p ! (off + 1) \<noteq> 0 \<or> p ! (off + 2) \<noteq> 1 then None
         else let flags = drop_bit 6 (p ! (off + 7)) in
           if flags AND 2 = 0 then None
           else let pts = readTS (drop (off + 9) p) in
             if flags = 3 \<and> off + 19 \<le> tsSize
             then Some (pts, readTS (drop (off + 14) p), True)
             else Some (pts, pts, False))"

definition setPESTimes :: "packet \<Rightarrow> int \<Rightarrow> int \<Rightarrow> bool \<Rightarrow> packet" where
  "setPESTimes p pts dts hasDTS =
    (case payloadStart p of
       None \<Rightarrow> p
     | Some off \<Rightarrow>
         let p1 = writeTS p (off + 9) pts in
         if hasDTS then writeTS p1 (off + 14) dts else p1)"

definition pcr :: "packet \<Rightarrow> (int \<times> int) option" where
  "pcr p =
    (if \<not> hasAdaptation p \<or> p ! 5 AND 0x10 = 0 \<or> p ! 4 < 7 then None
     else Some
       (push_bit 25 (uint (p ! 6)) OR push_bit 17 (uint (p ! 7)) OR push_bit 9 (uint (p ! 8)) OR
        push_bit 1 (uint (p ! 9)) OR uint (drop_bit 7 (p ! 10)),
        push_bit 8 (uint (p ! 10 AND 1)) OR uint (p ! 11)))"

definition setPCR :: "packet \<Rightarrow> int \<Rightarrow> int \<Rightarrow> packet" where
  "setPCR p base0 ext =
    (let base = base0 AND (ptsWrap - 1) in
     p[6 := word_of_int (drop_bit 25 base),
       7 := word_of_int (drop_bit 17 base),
       8 := word_of_int (drop_bit 9 base),
       9 := word_of_int (drop_bit 1 base),
       10 := word_of_int (push_bit 7 base) OR 0x7e OR (word_of_int (drop_bit 8 ext) AND 1),
       11 := word_of_int ext])"

text \<open>The size a PES states (\<open>0\<close>: none), and a packet's payload size.\<close>

definition pesLength :: "packet \<Rightarrow> nat" where
  "pesLength p =
    (case payloadStart p of
       None \<Rightarrow> 0
     | Some off \<Rightarrow>
         if tsSize < off + 6 \<or> p ! off \<noteq> 0 \<or> p ! (off + 1) \<noteq> 0 \<or> p ! (off + 2) \<noteq> 1 then 0
         else let n = push_bit 8 (unat (p ! (off + 4))) OR unat (p ! (off + 5)) in
           if n = 0 then 0 else 6 + n)"

definition payloadLen :: "packet \<Rightarrow> nat" where
  "payloadLen p = (case payloadStart p of None \<Rightarrow> 0 | Some off \<Rightarrow> tsSize - off)"

text \<open>The difference of two 33-bit timestamps across a wrap (\<open>scan.go\<close>).\<close>

definition PTSDiff :: "int \<Rightarrow> int \<Rightarrow> int" where
  "PTSDiff a b =
    (let d0 = go_rem (a - b) ptsWrap;
         d1 = (if d0 < 0 then d0 + ptsWrap else d0) in
     if ptsHalf < d1 then d1 - ptsWrap else d1)"

text \<open>\<open>unwrap\<close> also stores its answer in the map it reads.\<close>

definition unwrap :: "(pid \<rightharpoonup> int) \<Rightarrow> pid \<Rightarrow> int \<Rightarrow> int \<times> (pid \<rightharpoonup> int)" where
  "unwrap m pid raw =
    (case m pid of
       None \<Rightarrow> (raw, m(pid \<mapsto> raw))
     | Some prev \<Rightarrow>
         let d0 = go_rem (raw - prev) ptsWrap;
             d1 = (if d0 < 0 then d0 + ptsWrap else d0);
             d2 = (if ptsHalf < d1 then d1 - ptsWrap else d1);
             u = prev + d2 in
         (u, m(pid \<mapsto> u)))"

section \<open>The scanner\<close>

record Scanner =
  sc_pmt :: pid
  sc_video :: pid

record PacketInfo =
  PAT :: bool
  PMT :: bool
  Video :: bool
  IDR :: bool
  PTS :: int
  HasPTS :: bool

definition no_info :: PacketInfo where
  "no_info = \<lparr>PAT = False, PMT = False, Video = False, IDR = False, PTS = 0, HasPTS = False\<rparr>"

definition Scan :: "Scanner \<Rightarrow> bytes \<Rightarrow> PacketInfo \<times> Scanner" where
  "Scan s p =
    (if length p \<noteq> tsSize \<or> p ! 0 \<noteq> tsSync then (no_info, s)
     else let pid = pidOf p in
       if pid = 0 then
         (no_info\<lparr>PAT := True\<rparr>,
          let pmt = parsePAT (section_of p) in if pmt \<noteq> 0 then s\<lparr>sc_pmt := pmt\<rparr> else s)
       else if sc_pmt s \<noteq> 0 \<and> pid = sc_pmt s then
         (no_info\<lparr>PMT := True\<rparr>,
          case find (\<lambda>e. isVideo (es_typ e)) (parsePMT (section_of p)) of
            None \<Rightarrow> s
          | Some e \<Rightarrow> s\<lparr>sc_video := es_pid e\<rparr>)
       else if sc_video s = 0 \<or> pid \<noteq> sc_video s then (no_info, s)
       else if p ! 1 AND 0x40 = 0 then (no_info\<lparr>Video := True\<rparr>, s)
       else
         let i = no_info\<lparr>Video := True, IDR := keyframe p\<rparr> in
         (case pesTimes p of
            None \<Rightarrow> i
          | Some (pts, _, _) \<Rightarrow> i\<lparr>PTS := pts, HasPTS := True\<rparr>, s))"

definition Ready :: "Scanner \<Rightarrow> bool" where
  "Ready s \<longleftrightarrow> sc_video s \<noteq> 0"


section \<open>Facts about PIDs\<close>

text \<open>A PID the parsers return fits its thirteen bits.\<close>

definition pid13 :: "pid \<Rightarrow> bool" where
  "pid13 x \<longleftrightarrow> take_bit 13 x = x"

text \<open>The byte masks of the code, as masks, so that bits can be counted.\<close>

lemma byte_masks:
  "(0x1f :: byte) = mask 5" "(0x0f :: byte) = mask 4" "(0x07 :: byte) = mask 3"
  "(0xe0 :: byte) = push_bit 5 (mask 3)" "(0xf0 :: byte) = push_bit 4 (mask 4)"
  "(0x0e :: byte) = push_bit 1 (mask 3)" "(0xfe :: byte) = push_bit 1 (mask 7)"
  "(0x7e :: byte) = push_bit 1 (mask 6)"
  by (simp_all add: mask_eq_exp_minus_1)

lemma pid_of_bytes13: "pid13 (push_bit 8 (ucast (a AND 0x1f)) OR ucast (b :: byte))" for a :: byte
  unfolding pid13_def byte_masks
  by (rule bit_word_eqI) (auto simp: bit_simps dest: bit_imp_le_length)

lemma pid13_pidOf: "pid13 (pidOf p)"
  unfolding pidOf_def by (rule pid_of_bytes13)

lemma pidOf_setPID:
  assumes "2 < length p" "pid13 x"
  shows "pidOf (setPID p x) = x"
proof -
  have "push_bit 8 (ucast (((p ! 1 AND 0xe0) OR (ucast (drop_bit 8 x) AND 0x1f)) AND 0x1f)) OR ucast (ucast x :: byte)
      = take_bit 13 x"
    unfolding byte_masks by (rule bit_word_eqI) (auto simp: bit_simps dest: bit_imp_le_length)
  with assms show ?thesis
    by (simp add: pidOf_def setPID_def pid13_def nth_list_update)
qed


section \<open>Timestamps read back\<close>

lemma nth_writeTS:
  "i + 4 < length p \<Longrightarrow> j < i \<or> i + 4 < j \<Longrightarrow> writeTS p i v ! j = p ! j"
  by (auto simp: writeTS_def Let_def nth_list_update)

lemma length_writes [simp]:
  "length (setPID p x) = length p" "length (writeTS p i v) = length p"
  "length (setPESTimes p a b h) = length p" "length (setPCR p a e) = length p"
  by (simp_all add: setPID_def writeTS_def setPESTimes_def setPCR_def Let_def split: option.split)

text \<open>A number is its chunks of bits, and each byte of the code is one chunk.\<close>

lemma take_bit_chunk:
  "push_bit n (take_bit k (drop_bit n v)) OR take_bit n v = take_bit (n + k) (v :: int)"
  by (rule bit_eqI) (auto simp: bit_simps)

lemma chunks_of_33:
  "push_bit 30 (take_bit 3 (drop_bit 30 v)) OR push_bit 22 (take_bit 8 (drop_bit 22 v)) OR
   push_bit 15 (take_bit 7 (drop_bit 15 v)) OR push_bit 7 (take_bit 8 (drop_bit 7 v)) OR
   take_bit 7 v = take_bit 33 (v :: int)"
  using take_bit_chunk [of 30 3 v] take_bit_chunk [of 22 8 v] take_bit_chunk [of 15 7 v]
    take_bit_chunk [of 7 8 v]
  by simp

lemma byte_chunk:
  "uint (word_of_int (drop_bit n v) :: byte) = take_bit 8 (drop_bit n v)"
  by (simp add: unsigned_of_int)

lemma high_chunk:
  assumes "drop_bit 1 c AND 0x07 = (0 :: byte)"
  shows "uint (drop_bit 1 ((c OR (word_of_int (drop_bit 29 v) AND 0x0e) OR 1) :: byte) AND 0x07)
       = take_bit 3 (drop_bit 30 v)"
proof -
  have c: "\<not> bit c (1 + n)" if "n < 3" for n
  proof -
    have "\<not> bit (drop_bit 1 c AND 0x07) n"
      using assms by simp
    then show ?thesis using that unfolding byte_masks
      by (auto simp: bit_simps)
  qed
  show ?thesis
    unfolding byte_masks by (rule bit_eqI) (auto simp: bit_simps c simp del: push_bit_Suc One_nat_def)
qed

lemma seven_chunk:
  "uint (drop_bit 1 ((word_of_int (drop_bit 14 v) AND 0xfe) OR 1 :: byte)) = take_bit 7 (drop_bit 15 v)"
  unfolding byte_masks by (rule bit_eqI) (auto simp: bit_simps simp del: push_bit_Suc One_nat_def)

lemma low_chunk:
  "uint (drop_bit 1 (word_of_int (push_bit 1 v) OR 1 :: byte)) = take_bit 7 v"
  by (rule bit_eqI) (auto simp: bit_simps simp del: push_bit_Suc One_nat_def)

lemma readTS_writeTS:
  assumes "i + 4 < length p"
  shows "readTS (drop i (writeTS p i v)) = take_bit 33 v"
proof -
  have lt: "i < length p"
    using assms by simp
  have "v AND (ptsWrap - 1) = take_bit 33 v"
    by (simp add: ptsWrap_def take_bit_eq_mask mask_eq_exp_minus_1)
  moreover have "drop_bit 1 (p ! i AND 0xf0) AND 0x07 = (0 :: byte)"
    unfolding byte_masks by (rule bit_word_eqI) (auto simp: bit_simps)
  ultimately have "readTS (drop i (writeTS p i v)) =
      push_bit 30 (take_bit 3 (drop_bit 30 (take_bit 33 v))) OR push_bit 22 (take_bit 8 (drop_bit 22 (take_bit 33 v))) OR
      push_bit 15 (take_bit 7 (drop_bit 15 (take_bit 33 v))) OR push_bit 7 (take_bit 8 (drop_bit 7 (take_bit 33 v))) OR
      take_bit 7 (take_bit 33 v)"
    using assms by (simp only: readTS_def writeTS_def Let_def)
      (simp only: high_chunk seven_chunk byte_chunk low_chunk nth_drop length_list_update
        nth_list_update_eq nth_list_update_neq add_0_right lt)
  then show ?thesis
    by (simp only: chunks_of_33) simp
qed


lemma payloadStart_ge: "payloadStart p = Some off \<Longrightarrow> 4 \<le> off \<and> off < tsSize"
  by (auto simp: payloadStart_def Let_def split: if_splits)

lemma payloadStart_cong:
  "q ! 3 = p ! 3 \<Longrightarrow> q ! 4 = p ! 4 \<Longrightarrow> payloadStart q = payloadStart p"
  by (simp only: payloadStart_def)

lemma hasAdaptation_cong:
  "q ! 3 = p ! 3 \<Longrightarrow> q ! 4 = p ! 4 \<Longrightarrow> hasAdaptation q = hasAdaptation p"
  by (simp add: hasAdaptation_def)

text \<open>The header of a packet is below the offset of its payload.\<close>

lemma payloadStart_adaptation:
  "payloadStart p = Some off \<Longrightarrow> hasAdaptation p \<Longrightarrow> off = 5 + unat (p ! 4) \<and> 6 \<le> off"
proof -
  assume s: "payloadStart p = Some off" and h: "hasAdaptation p"
  have "(drop_bit 4 (p ! 3) AND 3) AND 2 = drop_bit 4 (p ! 3) AND 2"
    by (simp add: and.assoc)
  with h have "(drop_bit 4 (p ! 3) AND 3) AND 2 \<noteq> 0"
    by (simp add: hasAdaptation_def)
  with s have "off = 5 + unat (p ! 4)"
    by (auto simp: payloadStart_def Let_def split: if_splits)
  moreover have "0 < unat (p ! 4)"
    using h by (simp add: hasAdaptation_def word_less_nat_alt)
  ultimately show ?thesis by simp
qed

lemma readTS_cong:
  assumes "\<And>k. k < 5 \<Longrightarrow> q ! (i + k) = p ! (i + k)" "i + 5 \<le> length p" "length q = length p"
  shows "readTS (drop i q) = readTS (drop i p)"
  using assms(1)[of 0] assms(1)[of 1] assms(1)[of 2] assms(1)[of 3] assms(1)[of 4] assms(2,3)
  by (simp add: readTS_def)

lemma pesTimes_cong:
  assumes "payloadStart q = payloadStart p" "length p = tsSize" "length q = length p"
    and "\<And>off k. payloadStart p = Some off \<Longrightarrow> off \<le> k \<Longrightarrow> k < tsSize \<Longrightarrow> q ! k = p ! k"
  shows "pesTimes q = pesTimes p"
proof (cases "payloadStart p")
  case None
  with assms(1) show ?thesis by (simp add: pesTimes_def)
next
  case (Some off)
  have same: "q ! k = p ! k" if "off \<le> k" "k < tsSize" for k
    using assms(4)[OF Some that] .
  show ?thesis
  proof (cases "off + 14 \<le> tsSize")
    case True
    then have "readTS (drop (off + 9) q) = readTS (drop (off + 9) p)"
      using assms(2,3) by (intro readTS_cong) (simp_all add: same)
    moreover have "readTS (drop (off + 14) q) = readTS (drop (off + 14) p)" if "off + 19 \<le> tsSize"
      using assms(2,3) that by (intro readTS_cong) (simp_all add: same)
    ultimately show ?thesis
      using True Some assms(1) by (simp add: pesTimes_def same Let_def)
  next
    case False
    with Some assms(1) show ?thesis by (simp add: pesTimes_def not_le)
  qed
qed

lemma pesTimes_setPESTimes:
  assumes "pesTimes p = Some (pts, dts, h)" "length p = tsSize"
  shows "pesTimes (setPESTimes p a b h) =
    Some (take_bit 33 a, if h then take_bit 33 b else take_bit 33 a, h)"
proof -
  obtain off where off: "payloadStart p = Some off"
    using assms by (cases "payloadStart p") (simp_all add: pesTimes_def)
  then have fit: "off + 14 \<le> tsSize" "p ! off = 0" "p ! (off + 1) = 0" "p ! (off + 2) = 1"
      "drop_bit 6 (p ! (off + 7)) AND 2 \<noteq> 0"
    and h: "h \<longleftrightarrow> drop_bit 6 (p ! (off + 7)) = 3 \<and> off + 19 \<le> tsSize"
    using assms(1) by (auto simp: pesTimes_def Let_def split: if_splits)
  have lo: "4 \<le> off" using payloadStart_ge[OF off] by simp
  define q where "q = setPESTimes p a b h"
  have keep: "q ! j = p ! j" if "j < off + 9" for j
    using that fit(1) h assms(2) off by (auto simp: q_def setPESTimes_def Let_def nth_writeTS)
  have start: "payloadStart q = Some off"
    using lo by (subst payloadStart_cong[of q p]) (simp_all add: keep off)
  have first: "readTS (drop (off + 9) q) = take_bit 33 a"
  proof (cases h)
    case True
    have "readTS (drop (off + 9) q) = readTS (drop (off + 9) (writeTS p (off + 9) a))"
      using True h assms(2) by (intro readTS_cong) (simp_all add: q_def setPESTimes_def off Let_def nth_writeTS)
    with fit assms(2) show ?thesis by (simp add: readTS_writeTS)
  next
    case False
    with fit assms(2) show ?thesis by (simp add: q_def setPESTimes_def off readTS_writeTS)
  qed
  have second: "readTS (drop (off + 14) q) = take_bit 33 b" if h
    using that h assms(2) by (simp add: q_def setPESTimes_def off Let_def readTS_writeTS)
  have "pesTimes q = Some (take_bit 33 a, if h then take_bit 33 b else take_bit 33 a, h)"
    using fit h second first by (auto simp: pesTimes_def start keep Let_def)
  then show ?thesis by (simp only: q_def)
qed


lemma chunks_of_33_pcr:
  "push_bit 25 (take_bit 8 (drop_bit 25 v)) OR push_bit 17 (take_bit 8 (drop_bit 17 v)) OR
   push_bit 9 (take_bit 8 (drop_bit 9 v)) OR push_bit 1 (take_bit 8 (drop_bit 1 v)) OR
   take_bit 1 v = take_bit 33 (v :: int)"
  using take_bit_chunk [of 25 8 v] take_bit_chunk [of 17 8 v] take_bit_chunk [of 9 8 v]
    take_bit_chunk [of 1 8 v]
  by simp

lemma top_chunk:
  "uint (drop_bit 7 (word_of_int (push_bit 7 v) OR 0x7e OR (c AND 1) :: byte)) = take_bit 1 v"
  unfolding byte_masks by (rule bit_eqI) (auto simp: bit_simps simp del: push_bit_Suc One_nat_def)

lemma ninth_chunk:
  "uint ((word_of_int (push_bit 7 v) OR 0x7e OR (word_of_int (drop_bit 8 e) AND 1)) AND 1 :: byte)
    = take_bit 1 (drop_bit 8 e)"
  unfolding byte_masks by (rule bit_eqI) (auto simp: bit_simps simp del: push_bit_Suc One_nat_def)

lemma nth_setPCR:
  "11 < length p \<Longrightarrow> k < 6 \<or> 11 < k \<Longrightarrow> setPCR p a e ! k = p ! k"
  by (auto simp: setPCR_def Let_def nth_list_update)

lemma pcr_setPCR:
  assumes "pcr p = Some be" "length p = tsSize"
  shows "pcr (setPCR p a e) = Some (take_bit 33 a, take_bit 9 e)"
proof -
  have v: "a AND (ptsWrap - 1) = take_bit 33 a"
    by (simp add: ptsWrap_def take_bit_eq_mask mask_eq_exp_minus_1)
  have len: "11 < length p"
    using assms(2) by (simp add: tsSize_def)
  have keep: "setPCR p a e ! k = p ! k" if "k < 6" for k
    using that len by (simp add: nth_setPCR)
  have guard: "hasAdaptation (setPCR p a e)" "setPCR p a e ! 5 AND 0x10 \<noteq> 0" "\<not> setPCR p a e ! 4 < 7"
    using assms(1) hasAdaptation_cong[of "setPCR p a e" p]
    by (auto simp: pcr_def keep split: if_splits)
  have w: "setPCR p a e ! 6 = word_of_int (drop_bit 25 (take_bit 33 a))"
      "setPCR p a e ! 7 = word_of_int (drop_bit 17 (take_bit 33 a))"
      "setPCR p a e ! 8 = word_of_int (drop_bit 9 (take_bit 33 a))"
      "setPCR p a e ! 9 = word_of_int (drop_bit 1 (take_bit 33 a))"
      "setPCR p a e ! 10 = word_of_int (push_bit 7 (take_bit 33 a)) OR 0x7e OR (word_of_int (drop_bit 8 e) AND 1)"
      "setPCR p a e ! 11 = word_of_int e"
    using len unfolding setPCR_def Let_def v by (simp_all only: nth_list_update length_list_update) simp_all
  have base: "push_bit 25 (uint (setPCR p a e ! 6)) OR push_bit 17 (uint (setPCR p a e ! 7)) OR
      push_bit 9 (uint (setPCR p a e ! 8)) OR push_bit 1 (uint (setPCR p a e ! 9)) OR
      uint (drop_bit 7 (setPCR p a e ! 10)) = take_bit 33 a"
    unfolding w byte_chunk top_chunk chunks_of_33_pcr by simp
  have "uint (word_of_int e :: byte) = take_bit 8 e"
    using byte_chunk[of 0 e] by simp
  then have ext: "push_bit 8 (uint (setPCR p a e ! 10 AND 1)) OR uint (setPCR p a e ! 11) = take_bit 9 e"
    unfolding w ninth_chunk using take_bit_chunk[of 8 1 e] by simp
  show ?thesis
    using guard by (simp only: pcr_def base ext) simp
qed

section \<open>Unwrapping\<close>

lemma PTSDiff_mod: "PTSDiff a b = (if ptsHalf < (a - b) mod ptsWrap then (a - b) mod ptsWrap - ptsWrap else (a - b) mod ptsWrap)"
  unfolding PTSDiff_def Let_def using go_rem_wrap[of ptsWrap "a - b"]
  by (simp add: ptsWrap_def)

lemma PTSDiff_range: "- ptsHalf < PTSDiff a b \<and> PTSDiff a b \<le> ptsHalf"
  using pos_mod_bound[of ptsWrap "a - b"] pos_mod_sign[of ptsWrap "a - b"]
  by (auto simp: PTSDiff_mod ptsWrap_def ptsHalf_def)

lemma PTSDiff_cong: "PTSDiff a b mod ptsWrap = (a - b) mod ptsWrap"
  by (simp add: PTSDiff_mod)

lemma unwrap_Some:
  "m pid = Some prev \<Longrightarrow> unwrap m pid raw = (prev + PTSDiff raw prev, m(pid \<mapsto> prev + PTSDiff raw prev))"
  by (simp add: unwrap_def PTSDiff_def Let_def)

lemma unwrap_None: "m pid = None \<Longrightarrow> unwrap m pid raw = (raw, m(pid \<mapsto> raw))"
  by (simp add: unwrap_def)

lemma unwrap_near:
  assumes "unwrap m pid raw = (u, m')" "m pid = Some prev"
  shows "- ptsHalf < u - prev \<and> u - prev \<le> ptsHalf"
  using assms PTSDiff_range[of raw prev] by (simp add: unwrap_Some)

lemma unwrap_mod:
  assumes "unwrap m pid raw = (u, m')"
  shows "u mod ptsWrap = raw mod ptsWrap"
proof (cases "m pid")
  case (Some prev)
  have "(prev + PTSDiff raw prev) mod ptsWrap = (prev + (raw - prev)) mod ptsWrap"
    by (metis PTSDiff_cong mod_add_right_eq)
  with Some assms show ?thesis by (simp add: unwrap_Some)
qed (use assms in \<open>simp add: unwrap_None\<close>)

text \<open>The difference reaches \<open>2 ^ 32\<close> itself, against the strict bound of the comment.\<close>

lemma PTSDiff_reaches_half: "PTSDiff (2 ^ 32) 0 = 2 ^ 32"
  by (simp add: PTSDiff_mod ptsWrap_def ptsHalf_def)

text \<open>
  Every timestamp the relay writes reads back as its value modulo
  \<open>2 ^ 33\<close>: the PTS and the DTS of a PES header that has them, and an adaptation
  field's PCR base and nine-bit extension; and the unwrapping undoes the wrap, giving
  the value with those 33 bits that is closest to the stream's last one (at most
  \<open>2 ^ 32\<close> away, so the 33 bits lose nothing while a clock moves by less than half its range).
\<close>

theorem timestamps_roundtrip:
  assumes "length p = tsSize"
  shows "(pesTimes p = Some (pts, dts, h) \<longrightarrow>
      pesTimes (setPESTimes p a b h) = Some (take_bit 33 a, if h then take_bit 33 b else take_bit 33 a, h)) \<and>
    (pcr p \<noteq> None \<longrightarrow> pcr (setPCR p a e) = Some (take_bit 33 a, take_bit 9 e)) \<and>
    (\<forall>prev. m pid = Some prev \<and> \<bar>u - prev\<bar> < ptsHalf \<longrightarrow> fst (unwrap m pid (take_bit 33 u)) = u)"
proof (intro conjI impI allI)
  fix prev
  assume near: "m pid = Some prev \<and> \<bar>u - prev\<bar> < ptsHalf"
  let ?d = "PTSDiff (take_bit 33 u) prev"
  have w: "ptsWrap = 2 * ptsHalf" "0 < ptsHalf"
    by (simp_all add: ptsWrap_def ptsHalf_def)
  have "take_bit 33 u = u mod ptsWrap"
    by (simp add: take_bit_eq_mod ptsWrap_def)
  then have "?d mod ptsWrap = (u - prev) mod ptsWrap"
    by (simp add: PTSDiff_cong mod_diff_left_eq)
  then obtain k where k: "?d = (u - prev) + k * ptsWrap"
    by (metis add.commute mod_eqE mult.commute diff_add_cancel mod_eq_dvd_iff dvd_def)
  moreover have "- ptsHalf < ?d" "?d \<le> ptsHalf"
    using PTSDiff_range by auto
  moreover have "- ptsHalf < u - prev" "u - prev < ptsHalf"
    using near by auto
  ultimately have "- 1 * ptsWrap < k * ptsWrap" "k * ptsWrap < 1 * ptsWrap"
    using w(1) by linarith+
  moreover have "0 < ptsWrap"
    using w by simp
  ultimately have "- 1 < k" "k < 1"
    using mult_less_cancel_right_pos by blast+
  then have "k = 0" by simp
  with k near show "fst (unwrap m pid (take_bit 33 u)) = u"
    by (simp add: unwrap_Some)
qed (use assms pesTimes_setPESTimes pcr_setPCR in auto)

definition sample_pes :: packet where
  "sample_pes =
    [0x47, 0x41, 0x00, 0x30, 0x07, 0x10, 0, 0, 0, 0, 0x7e, 0,
     0, 0, 1, 0xE0, 0, 0, 0x80, 0xC0, 10, 0x31, 0, 1, 0, 1, 0x11, 0, 1, 0, 1] @ replicate 157 0"

lemma sample_pes_facts:
  "length sample_pes = tsSize" "pesTimes sample_pes = Some (0, 0, True)" "pcr sample_pes \<noteq> None"
  by code_simp+

theorem timestamps_roundtrip_witness:
  "pesTimes (setPESTimes sample_pes (2 ^ 33 + 5) 7 True) = Some (5, 7, True) \<and>
   pcr (setPCR sample_pes (- 1) 300) = Some (2 ^ 33 - 1, 300) \<and>
   fst (unwrap [256 \<mapsto> 2 ^ 33 - 1] 256 (take_bit 33 (2 ^ 33 + 5))) = 2 ^ 33 + 5"
  using timestamps_roundtrip[OF sample_pes_facts(1), where pts = 0 and dts = 0 and h = True and a = "2 ^ 33 + 5"
      and b = 7 and m = "[256 \<mapsto> 2 ^ 33 - 1]" and pid = 256 and u = "2 ^ 33 + 5"]
    timestamps_roundtrip[OF sample_pes_facts(1), where a = "- 1" and e = 300]
    sample_pes_facts(2,3)
  by (simp add: ptsHalf_def take_bit_eq_mod)

end
