(* ===== verification/TS_Retimer.thy ===== *)
theory TS_Retimer
  imports TS_Packet "HOL-Library.AList"
begin

text \<open>
  The relay's retimer (\<open>streaming/internal/frontdoor/relay/tsfix.go\<close>): it turns the
  transport streams of successive sources into one continuous program for one
  long-lived encoder. Its state is the code's record; the Go maps keyed by PID are maps,
  except the PID map of a source, which the code counts and iterates over and which is an
  association list (the iterations do not depend on the order). A \<open>nil\<close> slice or packet
  is \<open>[]\<close> or \<open>None\<close>; the buffer the packets are written to is the list of the packets.
  A nil entry of \<open>held\<close> is an absent one.
\<close>

section \<open>State\<close>

record heldPES =
  pkts :: "packet list"
  want :: nat
  got :: nat

record Retimer =
  outPMT :: pid
  outES :: "esInfo list"
  outVideo :: pid
  patPkt :: "packet option"
  pmtPkt :: "packet option"
  srcPMT :: pid
  srcES :: "esInfo list"
  pidMap :: "(pid \<times> pid) list"
  srcVideo :: pid
  haveSrc :: bool
  needIDR :: bool
  unwrapPTS :: "pid \<rightharpoonup> int"
  unwrapPCR :: "pid \<rightharpoonup> int"
  dropPES :: "pid \<Rightarrow> bool"
  ts_offset :: int
  lastDTS :: "pid \<rightharpoonup> int"
  lastV :: int
  haveV :: bool
  frame :: int
  cc :: "pid \<rightharpoonup> byte"
  pending :: bytes
  outBuf :: "packet list"
  switches :: nat
  held :: "pid \<rightharpoonup> heldPES"
  jumps :: nat

datatype ts_error = ErrParamChange

definition resetSource :: "Retimer \<Rightarrow> Retimer" where
  "resetSource r = r
    \<lparr>haveSrc := False, needIDR := True, srcPMT := 0, srcES := [], srcVideo := 0,
     pidMap := [], unwrapPTS := Map.empty, unwrapPCR := Map.empty,
     dropPES := (\<lambda>_. False), pending := []\<rparr>"

definition NewRetimer :: Retimer where
  "NewRetimer = resetSource
    \<lparr>outPMT = 0, outES = [], outVideo = 0, patPkt = None, pmtPkt = None,
     srcPMT = 0, srcES = [], pidMap = [], srcVideo = 0, haveSrc = False, needIDR = False,
     unwrapPTS = Map.empty, unwrapPCR = Map.empty, dropPES = (\<lambda>_. False),
     ts_offset = 0, lastDTS = Map.empty, lastV = 0, haveV = False, frame = defaultFrame,
     cc = Map.empty, pending = [], outBuf = [], switches = 0, held = Map.empty, jumps = 0\<rparr>"

definition Switch :: "Retimer \<Rightarrow> Retimer" where
  "Switch r = (resetSource (r\<lparr>held := Map.empty\<rparr>))\<lparr>switches := switches r + 1\<rparr>"

definition Resync :: "Retimer \<Rightarrow> Retimer" where
  "Resync r = r\<lparr>needIDR := True, dropPES := (\<lambda>_. False)\<rparr>"

definition Joined :: "Retimer \<Rightarrow> bool" where
  "Joined r \<longleftrightarrow> haveSrc r \<and> \<not> needIDR r"

definition Offset :: "Retimer \<Rightarrow> int" where
  "Offset r = ts_offset r"

section \<open>Output\<close>

definition emit :: "Retimer \<Rightarrow> packet \<Rightarrow> pid \<Rightarrow> Retimer" where
  "emit r p0 outPID =
    (let p = setPID p0 outPID in
     if drop_bit 4 (p ! 3) AND 1 \<noteq> 0 then
       let c = (case cc r outPID of Some c \<Rightarrow> (c + 1) AND 0x0f | None \<Rightarrow> p ! 3 AND 0x0f) in
       r\<lparr>cc := (cc r)(outPID \<mapsto> c), outBuf := outBuf r @ [p[3 := (p ! 3 AND 0xf0) OR c]]\<rparr>
     else r\<lparr>outBuf := outBuf r @ [p]\<rparr>)"

definition emitPat :: "Retimer \<Rightarrow> Retimer" where
  "emitPat r = (case patPkt r of Some q \<Rightarrow> emit r q 0 | None \<Rightarrow> r)"

definition emitPmt :: "Retimer \<Rightarrow> Retimer" where
  "emitPmt r = (case pmtPkt r of Some q \<Rightarrow> emit r q (outPMT r) | None \<Rightarrow> r)"

definition emitHeaders :: "Retimer \<Rightarrow> Retimer" where
  "emitHeaders r = emitPmt (emitPat r)"

definition identity :: "Retimer \<Rightarrow> bool" where
  "identity r \<longleftrightarrow> srcPMT r = outPMT r \<and> list_all (\<lambda>(i, out). i = out) (pidMap r)"

definition emitPSI :: "Retimer \<Rightarrow> packet \<Rightarrow> pid \<Rightarrow> Retimer" where
  "emitPSI r p outPID =
    (if identity r then emit r p outPID
     else if outPID = 0 \<and> patPkt r \<noteq> None then emitPat r
     else emitPmt r)"

section \<open>A new source\<close>

text \<open>
  The first stream of the output program with the source stream's type that is not used
  yet; each source stream in turn, until one has none.
\<close>

fun map_streams :: "esInfo list \<Rightarrow> esInfo list \<Rightarrow> (pid \<times> pid) list \<Rightarrow> pid list
    \<Rightarrow> ((pid \<times> pid) list) option" where
  "map_streams outs [] m used = Some m"
| "map_streams outs (e # es) m used =
    (case find (\<lambda>out. es_typ out = es_typ e \<and> es_pid out \<notin> set used) outs of
       None \<Rightarrow> None
     | Some out \<Rightarrow> map_streams outs es (AList.update (es_pid e) (es_pid out) m) (es_pid out # used))"

text \<open>The PID of the first video stream whose PID is not 0 (0: none), as \<open>video == 0\<close> tests it.\<close>

fun first_video :: "esInfo list \<Rightarrow> pid" where
  "first_video [] = 0"
| "first_video (e # es) = (if isVideo (es_typ e) \<and> es_pid e \<noteq> 0 then es_pid e else first_video es)"

definition mapSource :: "Retimer \<Rightarrow> esInfo list \<Rightarrow> packet \<Rightarrow> Retimer \<times> ts_error option" where
  "mapSource r0 es pmt =
    (let r = (if outES r0 = []
              then r0\<lparr>outES := es, pmtPkt := Some pmt,
                      outVideo := (if outVideo r0 = 0 then first_video es else outVideo r0)\<rparr>
              else r0) in
     case map_streams (outES r) es [] [] of
       None \<Rightarrow> (r, Some ErrParamChange)
     | Some m \<Rightarrow>
         if length m \<noteq> length (outES r) \<or> first_video es = 0 then (r, Some ErrParamChange)
         else (r\<lparr>pidMap := m, srcES := es, srcVideo := first_video es, haveSrc := True\<rparr>, None))"

section \<open>Held PES packets\<close>

definition flushHeld :: "Retimer \<Rightarrow> pid \<Rightarrow> packet list \<Rightarrow> Retimer" where
  "flushHeld r out qs = foldl (\<lambda>r q. emit r q out) r qs"

definition collect :: "Retimer \<Rightarrow> packet \<Rightarrow> pid \<Rightarrow> heldPES \<Rightarrow> Retimer" where
  "collect r p out h0 =
    (let h = h0\<lparr>pkts := pkts h0 @ [p], got := got h0 + payloadLen p\<rparr> in
     if want h \<le> got h then (flushHeld r out (pkts h))\<lparr>held := (held r)(out := None)\<rparr>
     else r\<lparr>held := (held r)(out \<mapsto> h)\<rparr>)"

definition hold :: "Retimer \<Rightarrow> packet \<Rightarrow> pid \<Rightarrow> bool \<Rightarrow> Retimer" where
  "hold r p out pusi =
    (if pusi then
       let r1 = (case held r out of Some h \<Rightarrow> flushHeld r out (pkts h) | None \<Rightarrow> r);
           n = pesLength p in
       if n = 0 then emit (r1\<lparr>held := (held r1)(out := None)\<rparr>) p out
       else collect r1 p out \<lparr>pkts = [], want = n, got = 0\<rparr>
     else (case held r out of
             None \<Rightarrow> emit r p out
           | Some h \<Rightarrow> collect r p out h))"

section \<open>A packet\<close>

text \<open>
  Joining a source at a keyframe of its video: the packet's time becomes the output's
  last one plus a frame, and the other streams wait for their next PES. \<open>None\<close>: the
  packet is dropped, and the source is still waited for.
\<close>

definition join_at :: "Retimer \<Rightarrow> packet \<Rightarrow> pid \<Rightarrow> Retimer option" where
  "join_at r p pid =
    (if pid \<noteq> srcVideo r \<or> p ! 1 AND 0x40 = 0 \<or> \<not> keyframe p then None
     else (case pesTimes p of
             None \<Rightarrow> None
           | Some (_, dts, _) \<Rightarrow>
               let (u, m) = unwrap (unwrapPTS r) pid dts;
                   r1 = r\<lparr>unwrapPTS := m\<rparr>;
                   r2 = (if haveV r1 then r1\<lparr>ts_offset := lastV r1 + frame r1 - u\<rparr> else r1);
                   r3 = emitHeaders (r2\<lparr>needIDR := False\<rparr>) in
               Some (r3\<lparr>dropPES := (\<lambda>i. if i \<in> fst ` set (pidMap r3) \<and> i \<noteq> srcVideo r3 then True
                                        else dropPES r3 i)\<rparr>)))"

text \<open>The PTS of the packet relative to its DTS.\<close>

definition pts_delta :: "int \<Rightarrow> int \<Rightarrow> int" where
  "pts_delta pts dts =
    (let d = go_rem (pts - dts) ptsWrap in
     if ptsHalf < d then d - ptsWrap else if d < - ptsHalf then d + ptsWrap else d)"

text \<open>
  The video's time: one that does not come after the last, or jumps far ahead of it, is
  moved to a frame after it; a plausible distance is the length of a frame from then on.
\<close>

definition even_jump :: "Retimer \<Rightarrow> int \<Rightarrow> Retimer \<times> int" where
  "even_jump r t =
    (if haveV r \<and> (t \<le> lastV r \<or> lastV r + maxJump < t)
     then (r\<lparr>ts_offset := ts_offset r + (lastV r + frame r - t), jumps := jumps r + 1\<rparr>,
           lastV r + frame r)
     else (r, t))"

definition learn_frame :: "Retimer \<Rightarrow> int \<Rightarrow> Retimer" where
  "learn_frame r t =
    (let d = t - lastV r in
     if haveV r \<and> 0 < d \<and> d \<le> go_quot clock90k 5 then r\<lparr>frame := d\<rparr> else r)"

definition retime_video :: "Retimer \<Rightarrow> int \<Rightarrow> Retimer \<times> int" where
  "retime_video r t0 =
    (let (r1, t) = even_jump r t0 in ((learn_frame r1 t)\<lparr>lastV := t, haveV := True\<rparr>, t))"

text \<open>
  The map to unwrap the packet's DTS in: the first one of another stream is unwrapped
  near the video's clock.
\<close>

definition near_video :: "Retimer \<Rightarrow> pid \<Rightarrow> (pid \<rightharpoonup> int)" where
  "near_video r pid =
    (if unwrapPTS r pid = None \<and> pid \<noteq> srcVideo r
     then (case unwrapPTS r (srcVideo r) of
             Some v \<Rightarrow> (unwrapPTS r)(pid \<mapsto> v)
           | None \<Rightarrow> unwrapPTS r)
     else unwrapPTS r)"

text \<open>Another stream's time: a PES that does not come after the last one sent is dropped (\<open>Inl\<close>).\<close>

definition retime_other :: "Retimer \<Rightarrow> int \<Rightarrow> pid \<Rightarrow> pid \<Rightarrow> Retimer + Retimer" where
  "retime_other r t pid out =
    (if (case lastDTS r out of Some l \<Rightarrow> t \<le> l | None \<Rightarrow> False)
     then Inl (r\<lparr>dropPES := (dropPES r)(pid := True)\<rparr>)
     else Inr (r\<lparr>dropPES := (dropPES r)(pid := False), lastDTS := (lastDTS r)(out \<mapsto> t)\<rparr>))"

text \<open>
  The times of a packet that starts a PES. \<open>Inl r\<close>: the packet is dropped;
  \<open>Inr (r, p)\<close>: it goes on, rewritten.
\<close>

definition retime :: "Retimer \<Rightarrow> packet \<Rightarrow> pid \<Rightarrow> pid \<Rightarrow> Retimer + (Retimer \<times> packet)" where
  "retime r p pid out =
    (case pesTimes p of
       None \<Rightarrow> Inr (r, p)
     | Some (pts, dts, hasDTS) \<Rightarrow>
         let (up, m) = unwrap (near_video r pid) pid dts;
             r1 = r\<lparr>unwrapPTS := m\<rparr>;
             t0 = up + ts_offset r1 in
         if pid = srcVideo r1 then
           let (r2, t) = retime_video r1 t0 in
           Inr (r2\<lparr>lastDTS := (lastDTS r2)(out \<mapsto> t)\<rparr>, setPESTimes p (t + pts_delta pts dts) t hasDTS)
         else (case retime_other r1 t0 pid out of
                 Inl r2 \<Rightarrow> Inl r2
               | Inr r2 \<Rightarrow> Inr (r2, setPESTimes p (t0 + pts_delta pts dts) t0 hasDTS)))"

text \<open>The PCR shifted by the same offset, and the discontinuity flag cleared.\<close>

definition shift_pcr :: "Retimer \<Rightarrow> packet \<Rightarrow> pid \<Rightarrow> Retimer \<times> packet" where
  "shift_pcr r p pid =
    (let (r1, p1) = (case pcr p of
           None \<Rightarrow> (r, p)
         | Some (base, ext) \<Rightarrow>
             let (u, m) = unwrap (unwrapPCR r) pid base in
             (r\<lparr>unwrapPCR := m\<rparr>, setPCR p (u + ts_offset r) ext)) in
     (r1, if hasAdaptation p1 then p1[5 := p1 ! 5 AND NOT 0x80] else p1))"

definition forward :: "Retimer \<Rightarrow> packet \<Rightarrow> pid \<Rightarrow> pid \<Rightarrow> Retimer" where
  "forward r p pid out =
    (let pusi = (p ! 1 AND 0x40 \<noteq> 0) in
     case (if needIDR r then join_at r p pid else Some r) of
       None \<Rightarrow> r
     | Some r1 \<Rightarrow>
         (case (if pusi then retime r1 p pid out
                else if dropPES r1 pid then Inl r1 else Inr (r1, p)) of
            Inl r2 \<Rightarrow> r2
          | Inr (r2, p2) \<Rightarrow>
              let (r3, p3) = shift_pcr r2 p2 pid in hold r3 p3 out pusi))"

definition packet :: "Retimer \<Rightarrow> packet \<Rightarrow> Retimer \<times> ts_error option" where
  "packet r p =
    (let pid = pidOf p in
     if pid = 0 then
       let pmt = parsePAT (section_of p);
           r1 = (if pmt \<noteq> 0 then
                   let r0 = r\<lparr>srcPMT := pmt\<rparr> in
                   if patPkt r0 = None then r0\<lparr>patPkt := Some p, outPMT := pmt\<rparr> else r0
                 else r) in
       (if Joined r1 then emitPSI r1 p 0 else r1, None)
     else if srcPMT r \<noteq> 0 \<and> pid = srcPMT r then
       let es = parsePMT (section_of p);
           (r1, err) = (if es \<noteq> [] \<and> \<not> haveSrc r then mapSource r es p else (r, None)) in
       (case err of
          Some e \<Rightarrow> (r1, Some e)
        | None \<Rightarrow> (if Joined r1 then emitPSI r1 p (outPMT r1) else r1, None))
     else if pid < 0x20 \<or> pid = 0x1fff then
       (if Joined r \<and> pid \<noteq> 0x1fff then emit r p pid else r, None)
     else if \<not> haveSrc r then (r, None)
     else (case map_of (pidMap r) pid of
             None \<Rightarrow> (r, None)
           | Some out \<Rightarrow> (forward r p pid out, None)))"

section \<open>Bytes in any chunks\<close>

text \<open>
  The rest of the input from the next place that looks like a packet start: a sync byte
  with another one a packet later, as far as the input goes.
\<close>

fun resync_in :: "bytes \<Rightarrow> bytes" where
  "resync_in [] = []"
| "resync_in (x # xs) =
    (if x = tsSync \<and> (length (x # xs) \<le> tsSize \<or> (x # xs) ! tsSize = tsSync) then x # xs
     else resync_in xs)"

lemma length_resync_in: "length (resync_in xs) \<le> length xs"
  by (induction xs) auto

function process_loop :: "Retimer \<Rightarrow> bytes \<Rightarrow> Retimer \<times> ts_error option" where
  "process_loop r b =
    (if b = [] then (r, None)
     else if hd b \<noteq> tsSync then process_loop r (resync_in (tl b))
     else if length b < tsSize then (r\<lparr>pending := b\<rparr>, None)
     else (case packet r (take tsSize b) of
             (r1, Some e) \<Rightarrow> (r1, Some e)
           | (r1, None) \<Rightarrow> process_loop r1 (drop tsSize b)))"
  by pat_completeness auto

lemma resync_in_shorter: "b \<noteq> [] \<Longrightarrow> length (resync_in (tl b)) < length b"
  using length_resync_in[of "tl b"] by (cases b) auto

termination process_loop
  by (relation "measure (\<lambda>(r, b). length b)") (auto simp: tsSize_def dest: resync_in_shorter)

declare process_loop.simps [simp del]

text \<open>The bytes of the packets written, or the error (and then none of them).\<close>

definition Process :: "Retimer \<Rightarrow> bytes \<Rightarrow> Retimer \<times> (ts_error + bytes)" where
  "Process r0 b =
    (let r = r0\<lparr>outBuf := []\<rparr>;
         done = (\<lambda>(r, err). (r, case err of Some e \<Rightarrow> Inl e | None \<Rightarrow> Inr (concat (outBuf r)))) in
     if pending r \<noteq> [] then
       let need = tsSize - length (pending r) in
       if length b < need then (r\<lparr>pending := pending r @ b\<rparr>, Inr [])
       else (case packet (r\<lparr>pending := []\<rparr>) (pending r @ take need b) of
               (r1, Some e) \<Rightarrow> (r1, Inl e)
             | (r1, None) \<Rightarrow> done (process_loop r1 (drop need b)))
     else done (process_loop r b))"


section \<open>What was written before does not matter\<close>

text \<open>
  The same state with \<open>xs\<close> already written and \<open>q\<close> pending: every operation on a
  packet runs alike from both, and appends.
\<close>

definition after :: "packet list \<Rightarrow> bytes \<Rightarrow> Retimer \<Rightarrow> Retimer" where
  "after xs q r = r\<lparr>outBuf := xs @ outBuf r, pending := q\<rparr>"

lemma after_sel [simp]:
  "outPMT (after xs q r) = outPMT r" "outES (after xs q r) = outES r" "outVideo (after xs q r) = outVideo r"
  "patPkt (after xs q r) = patPkt r" "pmtPkt (after xs q r) = pmtPkt r" "srcPMT (after xs q r) = srcPMT r"
  "srcES (after xs q r) = srcES r" "pidMap (after xs q r) = pidMap r" "srcVideo (after xs q r) = srcVideo r"
  "haveSrc (after xs q r) = haveSrc r" "needIDR (after xs q r) = needIDR r"
  "unwrapPTS (after xs q r) = unwrapPTS r" "unwrapPCR (after xs q r) = unwrapPCR r"
  "dropPES (after xs q r) = dropPES r" "ts_offset (after xs q r) = ts_offset r"
  "lastDTS (after xs q r) = lastDTS r" "lastV (after xs q r) = lastV r" "haveV (after xs q r) = haveV r"
  "frame (after xs q r) = frame r" "cc (after xs q r) = cc r" "held (after xs q r) = held r"
  "jumps (after xs q r) = jumps r" "switches (after xs q r) = switches r"
  "pending (after xs q r) = q" "outBuf (after xs q r) = xs @ outBuf r"
  "Joined (after xs q r) = Joined r" "identity (after xs q r) = identity r"
  by (simp_all add: after_def Joined_def identity_def)

lemma after_upd [simp]:
  "(after xs q r)\<lparr>outPMT := a\<rparr> = after xs q (r\<lparr>outPMT := a\<rparr>)"
  "(after xs q r)\<lparr>outES := b\<rparr> = after xs q (r\<lparr>outES := b\<rparr>)"
  "(after xs q r)\<lparr>outVideo := a\<rparr> = after xs q (r\<lparr>outVideo := a\<rparr>)"
  "(after xs q r)\<lparr>patPkt := c\<rparr> = after xs q (r\<lparr>patPkt := c\<rparr>)"
  "(after xs q r)\<lparr>pmtPkt := c\<rparr> = after xs q (r\<lparr>pmtPkt := c\<rparr>)"
  "(after xs q r)\<lparr>srcPMT := a\<rparr> = after xs q (r\<lparr>srcPMT := a\<rparr>)"
  "(after xs q r)\<lparr>srcES := b\<rparr> = after xs q (r\<lparr>srcES := b\<rparr>)"
  "(after xs q r)\<lparr>pidMap := d\<rparr> = after xs q (r\<lparr>pidMap := d\<rparr>)"
  "(after xs q r)\<lparr>srcVideo := a\<rparr> = after xs q (r\<lparr>srcVideo := a\<rparr>)"
  "(after xs q r)\<lparr>haveSrc := t\<rparr> = after xs q (r\<lparr>haveSrc := t\<rparr>)"
  "(after xs q r)\<lparr>needIDR := t\<rparr> = after xs q (r\<lparr>needIDR := t\<rparr>)"
  "(after xs q r)\<lparr>unwrapPTS := m\<rparr> = after xs q (r\<lparr>unwrapPTS := m\<rparr>)"
  "(after xs q r)\<lparr>unwrapPCR := m\<rparr> = after xs q (r\<lparr>unwrapPCR := m\<rparr>)"
  "(after xs q r)\<lparr>dropPES := f\<rparr> = after xs q (r\<lparr>dropPES := f\<rparr>)"
  "(after xs q r)\<lparr>ts_offset := i\<rparr> = after xs q (r\<lparr>ts_offset := i\<rparr>)"
  "(after xs q r)\<lparr>lastDTS := m\<rparr> = after xs q (r\<lparr>lastDTS := m\<rparr>)"
  "(after xs q r)\<lparr>lastV := i\<rparr> = after xs q (r\<lparr>lastV := i\<rparr>)"
  "(after xs q r)\<lparr>haveV := t\<rparr> = after xs q (r\<lparr>haveV := t\<rparr>)"
  "(after xs q r)\<lparr>frame := i\<rparr> = after xs q (r\<lparr>frame := i\<rparr>)"
  "(after xs q r)\<lparr>cc := n\<rparr> = after xs q (r\<lparr>cc := n\<rparr>)"
  "(after xs q r)\<lparr>held := h\<rparr> = after xs q (r\<lparr>held := h\<rparr>)"
  "(after xs q r)\<lparr>jumps := k\<rparr> = after xs q (r\<lparr>jumps := k\<rparr>)"
  "(after xs q r)\<lparr>outBuf := xs @ ys\<rparr> = after xs q (r\<lparr>outBuf := ys\<rparr>)"
  "(after xs q r)\<lparr>pending := q'\<rparr> = after xs q' r"
  by (simp_all add: after_def)

named_theorems aft "operations on packets commute with \<open>after\<close>"

lemma after_emit [aft]: "emit (after xs q r) p out = after xs q (emit r p out)"
  by (simp add: emit_def Let_def split: option.split)

lemma after_emitPat [aft]: "emitPat (after xs q r) = after xs q (emitPat r)"
  by (simp add: emitPat_def aft split: option.split)

lemma after_emitPmt [aft]: "emitPmt (after xs q r) = after xs q (emitPmt r)"
  by (simp add: emitPmt_def aft split: option.split)

lemma after_emitHeaders [aft]: "emitHeaders (after xs q r) = after xs q (emitHeaders r)"
  by (simp add: emitHeaders_def aft)

lemma after_emitPSI [aft]: "emitPSI (after xs q r) p out = after xs q (emitPSI r p out)"
  unfolding emitPSI_def by (simp only: after_sel aft if_distrib[of "after xs q"])

lemma after_flushHeld [aft]: "flushHeld (after xs q r) out qs = after xs q (flushHeld r out qs)"
  unfolding flushHeld_def by (induction qs arbitrary: r) (simp_all add: aft)

lemma after_collect [aft]: "collect (after xs q r) p out h = after xs q (collect r p out h)"
  by (simp add: collect_def Let_def aft)

lemma after_hold [aft]: "hold (after xs q r) p out pusi = after xs q (hold r p out pusi)"
  by (simp add: hold_def Let_def aft split: option.split)

lemma after_mapSource [aft]:
  "mapSource (after xs q r) es pmt = map_prod (after xs q) id (mapSource r es pmt)"
  by (simp add: mapSource_def Let_def split: option.split)

lemma after_join_at [aft]:
  "join_at (after xs q r) p pid = map_option (after xs q) (join_at r p pid)"
  by (simp add: join_at_def Let_def aft split: option.split prod.split)

lemma after_even_jump [aft]: "even_jump (after xs q r) t = map_prod (after xs q) id (even_jump r t)"
  unfolding even_jump_def
  by (simp only: after_sel after_upd if_distrib[of "map_prod (after xs q) id"] map_prod_simp id_apply)

lemma after_learn_frame [aft]: "learn_frame (after xs q r) t = after xs q (learn_frame r t)"
  unfolding learn_frame_def Let_def by (simp only: after_sel after_upd if_distrib[of "after xs q"])

lemma after_retime_video [aft]:
  "retime_video (after xs q r) t = map_prod (after xs q) id (retime_video r t)"
  by (simp add: retime_video_def aft split_beta)

lemma after_near_video [aft]: "near_video (after xs q r) pid = near_video r pid"
  unfolding near_video_def by (simp only: after_sel)

lemma after_retime_other [aft]:
  "retime_other (after xs q r) t pid out = map_sum (after xs q) (after xs q) (retime_other r t pid out)"
  by (auto simp: retime_other_def)

lemma after_retime [aft]:
  "retime (after xs q r) p pid out = map_sum (after xs q) (map_prod (after xs q) id) (retime r p pid out)"
  by (auto simp: retime_def Let_def aft split_beta split: option.split sum.split)

lemma after_shift_pcr [aft]:
  "shift_pcr (after xs q r) p pid = map_prod (after xs q) id (shift_pcr r p pid)"
  by (simp add: shift_pcr_def Let_def split: option.split prod.split)


lemma after_forward [aft]: "forward (after xs q r) p pid out = after xs q (forward r p pid out)"
proof -
  have "(if needIDR (after xs q r) then join_at (after xs q r) p pid else Some (after xs q r))
      = map_option (after xs q) (if needIDR r then join_at r p pid else Some r)"
    by (simp add: aft)
  then show ?thesis
    unfolding forward_def Let_def
    by (cases "if needIDR r then join_at r p pid else Some r")
      (auto simp: aft split_beta split: sum.split)
qed

lemma after_packet [aft]: "packet (after xs q r) p = map_prod (after xs q) id (packet r p)"
  by (auto simp: packet_def Let_def aft split_beta split: option.split)


section \<open>Any chunking gives the same stream\<close>

text \<open>
  The reference: the input cut every 188 bytes, whatever the writes it came in, with the
  rest kept. A stream is \<open>aligned\<close> when each of those packets begins with the sync byte.
\<close>

function drive :: "Retimer \<Rightarrow> bytes \<Rightarrow> ts_error + Retimer" where
  "drive r s =
    (if length s < tsSize then Inr (r\<lparr>pending := s\<rparr>)
     else (case packet r (take tsSize s) of
             (_, Some e) \<Rightarrow> Inl e
           | (r1, None) \<Rightarrow> drive r1 (drop tsSize s)))"
  by pat_completeness auto

termination drive
  by (relation "measure (\<lambda>(r, s). length s)") (auto simp: tsSize_def)

declare drive.simps [simp del]

definition aligned :: "bytes \<Rightarrow> bool" where
  "aligned s \<longleftrightarrow> (\<forall>i < length s. i mod tsSize = 0 \<longrightarrow> s ! i = tsSync)"

text \<open>The writes of a whole connection, until the first error.\<close>

fun feed :: "Retimer \<Rightarrow> bytes list \<Rightarrow> ts_error + (Retimer \<times> bytes)" where
  "feed r [] = Inr (r\<lparr>outBuf := []\<rparr>, [])"
| "feed r (c # cs) =
    (case Process r c of
       (_, Inl e) \<Rightarrow> Inl e
     | (r1, Inr o1) \<Rightarrow>
         (case feed r1 cs of Inl e \<Rightarrow> Inl e | Inr (r2, o2) \<Rightarrow> Inr (r2, o1 @ o2)))"

definition written :: "Retimer \<Rightarrow> Retimer \<times> bytes" where
  "written r = (r\<lparr>outBuf := []\<rparr>, concat (outBuf r))"

lemma tsSize_pos [simp]: "0 < tsSize" "tsSize \<noteq> 0"
  by (simp_all add: tsSize_def)

lemma after_self: "after [] (pending r) r = r"
  by (simp add: after_def)

lemma packet_pending: "pending (fst (packet r p)) = pending r"
  using after_packet[of "[]" "pending r" r p]
  by (metis after_self after_sel(24) fst_map_prod)

lemma drive_after:
  "drive (after xs q r) s = map_sum id (\<lambda>r1. after xs (pending r1) r1) (drive r s)"
proof (induction r s arbitrary: q rule: drive.induct)
  case (1 r s)
  show ?case
  proof (cases "length s < tsSize")
    case True
    then show ?thesis by (simp add: drive.simps[of _ s])
  next
    case False
    obtain r1 e where p: "packet r (take tsSize s) = (r1, e)" by force
    show ?thesis
      using False p 1[OF False p[symmetric]]
      by (cases e) (simp_all add: drive.simps[of _ s] after_packet)
  qed
qed

lemma aligned_hd: "aligned s \<Longrightarrow> s \<noteq> [] \<Longrightarrow> hd s = tsSync"
  by (auto simp: aligned_def hd_conv_nth)

lemma aligned_drop: "aligned s \<Longrightarrow> aligned (drop (k * tsSize) s)"
  by (auto simp: aligned_def)

lemma process_loop_drive:
  assumes "aligned b" "pending r = []"
  shows "drive r b = (case process_loop r b of (_, Some e) \<Rightarrow> Inl e | (r1, None) \<Rightarrow> Inr r1)"
  using assms
proof (induction r b rule: drive.induct)
  case (1 r b)
  show ?case
  proof (cases "b = []")
    case True
    then show ?thesis
      using 1(3) by (simp add: drive.simps[of _ "[]"] process_loop.simps[of _ "[]"])
  next
    case False
    then have sync: "hd b = tsSync" using 1(2) by (rule aligned_hd[rotated])
    show ?thesis
    proof (cases "length b < tsSize")
      case True
      with False sync show ?thesis
        by (simp add: drive.simps[of _ b] process_loop.simps[of _ b])
    next
      case small: False
      obtain r1 e where p: "packet r (take tsSize b) = (r1, e)" by force
      have "pending r1 = []" using packet_pending[of r "take tsSize b"] p 1(3) by simp
      moreover have "aligned (drop tsSize b)" using aligned_drop[OF 1(2), of 1] by simp
      ultimately show ?thesis
        using small False sync p 1(1)[OF small p[symmetric]]
        by (cases e) (simp_all add: drive.simps[of _ b] process_loop.simps[of _ b])
    qed
  qed
qed

lemma drive_rest:
  "drive r s = Inr r1 \<Longrightarrow> length (pending r1) < tsSize \<and> (\<exists>k. pending r1 = drop (k * tsSize) s \<and> k * tsSize \<le> length s)"
proof (induction r s rule: drive.induct)
  case (1 r s)
  show ?case
  proof (cases "length s < tsSize")
    case True
    with 1(2) show ?thesis by (auto simp: drive.simps[of _ s] intro: exI[of _ 0])
  next
    case False
    obtain r2 e where p: "packet r (take tsSize s) = (r2, e)" by force
    from 1(2) False p have e: "e = None" and d: "drive r2 (drop tsSize s) = Inr r1"
      by (auto simp: drive.simps[of _ s] split: option.splits)
    from 1(1)[OF False p[symmetric] e d] obtain k where
      "length (pending r1) < tsSize" "pending r1 = drop (k * tsSize) (drop tsSize s)"
      "k * tsSize \<le> length (drop tsSize s)" by auto
    then show ?thesis using False
      by (auto intro!: exI[of _ "Suc k"] simp: add.commute)
  qed
qed

lemma drive_append:
  "drive r (s @ t) = (case drive r s of Inl e \<Rightarrow> Inl e | Inr r1 \<Rightarrow> drive r1 (pending r1 @ t))"
proof (induction r s rule: drive.induct)
  case (1 r s)
  show ?case
  proof (cases "length s < tsSize")
    case True
    have "drive (r\<lparr>pending := s\<rparr>) (s @ t) = drive (after [] s r) (s @ t)"
      by (simp add: after_def)
    also have "\<dots> = drive r (s @ t)"
      by (subst drive_after) (simp add: after_self sum.map_ident_strong map_sum.identity
          split: sum.split cong: sum.map_cong0)
    finally show ?thesis using True by (simp add: drive.simps[of _ s])
  next
    case False
    obtain r1 e where p: "packet r (take tsSize s) = (r1, e)" by force
    then show ?thesis
      using False 1[OF False p[symmetric]]
      by (cases e) (simp_all add: drive.simps[of _ s] drive.simps[of _ "s @ t"])
  qed
qed


lemma aligned_prefix: "aligned (s @ t) \<Longrightarrow> aligned s"
  unfolding aligned_def by (metis length_append nth_append trans_less_add1)

lemma Process_drive:
  assumes "aligned (pending r @ c)" "length (pending r) < tsSize"
  shows "(case Process r c of (_, Inl e) \<Rightarrow> Inl e | (r1, Inr o1) \<Rightarrow> Inr (r1, o1)) =
    (case drive (r\<lparr>outBuf := []\<rparr>) (pending r @ c) of
       Inl e \<Rightarrow> Inl e | Inr r1 \<Rightarrow> Inr (r1, concat (outBuf r1)))"
proof (cases "pending r = []")
  case True
  then show ?thesis
    using process_loop_drive[of c "r\<lparr>outBuf := []\<rparr>"] assms(1)
    by (simp add: Process_def Let_def split_beta split: option.split)
next
  case part: False
  let ?need = "tsSize - length (pending r)"
  let ?r = "r\<lparr>outBuf := []\<rparr>"
  show ?thesis
  proof (cases "length c < ?need")
    case True
    then have "length (pending r @ c) < tsSize" by simp
    with part True show ?thesis
      by (simp add: Process_def drive.simps[of _ "pending r @ c"])
  next
    case False
    then have big: "\<not> length (pending r @ c) < tsSize" using assms(2) by simp
    have cut: "take tsSize (pending r @ c) = pending r @ take ?need c"
        "drop tsSize (pending r @ c) = drop ?need c"
      using assms(2) by simp_all
    obtain r1 e where p: "packet (?r\<lparr>pending := []\<rparr>) (pending r @ take ?need c) = (r1, e)" by force
    have pend: "pending r1 = []"
      using packet_pending[of "?r\<lparr>pending := []\<rparr>" "pending r @ take ?need c"] p by simp
    have al: "aligned (drop ?need c)"
      using aligned_drop[OF assms(1), of 1] cut(2) by simp
    have same: "drive ?r (pending r @ c) = drive (?r\<lparr>pending := []\<rparr>) (pending r @ c)"
    proof -
      have eq: "?r\<lparr>pending := []\<rparr> = after [] [] ?r" by (simp add: after_def)
      show ?thesis
        unfolding eq drive_after
        by (cases "drive ?r (pending r @ c)") (simp_all add: after_self)
    qed
    have "drive ?r (pending r @ c) =
        (case packet (?r\<lparr>pending := []\<rparr>) (pending r @ take ?need c) of
           (_, Some e) \<Rightarrow> Inl e | (r1, None) \<Rightarrow> drive r1 (drop ?need c))"
      unfolding same by (subst drive.simps) (simp only: big cut if_False)
    with p pend al part False process_loop_drive[of "drop ?need c" r1]
    show ?thesis
      by (cases e) (simp_all add: Process_def Let_def split_beta split: option.split)
  qed
qed

lemma written_after:
  "written (after xs (pending r) r) = (fst (written r), concat xs @ snd (written r))"
  by (simp add: written_def after_def)

lemma feed_drive:
  assumes "aligned (pending r @ concat cs)" "length (pending r) < tsSize"
  shows "feed r cs = map_sum id written (drive (r\<lparr>outBuf := []\<rparr>) (pending r @ concat cs))"
  using assms
proof (induction cs arbitrary: r)
  case Nil
  then show ?case by (simp add: drive.simps[of _ "pending r"] written_def)
next
  case (Cons c cs)
  have al: "aligned (pending r @ c)"
    using aligned_prefix[of "pending r @ c" "concat cs"] Cons.prems(1) by simp
  note step = Process_drive[OF al Cons.prems(2)]
  show ?case
  proof (cases "drive (r\<lparr>outBuf := []\<rparr>) (pending r @ c)")
    case (Inl e)
    then have "drive (r\<lparr>outBuf := []\<rparr>) (pending r @ concat (c # cs)) = Inl e"
      using drive_append[of "r\<lparr>outBuf := []\<rparr>" "pending r @ c" "concat cs"] by simp
    with Inl step show ?thesis by (auto split: prod.splits sum.splits)
  next
    case (Inr r1)
    then have P: "Process r c = (r1, Inr (concat (outBuf r1)))"
      using step by (auto split: prod.splits sum.splits)
    have all: "drive (r\<lparr>outBuf := []\<rparr>) (pending r @ concat (c # cs)) = drive r1 (pending r1 @ concat cs)"
      using drive_append[of "r\<lparr>outBuf := []\<rparr>" "pending r @ c" "concat cs"] Inr by simp
    obtain k where k: "length (pending r1) < tsSize" "pending r1 = drop (k * tsSize) (pending r @ c)"
        "k * tsSize \<le> length (pending r @ c)"
      using drive_rest[OF Inr] by auto
    have "aligned (pending r1 @ concat cs)"
      using aligned_drop[OF Cons.prems(1), of k] k by simp
    note rest = Cons.IH[OF this k(1)]
    have eq: "after (outBuf r1) (pending r1) (r1\<lparr>outBuf := []\<rparr>) = r1" by (simp add: after_def)
    have d: "drive r1 (pending r1 @ concat cs) =
        map_sum id (\<lambda>r2. after (outBuf r1) (pending r2) r2) (drive (r1\<lparr>outBuf := []\<rparr>) (pending r1 @ concat cs))"
      using drive_after[of "outBuf r1" "pending r1" "r1\<lparr>outBuf := []\<rparr>"] unfolding eq .
    show ?thesis
    proof (cases "drive (r1\<lparr>outBuf := []\<rparr>) (pending r1 @ concat cs)")
      case E: (Inl e)
      show ?thesis unfolding all d E feed.simps P by (simp add: rest E)
    next
      case E: (Inr r2)
      have "feed r (c # cs) = Inr (fst (written r2), concat (outBuf r1) @ snd (written r2))"
        unfolding feed.simps P by (simp add: rest E split_beta)
      then show ?thesis
        unfolding all d E by (simp only: map_sum.simps written_after)
    qed
  qed
qed

text \<open>
  Property C11. However the bytes of a connection are cut into writes, the retimer makes
  the same stream of them, ends in the same state and fails on the same inputs: as long
  as each packet of the input begins with its sync byte, any two ways of cutting the same bytes
  agree, and both are cutting the whole input every 188 bytes and keeping the rest for later.
\<close>

theorem chunking_does_not_matter:
  assumes "aligned (pending r @ concat cs)" "length (pending r) < tsSize" "concat ds = concat cs"
  shows "feed r cs = feed r ds \<and>
    feed r cs = map_sum id written (drive (r\<lparr>outBuf := []\<rparr>) (pending r @ concat cs))"
proof -
  have "feed r cs = map_sum id written (drive (r\<lparr>outBuf := []\<rparr>) (pending r @ concat cs))"
    using assms(1,2) by (rule feed_drive)
  moreover have "feed r ds = map_sum id written (drive (r\<lparr>outBuf := []\<rparr>) (pending r @ concat ds))"
    using assms by (intro feed_drive) simp_all
  ultimately show ?thesis using assms(3) by simp
qed

definition sample_chunks :: "bytes list" where
  "sample_chunks = [[0x47, 0x1f, 0xff], 0x10 # replicate 184 0 @ [0x47], [0x40, 0x00]]"

lemma sample_aligned: "aligned (concat sample_chunks)"
  by code_simp

theorem chunking_does_not_matter_witness:
  "feed NewRetimer sample_chunks = feed NewRetimer [concat sample_chunks]"
  using chunking_does_not_matter [of NewRetimer sample_chunks "[concat sample_chunks]"] sample_aligned
  by (simp add: NewRetimer_def resetSource_def)


section \<open>Counters\<close>

text \<open>The continuity counters of the packets with a payload on one PID.\<close>

definition counters :: "pid \<Rightarrow> packet list \<Rightarrow> byte list" where
  "counters x ps = map (\<lambda>p. p ! 3 AND 0x0f) (filter (\<lambda>p. pidOf p = x \<and> drop_bit 4 (p ! 3) AND 1 \<noteq> 0) ps)"

definition run_on :: "byte list \<Rightarrow> bool" where
  "run_on = successively (\<lambda>a b. b = (a + 1) AND 0x0f)"

definition counted :: "(pid \<rightharpoonup> byte) \<Rightarrow> packet list \<Rightarrow> bool" where
  "counted c ps \<longleftrightarrow> (\<forall>x. run_on (counters x ps) \<and>
     c x = (if counters x ps = [] then None else Some (last (counters x ps))))"

lemma counters_append [simp]: "counters x (ps @ qs) = counters x ps @ counters x qs"
  by (simp add: counters_def)

lemma run_on_snoc:
  "run_on (xs @ [b]) \<longleftrightarrow> run_on xs \<and> (xs = [] \<or> b = (last xs + 1) AND 0x0f)"
  by (cases "xs = []") (simp_all add: run_on_def successively_append_iff)

lemma nibbles:
  "((a AND 0xf0) OR (c AND 0x0f)) AND 0x0f = c AND (0x0f :: byte)"
  "drop_bit 4 ((a AND 0xf0) OR (c AND 0x0f)) AND 1 = drop_bit 4 a AND (1 :: byte)"
  unfolding byte_masks by (rule bit_word_eqI, auto simp: bit_simps bit_1_iff)+

text \<open>The shape of the state that makes its output a transport stream.\<close>

definition shaped :: "Retimer \<Rightarrow> bool" where
  "shaped r \<longleftrightarrow> 0 < frame r \<and> frame r \<le> go_quot clock90k 5 \<and>
    pid13 (outPMT r) \<and> (\<forall>e \<in> set (outES r). pid13 (es_pid e)) \<and>
    (\<forall>m \<in> set (pidMap r). pid13 (snd m)) \<and>
    (\<forall>q. patPkt r = Some q \<or> pmtPkt r = Some q \<longrightarrow> length q = tsSize) \<and>
    (\<forall>x h. held r x = Some h \<longrightarrow> (\<forall>q \<in> set (pkts h). length q = tsSize))"

definition ts_inv :: "packet list \<Rightarrow> Retimer \<Rightarrow> bool" where
  "ts_inv xs r \<longleftrightarrow> shaped r \<and> counted (cc r) (xs @ outBuf r)"

lemma counted_snoc:
  assumes "counted c ps" "pidOf q = out"
    and "drop_bit 4 (q ! 3) AND 1 \<noteq> (0 :: byte)"
    and "c out = None \<or> q ! 3 AND 0x0f = (the (c out) + 1) AND 0x0f"
  shows "counted (c(out \<mapsto> q ! 3 AND 0x0f)) (ps @ [q])"
proof -
  have one: "counters x [q] = (if x = out then [q ! 3 AND 0x0f] else [])" for x
    using assms(2,3) by (auto simp: counters_def)
  show ?thesis
    using assms(1,4) unfolding counted_def counters_append one
    by (auto simp: run_on_snoc split: if_splits)
qed

lemma counted_other:
  assumes "counted c ps" "drop_bit 4 (q ! 3) AND 1 = (0 :: byte)"
  shows "counted c (ps @ [q])"
proof -
  have "counters x [q] = []" for x
    using assms(2) by (simp add: counters_def)
  then show ?thesis using assms(1) by (simp add: counted_def)
qed

lemma emit_fields [simp]:
  "frame (emit r p out) = frame r" "outPMT (emit r p out) = outPMT r" "outES (emit r p out) = outES r"
  "pidMap (emit r p out) = pidMap r" "patPkt (emit r p out) = patPkt r" "pmtPkt (emit r p out) = pmtPkt r"
  "held (emit r p out) = held r" "haveV (emit r p out) = haveV r" "lastV (emit r p out) = lastV r"
  "lastDTS (emit r p out) = lastDTS r" "srcVideo (emit r p out) = srcVideo r"
  "ts_offset (emit r p out) = ts_offset r" "unwrapPTS (emit r p out) = unwrapPTS r"
  "needIDR (emit r p out) = needIDR r" "haveSrc (emit r p out) = haveSrc r"
  by (simp_all add: emit_def Let_def)

lemma emit_inv [keeps]:
  assumes "ts_inv xs r" "pid13 out" "length p = tsSize"
  shows "ts_inv xs (emit r p out)"
proof -
  have len: "3 < length p" using assms(3) by (simp add: tsSize_def)
  have n3: "setPID p out ! 3 = p ! 3" using len by (simp add: setPID_def nth_list_update)
  have "counted (cc (emit r p out)) (xs @ outBuf (emit r p out))"
  proof (cases "drop_bit 4 (p ! 3) AND 1 = 0")
    case True
    then show ?thesis
      using assms(1) counted_other[of "cc r" "xs @ outBuf r" "setPID p out"]
      by (simp add: emit_def Let_def n3 ts_inv_def)
  next
    case False
    define c where "c = (case cc r out of Some c \<Rightarrow> (c + 1) AND 0x0f | None \<Rightarrow> p ! 3 AND 0x0f)"
    define q where "q = (setPID p out)[3 := (p ! 3 AND 0xf0) OR c]"
    have c: "c AND 0x0f = c"
      by (simp add: c_def and.assoc split: option.split)
    then obtain d where d: "c = d AND 0x0f" by metis
    have q3: "q ! 3 = (p ! 3 AND 0xf0) OR c"
      using len by (simp add: q_def)
    have low: "q ! 3 AND 0x0f = c" and pay: "drop_bit 4 (q ! 3) AND 1 \<noteq> 0"
      using False nibbles c unfolding q3 d by simp_all
    have "pidOf q = pidOf (setPID p out)"
      by (simp add: q_def pidOf_def)
    then have "pidOf q = out"
      using len assms(2) by (simp add: pidOf_setPID)
    moreover have "cc r out = None \<or> q ! 3 AND 0x0f = (the (cc r out) + 1) AND 0x0f"
      by (auto simp: low c_def split: option.split)
    ultimately have "counted ((cc r)(out \<mapsto> q ! 3 AND 0x0f)) ((xs @ outBuf r) @ [q])"
      using assms(1) pay by (intro counted_snoc) (simp_all add: ts_inv_def)
    moreover have "emit r p out = r\<lparr>cc := (cc r)(out \<mapsto> c), outBuf := outBuf r @ [q]\<rparr>"
      using False unfolding emit_def Let_def n3 q_def c_def by (simp only: if_not_P not_False_eq_True if_True)
    ultimately show ?thesis
      by (simp add: low)
  qed
  then show ?thesis
    using assms(1) by (simp add: ts_inv_def shaped_def)
qed


lemma ts_invD:
  assumes "ts_inv xs r"
  shows "0 < frame r" "frame r \<le> go_quot clock90k 5" "pid13 (outPMT r)"
    "\<And>e. e \<in> set (outES r) \<Longrightarrow> pid13 (es_pid e)" "\<And>m. m \<in> set (pidMap r) \<Longrightarrow> pid13 (snd m)"
    "\<And>q. patPkt r = Some q \<Longrightarrow> length q = tsSize" "\<And>q. pmtPkt r = Some q \<Longrightarrow> length q = tsSize"
    "\<And>x h q. held r x = Some h \<Longrightarrow> q \<in> set (pkts h) \<Longrightarrow> length q = tsSize"
    "counted (cc r) (xs @ outBuf r)"
  using assms unfolding ts_inv_def shaped_def by auto

lemma pid13_small: "pid13 0" "x < 0x20 \<Longrightarrow> pid13 x"
proof -
  show "pid13 0" by (simp add: pid13_def)
  assume "x < 0x20"
  then have "unat x < 32" by (simp add: word_less_nat_alt)
  then show "pid13 x"
    by (simp add: pid13_def word_unat_eq_iff unsigned_take_bit_eq take_bit_nat_eq_self)
qed

lemma emitPat_inv [keeps]: "ts_inv xs r \<Longrightarrow> ts_inv xs (emitPat r)"
  by (auto simp: emitPat_def intro!: emit_inv pid13_small dest: ts_invD split: option.split)

lemma emitPmt_inv [keeps]: "ts_inv xs r \<Longrightarrow> ts_inv xs (emitPmt r)"
  by (auto simp: emitPmt_def intro!: emit_inv dest: ts_invD split: option.split)

lemma emitHeaders_inv [keeps]: "ts_inv xs r \<Longrightarrow> ts_inv xs (emitHeaders r)"
  by (simp add: emitHeaders_def keeps)

lemma emitPSI_inv [keeps]:
  "ts_inv xs r \<Longrightarrow> pid13 out \<Longrightarrow> length p = tsSize \<Longrightarrow> ts_inv xs (emitPSI r p out)"
  by (simp add: emitPSI_def keeps)

lemma flushHeld_inv [keeps]:
  "ts_inv xs r \<Longrightarrow> pid13 out \<Longrightarrow> \<forall>q \<in> set qs. length q = tsSize \<Longrightarrow> ts_inv xs (flushHeld r out qs)"
  unfolding flushHeld_def by (induction qs arbitrary: r) (simp_all add: keeps)

lemma flushHeld_held [simp]: "held (flushHeld r out qs) = held r"
  unfolding flushHeld_def by (induction qs arbitrary: r) simp_all

lemma held_upd_inv:
  "ts_inv xs r \<Longrightarrow> ts_inv xs r0 \<Longrightarrow> (\<And>h q. v = Some h \<Longrightarrow> q \<in> set (pkts h) \<Longrightarrow> length q = tsSize) \<Longrightarrow>
    ts_inv xs (r\<lparr>held := (held r0)(out := v)\<rparr>)"
  by (auto simp: ts_inv_def shaped_def)

lemma collect_inv [keeps]:
  assumes "ts_inv xs r" "pid13 out" "length p = tsSize" "\<forall>q \<in> set (pkts h). length q = tsSize"
  shows "ts_inv xs (collect r p out h)"
proof -
  have "\<forall>q \<in> set (pkts h @ [p]). length q = tsSize" using assms(3,4) by auto
  then show ?thesis
    using assms(1,2) unfolding collect_def Let_def
    by (auto intro!: held_upd_inv flushHeld_inv)
qed

lemma hold_inv [keeps]:
  assumes "ts_inv xs r" "pid13 out" "length p = tsSize"
  shows "ts_inv xs (hold r p out pusi)"
proof -
  have fl: "ts_inv xs (flushHeld r out (pkts h))" if "held r out = Some h" for h
    using assms that by (auto intro!: flushHeld_inv dest: ts_invD(8))
  show ?thesis
    using assms unfolding hold_def Let_def
    by (auto intro!: emit_inv collect_inv fl held_upd_inv elim: ts_invD(8) split: option.split)
qed


lemma pmt_entries_pid13: "e \<in> set (pmt_entries sec n i) \<Longrightarrow> pid13 (es_pid e)"
proof (induction sec n i rule: pmt_entries.induct)
  case (1 sec n i)
  show ?case
  proof (cases "i + 5 \<le> n")
    case True
    then show ?thesis
      using 1 by (auto simp: pmt_entries.simps[of sec n i] pid_of_bytes13)
  next
    case False
    then show ?thesis
      using 1(2) by (simp add: pmt_entries.simps[of sec n i])
  qed
qed

lemma parsePMT_pid13: "e \<in> set (parsePMT sec) \<Longrightarrow> pid13 (es_pid e)"
  by (auto simp: parsePMT_def dest: pmt_entries_pid13 split: if_splits)

lemma pat_entries_pid13: "pid13 (pat_entries b)"
  by (induction b rule: pat_entries.induct) (auto simp: pid_of_bytes13 pid13_small)

lemma parsePAT_pid13: "pid13 (parsePAT sec)"
  by (simp add: parsePAT_def pat_entries_pid13 pid13_small)

lemma map_streams_pids:
  assumes "map_streams outs es m used = Some m'" "mm \<in> set m'"
  shows "mm \<in> set m \<or> snd mm \<in> es_pid ` set outs"
  using assms
proof (induction es arbitrary: m used)
  case (Cons e es)
  then obtain out where f: "find (\<lambda>out. es_typ out = es_typ e \<and> es_pid out \<notin> set used) outs = Some out"
    and r: "map_streams outs es (AList.update (es_pid e) (es_pid out) m) (es_pid out # used) = Some m'"
    by (auto split: option.splits)
  have "out \<in> set outs" using f by (auto simp: find_Some_iff)
  moreover have "mm \<in> set (AList.update (es_pid e) (es_pid out) m) \<or> snd mm \<in> es_pid ` set outs"
    using Cons.IH[OF r Cons.prems(2)] .
  moreover have "set (AList.update (es_pid e) (es_pid out) m) \<subseteq> set m \<union> {(es_pid e, es_pid out)}"
    by (induction m) auto
  ultimately show ?case by force
qed simp

lemma mapSource_inv [keeps]:
  assumes "ts_inv xs r" "\<forall>e \<in> set es. pid13 (es_pid e)" "length pmt = tsSize"
  shows "ts_inv xs (fst (mapSource r es pmt))"
proof -
  define r1 where "r1 = (if outES r = [] then r\<lparr>outES := es, pmtPkt := Some pmt,
    outVideo := (if outVideo r = 0 then first_video es else outVideo r)\<rparr> else r)"
  have r1: "ts_inv xs r1"
    using assms by (auto simp: r1_def ts_inv_def shaped_def)
  have "ts_inv xs (r1\<lparr>pidMap := m, srcES := es, srcVideo := v, haveSrc := True\<rparr>)"
    if "map_streams (outES r1) es [] [] = Some m" for m v
  proof -
    have "\<forall>mm \<in> set m. pid13 (snd mm)"
      using map_streams_pids[OF that] ts_invD(4)[OF r1] by force
    with r1 show ?thesis by (auto simp: ts_inv_def shaped_def)
  qed
  with r1 show ?thesis
    unfolding mapSource_def r1_def[symmetric] by (simp add: Let_def split: option.split)
qed

lemma upd_inv [simp]:
  "ts_inv xs (r\<lparr>unwrapPTS := m\<rparr>) = ts_inv xs r" "ts_inv xs (r\<lparr>unwrapPCR := m\<rparr>) = ts_inv xs r"
  "ts_inv xs (r\<lparr>ts_offset := i\<rparr>) = ts_inv xs r" "ts_inv xs (r\<lparr>needIDR := t\<rparr>) = ts_inv xs r"
  "ts_inv xs (r\<lparr>dropPES := f\<rparr>) = ts_inv xs r" "ts_inv xs (r\<lparr>lastDTS := m\<rparr>) = ts_inv xs r"
  "ts_inv xs (r\<lparr>lastV := i\<rparr>) = ts_inv xs r" "ts_inv xs (r\<lparr>haveV := t\<rparr>) = ts_inv xs r"
  "ts_inv xs (r\<lparr>jumps := k\<rparr>) = ts_inv xs r" "ts_inv xs (r\<lparr>switches := k\<rparr>) = ts_inv xs r"
  "ts_inv xs (r\<lparr>srcPMT := a\<rparr>) = ts_inv xs r" "ts_inv xs (r\<lparr>pending := b\<rparr>) = ts_inv xs r"
  by (simp_all add: ts_inv_def shaped_def)

lemma join_at_inv:
  "ts_inv xs r \<Longrightarrow> join_at r p pid = Some r1 \<Longrightarrow> ts_inv xs r1"
  by (auto simp: join_at_def Let_def split_beta keeps split: if_splits option.splits)

lemma learn_frame_inv [keeps]: "ts_inv xs r \<Longrightarrow> ts_inv xs (learn_frame r t)"
  by (simp add: learn_frame_def Let_def ts_inv_def shaped_def)

lemma retime_video_inv [keeps]: "ts_inv xs r \<Longrightarrow> ts_inv xs (fst (retime_video r t))"
  by (simp add: retime_video_def even_jump_def split_beta keeps)

lemma retime_inv:
  "ts_inv xs r \<Longrightarrow> retime r p pid out = Inr (r1, q) \<Longrightarrow> ts_inv xs r1 \<and> length q = length p"
  "ts_inv xs r \<Longrightarrow> retime r p pid out = Inl r1 \<Longrightarrow> ts_inv xs r1"
  by (auto simp: retime_def retime_other_def Let_def split_beta keeps split: if_splits option.splits)

lemma shift_pcr_inv [keeps]:
  "ts_inv xs r \<Longrightarrow> ts_inv xs (fst (shift_pcr r p pid))"
  by (simp add: shift_pcr_def Let_def split_beta split: option.split)

lemma length_shift_pcr [simp]: "length (snd (shift_pcr r p pid)) = length p"
  by (simp add: shift_pcr_def Let_def split_beta split: option.split)

lemma forward_inv [keeps]:
  assumes "ts_inv xs r" "pid13 out" "length p = tsSize"
  shows "ts_inv xs (forward r p pid out)"
proof (cases "if needIDR r then join_at r p pid else Some r")
  case None
  then show ?thesis using assms by (simp add: forward_def)
next
  case (Some r1)
  have r1: "ts_inv xs r1"
    using Some assms(1) by (auto split: if_splits intro: join_at_inv)
  show ?thesis
  proof (cases "if p ! 1 AND 0x40 \<noteq> 0 then retime r1 p pid out
                else if dropPES r1 pid then Inl r1 else Inr (r1, p)")
    case (Inl r2)
    then have "ts_inv xs r2" using r1 by (auto split: if_splits intro: retime_inv)
    then show ?thesis unfolding forward_def Let_def Some option.case Inl by simp
  next
    case (Inr rp)
    obtain r2 p2 where rp: "rp = (r2, p2)" by force
    have "ts_inv xs r2 \<and> length p2 = tsSize"
      using Inr rp r1 assms(3) retime_inv(1)[OF r1] by (auto split: if_splits)
    then have "ts_inv xs (hold (fst (shift_pcr r2 p2 pid)) (snd (shift_pcr r2 p2 pid)) out (p ! 1 AND 0x40 \<noteq> 0))"
      using assms(2) by (intro hold_inv) (simp_all add: keeps)
    then show ?thesis unfolding forward_def Let_def Some option.case Inr rp
      by (simp only: sum.case prod.case split_beta fst_conv snd_conv)
  qed
qed

lemma packet_inv [keeps]:
  assumes "ts_inv xs r" "length p = tsSize"
  shows "ts_inv xs (fst (packet r p))"
proof -
  have pat: "ts_inv xs (r\<lparr>srcPMT := parsePAT s, patPkt := Some p, outPMT := parsePAT s\<rparr>)" for s
    using assms parsePAT_pid13[of s] by (auto simp: ts_inv_def shaped_def)
  have pmt: "ts_inv xs (fst (mapSource r (parsePMT s) p))" for s
    using assms parsePMT_pid13 by (auto intro: mapSource_inv)
  have out: "pid13 out" if "map_of (pidMap r) x = Some out" for x out
    using ts_invD(5)[OF assms(1)] map_of_SomeD[OF that] by fastforce
  have psi: "ts_inv xs (if Joined r1 then emitPSI r1 p x else r1)" if "ts_inv xs r1" "pid13 x" for r1 x
    using that assms(2) by (simp add: keeps)
  consider (a) "pidOf p = 0" | (b) "pidOf p \<noteq> 0" "srcPMT r \<noteq> 0 \<and> pidOf p = srcPMT r"
    | (c) "pidOf p \<noteq> 0" "\<not> (srcPMT r \<noteq> 0 \<and> pidOf p = srcPMT r)" "pidOf p < 0x20 \<or> pidOf p = 0x1fff"
    | (d) "pidOf p \<noteq> 0" "\<not> (srcPMT r \<noteq> 0 \<and> pidOf p = srcPMT r)" "\<not> (pidOf p < 0x20 \<or> pidOf p = 0x1fff)"
    by blast
  then show ?thesis
  proof cases
    case a
    then show ?thesis unfolding packet_def Let_def if_P[OF a] fst_conv
      using assms(1) by (intro psi pid13_small) (simp add: pat)
  next
    case b
    define r1 where "r1 = (if parsePMT (section_of p) \<noteq> [] \<and> \<not> haveSrc r
      then mapSource r (parsePMT (section_of p)) p else (r, None))"
    have "ts_inv xs (fst r1)" using assms(1) pmt by (simp add: r1_def)
    then show ?thesis unfolding packet_def Let_def if_not_P[OF b(1)] if_P[OF b(2)] r1_def[symmetric]
      using psi[of "fst r1" "outPMT (fst r1)"] ts_invD(3)[of xs "fst r1"]
      by (auto simp: split_beta split: option.split if_splits)
  next
    case c
    have "pid13 (pidOf p)" by (rule pid13_pidOf)
    with c show ?thesis unfolding packet_def Let_def if_not_P[OF c(1)] if_not_P[OF c(2)] if_P[OF c(3)]
      using assms by (simp add: keeps)
  next
    case d
    then show ?thesis unfolding packet_def Let_def if_not_P[OF d(1)] if_not_P[OF d(2)] if_not_P[OF d(3)]
      using assms out by (simp add: keeps split: option.split)
  qed
qed


lemma process_loop_inv: "ts_inv xs r \<Longrightarrow> ts_inv xs (fst (process_loop r b))"
proof (induction r b rule: process_loop.induct)
  case (1 r b)
  consider (a) "b = []" | (b) "b \<noteq> []" "hd b \<noteq> tsSync" | (c) "b \<noteq> []" "\<not> hd b \<noteq> tsSync" "length b < tsSize"
    | (d) "b \<noteq> []" "\<not> hd b \<noteq> tsSync" "\<not> length b < tsSize" by blast
  then show ?case
  proof cases
    case a
    then show ?thesis using 1(3) by (simp add: process_loop.simps[of r "[]"])
  next
    case b
    then show ?thesis using 1(1)[OF b 1(3)] by (simp add: process_loop.simps[of r b])
  next
    case c
    then show ?thesis using 1(3) by (simp add: process_loop.simps[of r b])
  next
    case d
    obtain r1 e where p: "packet r (take tsSize b) = (r1, e)" by force
    have "ts_inv xs r1"
      using packet_inv[OF 1(3), of "take tsSize b"] d p by simp
    then show ?thesis
      using d p 1(2)[OF d p[symmetric]] by (cases e) (simp_all add: process_loop.simps[of r b])
  qed
qed

text \<open>
  What a relay does with a retimer, and everything it has sent on: the writes whose
  \<open>Process\<close> returned no error, source switches and resyncs, in any order.
\<close>

inductive relayed :: "packet list \<Rightarrow> Retimer \<Rightarrow> bool" where
  start: "relayed [] NewRetimer"
| process: "relayed xs r \<Longrightarrow> Process r b = (r1, Inr out) \<Longrightarrow> relayed (xs @ outBuf r1) r1"
| switch: "relayed xs r \<Longrightarrow> relayed xs (Switch r)"
| resync: "relayed xs r \<Longrightarrow> relayed xs (Resync r)"

inductive_cases relayed_cases: "relayed xs r"

text \<open>Between two writes the buffer is not looked at: the sent packets are \<open>xs\<close> alone.\<close>

definition sent_inv :: "packet list \<Rightarrow> Retimer \<Rightarrow> bool" where
  "sent_inv xs r \<longleftrightarrow> ts_inv xs (r\<lparr>outBuf := []\<rparr>) \<and> length (pending r) < tsSize"

lemma process_loop_pending:
  "pending r = [] \<Longrightarrow> length (pending (fst (process_loop r b))) < tsSize"
proof (induction r b rule: process_loop.induct)
  case (1 r b)
  have "pending (fst (packet r (take tsSize b))) = []"
    using 1(3) by (simp add: packet_pending)
  then show ?case
    using 1 by (auto simp: process_loop.simps[of r b] split: option.split prod.split)
qed

lemma Process_inv:
  assumes "sent_inv xs r" "Process r b = (r1, Inr out)"
  shows "sent_inv (xs @ outBuf r1) r1 \<and> out = concat (outBuf r1)"
proof -
  let ?r = "r\<lparr>outBuf := []\<rparr>"
  have inv: "ts_inv xs ?r" and len: "length (pending r) < tsSize"
    using assms(1) by (simp_all add: sent_inv_def)
  have settle: "sent_inv (xs @ outBuf r1) r1" if "ts_inv xs r1" "length (pending r1) < tsSize"
    using that by (simp add: sent_inv_def ts_inv_def shaped_def)
  have loop: "sent_inv (xs @ outBuf r1) r1 \<and> out = concat (outBuf r1)"
    if "ts_inv xs r0" "pending r0 = []" "r1 = fst (process_loop r0 c)" "out = concat (outBuf r1)" for r0 c
    using settle process_loop_inv[OF that(1), of c] process_loop_pending[OF that(2), of c] that(3,4) by simp
  show ?thesis
  proof (cases "pending r = []")
    case True
    with assms(2) loop[of ?r b] inv show ?thesis
      by (auto simp: Process_def Let_def split_beta split: option.splits)
  next
    case part: False
    let ?need = "tsSize - length (pending r)"
    show ?thesis
    proof (cases "length b < ?need")
      case True
      with part assms(2) have "r1 = ?r\<lparr>pending := pending r @ b\<rparr>" "out = []"
        by (simp_all add: Process_def Let_def)
      moreover have "length (pending r @ b) < tsSize" using True by simp
      ultimately show ?thesis using inv settle by simp
    next
      case False
      let ?p = "pending r @ take ?need b"
      have "length ?p = tsSize" using False len by simp
      then have step: "ts_inv xs (fst (packet (?r\<lparr>pending := []\<rparr>) ?p))"
        "pending (fst (packet (?r\<lparr>pending := []\<rparr>) ?p)) = []"
        using inv by (auto intro: packet_inv simp: packet_pending)
      from assms(2) part False show ?thesis
        using loop[OF step, of "drop ?need b"]
        by (auto simp: Process_def Let_def split_beta split: option.splits)
    qed
  qed
qed


lemma relayed_inv: "relayed xs r \<Longrightarrow> sent_inv xs r"
proof (induction rule: relayed.induct)
  case start
  show ?case
    by (simp add: sent_inv_def ts_inv_def shaped_def NewRetimer_def resetSource_def defaultFrame_def
        clock90k_def pid13_small counted_def counters_def run_on_def go_quot_nonneg)
next
  case (process xs r b r1 out)
  then show ?case using Process_inv by blast
next
  case (switch xs r)
  then show ?case
    by (simp add: sent_inv_def ts_inv_def shaped_def Switch_def resetSource_def)
next
  case (resync xs r)
  then show ?case
    by (simp add: sent_inv_def ts_inv_def shaped_def Resync_def)
qed

text \<open>
  Property C12. The retimer's output is one transport stream for ever: over everything it
  has sent since it was made - any bytes in any writes, any number of source switches and
  resyncs - the continuity counter of each PID runs on without a gap through the packets
  that carry a payload, and what a write returns is a whole number of packets.
\<close>

theorem counters_never_break:
  assumes "relayed xs r"
  shows "run_on (counters x xs) \<and>
    (\<forall>b r1 out. Process r b = (r1, Inr out) \<longrightarrow>
       out = concat (outBuf r1) \<and> run_on (counters x (xs @ outBuf r1)))"
proof -
  have inv: "sent_inv xs r" by (rule relayed_inv[OF assms])
  then have "run_on (counters x xs)"
    by (simp add: sent_inv_def ts_inv_def counted_def)
  moreover have "run_on (counters x (xs @ outBuf r1))" "out = concat (outBuf r1)"
    if "Process r b = (r1, Inr out)" for b r1 out
    using Process_inv[OF inv that] by (simp_all add: sent_inv_def ts_inv_def counted_def)
  ultimately show ?thesis by blast
qed

theorem counters_never_break_witness:
  "run_on (counters 0x1000 ([] @ outBuf (fst (Process NewRetimer (concat sample_chunks)))))"
proof -
  have "snd (Process NewRetimer (concat sample_chunks)) = Inr []" by code_simp
  then show ?thesis
    using counters_never_break[OF relayed.start, where x = "0x1000"] by (metis prod.collapse)
qed

section \<open>Times\<close>

lemma even_jump_after:
  assumes "even_jump r t0 = (r1, t)" "haveV r" "0 < frame r" "frame r \<le> go_quot clock90k 5"
  shows "lastV r < t \<and> t \<le> lastV r + maxJump"
proof -
  have "go_quot clock90k 5 \<le> maxJump" by (simp add: clock90k_def maxJump_def)
  with assms show ?thesis by (auto simp: even_jump_def split: if_splits)
qed

lemma even_jump_keeps [simp]:
  "lastV (fst (even_jump r t)) = lastV r" "haveV (fst (even_jump r t)) = haveV r"
  "lastDTS (fst (even_jump r t)) = lastDTS r" "srcVideo (fst (even_jump r t)) = srcVideo r"
  by (simp_all add: even_jump_def)

lemma retime_video_result:
  assumes "retime_video r t0 = (r1, t)"
  shows "lastV r1 = t \<and> haveV r1 \<and> t = snd (even_jump r t0)"
  using assms by (auto simp: retime_video_def split_beta)

lemma pts_delta_no_dts: "pts_delta t t = 0"
  by (simp add: pts_delta_def go_rem_def ptsHalf_def)

lemma pesTimes_no_dts: "pesTimes p = Some (pts, dts, False) \<Longrightarrow> dts = pts"
  by (auto simp: pesTimes_def Let_def split: if_splits option.splits)




text \<open>
  Joining: the first frame of a new source lands exactly a frame after the last one sent.
\<close>

lemma join_lands_one_frame_later:
  assumes "join_at r p pid = Some r1" "pesTimes p = Some (pts, dts, h)" "haveV r"
    and "0 < frame r" "frame r \<le> go_quot clock90k 5" "retime r1 p pid out = Inr (r2, q)"
  shows "lastV r2 = lastV r + frame r"
proof -
  have pid: "pid = srcVideo r"
    using assms(1) by (auto simp: join_at_def split: if_splits)
  define um where "um = unwrap (unwrapPTS r) pid dts"
  have hdr: "unwrapPTS (emitHeaders s) = unwrapPTS s" "srcVideo (emitHeaders s) = srcVideo s"
    "ts_offset (emitHeaders s) = ts_offset s" "lastV (emitHeaders s) = lastV s" "haveV (emitHeaders s) = haveV s"
    "frame (emitHeaders s) = frame s" for s
    by (simp_all add: emitHeaders_def emitPat_def emitPmt_def split: option.split)
  have j: "unwrapPTS r1 = snd um" "srcVideo r1 = pid" "ts_offset r1 = lastV r + frame r - fst um"
    "lastV r1 = lastV r" "haveV r1" "frame r1 = frame r"
    using assms(1,2,3) pid by (auto simp: join_at_def Let_def split_beta hdr um_def split: if_splits)
  have um: "snd um pid = Some (fst um)" "fst um mod ptsWrap = dts mod ptsWrap"
    using unwrap_mod[of "unwrapPTS r" pid dts "fst um" "snd um"]
    by (auto simp: um_def unwrap_def Let_def split: option.split)
  have "(dts - fst um) mod ptsWrap = 0"
    using um(2)[symmetric] by (simp only: mod_eq_dvd_iff dvd_imp_mod_0)
  then have "PTSDiff dts (fst um) = 0"
    by (simp add: PTSDiff_mod ptsHalf_def)
  then have again: "unwrap (near_video r1 pid) pid dts = (fst um, (snd um)(pid \<mapsto> fst um))"
    using um(1) j by (simp add: near_video_def unwrap_Some)
  have "go_quot clock90k 5 \<le> maxJump" by (simp add: clock90k_def maxJump_def)
  then have "even_jump (r1\<lparr>unwrapPTS := (snd um)(pid \<mapsto> fst um)\<rparr>) (lastV r + frame r) =
      (r1\<lparr>unwrapPTS := (snd um)(pid \<mapsto> fst um)\<rparr>, lastV r + frame r)"
    using assms(4,5) j by (simp add: even_jump_def)
  then show ?thesis
    using assms(6,2) j again by (auto simp: retime_def Let_def retime_video_def)
qed

end

