(* ===== verification/Transcode_Slots.thy ===== *)
theory Transcode_Slots
  imports Prelude "HOL-Library.While_Combinator"
begin

text \<open>
  The allocator of transcode slots (\<open>streaming/internal/slots/slots.go\<close>): a cap on the
  sessions that transcode at once, a bounded queue behind it, and the hold identifiers
  that sessions give back. The second half relates it to what it promises: a set of
  running sessions and a number of waiting ones, with no identifiers and no counters.

  The wall clock's formatted stamp and the processor count are arguments. The process-wide
  sequence behind the identifiers is the 64-bit word it is.
\<close>

section \<open>Hold identifiers\<close>

definition hex_chars :: string where
  "hex_chars = ''0123456789abcdef''"

text \<open>The digits of \<open>n\<close>, least significant first, as the loop appends them.\<close>

definition hex_loop :: "64 word \<Rightarrow> (64 word \<times> string) option" where
  "hex_loop n = while_option (\<lambda>(n, buf). 0 < n)
     (\<lambda>(n, buf). (drop_bit 4 n, buf @ [hex_chars ! unat (n AND 0xf)])) (n, [])"

text \<open>The two indices of the reversing loop, which runs while \<open>i < j\<close>.\<close>

fun reverse_between :: "nat \<Rightarrow> nat \<Rightarrow> string \<Rightarrow> string" where
  "reverse_between i 0 buf = buf"
| "reverse_between i (Suc j) buf =
    (if i < Suc j then reverse_between (i + 1) j (buf[i := buf ! Suc j, Suc j := buf ! i]) else buf)"

definition uintToHex :: "64 word \<Rightarrow> string" where
  "uintToHex n =
    (if n = 0 then ''0''
     else let buf = snd (the (hex_loop n)) in reverse_between 0 (length buf - 1) buf)"

definition formatHold :: "string \<Rightarrow> 64 word \<Rightarrow> string" where
  "formatHold stamp n = stamp @ ''-'' @ uintToHex n"

section \<open>The allocator\<close>

datatype Decision = DecisionAdmit | DecisionDirectCap | DecisionQueue | DecisionExhausted

datatype slot_error = ErrNotHeld

record AllocatorConfig =
  MaxTranscode :: int
  QueueDepth :: int

definition Effective :: "nat \<Rightarrow> AllocatorConfig \<Rightarrow> int" where
  "Effective cpus c =
    (if 0 < MaxTranscode c then MaxTranscode c
     else let n = go_quot (int cpus) 4 in if n < 1 then 1 else n)"

record Request =
  CanDirectCap :: bool
  AcceptQueue :: bool

record Allocator =
  slot_cfg :: AllocatorConfig
  slots_used :: int
  slots_queued :: int
  holds :: "string set"
  holdSeq :: "64 word"

definition NewAllocator :: "AllocatorConfig \<Rightarrow> Allocator" where
  "NewAllocator c = \<lparr>slot_cfg = c, slots_used = 0, slots_queued = 0, holds = {}, holdSeq = 0\<rparr>"

definition newHoldID :: "string \<Rightarrow> Allocator \<Rightarrow> string \<times> Allocator" where
  "newHoldID stamp a =
    (let s = holdSeq a + 1 in (formatHold stamp s, a\<lparr>holdSeq := s\<rparr>))"

definition take_slot :: "string \<Rightarrow> Allocator \<Rightarrow> string \<times> Allocator" where
  "take_slot stamp a =
    (let (h, a1) = newHoldID stamp a in
     (h, a1\<lparr>holds := insert h (holds a1), slots_used := slots_used a1 + 1\<rparr>))"

definition Decide :: "nat \<Rightarrow> string \<Rightarrow> Request \<Rightarrow> Allocator \<Rightarrow> (Decision \<times> string) \<times> Allocator" where
  "Decide cpus stamp req a =
    (if slots_used a < Effective cpus (slot_cfg a) then
       let (h, a1) = take_slot stamp a in ((DecisionAdmit, h), a1)
     else if CanDirectCap req then ((DecisionDirectCap, ''''), a)
     else if AcceptQueue req \<and> slots_queued a < QueueDepth (slot_cfg a) then
       ((DecisionQueue, ''''), a\<lparr>slots_queued := slots_queued a + 1\<rparr>)
     else ((DecisionExhausted, ''''), a))"

definition Release :: "string \<Rightarrow> Allocator \<Rightarrow> slot_error option \<times> Allocator" where
  "Release h a =
    (if h \<notin> holds a then (Some ErrNotHeld, a)
     else let a1 = a\<lparr>holds := holds a - {h}\<rparr> in
       (None, if 0 < slots_used a1 then a1\<lparr>slots_used := slots_used a1 - 1\<rparr> else a1))"

definition Dequeue :: "Allocator \<Rightarrow> Allocator" where
  "Dequeue a = (if 0 < slots_queued a then a\<lparr>slots_queued := slots_queued a - 1\<rparr> else a)"

definition PromoteFromQueue :: "nat \<Rightarrow> string \<Rightarrow> Allocator \<Rightarrow> string option \<times> Allocator" where
  "PromoteFromQueue cpus stamp a =
    (if Effective cpus (slot_cfg a) \<le> slots_used a then (None, a)
     else let a1 = (if 0 < slots_queued a then a\<lparr>slots_queued := slots_queued a - 1\<rparr> else a);
              (h, a2) = take_slot stamp a1 in (Some h, a2))"

section \<open>The digits read back\<close>

definition hex_digit :: "char \<Rightarrow> nat" where
  "hex_digit c = (if is_digit c then of_char c - 48 else of_char c - 87)"

definition hex_value :: "string \<Rightarrow> nat" where
  "hex_value s = foldl (\<lambda>v c. 16 * v + hex_digit c) 0 s"

lemma reverse_between_nth:
  "j < length buf \<Longrightarrow> length (reverse_between i j buf) = length buf \<and>
    (\<forall>k < length buf. reverse_between i j buf ! k = (if i \<le> k \<and> k \<le> j then buf ! (i + j - k) else buf ! k))"
proof (induction i j buf rule: reverse_between.induct)
  case (1 i buf)
  then show ?case by auto
next
  case (2 i j buf)
  show ?case
  proof (cases "i < Suc j")
    case False
    then show ?thesis using 2(2) by (auto simp: le_Suc_eq)
  next
    case True
    let ?b = "buf[i := buf ! Suc j, Suc j := buf ! i]"
    have ih: "length (reverse_between (i + 1) j ?b) = length ?b \<and>
        (\<forall>k < length ?b. reverse_between (i + 1) j ?b ! k = (if i + 1 \<le> k \<and> k \<le> j then ?b ! (i + 1 + j - k) else ?b ! k))"
      using 2(1)[OF True] 2(2) by simp
    have "reverse_between i (Suc j) buf ! k = (if i \<le> k \<and> k \<le> Suc j then buf ! (i + Suc j - k) else buf ! k)"
      if "k < length buf" for k
    proof -
      consider "k = i" | "k = Suc j" "k \<noteq> i" | "i < k \<and> k \<le> j" | "k < i \<or> Suc j < k"
        by linarith
      then show ?thesis
        using ih that True 2(2) by cases (simp_all add: nth_list_update, auto simp: nth_list_update)
    qed
    with ih True show ?thesis by simp
  qed
qed

lemma reverse_between_rev: "buf \<noteq> [] \<Longrightarrow> reverse_between 0 (length buf - 1) buf = rev buf"
  using reverse_between_nth[of "length buf - 1" buf 0]
  by (intro nth_equalityI) (auto simp: rev_nth)

lemma hex_chars_facts:
  "k < 16 \<Longrightarrow> hex_digit (hex_chars ! k) = k \<and> hex_chars ! k \<in> set hex_chars"
proof -
  have "\<forall>k \<in> set [0..<16]. hex_digit (hex_chars ! k) = k \<and> hex_chars ! k \<in> set hex_chars"
    by code_simp
  then show "k < 16 \<Longrightarrow> ?thesis" by simp
qed

lemma no_dash_in_hex: "CHR ''-'' \<notin> set hex_chars"
  by code_simp

text \<open>The loop, as the recursion it is.\<close>

lemma nibble_of: "unat (n AND 0xf) = unat n mod 16" for n :: "64 word"
proof -
  have "n AND 0xf = take_bit 4 n" by (simp add: take_bit_eq_mask mask_eq_exp_minus_1)
  then show ?thesis by (simp only: unsigned_take_bit_eq) (simp add: take_bit_eq_mod)
qed

lemma unat_shift4: "unat (drop_bit 4 n) = unat n div 16" for n :: "64 word"
  by (simp only: unat_drop_bit_eq) (simp add: drop_bit_eq_div)

fun digits16 :: "nat \<Rightarrow> string" where
  "digits16 n = (if n = 0 then [] else hex_chars ! (n mod 16) # digits16 (n div 16))"

declare digits16.simps [simp del]

lemma hex_loop_from:
  "while_option (\<lambda>(n, buf). 0 < n) (\<lambda>(n, buf). (drop_bit 4 n, buf @ [hex_chars ! unat (n AND 0xf)])) (n, b)
    = Some (0 :: 64 word, b @ digits16 (unat n))"
proof (induction "unat n" arbitrary: n b rule: less_induct)
  case less
  show ?case
  proof (cases "n = 0")
    case True
    then show ?thesis by (simp add: while_option_unfold digits16.simps)
  next
    case False
    then have pos: "0 < n" "0 < unat n" by (simp_all add: word_neq_0_conv unat_gt_0)
    then have "unat (drop_bit 4 n) < unat n" by (simp add: unat_shift4)
    from less[OF this, of "b @ [hex_chars ! unat (n AND 0xf)]"] show ?thesis
      using pos by (subst while_option_unfold) (simp add: nibble_of unat_shift4 digits16.simps[of "unat n"])
  qed
qed

lemma hex_loop_digits: "hex_loop n = Some (0, digits16 (unat n))"
  unfolding hex_loop_def by (subst hex_loop_from) simp

lemma hex_value_snoc: "hex_value (s @ [c]) = 16 * hex_value s + hex_digit c"
  by (simp add: hex_value_def)

lemma digits16_facts:
  "hex_value (rev (digits16 n)) = n \<and> set (digits16 n) \<subseteq> set hex_chars"
proof (induction n rule: digits16.induct)
  case (1 n)
  then show ?case
    using hex_chars_facts[of "n mod 16"]
    by (cases "n = 0") (simp_all add: digits16.simps[of n] digits16.simps[of 0] hex_value_snoc, simp add: hex_value_def)
qed

lemma length_digits16: "n < 16 ^ k \<Longrightarrow> length (digits16 n) \<le> k"
proof (induction k arbitrary: n)
  case (Suc k)
  then have "n div 16 < 16 ^ k" by (simp add: div_less_iff_less_mult mult.commute)
  from Suc.IH[OF this] show ?case by (simp add: digits16.simps[of n])
qed (simp add: digits16.simps)

lemma uintToHex_eq: "uintToHex n = (if n = 0 then ''0'' else rev (digits16 (unat n)))"
proof (cases "n = 0")
  case False
  then have "digits16 (unat n) \<noteq> []" by (subst digits16.simps) (simp add: unat_eq_0)
  from reverse_between_rev[OF this] False show ?thesis
    by (simp add: uintToHex_def hex_loop_digits Let_def)
qed (simp add: uintToHex_def)

lemma uintToHex_value: "hex_value (uintToHex n) = unat n"
  using digits16_facts[of "unat n"] by (simp add: uintToHex_eq, simp add: hex_value_def hex_digit_def is_digit_def)

lemma uintToHex_chars: "set (uintToHex n) \<subseteq> set hex_chars"
  using digits16_facts[of "unat n"] by (simp add: uintToHex_eq hex_chars_def)


lemma length_uintToHex: "0 < length (uintToHex n) \<and> length (uintToHex n) \<le> 16"
proof -
  have "unat n < 16 ^ 16"
    by (rule order.strict_trans2[OF unsigned_less]) simp
  then have "length (digits16 (unat n)) \<le> 16" by (rule length_digits16)
  moreover have "digits16 (unat n) \<noteq> []" if "n \<noteq> 0"
    using that by (subst digits16.simps) (simp add: unat_eq_0)
  ultimately show ?thesis by (simp add: uintToHex_eq)
qed

text \<open>
  Printing a sequence number ends: the loop that peels off hexadecimal
  digits and the loop that reverses them return for every 64-bit value, with at most
  sixteen digits and no leading zero beyond \<open>0\<close> itself, and the digits read back as the number.
\<close>

theorem uintToHex_returns:
  "hex_loop n \<noteq> None \<and> hex_value (uintToHex n) = unat n \<and>
   length (uintToHex n) \<le> 16 \<and> set (uintToHex n) \<subseteq> set hex_chars \<and>
   (hd (uintToHex n) = CHR ''0'' \<longleftrightarrow> n = 0)"
proof -
  have lead: "hd (rev (digits16 m)) \<noteq> CHR ''0''" if "m \<noteq> 0" for m
    using that
  proof (induction m rule: digits16.induct)
    case (1 m)
    show ?case
    proof (cases "m div 16 = 0")
      case True
      with 1(2) have "hex_digit (hex_chars ! (m mod 16)) \<noteq> hex_digit (CHR ''0'')"
        using hex_chars_facts[of "m mod 16"] by (auto simp: hex_digit_def is_digit_def)
      with True 1(2) show ?thesis
        by (auto simp: digits16.simps[of m] digits16.simps[of 0])
    next
      case False
      then have "digits16 (m div 16) \<noteq> []" by (subst digits16.simps) simp
      with 1 False show ?thesis by (simp add: digits16.simps[of m] hd_append)
    qed
  qed
  show ?thesis
    using lead[of "unat n"] length_uintToHex uintToHex_value uintToHex_chars
    by (auto simp: hex_loop_digits uintToHex_eq unat_eq_0)
qed

lemma formatHold_inj:
  assumes "formatHold s m = formatHold t n"
  shows "m = n"
proof -
  have tail: "takeWhile (\<lambda>c. c \<noteq> CHR ''-'') (rev (formatHold s m)) = rev (uintToHex m)" for s m
  proof -
    have "\<forall>c \<in> set (rev (uintToHex m)). c \<noteq> CHR ''-''"
      using uintToHex_chars[of m] no_dash_in_hex by auto
    then show ?thesis by (auto simp: formatHold_def takeWhile_append)
  qed
  have "uintToHex m = uintToHex n"
    using tail[of s m] tail[of t n] assms by simp
  then have "unat m = unat n"
    by (metis uintToHex_value)
  then show ?thesis by (simp add: word_unat_eq_iff)
qed

section \<open>What the allocator promises\<close>

text \<open>
  Sessions are numbered in the order they get a slot. The promise knows the running ones
  and how many wait, and nothing else.
\<close>

record pool =
  running :: "nat set"
  waiting :: int
  issued :: nat

datatype event = Open Request string | Give nat | Leave | Promote string

datatype answer = Started nat | Direct | Waits | Refused | Freed | NotHeld | NoSlot | Left

definition start_session :: "pool \<Rightarrow> answer \<times> pool" where
  "start_session P =
    (Started (issued P), P\<lparr>running := insert (issued P) (running P), issued := issued P + 1\<rparr>)"

fun promise :: "int \<Rightarrow> int \<Rightarrow> event \<Rightarrow> pool \<Rightarrow> answer \<times> pool" where
  "promise limit depth (Open req _) P =
    (if int (card (running P)) < limit then start_session P
     else if CanDirectCap req then (Direct, P)
     else if AcceptQueue req \<and> waiting P < depth then (Waits, P\<lparr>waiting := waiting P + 1\<rparr>)
     else (Refused, P))"
| "promise limit depth (Give k) P =
    (if k \<in> running P then (Freed, P\<lparr>running := running P - {k}\<rparr>) else (NotHeld, P))"
| "promise limit depth Leave P = (Left, P\<lparr>waiting := max 0 (waiting P - 1)\<rparr>)"
| "promise limit depth (Promote _) P =
    (if int (card (running P)) < limit then start_session (P\<lparr>waiting := max 0 (waiting P - 1)\<rparr>)
     else (NoSlot, P))"

text \<open>The allocator with its callers, who keep the identifiers they were given.\<close>

fun serve :: "nat \<Rightarrow> event \<Rightarrow> Allocator \<times> string list \<Rightarrow> answer \<times> (Allocator \<times> string list)" where
  "serve cpus (Open req stamp) (a, ids) =
    (case Decide cpus stamp req a of
       ((DecisionAdmit, h), b) \<Rightarrow> (Started (length ids), (b, ids @ [h]))
     | ((DecisionDirectCap, _), b) \<Rightarrow> (Direct, (b, ids))
     | ((DecisionQueue, _), b) \<Rightarrow> (Waits, (b, ids))
     | ((DecisionExhausted, _), b) \<Rightarrow> (Refused, (b, ids)))"
| "serve cpus (Give k) (a, ids) =
    (case Release (if k < length ids then ids ! k else '''') a of
       (None, b) \<Rightarrow> (Freed, (b, ids))
     | (Some ErrNotHeld, b) \<Rightarrow> (NotHeld, (b, ids)))"
| "serve cpus Leave (a, ids) = (Left, (Dequeue a, ids))"
| "serve cpus (Promote stamp) (a, ids) =
    (case PromoteFromQueue cpus stamp a of
       (Some h, b) \<Rightarrow> (Started (length ids), (b, ids @ [h]))
     | (None, b) \<Rightarrow> (NoSlot, (b, ids)))"

fun answers :: "(event \<Rightarrow> 's \<Rightarrow> answer \<times> 's) \<Rightarrow> event list \<Rightarrow> 's \<Rightarrow> answer list" where
  "answers f [] s = []"
| "answers f (e # es) s = (let (x, t) = f e s in x # answers f es t)"

text \<open>The abstraction: the numbers of the identifiers that are held.\<close>

definition implements :: "nat \<Rightarrow> AllocatorConfig \<Rightarrow> Allocator \<times> string list \<Rightarrow> pool \<Rightarrow> bool" where
  "implements cpus c s P \<longleftrightarrow>
    (let (a, ids) = s in
     slot_cfg a = c \<and> holds a = (!) ids ` running P \<and> running P \<subseteq> {..<length ids} \<and>
     issued P = length ids \<and> unat (holdSeq a) = length ids \<and>
     slots_used a = int (card (running P)) \<and> slots_queued a = waiting P \<and> 0 \<le> waiting P \<and>
     (\<forall>k < length ids. \<exists>stamp. ids ! k = formatHold stamp (of_nat (k + 1))))"


lemma ids_inj:
  assumes "implements cpus c (a, ids) P" "length ids < 2 ^ 64" "j < length ids" "k < length ids" "ids ! j = ids ! k"
  shows "j = k"
proof -
  have "\<forall>k < length ids. \<exists>stamp. ids ! k = formatHold stamp (of_nat (k + 1))"
    using assms(1) unfolding implements_def Let_def prod.case by blast
  then obtain s t where "formatHold s (of_nat (j + 1)) = formatHold t (of_nat (k + 1))"
    using assms(3-5) by metis
  then have "(of_nat (j + 1) :: 64 word) = of_nat (k + 1)" by (rule formatHold_inj)
  then have "take_bit 64 (j + 1) = take_bit 64 (k + 1)"
    by (simp only: word_of_nat_eq_iff) simp
  with assms(2-4) show ?thesis by (simp add: take_bit_nat_eq_self)
qed

lemma running_finite: "implements cpus c (a, ids) P \<Longrightarrow> finite (running P)"
  by (auto simp: implements_def intro: finite_subset)

lemma take_slot_implements:
  assumes "implements cpus c (a, ids) P" "length ids + 1 < 2 ^ 64" "take_slot stamp a = (h, b)"
  shows "implements cpus c (b, ids @ [h]) (snd (start_session P))"
proof -
  let ?P = "snd (start_session P)" and ?n = "length ids"
  have seq: "holdSeq a = of_nat ?n"
  proof -
    have "of_nat (unat (holdSeq a)) = holdSeq a" by simp
    moreover have "unat (holdSeq a) = ?n" using assms(1) by (simp add: implements_def)
    ultimately show ?thesis by simp
  qed
  have h: "h = formatHold stamp (of_nat (?n + 1))"
    and b: "b = a\<lparr>holdSeq := of_nat (?n + 1), holds := insert h (holds a), slots_used := slots_used a + 1\<rparr>"
    using assms(3) by (auto simp: take_slot_def newHoldID_def Let_def seq add.commute)
  have new: "?n \<notin> running P" and issued: "issued P = ?n"
    using assms(1) by (auto simp: implements_def)
  have old: "(!) (ids @ [h]) ` running P = (!) ids ` running P"
    using assms(1) by (intro image_cong) (auto simp: implements_def nth_append)
  have seq': "unat (of_nat (?n + 1) :: 64 word) = ?n + 1"
    using assms(2) by (simp add: unsigned_of_nat take_bit_nat_eq_self del: of_nat_add of_nat_Suc)
  have hist: "\<exists>stamp. (ids @ [h]) ! k = formatHold stamp (of_nat (k + 1))" if "k < ?n + 1" for k
    using that assms(1) h by (cases "k = ?n") (auto simp: implements_def nth_append)
  show ?thesis
    using assms(1) running_finite[OF assms(1)] new issued old seq' hist
    by (auto simp: implements_def b start_session_def)
qed

lemma step_implements:
  assumes "implements cpus c (a, ids) P" "length ids + 1 < 2 ^ 64"
    and "serve cpus e (a, ids) = (x, s)" "promise (Effective cpus c) (QueueDepth c) e P = (y, Q)"
  shows "x = y \<and> implements cpus c s Q \<and> length (snd s) \<le> length ids + 1"
proof -
  have f: "slot_cfg a = c" "slots_used a = int (card (running P))" "slots_queued a = waiting P"
      "issued P = length ids" "0 \<le> waiting P"
    using assms(1) by (auto simp: implements_def)
  have wait: "implements cpus c (a\<lparr>slots_queued := w\<rparr>, ids) (P\<lparr>waiting := w\<rparr>)" if "0 \<le> w" for w
    using assms(1) that by (simp add: implements_def)
  have start: "fst (start_session Q) = Started (issued Q)" for Q
    by (simp add: start_session_def)
  have zero: "P\<lparr>waiting := 0\<rparr> = P" if "waiting P = 0"
    using that by (cases P) simp
  show ?thesis
  proof (cases e)
    case (Open req stamp)
    obtain h b where t: "take_slot stamp a = (h, b)" by force
    from take_slot_implements[OF assms(1,2) t] show ?thesis
      using assms(3,4) Open f t wait[of "waiting P + 1"] assms(1) start[of P]
      by (cases "start_session P") (auto simp: Decide_def split: if_splits)
  next
    case Leave
    then show ?thesis
      using assms f wait[of "waiting P - 1"] zero
      by (cases "0 < waiting P") (auto simp: Dequeue_def)
  next
    case (Promote stamp)
    define a1 where "a1 = (if 0 < slots_queued a then a\<lparr>slots_queued := slots_queued a - 1\<rparr> else a)"
    obtain h b where t: "take_slot stamp a1 = (h, b)" by force
    have a1: "implements cpus c (a1, ids) (P\<lparr>waiting := max 0 (waiting P - 1)\<rparr>)"
    proof (cases "0 < waiting P")
      case True
      then show ?thesis using wait[of "waiting P - 1"] f by (simp add: a1_def)
    next
      case False
      with f have z: "waiting P = 0" by simp
      then have "max 0 (waiting P - 1) = 0" "a1 = a" using f by (simp_all add: a1_def)
      then show ?thesis using assms(1) by (simp only: zero[OF z])
    qed
    have pr: "PromoteFromQueue cpus stamp a =
        (if Effective cpus (slot_cfg a) \<le> slots_used a then (None, a) else (Some h, b))"
      unfolding PromoteFromQueue_def a1_def[symmetric] Let_def t prod.case ..
    from take_slot_implements[OF a1 assms(2) t] show ?thesis
      using assms(1,3,4) Promote f start[of "P\<lparr>waiting := max 0 (waiting P - 1)\<rparr>"]
      by (cases "start_session (P\<lparr>waiting := max 0 (waiting P - 1)\<rparr>)")
        (auto simp: pr split: if_splits)
  next
    case (Give k)
    have nil: "'''' \<notin> holds a"
      using assms(1) by (force simp: implements_def formatHold_def)
    have mem: "(if k < length ids then ids ! k else '''') \<in> holds a \<longleftrightarrow> k \<in> running P"
    proof -
      have small: "length ids < 2 ^ 64" using assms(2) by simp
      have img: "holds a = (!) ids ` running P" and sub: "\<And>x. x \<in> running P \<Longrightarrow> x < length ids"
        using assms(1) by (auto simp: implements_def)
      have "ids ! k \<in> holds a \<longleftrightarrow> k \<in> running P" if "k < length ids"
        unfolding img using that sub ids_inj[OF assms(1) small that] by blast
      then show ?thesis using nil sub by auto
    qed
    show ?thesis
    proof (cases "k \<in> running P")
      case False
      then show ?thesis using assms Give mem by (auto simp: Release_def split: if_splits)
    next
      case True
      then have k: "k < length ids" using assms(1) by (auto simp: implements_def)
      have "holds a - {ids ! k} = (!) ids ` (running P - {k})"
        using assms(1) ids_inj[OF assms(1)] assms(2) k by (auto simp: implements_def)
      moreover have "card (running P - {k}) = card (running P) - 1" "0 < card (running P)"
        using True running_finite[OF assms(1)] by (auto simp: card_gt_0_iff)
      ultimately show ?thesis
        using assms(1,3,4) Give mem True k f
        by (auto simp: Release_def implements_def Let_def split: if_splits)
    qed
  qed
qed


lemma answers_implement:
  assumes "implements cpus c s P" "length (snd s) + length es < 2 ^ 64"
  shows "answers (serve cpus) es s = answers (promise (Effective cpus c) (QueueDepth c)) es P"
  using assms
proof (induction es arbitrary: s P)
  case (Cons e es)
  obtain a ids where s: "s = (a, ids)" by force
  obtain x t where x: "serve cpus e s = (x, t)" by (cases "serve cpus e s") auto
  obtain y Q where y: "promise (Effective cpus c) (QueueDepth c) e P = (y, Q)" by force
  have small: "length ids + 1 < 2 ^ 64" using Cons.prems(2) s by simp
  have "x = y \<and> implements cpus c t Q \<and> length (snd t) \<le> length ids + 1"
    using step_implements[OF Cons.prems(1)[unfolded s] small x[unfolded s] y] .
  then show ?case
    using Cons.IH[of t Q] Cons.prems(2) s x y by simp
qed simp

lemma start_implements:
  "implements cpus c (NewAllocator c, []) \<lparr>running = {}, waiting = 0, issued = 0\<rparr>"
  by (simp add: implements_def NewAllocator_def)

definition empty_pool :: pool where
  "empty_pool = \<lparr>running = {}, waiting = 0, issued = 0\<rparr>"

text \<open>
  Property C14. The allocator implements its promise. For every sequence of opens,
  releases, promotions and departures with fewer than \<open>2 ^ 64\<close> events, whatever the clock
  says, its callers get the answers of a pool of numbered sessions: identifiers never
  collide, releasing one frees exactly the session it was given to and only once, and the
  counter of used slots is the number of running sessions.
\<close>

theorem slots_refine_pool:
  assumes "length es < 2 ^ 64"
  shows "answers (serve cpus) es (NewAllocator c, []) =
    answers (promise (Effective cpus c) (QueueDepth c)) es empty_pool"
  using answers_implement[OF start_implements[of cpus c], of es] assms by (simp add: empty_pool_def)

theorem slots_refine_pool_witness:
  "answers (serve 8) [Open \<lparr>CanDirectCap = False, AcceptQueue = True\<rparr> ''t'', Give 0, Give 0]
     (NewAllocator \<lparr>MaxTranscode = 0, QueueDepth = 1\<rparr>, [])
   = [Started 0, Freed, NotHeld]"
proof -
  have "answers (promise (Effective 8 \<lparr>MaxTranscode = 0, QueueDepth = 1\<rparr>) 1)
      [Open \<lparr>CanDirectCap = False, AcceptQueue = True\<rparr> ''t'', Give 0, Give 0] empty_pool
      = [Started 0, Freed, NotHeld]"
    by (simp add: Effective_def empty_pool_def start_session_def)
  then show ?thesis
    using slots_refine_pool[of "[Open \<lparr>CanDirectCap = False, AcceptQueue = True\<rparr> ''t'', Give 0, Give 0]"
        8 "\<lparr>MaxTranscode = 0, QueueDepth = 1\<rparr>"] by simp
qed

section \<open>Bounds\<close>

definition pool_ok :: "int \<Rightarrow> int \<Rightarrow> pool \<Rightarrow> bool" where
  "pool_ok limit depth P \<longleftrightarrow> finite (running P) \<and> int (card (running P)) \<le> limit \<and>
    0 \<le> waiting P \<and> waiting P \<le> max 0 depth \<and> (\<forall>k \<in> running P. k < issued P)"

lemma promise_ok: "pool_ok limit depth P \<Longrightarrow> pool_ok limit depth (snd (promise limit depth e P))"
  by (cases e) (auto simp: pool_ok_def start_session_def card_insert_if
      intro: order.trans[OF of_nat_mono[OF card_Diff1_le]])

lemma Effective_pos: "0 < Effective cpus c"
  by (simp add: Effective_def Let_def)

fun after_all :: "(event \<Rightarrow> 's \<Rightarrow> answer \<times> 's) \<Rightarrow> event list \<Rightarrow> 's \<Rightarrow> 's" where
  "after_all f [] s = s"
| "after_all f (e # es) s = after_all f es (snd (f e s))"

lemma after_all_implements:
  assumes "implements cpus c s P" "length (snd s) + length es < 2 ^ 64"
  shows "implements cpus c (after_all (serve cpus) es s)
    (after_all (promise (Effective cpus c) (QueueDepth c)) es P)"
  using assms
proof (induction es arbitrary: s P)
  case (Cons e es)
  obtain a ids where s: "s = (a, ids)" by force
  obtain x t where x: "serve cpus e s = (x, t)" by (cases "serve cpus e s") auto
  obtain y Q where y: "promise (Effective cpus c) (QueueDepth c) e P = (y, Q)" by force
  have small: "length ids + 1 < 2 ^ 64" using Cons.prems(2) s by simp
  have "x = y \<and> implements cpus c t Q \<and> length (snd t) \<le> length ids + 1"
    using step_implements[OF Cons.prems(1)[unfolded s] small x[unfolded s] y] .
  then show ?case
    using Cons.IH[of t Q] Cons.prems(2) s x y by simp
qed simp

lemma after_all_ok: "pool_ok limit depth P \<Longrightarrow> pool_ok limit depth (after_all (promise limit depth) es P)"
  by (induction es arbitrary: P) (simp_all add: promise_ok)

text \<open>
  The cap holds at every moment: after any sequence of fewer than \<open>2 ^ 64\<close>
  events the used count is the number of identifiers held and is between zero and the cap
  (the configured one, or a quarter of the processors and at least one), and the queue is
  between zero and its depth; so no counter goes below zero and no guard against it is ever needed.
\<close>

theorem slots_within_cap:
  assumes "length es < 2 ^ 64" "after_all (serve cpus) es (NewAllocator c, []) = (a, ids)"
  shows "slots_used a = int (card (holds a)) \<and> 0 \<le> slots_used a \<and> slots_used a \<le> Effective cpus c \<and>
    0 \<le> slots_queued a \<and> slots_queued a \<le> max 0 (QueueDepth c)"
proof -
  let ?P = "after_all (promise (Effective cpus c) (QueueDepth c)) es empty_pool"
  have i: "implements cpus c (a, ids) ?P"
    using after_all_implements[OF start_implements[of cpus c], of es] assms by (simp add: empty_pool_def)
  have "pool_ok (Effective cpus c) (QueueDepth c) empty_pool"
    using Effective_pos[of cpus c] by (simp add: pool_ok_def empty_pool_def)
  then have ok: "pool_ok (Effective cpus c) (QueueDepth c) ?P" by (rule after_all_ok)
  have len: "length ids < 2 ^ 64"
  proof -
    have "length (snd (after_all (serve cpus) es s)) \<le> length (snd s) + length es" for s
    proof (induction es arbitrary: s)
      case (Cons e es)
      have "length (snd (snd (serve cpus e s))) \<le> length (snd s) + 1"
        by (cases s; cases e) (auto split: option.split slot_error.split prod.split Decision.split)
      with Cons[of "snd (serve cpus e s)"] show ?case by simp
    qed simp
    from this[of "(NewAllocator c, [])"] assms show ?thesis by simp
  qed
  have "inj_on ((!) ids) (running ?P)"
    using ids_inj[OF i len] i by (auto simp: inj_on_def implements_def)
  then have "card (holds a) = card (running ?P)"
    using i by (simp add: implements_def card_image)
  with i ok show ?thesis by (auto simp: implements_def pool_ok_def)
qed

theorem slots_within_cap_witness:
  "slots_used (fst (after_all (serve 8) [Open \<lparr>CanDirectCap = False, AcceptQueue = True\<rparr> ''t'']
     (NewAllocator \<lparr>MaxTranscode = 0, QueueDepth = 1\<rparr>, []))) \<le> 2"
  using slots_within_cap[of "[Open \<lparr>CanDirectCap = False, AcceptQueue = True\<rparr> ''t'']" 8
      "\<lparr>MaxTranscode = 0, QueueDepth = 1\<rparr>"
      "fst (after_all (serve 8) [Open \<lparr>CanDirectCap = False, AcceptQueue = True\<rparr> ''t'']
        (NewAllocator \<lparr>MaxTranscode = 0, QueueDepth = 1\<rparr>, []))"
      "snd (after_all (serve 8) [Open \<lparr>CanDirectCap = False, AcceptQueue = True\<rparr> ''t'']
        (NewAllocator \<lparr>MaxTranscode = 0, QueueDepth = 1\<rparr>, []))"]
  by (simp add: Effective_def)

end

