(* ===== verification/Updater_Watch.thy ===== *)
theory Updater_Watch
  imports Prelude
begin

text \<open>
  The watch of a new release (cmd/maktaba-server/internal/updater): the timings of a job
  (journal.go) and the loop that decides whether the release that came up is kept or rolled
  back (\<open>watch\<close> in machine.go).

  One check of the loop is the function \<open>watch_tick\<close>. Its inputs are what the code reads then: the
  health verdict, the clock, what the TV step said and whether the installer could commit. The
  ticker, the log lines and the launcher's guard are not modelled; the end of the context (a
  check that is not made) ends a run of ticks.
\<close>

section \<open>Timings\<close>

text \<open>
  Of a job: its run, release and tag, whether it is the home's, whether its migrations are
  rehearsed, and the two times of the watch. Its assets and what is kept after a commit are for
  the installer alone.
\<close>

record Rehearsal =
  Skipped :: string
  DBBytes :: "64 word"
  MigrateSec :: float64

record Job =
  RunID :: string
  JobVersion :: string
  Tag :: string
  Home :: bool
  Rehearse :: bool
  WatchSeconds :: int
  HealthSeconds :: int

definition DefaultWatchHome :: duration where "DefaultWatchHome = 10 * minute"
definition DefaultWatchNode :: duration where "DefaultWatchNode = 2 * minute"
definition DefaultHealthLimit :: duration where "DefaultHealthLimit = 3 * minute"

definition Watch :: "Job \<Rightarrow> duration" where
  "Watch j = (if 0 < WatchSeconds j then WatchSeconds j * second
              else if Home j then DefaultWatchHome else DefaultWatchNode)"

definition HealthLimit :: "Job \<Rightarrow> duration" where
  "HealthLimit j = (if 0 < HealthSeconds j then HealthSeconds j * second else DefaultHealthLimit)"

definition WatchBound :: "Job \<Rightarrow> duration" where
  "WatchBound j = 3 * Watch j + HealthLimit j"

text \<open>\<open>time.Duration(x)\<close> of a \<open>float64\<close> drops the fraction.\<close>

definition duration_of :: "float64 \<Rightarrow> duration" where
  "duration_of x = (if 0 \<le> x then \<lfloor>x\<rfloor> else - \<lfloor>- x\<rfloor>)"

definition pendingCap :: "Rehearsal option \<Rightarrow> duration" where
  "pendingCap r = (case r of None \<Rightarrow> 2 * (60 * minute)
     | Some r \<Rightarrow> 2 * (60 * minute) + sint (signed_drop_bit 30 (DBBytes r)) * (15 * minute) +
         3 * duration_of (f64_mul (MigrateSec r) (f64_of_int second)))"

definition stallLimit :: "Rehearsal option \<Rightarrow> duration" where
  "stallLimit r = (case r of None \<Rightarrow> 60 * minute
     | Some r \<Rightarrow> max (60 * minute) (3 * duration_of (f64_mul (MigrateSec r) (f64_of_int second))))"

section \<open>The loop\<close>

record Verdict =
  Healthy :: bool
  Fatal :: bool
  Pending :: bool
  Progress :: string
  Unmeasured :: bool
  Why :: string

text \<open>
  The limits the loop computes before its first check, and its variables: an instant that is not
  set (the zero \<open>time.Time\<close>) is \<open>None\<close>, \<open>savedSec\<close> are the journal's \<open>WatchedSec\<close> and \<open>PendingSec\<close>.
\<close>

record Limits =
  watchFor :: duration
  limit :: duration
  bound :: duration
  capped :: duration
  stall :: duration

record WatchState =
  passed :: bool
  tvWaits :: string
  healthySince :: "instant option"
  unhealthySince :: "instant option"
  progressAt :: "instant option"
  watched :: duration
  pending :: duration
  last_check :: instant
  saved :: duration
  savedPending :: duration
  savedSec :: "int \<times> int"
  pendingSaid :: string
  progress :: string

definition limits_of :: "Job \<Rightarrow> Rehearsal option \<Rightarrow> Limits" where
  "limits_of j r = \<lparr>watchFor = Watch j, limit = HealthLimit j, bound = WatchBound j, capped = pendingCap r, stall = stallLimit r\<rparr>"

definition watch_init :: "int \<times> int \<Rightarrow> instant \<Rightarrow> WatchState" where
  "watch_init sec now = \<lparr>passed = False, tvWaits = '''', healthySince = None, unhealthySince = None, progressAt = None,
     watched = fst sec * second, pending = snd sec * second, last_check = now, saved = fst sec * second,
     savedPending = snd sec * second, savedSec = sec, pendingSaid = '''', progress = ''''\<rparr>"

text \<open>What the TV step answers (\<open>code\<close> not empty: it failed; else why it waits), and a check's input.\<close>

record Tick =
  verdict :: Verdict
  now :: instant
  tvCode :: string
  tvWaiting :: string
  commitOK :: bool

datatype decision = GoOn | Committed | RollBack string | TVFailed string

text \<open>The clocks of a check, before its verdict is looked at.\<close>

definition count_time :: "Tick \<Rightarrow> WatchState \<Rightarrow> WatchState" where
  "count_time x w =
    (let v = verdict x; d = now x - last_check w;
         w1 = (if Pending v then w\<lparr>pending := pending w + d\<rparr>
               else w\<lparr>watched := watched w + d, progressAt := None, pendingSaid := ''''\<rparr>);
         w2 = w1\<lparr>last_check := now x\<rparr>
     in if 30 * second \<le> watched w2 - saved w2 \<or> 30 * second \<le> pending w2 - savedPending w2
        then w2\<lparr>saved := watched w2, savedPending := pending w2,
                savedSec := (go_quot (watched w2) second, go_quot (pending w2) second)\<rparr>
        else w2)"

definition try_commit :: "Tick \<Rightarrow> WatchState \<Rightarrow> decision \<times> WatchState" where
  "try_commit x w = (if commitOK x then (Committed, w) else (GoOn, w))"

definition pending_case :: "Limits \<Rightarrow> Tick \<Rightarrow> WatchState \<Rightarrow> decision \<times> WatchState" where
  "pending_case l x w0 =
    (let v = verdict x;
         w1 = w0\<lparr>healthySince := None, unhealthySince := None, pendingSaid := Why v\<rparr>;
         w = (if progressAt w1 = None \<or> Progress v \<noteq> progress w1 \<or> Unmeasured v
              then w1\<lparr>progress := Progress v, progressAt := Some (now x)\<rparr> else w1)
     in if capped l \<le> pending w then (RollBack ''start_timeout'', w)
        else if stall l \<le> now x - the (progressAt w) then (RollBack ''start_timeout'', w)
        else (GoOn, w))"

definition healthy_case :: "Limits \<Rightarrow> Tick \<Rightarrow> WatchState \<Rightarrow> decision \<times> WatchState" where
  "healthy_case l x w0 =
    (let w1 = w0\<lparr>unhealthySince := None\<rparr>;
         w = (if healthySince w1 = None then w1\<lparr>healthySince := Some (now x)\<rparr> else w1)
     in if tvCode x \<noteq> '''' then (TVFailed (tvCode x), w)
        else let w2 = w\<lparr>tvWaits := tvWaiting x\<rparr>
             in if watchFor l \<le> now x - the (healthySince w2) then try_commit x (w2\<lparr>passed := True\<rparr>)
                else (GoOn, w2))"

definition unhealthy_case :: "Limits \<Rightarrow> Tick \<Rightarrow> WatchState \<Rightarrow> decision \<times> WatchState" where
  "unhealthy_case l x w0 =
    (let w1 = w0\<lparr>healthySince := None\<rparr>;
         w = (if unhealthySince w1 = None then w1\<lparr>unhealthySince := Some (now x)\<rparr> else w1)
     in if limit l \<le> now x - the (unhealthySince w) then (RollBack (Why (verdict x)), w) else (GoOn, w))"

definition watch_tick :: "Limits \<Rightarrow> Tick \<Rightarrow> WatchState \<Rightarrow> decision \<times> WatchState" where
  "watch_tick l x w0 =
    (let v = verdict x; w = count_time x w0 in
     if Fatal v then (RollBack (Why v), w)
     else if passed w then try_commit x w
     else if Pending v then pending_case l x w
     else if Healthy v then healthy_case l x w
     else if bound l \<le> watched w then (RollBack ''watch_timeout'', w)
     else unhealthy_case l x w)"

text \<open>The loop over a list of checks: it stops at the first decision.\<close>

fun watch_run :: "Limits \<Rightarrow> Tick list \<Rightarrow> WatchState \<Rightarrow> decision \<times> WatchState" where
  "watch_run l [] w = (GoOn, w)"
| "watch_run l (x # xs) w =
     (case watch_tick l x w of (GoOn, w1) \<Rightarrow> watch_run l xs w1 | r \<Rightarrow> r)"

section \<open>Facts of one check\<close>

definition good :: "Tick \<Rightarrow> bool" where
  "good x \<longleftrightarrow> Healthy (verdict x) \<and> \<not> Fatal (verdict x) \<and> \<not> Pending (verdict x) \<and> tvCode x = ''''"

lemma count_time_keeps [simp]:
  "passed (count_time x w) = passed w" "healthySince (count_time x w) = healthySince w"
  "last_check (count_time x w) = now x"
  "watched (count_time x w) = watched w + (if Pending (verdict x) then 0 else now x - last_check w)"
  "pending (count_time x w) = pending w + (if Pending (verdict x) then now x - last_check w else 0)"
  by (simp_all add: count_time_def Let_def)

text \<open>What a check that goes on leaves, by the kind of its verdict.\<close>

lemma pending_tick:
  assumes "watch_tick l x w = (GoOn, w1)" "\<not> passed w" "Pending (verdict x)"
  shows "\<not> Fatal (verdict x) \<and> \<not> passed w1 \<and> healthySince w1 = None \<and> last_check w1 = now x \<and>
    pending w1 = pending w + (now x - last_check w) \<and> watched w1 = watched w \<and> pending w1 < capped l"
  using assms by (auto simp: watch_tick_def pending_case_def Let_def split: if_splits)

lemma unhealthy_tick:
  assumes "watch_tick l x w = (GoOn, w1)" "\<not> passed w" "\<not> Pending (verdict x)" "\<not> Healthy (verdict x)"
  shows "\<not> Fatal (verdict x) \<and> \<not> passed w1 \<and> healthySince w1 = None \<and> last_check w1 = now x \<and>
    pending w1 = pending w \<and> watched w1 = watched w + (now x - last_check w) \<and> watched w1 < bound l"
  using assms by (auto simp: watch_tick_def unhealthy_case_def Let_def split: if_splits)

lemma healthy_tick:
  assumes "watch_tick l x w = (GoOn, w1)" "\<not> passed w" "\<not> Pending (verdict x)" "Healthy (verdict x)"
  shows "good x \<and> healthySince w1 = Some (case healthySince w of None \<Rightarrow> now x | Some t \<Rightarrow> t) \<and>
    last_check w1 = now x \<and> pending w1 = pending w \<and> watched w1 = watched w + (now x - last_check w) \<and>
    (passed w1 \<longleftrightarrow> watchFor l \<le> now x - the (healthySince w1))"
  using assms
  by (cases "healthySince w") (auto simp: watch_tick_def healthy_case_def try_commit_def good_def Let_def split: if_splits)

lemma commit_tick:
  assumes "watch_tick l x w = (Committed, w1)"
  shows "commitOK x \<and> \<not> Fatal (verdict x) \<and>
    (passed w \<or> good x \<and> watchFor l \<le> now x - (case healthySince w of None \<Rightarrow> now x | Some t \<Rightarrow> t))"
  using assms
  by (cases "healthySince w") (auto simp: watch_tick_def pending_case_def healthy_case_def unhealthy_case_def try_commit_def
      good_def Let_def split: if_splits)

lemma passed_tick:
  assumes "watch_tick l x w = (GoOn, w1)" "passed w"
  shows "\<not> Fatal (verdict x) \<and> passed w1"
  using assms by (auto simp: watch_tick_def try_commit_def Let_def split: if_splits)

text \<open>A decision to roll back is one of the loop's five reasons.\<close>

lemma rollback_tick:
  assumes "watch_tick l x w = (RollBack r, w1)"
  shows "Fatal (verdict x) \<and> r = Why (verdict x) \<or>
    \<not> passed w \<and> Pending (verdict x) \<and> r = ''start_timeout'' \<and>
      (capped l \<le> pending w1 \<or> (\<exists>t. progressAt w1 = Some t \<and> stall l \<le> now x - t)) \<or>
    \<not> passed w \<and> \<not> Pending (verdict x) \<and> \<not> Healthy (verdict x) \<and>
      (r = ''watch_timeout'' \<and> bound l \<le> watched w1 \<or>
       r = Why (verdict x) \<and> (\<exists>t. unhealthySince w1 = Some t \<and> limit l \<le> now x - t))"
  using assms
  by (cases "unhealthySince w"; cases "progressAt w")
    (auto simp: watch_tick_def pending_case_def healthy_case_def unhealthy_case_def try_commit_def
      count_time_def Let_def split: if_splits)

section \<open>A release is kept only when it earned it\<close>

definition earned :: "Limits \<Rightarrow> instant option \<Rightarrow> Tick list \<Rightarrow> bool" where
  "earned l h xs \<longleftrightarrow> (\<exists>pre mid post rest. xs = pre @ mid @ post @ rest \<and> mid \<noteq> [] \<and> (\<forall>x\<in>set mid. good x) \<and>
     (\<forall>x\<in>set post. \<not> Fatal (verdict x)) \<and> commitOK (last (mid @ post)) \<and>
     (watchFor l \<le> now (last mid) - now (hd mid) \<or>
      pre = [] \<and> (case h of None \<Rightarrow> False | Some t \<Rightarrow> watchFor l \<le> now (last mid) - t)))"

lemma earned_skip: "earned l None xs \<Longrightarrow> earned l h (x # xs)"
  unfolding earned_def by (metis append_Cons option.simps(4))

lemma earned_healthy:
  assumes "earned l (Some (case h of None \<Rightarrow> now x | Some t \<Rightarrow> t)) xs" "good x"
  shows "earned l h (x # xs)"
proof -
  obtain pre mid post rest where *: "xs = pre @ mid @ post @ rest" "mid \<noteq> []" "\<forall>x\<in>set mid. good x"
      "\<forall>x\<in>set post. \<not> Fatal (verdict x)" "commitOK (last (mid @ post))"
    and w: "watchFor l \<le> now (last mid) - now (hd mid) \<or>
      pre = [] \<and> watchFor l \<le> now (last mid) - (case h of None \<Rightarrow> now x | Some t \<Rightarrow> t)"
    using assms(1) unfolding earned_def by auto
  show ?thesis
  proof (cases "watchFor l \<le> now (last mid) - now (hd mid)")
    case True
    have "x # xs = (x # pre) @ mid @ post @ rest" using * by simp
    with * True show ?thesis unfolding earned_def by blast
  next
    case False
    have "x # xs = [] @ (x # mid) @ post @ rest" "last ((x # mid) @ post) = last (mid @ post)" "\<forall>y\<in>set (x # mid). good y"
      "last (x # mid) = last mid" "hd (x # mid) = x" using * False w assms(2) by auto
    moreover have "watchFor l \<le> now (last (x # mid)) - now (hd (x # mid)) \<or>
        (case h of None \<Rightarrow> False | Some t \<Rightarrow> watchFor l \<le> now (last (x # mid)) - t)"
      using False w *(2) by (cases h) auto
    ultimately show ?thesis using * unfolding earned_def by (metis list.distinct(1))
  qed
qed

lemma passed_run:
  "watch_run l xs w = (Committed, w1) \<Longrightarrow> passed w \<Longrightarrow>
   \<exists>post rest. xs = post @ rest \<and> post \<noteq> [] \<and> (\<forall>x\<in>set post. \<not> Fatal (verdict x)) \<and> commitOK (last post)"
proof (induction xs arbitrary: w)
  case (Cons x xs)
  obtain d w2 where t: "watch_tick l x w = (d, w2)" by fastforce
  show ?case
  proof (cases d)
    case GoOn
    then have "watch_run l xs w2 = (Committed, w1)" "passed w2" "\<not> Fatal (verdict x)"
      using Cons.prems t passed_tick [of l x w w2] by auto
    from Cons.IH [OF this(1,2)] obtain post rest where "xs = post @ rest" "post \<noteq> []"
      "\<forall>x\<in>set post. \<not> Fatal (verdict x)" "commitOK (last post)" by blast
    then have "x # xs = (x # post) @ rest" "\<forall>y\<in>set (x # post). \<not> Fatal (verdict y)" "commitOK (last (x # post))"
      using \<open>\<not> Fatal (verdict x)\<close> by auto
    then show ?thesis by blast
  next
    case Committed
    then have "commitOK x" "\<not> Fatal (verdict x)" using t commit_tick [of l x w w2] by auto
    then have "x # xs = [x] @ xs" "\<forall>y\<in>set [x]. \<not> Fatal (verdict y)" "commitOK (last [x])" by auto
    then show ?thesis by blast
  qed (use Cons.prems t in auto)
qed simp

lemma commit_earned:
  "watch_run l xs w = (Committed, w1) \<Longrightarrow> \<not> passed w \<Longrightarrow> earned l (healthySince w) xs"
proof (induction xs arbitrary: w)
  case (Cons x xs)
  obtain d w2 where t: "watch_tick l x w = (d, w2)" by fastforce
  show ?case
  proof (cases d)
    case GoOn
    then have r: "watch_run l xs w2 = (Committed, w1)" and t: "watch_tick l x w = (GoOn, w2)" using Cons.prems t by auto
    consider "Pending (verdict x)" | "\<not> Pending (verdict x)" "\<not> Healthy (verdict x)" | "\<not> Pending (verdict x)" "Healthy (verdict x)"
      by blast
    then show ?thesis
    proof cases
      case 1
      then show ?thesis using pending_tick [OF t Cons.prems(2)] Cons.IH [OF r] earned_skip by fastforce
    next
      case 2
      then show ?thesis using unhealthy_tick [OF t Cons.prems(2)] Cons.IH [OF r] earned_skip by fastforce
    next
      case 3
      note h = healthy_tick [OF t Cons.prems(2) 3]
      show ?thesis
      proof (cases "passed w2")
        case False
        then show ?thesis using h Cons.IH [OF r] earned_healthy by metis
      next
        case True
        then obtain post rest where p: "xs = post @ rest" "post \<noteq> []" "\<forall>x\<in>set post. \<not> Fatal (verdict x)" "commitOK (last post)"
          using passed_run [OF r] by blast
        have "x # xs = [] @ [x] @ post @ rest" "commitOK (last ([x] @ post))" "\<forall>y\<in>set [x]. good y"
          using p h by auto
        moreover have "watchFor l \<le> now (last [x]) - now (hd [x]) \<or>
            (case healthySince w of None \<Rightarrow> False | Some t \<Rightarrow> watchFor l \<le> now (last [x]) - t)"
          using True h by (cases "healthySince w") auto
        ultimately show ?thesis using p unfolding earned_def by blast
      qed
    qed
  next
    case Committed
    then have c: "commitOK x" "good x" "watchFor l \<le> now x - (case healthySince w of None \<Rightarrow> now x | Some t \<Rightarrow> t)"
      using t commit_tick [of l x w w2] Cons.prems(2) by auto
    have "x # xs = [] @ [x] @ [] @ xs" "commitOK (last ([x] @ []))" "\<forall>y\<in>set [x]. good y" using c by auto
    moreover have "watchFor l \<le> now (last [x]) - now (hd [x]) \<or>
        (case healthySince w of None \<Rightarrow> False | Some t \<Rightarrow> watchFor l \<le> now (last [x]) - t)"
      using c(3) by (cases "healthySince w") auto
    ultimately show ?thesis unfolding earned_def by (metis empty_iff list.set(1) list.distinct(1))
  qed (use Cons.prems t in auto)
qed simp


section \<open>The watch comes to a verdict\<close>

text \<open>
  How many checks, at least \<open>g\<close> apart, the loop can still make without a verdict: each pending
  one uses up the start steps' cap, each unhealthy one the bound, and after each of these at
  most one stretch of healthy checks fits before the watch is passed.
\<close>

definition stretch :: "Limits \<Rightarrow> duration \<Rightarrow> nat" where
  "stretch l g = nat (watchFor l div g) + 1"

definition healthy_left :: "Limits \<Rightarrow> duration \<Rightarrow> WatchState \<Rightarrow> nat" where
  "healthy_left l g w = (case healthySince w of None \<Rightarrow> stretch l g + 1
     | Some t \<Rightarrow> nat ((watchFor l - (last_check w - t)) div g) + 1)"

definition rank :: "Limits \<Rightarrow> duration \<Rightarrow> WatchState \<Rightarrow> nat" where
  "rank l g w = (nat ((capped l - pending w) div g) + nat ((bound l - watched w) div g)) * (stretch l g + 2) +
     healthy_left l g w"

lemma used_up:
  fixes a b g :: int
  assumes "0 < g" "0 < b" "b + g \<le> a"
  shows "Suc (nat (b div g)) \<le> nat (a div g)"
proof -
  have "b div g + 1 = (b + g) div g" using assms(1) by simp
  also have "\<dots> \<le> a div g" using assms by (intro zdiv_mono1) auto
  finally have "b div g + 1 \<le> a div g" .
  moreover have "0 \<le> b div g" using assms by (simp add: pos_imp_zdiv_nonneg_iff)
  ultimately show ?thesis by linarith
qed

lemma less_left: "0 < (g :: int) \<Longrightarrow> b \<le> a \<Longrightarrow> nat (b div g) \<le> nat (a div g)"
  by (intro nat_mono zdiv_mono1) auto

lemma rank_step:
  assumes t: "watch_tick l x w = (GoOn, w1)" "\<not> passed w" "\<not> passed w1"
    and g: "0 < g" "last_check w + g \<le> now x"
  shows "Suc (rank l g w1) \<le> rank l g w"
proof -
  define A where "A w = nat ((capped l - pending w) div g)" for w :: WatchState
  define B where "B w = nat ((bound l - watched w) div g)" for w :: WatchState
  have r: "rank l g w = (A w + B w) * (stretch l g + 2) + healthy_left l g w" for w
    by (simp add: rank_def A_def B_def)
  consider "Pending (verdict x)" | "\<not> Pending (verdict x)" "\<not> Healthy (verdict x)" | "\<not> Pending (verdict x)" "Healthy (verdict x)"
    by blast
  then show ?thesis
  proof cases
    case 1
    note p = pending_tick [OF t(1,2) 1]
    have "Suc (A w1) \<le> A w" unfolding A_def using p g by (intro used_up) auto
    moreover have "B w1 = B w" using p by (simp add: B_def)
    ultimately have "(A w1 + B w1 + 1) * (stretch l g + 2) \<le> (A w + B w) * (stretch l g + 2)"
      by (intro mult_le_mono1) simp
    moreover have "healthy_left l g w1 = stretch l g + 1" using p by (simp add: healthy_left_def)
    ultimately show ?thesis unfolding r by simp
  next
    case 2
    note p = unhealthy_tick [OF t(1,2) 2]
    have "Suc (B w1) \<le> B w" unfolding B_def using p g by (intro used_up) auto
    moreover have "A w1 = A w" using p by (simp add: A_def)
    ultimately have "(A w1 + B w1 + 1) * (stretch l g + 2) \<le> (A w + B w) * (stretch l g + 2)"
      by (intro mult_le_mono1) simp
    moreover have "healthy_left l g w1 = stretch l g + 1" using p by (simp add: healthy_left_def)
    ultimately show ?thesis unfolding r by simp
  next
    case 3
    note p = healthy_tick [OF t(1,2) 3]
    have "A w1 = A w" using p by (simp add: A_def)
    moreover have "B w1 \<le> B w" unfolding B_def using p g by (intro less_left) auto
    ultimately have "(A w1 + B w1) * (stretch l g + 2) \<le> (A w + B w) * (stretch l g + 2)"
      by (intro mult_le_mono1) simp
    moreover have "Suc (healthy_left l g w1) \<le> healthy_left l g w"
    proof (cases "healthySince w")
      case None
      then show ?thesis using p by (simp add: healthy_left_def stretch_def)
    next
      case (Some s)
      have "\<not> watchFor l \<le> now x - s" using p t(3) Some by auto
      then have "Suc (nat ((watchFor l - (now x - s)) div g)) \<le> nat ((watchFor l - (last_check w - s)) div g)"
        using g by (intro used_up) auto
      then show ?thesis using p Some by (simp add: healthy_left_def)
    qed
    ultimately show ?thesis unfolding r by simp
  qed
qed

text \<open>Checks at least \<open>g\<close> apart, the first that long after \<open>t\<close>.\<close>

fun spaced :: "duration \<Rightarrow> instant \<Rightarrow> Tick list \<Rightarrow> bool" where
  "spaced g t [] = True"
| "spaced g t (x # xs) = (t + g \<le> now x \<and> spaced g (now x) xs)"

lemma passed_stays: "watch_run l xs w = (GoOn, w1) \<Longrightarrow> passed w \<Longrightarrow> passed w1"
proof (induction xs arbitrary: w)
  case (Cons x xs)
  obtain d w2 where t: "watch_tick l x w = (d, w2)" by fastforce
  then have "d = GoOn" "watch_run l xs w2 = (GoOn, w1)" using Cons.prems by (auto split: decision.splits)
  then show ?case using Cons t passed_tick by blast
qed simp

lemma rank_run:
  assumes "watch_run l xs w = (GoOn, w1)" "\<not> passed w1" "0 < g" "spaced g (last_check w) xs"
  shows "length xs + rank l g w1 \<le> rank l g w"
  using assms
proof (induction xs arbitrary: w)
  case (Cons x xs)
  obtain d w2 where t: "watch_tick l x w = (d, w2)" by fastforce
  then have d: "watch_tick l x w = (GoOn, w2)" "watch_run l xs w2 = (GoOn, w1)" using Cons.prems by (auto split: decision.splits)
  have "\<not> passed w2" using passed_stays [OF d(2)] Cons.prems(2) by blast
  moreover have "\<not> passed w" using passed_tick [OF d(1)] calculation by blast
  moreover have "last_check w2 = now x"
    using pending_tick [OF d(1)] unhealthy_tick [OF d(1)] healthy_tick [OF d(1)] calculation by blast
  ultimately show ?case
    using rank_step [OF d(1) _ _ Cons.prems(3)] Cons.IH [OF d(2) Cons.prems(2,3)] Cons.prems(4) by auto
qed simp

section \<open>Properties\<close>

text \<open>
  A release is kept only when it earned it: if the watch of a job commits, there was a
  stretch of checks without a gap, all healthy and with no failed TV step, at least the job's watch
  long; from then on no check was fatal, and at the last of them the installer did commit.
\<close>

theorem commit_is_earned:
  assumes "watch_run (limits_of j r) xs (watch_init sec t) = (Committed, w)"
  shows "\<exists>pre mid post rest. xs = pre @ mid @ post @ rest \<and> mid \<noteq> [] \<and> (\<forall>x\<in>set mid. good x) \<and>
    Watch j \<le> now (last mid) - now (hd mid) \<and> (\<forall>x\<in>set post. \<not> Fatal (verdict x)) \<and> commitOK (last (mid @ post))"
proof -
  have "\<not> passed (watch_init sec t)" "healthySince (watch_init sec t) = None" "watchFor (limits_of j r) = Watch j"
    by (simp_all add: watch_init_def limits_of_def)
  then show ?thesis
    using commit_earned [OF assms] unfolding earned_def by fastforce
qed

definition sample_job :: Job where
  "sample_job = \<lparr>RunID = ''r1'', JobVersion = ''1.2.0'', Tag = ''v1.2.0'', Home = False, Rehearse = False, WatchSeconds = 10, HealthSeconds = 5\<rparr>"

definition tick_of :: "bool \<Rightarrow> bool \<Rightarrow> int \<Rightarrow> Tick" where
  "tick_of h p s = \<lparr>verdict = \<lparr>Healthy = h, Fatal = False, Pending = p, Progress = '''', Unmeasured = False, Why = ''x''\<rparr>,
     now = s * second, tvCode = '''', tvWaiting = '''', commitOK = True\<rparr>"

theorem commit_is_earned_witness:
  "\<exists>pre mid post rest. [tick_of False True 5, tick_of True False 10, tick_of True False 15, tick_of True False 20] =
      pre @ mid @ post @ rest \<and> mid \<noteq> [] \<and> Watch sample_job \<le> now (last mid) - now (hd mid)"
proof -
  have "fst (watch_run (limits_of sample_job None)
      [tick_of False True 5, tick_of True False 10, tick_of True False 15, tick_of True False 20] (watch_init (0, 0) 0)) = Committed"
    by code_simp
  then obtain w where "watch_run (limits_of sample_job None)
      [tick_of False True 5, tick_of True False 10, tick_of True False 15, tick_of True False 20] (watch_init (0, 0) 0) = (Committed, w)"
    by (metis prod.collapse)
  from commit_is_earned [OF this] show ?thesis by blast
qed

text \<open>
  Property C24. The watch comes to a verdict: with checks at least \<open>g\<close> apart, whatever the verdicts
  and the times the journal starts from, a watch that has made more checks than its limits have
  room for has passed (and only its commit is tried again) or has ended.
\<close>

theorem watch_comes_to_a_verdict:
  assumes "watch_run (limits_of j r) xs (watch_init sec t) = (GoOn, w)" "\<not> passed w"
    and "0 < g" "spaced g t xs" "0 \<le> fst sec" "0 \<le> snd sec"
  shows "length xs \<le> (nat (pendingCap r div g) + nat (WatchBound j div g) + 1) * (nat (Watch j div g) + 3)"
proof -
  define l where "l = limits_of j r"
  define w0 where "w0 = watch_init sec t"
  have f: "capped l = pendingCap r" "bound l = WatchBound j" "watchFor l = Watch j"
    "pending w0 = snd sec * second" "watched w0 = fst sec * second" "healthySince w0 = None" "last_check w0 = t"
    by (simp_all add: l_def w0_def limits_of_def watch_init_def)
  have "length xs \<le> rank l g w0"
    using rank_run [of l xs w0 w g] assms f(7) by (simp add: l_def w0_def)
  also have "\<dots> \<le> (nat (pendingCap r div g) + nat (WatchBound j div g)) * (stretch l g + 2) + (stretch l g + 1)"
  proof -
    have "nat ((capped l - pending w0) div g) \<le> nat (pendingCap r div g)"
      "nat ((bound l - watched w0) div g) \<le> nat (WatchBound j div g)"
      using assms(3,5,6) f by (intro less_left; simp)+
    then show ?thesis
      unfolding rank_def by (intro add_mono mult_le_mono1) (simp_all add: healthy_left_def f)
  qed
  also have "\<dots> \<le> (nat (pendingCap r div g) + nat (WatchBound j div g) + 1) * (nat (Watch j div g) + 3)"
    by (simp add: stretch_def f algebra_simps)
  finally show ?thesis .
qed

theorem watch_comes_to_a_verdict_witness:
  "length [tick_of False True 5, tick_of False True 10] \<le>
    (nat (pendingCap None div (5 * second)) + nat (WatchBound sample_job div (5 * second)) + 1) *
    (nat (Watch sample_job div (5 * second)) + 3)"
proof -
  have "fst (watch_run (limits_of sample_job None) [tick_of False True 5, tick_of False True 10] (watch_init (0, 0) 0)) = GoOn"
    "\<not> passed (snd (watch_run (limits_of sample_job None) [tick_of False True 5, tick_of False True 10] (watch_init (0, 0) 0)))"
    by code_simp+
  then show ?thesis
    using watch_comes_to_a_verdict [of sample_job None "[tick_of False True 5, tick_of False True 10]" "(0, 0)" 0 _ "5 * second"]
    by (simp add: tick_of_def prod_eq_iff)
qed

section \<open>Where the code departs from its comments\<close>

text \<open>
  \<open>WatchBound\<close> is said to be how long a watch goes on without a verdict outside the start steps, but
  it is looked at only by an unhealthy check. Health that changes between healthy and pending is
  never held to it: here the bound is 35 seconds, and after 50 seconds outside the start steps the
  watch goes on without having passed.
\<close>

definition alternating :: "Tick list" where
  "alternating = concat (map (\<lambda>i. [tick_of True False (10 * i + 5), tick_of False True (10 * i + 10)]) [0, 1, 2, 3, 4, 5, 6, 7, 8, 9])"

lemma bound_not_kept:
  "let w = snd (watch_run (limits_of sample_job None) alternating (watch_init (0, 0) 0)) in
   fst (watch_run (limits_of sample_job None) alternating (watch_init (0, 0) 0)) = GoOn \<and> \<not> passed w \<and>
   WatchBound sample_job = 35 * second \<and> watched w = 50 * second"
  by code_simp

end
