(* ===== verification/Updater_Machine.thy ===== *)
theory Updater_Machine
  imports Updater_Watch Version_Order
begin

text \<open>
  A machine's part of an update run (cmd/maktaba-server/internal/updater, machine.go and
  journal.go): prepare, order, apply, the restart and what the next start makes of the journal,
  the watch with its commit, and the rollback. The properties are in \<open>Updater_Safety\<close>.

  The machine is one state: the journal in memory and the one on disk (a write that fails leaves
  the old one there), the release that runs and the goroutines under way. An event is a request,
  a start of the process (at any moment, on any release), its stop, or the next section of one
  goroutine. A section ends where the code calls out (the installer, the app, the database's
  record); the answers, the clock and the outcome of each write are inputs of the event. A request
  takes with it the first section of the goroutine it starts, a discard its call. The list
  \<open>made\<close> records the calls that succeeded, with the run they were made for.

  The records of the steps, the texts of failures, the app's last answer, the TV's change and its handover, packs (their
  fetch is a step of a prepare that succeeds or fails), the launcher's replacement and the log are
  not modelled; an event \<open>Saves\<close> stands for the writes these make. The order of a release from before
  decision D1 (\<open>awaiting_click\<close>) is read as what it became.
\<close>

section \<open>States and journal\<close>

datatype run_state = StatePreparing | StatePrepared | StatePrepareFailed | StateAborted | StateOrdered
  | StateAppStaged | StateApplying | StateRestarting | StateWatching | StateCommitted | StateRollingBack
  | StateRolledBack | StateApplyFailed | StateFailed

definition Busy :: "run_state \<Rightarrow> bool" where
  "Busy s \<longleftrightarrow> s \<in> {StatePreparing, StateApplying, StateRestarting, StateWatching, StateRollingBack}"

definition Ended :: "run_state \<Rightarrow> bool" where
  "Ended s \<longleftrightarrow> s \<in> {StatePrepareFailed, StateAborted, StateCommitted, StateRolledBack, StateApplyFailed, StateFailed}"

definition ordered :: "run_state \<Rightarrow> bool" where
  "ordered s \<longleftrightarrow> s = StateOrdered \<or> s = StateAppStaged"

datatype run_step = StepPreflight | StepStage | StepPacks | StepSmoke | StepRehearse

text \<open>
  Of the release's record that \<open>Stage\<close> notes, \<open>Signed\<close> is the version and \<open>LauncherProtocol\<close> as is;
  \<open>began\<close> stands for \<open>StartedAt\<close>, the number of journals begun before.
\<close>

record Journal =
  job :: Job
  From :: string
  JState :: run_state
  Err :: "string option"
  Staged :: string
  FromRef :: string
  rehearsal :: "Rehearsal option"
  LauncherProtocol :: int
  Signed :: "string option"
  Starts :: int
  WatchedSec :: int
  PendingSec :: int
  Rollbacks :: int
  Reason :: string
  began :: nat

definition new_journal :: "nat \<Rightarrow> Job \<Rightarrow> string \<Rightarrow> Journal" where
  "new_journal n j r = \<lparr>job = j, From = r, JState = StatePreparing, Err = None, Staged = '''', FromRef = '''',
     rehearsal = None, LauncherProtocol = 0, Signed = None, Starts = 0, WatchedSec = 0, PendingSec = 0,
     Rollbacks = 0, Reason = '''', began = n\<rparr>"

definition ValidVersion :: "string \<Rightarrow> bool" where
  "ValidVersion v \<longleftrightarrow> v \<noteq> '''' \<and> length v \<le> 64 \<and>
     list_all (\<lambda>r. is_digit r \<or> (CHR ''a'' \<le> r \<and> r \<le> CHR ''z'') \<or> (CHR ''A'' \<le> r \<and> r \<le> CHR ''Z'') \<or>
       r \<in> {CHR ''.'', CHR ''-'', CHR ''+'', CHR ''_''}) v \<and> is_digit (hd v)"

definition Validate :: "Job \<Rightarrow> bool" where
  "Validate j \<longleftrightarrow> RunID j \<noteq> '''' \<and> ValidVersion (JobVersion j) \<and> Tag j = ''v'' @ NormalizeVersion (JobVersion j)"

section \<open>The machine\<close>

text \<open>
  A goroutine under way, at the call it waits for. A copy of the journal the call was given goes with
  it. \<open>P_call x k\<close> is the \<open>k\<close>th step of the prepare with context \<open>x\<close>, \<open>P_last\<close> its end; \<open>A_\<close> are the
  calls of an apply, \<open>O_\<close> of the wait for the app, \<open>R_\<close> of a rollback, \<open>C_\<close> of a start that came back
  on the release before.
\<close>

datatype activity =
    P_call nat nat Journal
  | P_last nat
  | A_backup
  | A_switch Journal
  | A_handover
  | A_restart Journal
  | A_undo string Journal
  | O_order string
  | O_poll string
  | O_answer string
  | W_watch Limits WatchState
  | R_mark
  | R_revert bool Journal
  | C_revert string Journal
  | C_mark string

text \<open>
  What was done, and for which journal: a step of a prepare, the switch, the way back, the restart onto the
  new release, a check of the watch (without the commit's outcome), the commit (of a job, by a running release), the removal of what was staged, the beginning
  of a rollback, the mark that has the dump put back, and its removal.
\<close>

datatype call =
    Did nat run_step
  | Switched nat
  | Reverted nat
  | Restarted nat
  | Checked nat Tick
  | Kept nat Job string
  | Discarded nat
  | Rolling nat
  | Marked nat
  | Unmarked nat

record Machine =
  jrn :: "Journal option"
  dsk :: "Journal option"
  running :: string
  acts :: "activity list"
  cancel :: "nat option"
  contexts :: nat
  cancelled :: "nat list"
  stopped :: bool
  leaving :: bool
  begun :: nat
  made :: "call list"

text \<open>The installation: whether there are packs, whether an app installs (\<open>orderer\<close>), the start limit.\<close>

record Config =
  hasPacks :: bool
  hasOrderer :: bool
  maxStarts :: int

definition prep_steps :: "Config \<Rightarrow> run_step list" where
  "prep_steps c = [StepPreflight, StepStage] @ (if hasPacks c then [StepPacks] else []) @ [StepSmoke, StepRehearse]"

text \<open>
  What a section is told: whether its call succeeded, the outcome of each of its writes, a second answer where
  there is one (the preflight's other checks, whether there are tools to rehearse with, whether the app's answer is
  new, the record's answer), what \<open>Stage\<close> found (\<open>Staged\<close>, \<open>FromRef\<close>, \<open>Signed\<close>, \<open>LauncherProtocol\<close>), what was rehearsed, a code or the app's
  word, the check of a watch and the clock.
\<close>

record Answer =
  okay :: bool
  writes :: "nat \<Rightarrow> bool"
  extra :: bool
  found :: "string \<times> string \<times> string option \<times> int"
  measured :: Rehearsal
  word :: string
  tick :: Tick
  clock :: instant

section \<open>The journal and its file\<close>

definition save :: "bool \<Rightarrow> Machine \<Rightarrow> Machine" where
  "save ok m = (if ok \<and> jrn m \<noteq> None then m\<lparr>dsk := jrn m\<rparr> else m)"

definition mutate :: "bool \<Rightarrow> (Journal \<Rightarrow> Journal) \<Rightarrow> Machine \<Rightarrow> Machine" where
  "mutate ok f m = (case jrn m of None \<Rightarrow> m | Some j \<Rightarrow> save ok (m\<lparr>jrn := Some (f j)\<rparr>))"

definition log_call :: "call \<Rightarrow> Machine \<Rightarrow> Machine" where
  "log_call e m = m\<lparr>made := e # made m\<rparr>"

definition go :: "activity \<Rightarrow> Machine \<Rightarrow> Machine" where
  "go a m = m\<lparr>acts := acts m @ [a]\<rparr>"

text \<open>
  The end of \<open>withJournal\<close>: the handles of the copy \<open>w\<close> go into the journal, if it is of the same run still;
  the result says whether it returned no error.
\<close>

definition with_journal :: "bool \<Rightarrow> bool \<Rightarrow> Journal \<Rightarrow> Machine \<Rightarrow> bool \<times> Machine" where
  "with_journal ok wr w m =
    (case jrn m of None \<Rightarrow> (False, m)
     | Some j \<Rightarrow>
         if RunID (job j) \<noteq> RunID (job w) then (False, m)
         else (ok \<and> wr, save wr (m\<lparr>jrn := Some (j\<lparr>Staged := Staged w, FromRef := FromRef w\<rparr>)\<rparr>)))"

definition discard :: "bool \<Rightarrow> Machine \<Rightarrow> Machine" where
  "discard wr m = (case jrn m of None \<Rightarrow> m | Some j \<Rightarrow> save wr (log_call (Discarded (began j)) m))"

definition state_is :: "run_state \<Rightarrow> Machine \<Rightarrow> bool" where
  "state_is s m \<longleftrightarrow> (case jrn m of None \<Rightarrow> False | Some j \<Rightarrow> JState j = s)"

definition is_run :: "string \<Rightarrow> Machine \<Rightarrow> bool" where
  "is_run r m \<longleftrightarrow> (case jrn m of None \<Rightarrow> False | Some j \<Rightarrow> RunID (job j) = r)"

section \<open>Requests\<close>

datatype request_error = BadJob | ErrBusy | ErrNoRun | ErrNotReady | ErrPastSwitch | ErrAhead | ErrNoRollback | ErrTVBusy | ErrSave

text \<open>A prepare's next step begins (\<open>beginStep\<close>, which may fail to write), or its last section.\<close>

definition prep_begin :: "Config \<Rightarrow> bool \<Rightarrow> nat \<Rightarrow> nat \<Rightarrow> Machine \<Rightarrow> Machine" where
  "prep_begin c wr x k m =
    (if k < length (prep_steps c) then
       (case jrn m of None \<Rightarrow> m | Some j \<Rightarrow> if wr then go (P_call x k j) (save True m) else m)
     else go (P_last x) m)"

definition start_prepare :: "Config \<Rightarrow> bool \<Rightarrow> Machine \<Rightarrow> Machine" where
  "start_prepare c wr m = prep_begin c wr (contexts m) 0 (m\<lparr>cancel := Some (contexts m), contexts := contexts m + 1\<rparr>)"

definition new_run :: "Job \<Rightarrow> Machine \<Rightarrow> Machine" where
  "new_run jb m = m\<lparr>jrn := Some (new_journal (begun m) jb (NormalizeVersion (running m))), begun := begun m + 1\<rparr>"

definition Prepare :: "Config \<Rightarrow> Answer \<Rightarrow> Job \<Rightarrow> Machine \<Rightarrow> request_error option \<times> Machine" where
  "Prepare c a job0 m =
    (if \<not> Validate job0 then (Some BadJob, m) else
     let jb = job0\<lparr>JobVersion := NormalizeVersion (JobVersion job0)\<rparr>; v = CompareVersions (running m) (JobVersion jb) in
     if is_run (RunID jb) m \<and> (case jrn m of None \<Rightarrow> False | Some j \<Rightarrow> \<not> Ended (JState j)) then (None, m)
     else if (case jrn m of None \<Rightarrow> False | Some j \<Rightarrow> Busy (JState j)) then (Some ErrBusy, m)
     else if ValidVersion (NormalizeVersion (running m)) \<and> 0 < v then (Some ErrAhead, m)
     else
       let m1 = (case jrn m of None \<Rightarrow> m | Some old \<Rightarrow>
             if JState old \<in> {StatePrepared, StateOrdered, StateAppStaged, StateAborted, StatePrepareFailed}
             then log_call (Discarded (began old)) m else m);
           m2 = new_run jb m1;
           e = (if writes a 0 then None else Some ErrSave)
       in if v = 0 then (e, mutate (writes a 0) (\<lambda>j. j\<lparr>JState := StatePrepared, Staged := ''running''\<rparr>) m2)
          else if writes a 0 then (None, start_prepare c (writes a 1) (save True m2))
          else (e, m2))"

definition Abort :: "Answer \<Rightarrow> string \<Rightarrow> Machine \<Rightarrow> request_error option \<times> Machine" where
  "Abort a r m =
    (case jrn m of None \<Rightarrow> (Some ErrNoRun, m)
     | Some j \<Rightarrow>
       let m1 = mutate (writes a 0) (\<lambda>j. j\<lparr>JState := StateAborted\<rparr>) m in
       if RunID (job j) \<noteq> r then (Some ErrNoRun, m)
       else if JState j = StatePreparing then
         (None, m1\<lparr>cancelled := (case cancel m of None \<Rightarrow> cancelled m | Some x \<Rightarrow> x # cancelled m)\<rparr>)
       else if JState j = StatePrepared \<or> ordered (JState j) then
         (if writes a 0 then None else Some ErrSave, discard (writes a 1) m1)
       else if JState j \<in> {StatePrepareFailed, StateAborted} then (None, m)
       else (Some ErrPastSwitch, m))"

definition Apply :: "Config \<Rightarrow> Answer \<Rightarrow> string \<Rightarrow> Machine \<Rightarrow> request_error option \<times> Machine" where
  "Apply c a r m =
    (case jrn m of None \<Rightarrow> (Some ErrNoRun, m)
     | Some j \<Rightarrow>
       let e = (if writes a 0 then None else Some ErrSave) in
       if RunID (job j) \<noteq> r then (Some ErrNoRun, m)
       else if JState j \<in> {StateApplying, StateRestarting, StateWatching, StateCommitted, StateRollingBack, StateRolledBack,
           StateApplyFailed, StateOrdered} then (None, m)
       else if JState j \<noteq> StatePrepared \<and> JState j \<noteq> StateAppStaged then (Some ErrNotReady, m)
       else if JState j = StatePrepared \<and> Staged j \<noteq> ''running'' \<and> hasOrderer c then
         (let m1 = mutate (writes a 0) (\<lambda>j. j\<lparr>JState := StateOrdered\<rparr>) m
          in (e, if writes a 0 then go (O_order r) m1 else m1))
       else if Staged j = ''running'' then (e, mutate (writes a 0) (\<lambda>j. j\<lparr>JState := StateCommitted\<rparr>) m)
       else
         (let m1 = mutate (writes a 0) (\<lambda>j. j\<lparr>JState := StateApplying\<rparr>) m
          in (e, if writes a 0 then go A_backup m1 else m1)))"

text \<open>\<open>ApplyGated\<close>; \<open>refused\<close>: the TV is watched and cannot be handed over now.\<close>

definition ApplyGated :: "Config \<Rightarrow> Answer \<Rightarrow> bool \<Rightarrow> string \<Rightarrow> Machine \<Rightarrow> request_error option \<times> Machine" where
  "ApplyGated c a refused r m =
    (if refused \<and> is_run r m \<and> (state_is StatePrepared m \<or> state_is StateAppStaged m) \<and>
        Staged (the (jrn m)) \<noteq> ''running''
     then (Some ErrTVBusy, save (writes a 0) m) else Apply c a r m)"

text \<open>
  The first section of a rollback: there is nothing to go back to, the way back was tried twice, or it
  begins. \<open>R_mark\<close> then stands for the TV's change taken back and the database's record.
\<close>

definition rollback :: "Answer \<Rightarrow> string \<Rightarrow> Machine \<Rightarrow> Machine" where
  "rollback a reason m =
    (case jrn m of None \<Rightarrow> m
     | Some j \<Rightarrow>
       if FromRef j = '''' \<and> From j = '''' then
         mutate (writes a 8) (\<lambda>j. j\<lparr>JState := StateFailed, Reason := reason, Err := Some ''no_previous''\<rparr>) m
       else if 2 \<le> Rollbacks j then
         mutate (writes a 8) (\<lambda>j. j\<lparr>JState := StateFailed, Reason := reason, Err := Some ''rollback_loop''\<rparr>) m
       else go R_mark (log_call (Rolling (began j)) (save (writes a 9) (mutate (writes a 8)
              (\<lambda>j. j\<lparr>JState := StateRollingBack, Reason := reason, Rollbacks := Rollbacks j + 1\<rparr>) (save (writes a 7) m)))))"

definition RollbackCommitted :: "Answer \<Rightarrow> bool \<Rightarrow> string \<Rightarrow> Machine \<Rightarrow> request_error option \<times> Machine" where
  "RollbackCommitted a migrated r m =
    (case jrn m of None \<Rightarrow> (Some ErrNoRun, m)
     | Some j \<Rightarrow>
       if RunID (job j) \<noteq> r then (Some ErrNoRun, m)
       else if JState j \<noteq> StateCommitted \<or> From j = '''' \<or> Staged j = ''running'' then (Some ErrNoRollback, m)
       else if Home (job j) \<and> migrated then (Some ErrNoRollback, m)
       else (None, rollback a ''admin'' m))"

section \<open>Prepare\<close>

text \<open>The call of a step, and what follows it under the lock; the result says whether it returned no error.\<close>

definition rehearse :: "Answer \<Rightarrow> Journal \<Rightarrow> Machine \<Rightarrow> bool \<times> Machine" where
  "rehearse a w m =
    (if \<not> Home (job w) then (True, m)
     else if \<not> Rehearse (job w) then
       (True, mutate (writes a 0) (\<lambda>j. j\<lparr>rehearsal := Some \<lparr>Skipped = ''off'', DBBytes = 0, MigrateSec = 0\<rparr>\<rparr>) m)
     else if \<not> extra a then
       (True, mutate (writes a 0)
         (\<lambda>j. j\<lparr>rehearsal := Some \<lparr>Skipped = ''no_migrations_archive'', DBBytes = 0, MigrateSec = 0\<rparr>\<rparr>) m)
     else (okay a, mutate (writes a 0) (\<lambda>j. j\<lparr>rehearsal := Some (measured a)\<rparr>) m))"

definition prep_call :: "Answer \<Rightarrow> run_step \<Rightarrow> Journal \<Rightarrow> Machine \<Rightarrow> bool \<times> Machine" where
  "prep_call a s w m =
    (case s of
       StepPreflight \<Rightarrow> (case with_journal (okay a) (writes a 0) w m of (ok, m1) \<Rightarrow> (ok \<and> extra a, m1))
     | StepStage \<Rightarrow>
         (case found a of (st, fr, sg, lp) \<Rightarrow>
            with_journal (okay a) (writes a 0) (w\<lparr>Staged := st, FromRef := fr, Signed := sg, LauncherProtocol := lp\<rparr>) m)
     | StepPacks \<Rightarrow> (okay a, m)
     | StepSmoke \<Rightarrow> with_journal (okay a) (writes a 0) w m
     | StepRehearse \<Rightarrow> rehearse a w m)"

definition ctx_ended :: "nat \<Rightarrow> Machine \<Rightarrow> bool" where
  "ctx_ended x m \<longleftrightarrow> stopped m \<or> x \<in> set (cancelled m)"

definition abort_cut :: "Answer \<Rightarrow> Machine \<Rightarrow> Machine" where
  "abort_cut a m = (if state_is StateAborted m then discard (writes a 2) (save (writes a 1) m) else m)"

definition prep_answered :: "Config \<Rightarrow> Answer \<Rightarrow> nat \<Rightarrow> nat \<Rightarrow> Journal \<Rightarrow> Machine \<Rightarrow> Machine" where
  "prep_answered c a x k w m =
    (case prep_call a (prep_steps c ! k) w m of (ok, m1) \<Rightarrow>
       if ctx_ended x m1 then abort_cut a m1
       else if ok then
         prep_begin c (writes a 2) x (Suc k) (save (writes a 1) (log_call (Did (began w) (prep_steps c ! k)) m1))
       else discard (writes a 3) (mutate (writes a 2) (\<lambda>j. j\<lparr>JState := StatePrepareFailed, Err := Some (word a)\<rparr>)
              (save (writes a 1) m1)))"

definition prep_last :: "Answer \<Rightarrow> Machine \<Rightarrow> Machine" where
  "prep_last a m =
    (if state_is StatePreparing m then mutate (writes a 0) (\<lambda>j. j\<lparr>JState := StatePrepared\<rparr>) m
     else discard (writes a 1) (save (writes a 0) m))"

section \<open>Order and apply\<close>

definition orderFailed :: "Answer \<Rightarrow> string \<Rightarrow> Machine \<Rightarrow> Machine" where
  "orderFailed a r m =
    (case jrn m of None \<Rightarrow> m
     | Some j \<Rightarrow>
       if RunID (job j) = r \<and> ordered (JState j) then
         log_call (Discarded (began j)) (mutate (writes a 0) (\<lambda>j. j\<lparr>JState := StateApplyFailed, Err := Some (word a)\<rparr>) m)
       else m)"

definition await_begin :: "string \<Rightarrow> Machine \<Rightarrow> Machine" where
  "await_begin r m = (if is_run r m \<and> state_is StateOrdered m then go (O_answer r) m else m)"

definition await_answered :: "Answer \<Rightarrow> string \<Rightarrow> Machine \<Rightarrow> Machine" where
  "await_answered a r m =
    (if \<not> okay a then orderFailed a r m
     else if word a = ''staged'' then
       (if is_run r m \<and> state_is StateOrdered m
        then mutate (writes a 0) (\<lambda>j. j\<lparr>JState := StateAppStaged\<rparr>) m else m)
     else
       let m1 = (if word a = ''ordered'' \<and> extra a then save (writes a 0) m else m)
       in if stopped m1 then m1 else go (O_poll r) m1)"

text \<open>A revert is under way; then the run says why its apply failed.\<close>

definition undo_begin :: "string \<Rightarrow> Machine \<Rightarrow> Machine" where
  "undo_begin e m = (case jrn m of None \<Rightarrow> m | Some j \<Rightarrow> go (A_undo e j) m)"

definition undo_answered :: "Answer \<Rightarrow> string \<Rightarrow> Journal \<Rightarrow> Machine \<Rightarrow> Machine" where
  "undo_answered a e w m =
    (let m1 = (if okay a then log_call (Reverted (began w)) m else m)
     in mutate (writes a 1) (\<lambda>j. j\<lparr>JState := StateApplyFailed, Err := Some e\<rparr>) (snd (with_journal (okay a) (writes a 0) w m1)))"

definition backup_answered :: "Answer \<Rightarrow> Machine \<Rightarrow> Machine" where
  "backup_answered a m =
    (if okay a then (case jrn m of None \<Rightarrow> m | Some j \<Rightarrow> go (A_switch j) (save (writes a 0) m))
     else if stopped m then m else undo_begin (word a) m)"

definition switch_answered :: "Answer \<Rightarrow> Journal \<Rightarrow> Machine \<Rightarrow> Machine" where
  "switch_answered a w m =
    (let m1 = (if okay a then log_call (Switched (began w)) m else m)
     in case with_journal (okay a) (writes a 0) w m1 of (ok, m2) \<Rightarrow>
       let m3 = save (writes a 1) m2 in if ok then go A_handover m3 else undo_begin (word a) m3)"

definition handover_answered :: "Answer \<Rightarrow> Machine \<Rightarrow> Machine" where
  "handover_answered a m =
    (let m1 = save (writes a 1) (mutate (writes a 0) (\<lambda>j. j\<lparr>JState := StateRestarting\<rparr>) m)
     in case jrn m1 of None \<Rightarrow> m1 | Some j \<Rightarrow> go (A_restart j) m1)"

definition restart_answered :: "Answer \<Rightarrow> Journal \<Rightarrow> Machine \<Rightarrow> Machine" where
  "restart_answered a w m =
    (let m1 = (if okay a then (log_call (Restarted (began w)) m)\<lparr>leaving := True\<rparr> else m)
     in case with_journal (okay a) (writes a 0) w m1 of (ok, m2) \<Rightarrow>
       if ok \<or> stopped m2 then m2 else undo_begin (word a) (save (writes a 1) m2))"

section \<open>Rollback\<close>

text \<open>
  The record of a home whose migrations ran (\<open>okay\<close>; \<open>extra\<close>: it is marked, so not kept as it is), then the
  switch back, after which a mark goes when the switch back failed (\<open>extra\<close>: that succeeds).
\<close>

definition mark_answered :: "Answer \<Rightarrow> Machine \<Rightarrow> Machine" where
  "mark_answered a m =
    (case jrn m of None \<Rightarrow> m
     | Some j \<Rightarrow>
       let migrated = Home (job j) \<and> okay a
       in go (R_revert migrated j) (if migrated \<and> extra a then log_call (Marked (began j)) m else m))"

definition revert_answered :: "Answer \<Rightarrow> bool \<Rightarrow> Journal \<Rightarrow> Machine \<Rightarrow> Machine" where
  "revert_answered a migrated w m =
    (let m1 = (if okay a then log_call (Reverted (began w)) m else m)
     in case with_journal (okay a) (writes a 0) w m1 of (ok, m2) \<Rightarrow>
       if ok then m2\<lparr>leaving := True\<rparr>
       else let m3 = (if migrated \<and> extra a then log_call (Unmarked (began w)) m2 else m2)
            in mutate (writes a 2) (\<lambda>j. j\<lparr>JState := StateFailed, Err := Some (word a)\<rparr>) (save (writes a 1) m3))"

text \<open>\<open>cameBackOld\<close>: the switch is undone, the record marked (\<open>okay\<close>), and the run rolled back.\<close>

definition cameBackOld :: "Answer \<Rightarrow> string \<Rightarrow> Journal \<Rightarrow> Machine \<Rightarrow> Machine" where
  "cameBackOld a why w m =
    go (C_mark why) (snd (with_journal (okay a) (writes a 0) w (if okay a then log_call (Reverted (began w)) m else m)))"

definition cameBackOld_end :: "Answer \<Rightarrow> string \<Rightarrow> Machine \<Rightarrow> Machine" where
  "cameBackOld_end a why m =
    (case jrn m of None \<Rightarrow> m
     | Some j \<Rightarrow> mutate (writes a 0) (\<lambda>j. j\<lparr>JState := StateRolledBack, Reason := why, Err := Some why\<rparr>)
         (if Home (job j) \<and> okay a then log_call (Marked (began j)) m else m))"

section \<open>Watch\<close>

definition beginWatch :: "Config \<Rightarrow> Answer \<Rightarrow> Machine \<Rightarrow> Machine" where
  "beginWatch c a m =
    (let m1 = mutate (writes a 0) (\<lambda>j. j\<lparr>JState := StateWatching, Starts := Starts j + 1\<rparr>) m
     in case jrn m1 of None \<Rightarrow> m1
        | Some j \<Rightarrow>
          if maxStarts c < Starts j then rollback a ''restarts'' m1
          else go (W_watch (limits_of (job j) (rehearsal j)) (watch_init (WatchedSec j, PendingSec j) (clock a))) m1)"

text \<open>
  One check of the watch. The installer's commit (\<open>okay\<close>) is asked when the release passed its watch, and
  succeeds for the watch if the journal was written then.
\<close>

definition count_saved :: "Answer \<Rightarrow> WatchState \<Rightarrow> WatchState \<Rightarrow> Machine \<Rightarrow> Machine" where
  "count_saved a w w1 m =
    (if savedSec w1 = savedSec w then m
     else mutate (writes a 0) (\<lambda>j. j\<lparr>WatchedSec := fst (savedSec w1), PendingSec := snd (savedSec w1)\<rparr>) m)"

definition ask_commit :: "Answer \<Rightarrow> Journal \<Rightarrow> Machine \<Rightarrow> Machine" where
  "ask_commit a j m =
    save (writes a 1) (if okay a then log_call (Kept (began j) (job j) (running m)) m else m)"

definition watch_answered :: "Answer \<Rightarrow> Limits \<Rightarrow> WatchState \<Rightarrow> Machine \<Rightarrow> Machine" where
  "watch_answered a l w m =
    (case jrn m of None \<Rightarrow> m
     | Some j \<Rightarrow>
       if stopped m then m
       else case watch_tick l (tick a\<lparr>commitOK := okay a \<and> writes a 1\<rparr>) w of (d, w1) \<Rightarrow>
         let m1 = count_saved a w w1 (log_call (Checked (began j) (tick a\<lparr>commitOK := False\<rparr>)) m);
             m2 = (if d = Committed \<or> d = GoOn \<and> passed w1 then ask_commit a j m1 else m1)
         in case d of
              GoOn \<Rightarrow> go (W_watch l w1) m2
            | Committed \<Rightarrow> mutate (writes a 2) (\<lambda>j. j\<lparr>JState := StateCommitted\<rparr>) m2
            | RollBack r \<Rightarrow> rollback a r m2
            | TVFailed e \<Rightarrow> rollback a e (mutate (writes a 2) (\<lambda>j. j\<lparr>Err := Some e\<rparr>) m2))"

section \<open>The start\<close>

datatype load = Unreadable | CannotOpen | Readable

text \<open>\<open>installed\<close> is the failure the app reported, if it did.\<close>

definition Resume :: "Config \<Rightarrow> Answer \<Rightarrow> string option \<Rightarrow> Machine \<Rightarrow> Machine" where
  "Resume c a installed m =
    (case jrn m of None \<Rightarrow> m
     | Some j \<Rightarrow>
       let r = NormalizeVersion (running m);
           newRel = (r \<noteq> '''' \<and> CompareVersions r (JobVersion (job j)) = 0);
           newer = (r \<noteq> '''' \<and> 0 < CompareVersions r (JobVersion (job j)))
       in case JState j of
            StateOrdered \<Rightarrow>
              if newRel then beginWatch c a m
              else if newer then discard (writes a 1) (mutate (writes a 0)
                (\<lambda>j. j\<lparr>JState := StateAborted, Err := Some ''replaced_by_newer''\<rparr>) m)
              else go (O_order (RunID (job j))) m
          | StateAppStaged \<Rightarrow>
              if newRel then beginWatch c a m
              else if newer then discard (writes a 1) (mutate (writes a 0)
                (\<lambda>j. j\<lparr>JState := StateAborted, Err := Some ''replaced_by_newer''\<rparr>) m)
              else m
          | StatePreparing \<Rightarrow> start_prepare c (writes a 1) (save (writes a 0) m)
          | StateApplying \<Rightarrow> if newRel then beginWatch c a m else undo_begin ''interrupted'' m
          | StateRollingBack \<Rightarrow>
              if newRel then rollback a (Reason j) m
              else mutate (writes a 0) (\<lambda>j. j\<lparr>JState := StateRolledBack\<rparr>) m
          | StateRestarting \<Rightarrow>
              if newRel then beginWatch c a m
              else if newer then mutate (writes a 0) (\<lambda>j. j\<lparr>JState := StateApplyFailed, Err := Some ''replaced_by_newer''\<rparr>) m
              else (case installed of Some e \<Rightarrow> undo_begin e m | None \<Rightarrow> go (C_revert ''did_not_start'' j) m)
          | StateWatching \<Rightarrow>
              if newRel then beginWatch c a m
              else if newer then mutate (writes a 0) (\<lambda>j. j\<lparr>JState := StateApplyFailed, Err := Some ''replaced_by_newer''\<rparr>) m
              else go (C_revert ''did_not_stay_up'' j) m
          | _ \<Rightarrow> m)"

text \<open>
  The process starts: nothing of the one before is left but the disk. A journal that cannot be read is set
  aside, if the file can be renamed.
\<close>

definition fresh :: "string \<Rightarrow> Machine \<Rightarrow> Machine" where
  "fresh r m = m\<lparr>jrn := None, running := r, acts := [], cancel := None, cancelled := [], stopped := False, leaving := False\<rparr>"

definition come_up :: "Config \<Rightarrow> Answer \<Rightarrow> load \<Rightarrow> string option \<Rightarrow> string \<Rightarrow> Machine \<Rightarrow> Machine" where
  "come_up c a ld installed r m =
    (case ld of
       Unreadable \<Rightarrow> if writes a 0 then (fresh r m)\<lparr>dsk := None\<rparr> else fresh r m
     | CannotOpen \<Rightarrow> fresh r m
     | Readable \<Rightarrow> Resume c a installed ((fresh r m)\<lparr>jrn := dsk m\<rparr>))"

section \<open>Events\<close>

datatype event =
    Ask_prepare Answer Job
  | Ask_abort Answer string
  | Ask_apply Answer bool string
  | Ask_rollback Answer bool string
  | Saves bool
  | Stops
  | Comes_up Answer load "string option" string
  | Goes_on nat Answer

definition activity_step :: "Config \<Rightarrow> Answer \<Rightarrow> activity \<Rightarrow> Machine \<Rightarrow> Machine" where
  "activity_step c a t m =
    (case t of
       P_call x k w \<Rightarrow> prep_answered c a x k w m
     | P_last x \<Rightarrow> prep_last a m
     | A_backup \<Rightarrow> backup_answered a m
     | A_switch w \<Rightarrow> switch_answered a w m
     | A_handover \<Rightarrow> handover_answered a m
     | A_restart w \<Rightarrow> restart_answered a w m
     | A_undo e w \<Rightarrow> undo_answered a e w m
     | O_order r \<Rightarrow> if okay a then await_begin r m else orderFailed a r m
     | O_poll r \<Rightarrow> if stopped m then m else await_begin r m
     | O_answer r \<Rightarrow> await_answered a r m
     | W_watch l w \<Rightarrow> watch_answered a l w m
     | R_mark \<Rightarrow> mark_answered a m
     | R_revert g w \<Rightarrow> revert_answered a g w m
     | C_revert why w \<Rightarrow> cameBackOld a why w m
     | C_mark why \<Rightarrow> cameBackOld_end a why m)"

definition machine_step :: "Config \<Rightarrow> event \<Rightarrow> Machine \<Rightarrow> Machine" where
  "machine_step c e m =
    (case e of
       Ask_prepare a j \<Rightarrow> snd (Prepare c a j m)
     | Ask_abort a r \<Rightarrow> snd (Abort a r m)
     | Ask_apply a refused r \<Rightarrow> snd (ApplyGated c a refused r m)
     | Ask_rollback a migrated r \<Rightarrow> snd (RollbackCommitted a migrated r m)
     | Saves wr \<Rightarrow> save wr m
     | Stops \<Rightarrow> m\<lparr>stopped := True\<rparr>
     | Comes_up a ld installed r \<Rightarrow> come_up c a ld installed r m
     | Goes_on i a \<Rightarrow>
         if i < length (acts m) then activity_step c a (acts m ! i) (m\<lparr>acts := take i (acts m) @ drop (Suc i) (acts m)\<rparr>)
         else m)"

definition power_on :: "string \<Rightarrow> Machine" where
  "power_on r = \<lparr>jrn = None, dsk = None, running = r, acts = [], cancel = None, contexts = 0, cancelled = [],
     stopped = False, leaving = False, begun = 0, made = []\<rparr>"

end
