(* ===== verification/Updater_Safety.thy ===== *)
theory Updater_Safety
  imports Updater_Machine
begin

text \<open>
  What holds of an update run (\<open>Updater_Machine\<close>) whatever the requests, the restarts, the release that
  comes up, the calls that fail and the writes that fail. One invariant carries it: the goroutine
  under way fits the journal's state, and the journals in memory and on disk fit the list of calls made.
\<close>

section \<open>What the small operations change\<close>

lemma save_fields [simp]:
  "jrn (save ok m) = jrn m" "dsk (save ok m) = (if ok \<and> jrn m \<noteq> None then jrn m else dsk m)"
  "running (save ok m) = running m" "acts (save ok m) = acts m" "cancel (save ok m) = cancel m"
  "contexts (save ok m) = contexts m" "cancelled (save ok m) = cancelled m" "stopped (save ok m) = stopped m"
  "leaving (save ok m) = leaving m" "begun (save ok m) = begun m" "made (save ok m) = made m"
  by (auto simp: save_def)

lemma mutate_fields [simp]:
  "jrn (mutate ok f m) = map_option f (jrn m)"
  "dsk (mutate ok f m) = (if ok \<and> jrn m \<noteq> None then map_option f (jrn m) else dsk m)"
  "running (mutate ok f m) = running m" "acts (mutate ok f m) = acts m" "cancel (mutate ok f m) = cancel m"
  "contexts (mutate ok f m) = contexts m" "cancelled (mutate ok f m) = cancelled m" "stopped (mutate ok f m) = stopped m"
  "leaving (mutate ok f m) = leaving m" "begun (mutate ok f m) = begun m" "made (mutate ok f m) = made m"
  by (simp_all add: mutate_def split: option.splits)

lemma log_fields [simp]:
  "jrn (log_call e m) = jrn m" "dsk (log_call e m) = dsk m" "running (log_call e m) = running m"
  "acts (log_call e m) = acts m" "cancel (log_call e m) = cancel m" "contexts (log_call e m) = contexts m"
  "cancelled (log_call e m) = cancelled m" "stopped (log_call e m) = stopped m" "leaving (log_call e m) = leaving m"
  "begun (log_call e m) = begun m" "made (log_call e m) = e # made m"
  by (simp_all add: log_call_def)

lemma go_fields [simp]:
  "jrn (go a m) = jrn m" "dsk (go a m) = dsk m" "running (go a m) = running m" "acts (go a m) = acts m @ [a]"
  "cancel (go a m) = cancel m" "contexts (go a m) = contexts m" "cancelled (go a m) = cancelled m"
  "stopped (go a m) = stopped m" "leaving (go a m) = leaving m" "begun (go a m) = begun m" "made (go a m) = made m"
  by (simp_all add: go_def)

text \<open>A call given the journal as it is leaves it so.\<close>

lemma with_journal_same: "jrn m = Some w \<Longrightarrow> with_journal ok wr w m = (ok \<and> wr, save wr m)"
  by (cases m; cases w) (simp add: with_journal_def save_def)

section \<open>The invariant\<close>

fun of_order :: "activity \<Rightarrow> bool" where
  "of_order (O_order r) = True"
| "of_order (O_poll r) = True"
| "of_order (O_answer r) = True"
| "of_order _ = False"

fun of_prepare :: "activity \<Rightarrow> bool" where
  "of_prepare (P_call x k w) = True"
| "of_prepare (P_last x) = True"
| "of_prepare _ = False"

definition workers :: "Machine \<Rightarrow> activity list" where
  "workers m = filter (\<lambda>a. \<not> of_order a) (acts m)"

definition same_release :: "string \<Rightarrow> string \<Rightarrow> bool" where
  "same_release r v \<longleftrightarrow> NormalizeVersion r \<noteq> '''' \<and> CompareVersions (NormalizeVersion r) v = 0"

definition all_done :: "Config \<Rightarrow> nat \<Rightarrow> call list \<Rightarrow> bool" where
  "all_done c n es \<longleftrightarrow> (\<forall>s\<in>set (prep_steps c). Did n s \<in> set es)"

text \<open>The checks of a run's watch, the oldest first; a stretch of them that earns the commit, with nothing fatal after it.\<close>

fun checks_of :: "nat \<Rightarrow> call list \<Rightarrow> Tick list" where
  "checks_of n [] = []"
| "checks_of n (e # es) = checks_of n es @ (case e of Checked k x \<Rightarrow> if k = n then [x] else [] | _ \<Rightarrow> [])"

definition healthy_long :: "Job \<Rightarrow> Tick list \<Rightarrow> bool" where
  "healthy_long jb xs \<longleftrightarrow> (\<exists>pre mid post. xs = pre @ mid @ post \<and> mid \<noteq> [] \<and> (\<forall>x\<in>set mid. good x) \<and>
     Watch jb \<le> now (last mid) - now (hd mid) \<and> (\<forall>x\<in>set post. \<not> Fatal (verdict x)))"

text \<open>The watch of a goroutine is where the checks made since its start have brought it.\<close>

definition watched_so_far :: "Limits \<Rightarrow> WatchState \<Rightarrow> Journal \<Rightarrow> call list \<Rightarrow> bool" where
  "watched_so_far l w j es \<longleftrightarrow> (\<exists>rh sec t xs pre. l = limits_of (job j) rh \<and> watch_run l xs (watch_init sec t) = (GoOn, w) \<and>
     checks_of (began j) es = pre @ map (\<lambda>x. x\<lparr>commitOK := False\<rparr>) xs)"

text \<open>On disk this run is not before its switch.\<close>

definition on_disk :: "Machine \<Rightarrow> Journal \<Rightarrow> bool" where
  "on_disk m j \<longleftrightarrow> (case dsk m of None \<Rightarrow> True | Some d \<Rightarrow> began d = began j \<longrightarrow> JState d = StateApplying)"

definition in_state :: "run_state set \<Rightarrow> Machine \<Rightarrow> bool" where
  "in_state S m \<longleftrightarrow> (case jrn m of None \<Rightarrow> False | Some j \<Rightarrow> JState j \<in> S)"

definition prep_at :: "nat \<Rightarrow> Journal \<Rightarrow> Machine \<Rightarrow> bool" where
  "prep_at x w m \<longleftrightarrow> JState w = StatePreparing \<and>
     (if x \<in> set (cancelled m) then jrn m = Some (w\<lparr>JState := StateAborted\<rparr>) else jrn m = Some w \<and> cancel m = Some x)"

fun fits :: "Config \<Rightarrow> Machine \<Rightarrow> activity \<Rightarrow> bool" where
  "fits c m (P_call x k w) = (prep_at x w m \<and> k < length (prep_steps c) \<and>
     (\<forall>i<k. Did (began w) (prep_steps c ! i) \<in> set (made m)))"
| "fits c m (P_last x) = (\<exists>w. prep_at x w m \<and> all_done c (began w) (made m))"
| "fits c m A_backup = (\<exists>w. jrn m = Some w \<and> JState w = StateApplying \<and> on_disk m w)"
| "fits c m (A_switch w) = (jrn m = Some w \<and> JState w = StateApplying \<and> on_disk m w)"
| "fits c m A_handover = in_state {StateApplying} m"
| "fits c m (A_restart w) = (jrn m = Some w \<and> JState w = StateRestarting)"
| "fits c m (A_undo e w) = (jrn m = Some w \<and> JState w \<in> {StateApplying, StateRestarting})"
| "fits c m (W_watch l w) = (\<exists>j. jrn m = Some j \<and> JState j = StateWatching \<and> same_release (running m) (JobVersion (job j)) \<and>
     watched_so_far l w j (made m))"
| "fits c m R_mark = in_state {StateRollingBack} m"
| "fits c m (R_revert g w) = (jrn m = Some w \<and> JState w = StateRollingBack)"
| "fits c m (C_revert why w) = (jrn m = Some w \<and> JState w \<in> {StateRestarting, StateWatching})"
| "fits c m (C_mark why) = in_state {StateRestarting, StateWatching} m"
| "fits c m _ = True"

definition before_switch :: "run_state set" where
  "before_switch = {StatePreparing, StatePrepared, StateOrdered, StateAppStaged, StatePrepareFailed, StateAborted}"

definition journal_ok :: "Config \<Rightarrow> call list \<Rightarrow> nat \<Rightarrow> Journal \<Rightarrow> bool" where
  "journal_ok c es n j \<longleftrightarrow> began j < n \<and> Signed j = None \<and> LauncherProtocol j = 0 \<and> Rollbacks j \<le> 2 \<and>
     (JState j = StateApplying \<or> JState j \<in> {StatePrepared, StateOrdered, StateAppStaged} \<and> Staged j \<noteq> ''running'' \<longrightarrow>
        all_done c (began j) es) \<and>
     (JState j \<in> before_switch \<longrightarrow> Switched (began j) \<notin> set es)"

fun call_of :: "call \<Rightarrow> nat" where
  "call_of (Did n s) = n"
| "call_of (Switched n) = n"
| "call_of (Reverted n) = n"
| "call_of (Restarted n) = n"
| "call_of (Checked n x) = n"
| "call_of (Kept n jb r) = n"
| "call_of (Discarded n) = n"
| "call_of (Rolling n) = n"
| "call_of (Marked n) = n"
| "call_of (Unmarked n) = n"

definition justified :: "Config \<Rightarrow> call \<Rightarrow> call list \<Rightarrow> bool" where
  "justified c e es = (case e of Switched n \<Rightarrow> all_done c n es | Kept n jb r \<Rightarrow> same_release r (JobVersion jb) \<and> healthy_long jb (checks_of n es) | _ \<Rightarrow> True)"

fun lawful :: "Config \<Rightarrow> call list \<Rightarrow> bool" where
  "lawful c [] = True"
| "lawful c (e # es) = (justified c e es \<and> lawful c es)"

definition core :: "Config \<Rightarrow> Machine \<Rightarrow> bool" where
  "core c m \<longleftrightarrow> (\<forall>j. jrn m = Some j \<or> dsk m = Some j \<longrightarrow> journal_ok c (made m) (begun m) j) \<and>
     lawful c (made m) \<and> (\<forall>e\<in>set (made m). call_of e < begun m)"

text \<open>A context's number is one given out.\<close>

definition ctx_ok :: "Machine \<Rightarrow> bool" where
  "ctx_ok m \<longleftrightarrow> (\<forall>x\<in>set (cancelled m) \<union> set_option (cancel m). x < contexts m)"

definition machine_ok :: "Config \<Rightarrow> Machine \<Rightarrow> bool" where
  "machine_ok c m \<longleftrightarrow> core c m \<and> ctx_ok m \<and> (case workers m of [] \<Rightarrow> True | [a] \<Rightarrow> fits c m a | _ \<Rightarrow> False)"

section \<open>The journals and the calls\<close>

lemma core_jrn: "core c m \<Longrightarrow> jrn m = Some j \<Longrightarrow> journal_ok c (made m) (begun m) j"
  by (simp add: core_def)

lemma core_same:
  "jrn m' = jrn m \<Longrightarrow> dsk m' = dsk m \<Longrightarrow> made m' = made m \<Longrightarrow> begun m' = begun m \<Longrightarrow> core c m' = core c m"
  by (simp add: core_def)

lemma core_save [simp]: "core c m \<Longrightarrow> core c (save ok m)"
  by (auto simp: core_def)

lemma core_go [simp]: "core c (go a m) = core c m"
  by (simp add: core_def)

lemma core_set:
  assumes "core c m" "jrn m = Some j" "journal_ok c (made m) (begun m) (f j)"
  shows "core c (mutate ok f m)"
  using assms by (auto simp: core_def)

lemma journal_log:
  "journal_ok c es n j \<Longrightarrow> (e = Switched (began j) \<Longrightarrow> JState j \<notin> before_switch) \<Longrightarrow> journal_ok c (e # es) n j"
  by (auto simp: journal_ok_def all_done_def)

lemma core_log:
  assumes "core c m" "justified c e (made m)" "call_of e < begun m"
    and "\<And>j. e = Switched (began j) \<Longrightarrow> jrn m = Some j \<or> dsk m = Some j \<Longrightarrow> JState j \<notin> before_switch"
  shows "core c (log_call e m)"
  using assms by (auto simp: core_def intro!: journal_log)

text \<open>Calls other than the switch and the commit need nothing.\<close>

fun plain_call :: "call \<Rightarrow> bool" where
  "plain_call (Switched n) = False"
| "plain_call (Kept n jb r) = False"
| "plain_call _ = True"

lemma core_plain [simp]: "core c m \<Longrightarrow> plain_call e \<Longrightarrow> call_of e < begun m \<Longrightarrow> core c (log_call e m)"
  by (rule core_log) (auto simp: justified_def split: call.splits)

lemma core_began: "core c m \<Longrightarrow> jrn m = Some j \<Longrightarrow> began j < begun m"
  by (simp add: core_def journal_ok_def)

lemma core_discard [simp]: "core c m \<Longrightarrow> core c (discard wr m)"
  by (cases "jrn m") (simp_all add: discard_def core_began)

lemma journal_later: "journal_ok c es n j \<Longrightarrow> journal_ok c es (n + 1) j"
  by (simp add: journal_ok_def)

lemma core_new_run:
  assumes "core c m"
  shows "core c (new_run jb m)"
proof -
  have "Switched (begun m) \<notin> set (made m)" using assms by (auto simp: core_def)
  then have "journal_ok c (made m) (begun m + 1) (new_journal (begun m) jb r)" for r
    by (simp add: journal_ok_def new_journal_def)
  moreover have "\<forall>j. dsk m = Some j \<longrightarrow> journal_ok c (made m) (begun m + 1) j"
    using assms journal_later by (auto simp: core_def)
  ultimately show ?thesis
    using assms by (auto simp: core_def new_run_def)
qed


section \<open>Every section keeps the invariant\<close>

lemma workers_fields [simp]:
  "workers (save ok m) = workers m" "workers (mutate ok f m) = workers m" "workers (log_call e m) = workers m"
  "workers (go a m) = workers m @ (if of_order a then [] else [a])"
  by (simp_all add: workers_def)

lemma workers_same: "acts m' = acts m \<Longrightarrow> workers m' = workers m"
  by (simp add: workers_def)

lemma ctx_fields [simp]:
  "ctx_ok (save ok m) = ctx_ok m" "ctx_ok (mutate ok f m) = ctx_ok m" "ctx_ok (log_call e m) = ctx_ok m"
  "ctx_ok (go a m) = ctx_ok m"
  by (simp_all add: ctx_ok_def)

lemma discard_fields [simp]:
  "jrn (discard wr m) = jrn m" "workers (discard wr m) = workers m" "ctx_ok (discard wr m) = ctx_ok m"
  by (simp_all add: discard_def split: option.splits)

lemma ok_idle: "core c m \<Longrightarrow> ctx_ok m \<Longrightarrow> workers m = [] \<Longrightarrow> machine_ok c m"
  by (simp add: machine_ok_def)

lemma ok_works: "core c m \<Longrightarrow> ctx_ok m \<Longrightarrow> workers m = [a] \<Longrightarrow> fits c m a \<Longrightarrow> machine_ok c m"
  by (simp add: machine_ok_def)

text \<open>The states in which a goroutine works on the run; in the others none does.\<close>

definition working :: "run_state set" where
  "working = {StatePreparing, StateAborted, StateApplying, StateRestarting, StateWatching, StateRollingBack}"

lemma fits_working: "fits c m a \<Longrightarrow> \<not> of_order a \<Longrightarrow> \<exists>j. jrn m = Some j \<and> JState j \<in> working"
  by (cases a) (auto simp: prep_at_def in_state_def working_def split: option.splits if_splits)

lemma workers_not_order: "workers m = [a] \<Longrightarrow> \<not> of_order a"
  by (metis (mono_tags, lifting) filter_eq_Cons_iff workers_def)

lemma machine_okE:
  assumes "machine_ok c m"
  obtains "core c m" "ctx_ok m" "workers m = []" | a where "core c m" "ctx_ok m" "workers m = [a]" "\<not> of_order a" "fits c m a"
proof -
  consider "workers m = []" | a where "workers m = [a]" | a b bs where "workers m = a # b # bs"
    by (metis neq_Nil_conv)
  then show thesis
  proof cases
    case 2
    then show ?thesis using assms that(2) workers_not_order by (simp add: machine_ok_def)
  qed (use assms that in \<open>simp_all add: machine_ok_def\<close>)
qed

lemma idle_state:
  assumes "machine_ok c m" "\<And>j. jrn m = Some j \<Longrightarrow> JState j \<notin> working"
  shows "workers m = []"
  using assms(1)
proof (cases rule: machine_okE)
  case (2 a)
  then show ?thesis using fits_working assms(2) by blast
qed

text \<open>The state set to one that a journal can always take.\<close>

lemma journal_state:
  assumes "journal_ok c es n j"
    and "s \<notin> before_switch \<and> s \<noteq> StateApplying \<or>
      JState j \<in> before_switch \<and> s \<in> {StateAborted, StatePrepareFailed} \<or>
      JState j \<in> before_switch \<and> s \<in> {StatePrepared, StateOrdered, StateAppStaged, StateApplying} \<and> all_done c (began j) es"
  shows "journal_ok c es n (j\<lparr>JState := s\<rparr>)"
  using assms by (auto simp: journal_ok_def before_switch_def)

lemma journal_rest:
  "journal_ok c es n (j\<lparr>Err := e\<rparr>) = journal_ok c es n j"
  "journal_ok c es n (j\<lparr>Reason := r\<rparr>) = journal_ok c es n j"
  "journal_ok c es n (j\<lparr>Starts := i\<rparr>) = journal_ok c es n j"
  "journal_ok c es n (j\<lparr>WatchedSec := i\<rparr>) = journal_ok c es n j"
  "journal_ok c es n (j\<lparr>PendingSec := i\<rparr>) = journal_ok c es n j"
  "journal_ok c es n (j\<lparr>rehearsal := h\<rparr>) = journal_ok c es n j"
  by (simp_all add: journal_ok_def)


subsection \<open>Prepare\<close>

lemma prep_begin_ok:
  assumes "core c m" "ctx_ok m" "workers m = []" "prep_at x w m" "x \<notin> set (cancelled m)"
    and "\<forall>i<k. Did (began w) (prep_steps c ! i) \<in> set (made m)" "k \<le> length (prep_steps c)"
  shows "machine_ok c (prep_begin c wr x k m)"
proof (cases "k < length (prep_steps c)")
  case True
  have "machine_ok c (go (P_call x k w) (save True m))"
    by (rule ok_works) (use assms True in \<open>auto simp: prep_at_def\<close>)
  then show ?thesis
    using assms True by (auto simp: prep_begin_def prep_at_def intro: ok_idle)
next
  case False
  have "all_done c (began w) (made m)"
    using assms(6,7) False by (auto simp: all_done_def in_set_conv_nth)
  then have "machine_ok c (go (P_last x) m)"
    by (intro ok_works) (use assms in \<open>auto simp: prep_at_def\<close>)
  then show ?thesis
    using False by (simp add: prep_begin_def)
qed

lemma with_journal_prep:
  assumes "core c m" "prep_at x w m" "job w2 = job w"
  shows "\<exists>m1 w1. with_journal ok wr w2 m = (ok \<and> wr, m1) \<and> core c m1 \<and> prep_at x w1 m1 \<and> began w1 = began w \<and>
    workers m1 = workers m \<and> ctx_ok m1 = ctx_ok m \<and> made m1 = made m \<and> cancelled m1 = cancelled m \<and> stopped m1 = stopped m"
proof -
  define st fr where "st = Staged w2" and "fr = FromRef w2"
  obtain j where j: "jrn m = Some j" "job j = job w" "JState j \<in> {StatePreparing, StateAborted}"
    using assms(2) by (cases "x \<in> set (cancelled m)") (auto simp: prep_at_def)
  define m1 where "m1 = save wr (m\<lparr>jrn := Some (j\<lparr>Staged := st, FromRef := fr\<rparr>)\<rparr>)"
  have "journal_ok c (made m) (begun m) (j\<lparr>Staged := st, FromRef := fr\<rparr>)"
    using core_jrn [OF assms(1) j(1)] j(3) by (auto simp: journal_ok_def)
  then have "core c m1" using assms(1) by (auto simp: core_def m1_def)
  moreover have "prep_at x (w\<lparr>Staged := st, FromRef := fr\<rparr>) m1"
    using assms(2) j(1) by (auto simp: prep_at_def m1_def)
  moreover have "with_journal ok wr w2 m = (ok \<and> wr, m1)"
    using j assms(3) by (simp add: with_journal_def m1_def st_def fr_def)
  ultimately show ?thesis
    by (intro exI [of _ m1] exI [of _ "w\<lparr>Staged := st, FromRef := fr\<rparr>"]) (simp add: m1_def workers_def ctx_ok_def)
qed

lemma rehearsal_set:
  assumes "core c m" "prep_at x w m"
  shows "core c (mutate wr (\<lambda>j. j\<lparr>rehearsal := h\<rparr>) m) \<and>
    prep_at x (w\<lparr>rehearsal := h\<rparr>) (mutate wr (\<lambda>j. j\<lparr>rehearsal := h\<rparr>) m)"
proof -
  obtain j where j: "jrn m = Some j" using assms(2) by (auto simp: prep_at_def split: if_splits)
  then have "core c (mutate wr (\<lambda>j. j\<lparr>rehearsal := h\<rparr>) m)"
    using core_jrn [OF assms(1) j] by (intro core_set [OF assms(1) j]) (simp add: journal_rest)
  moreover have "prep_at x (w\<lparr>rehearsal := h\<rparr>) (mutate wr (\<lambda>j. j\<lparr>rehearsal := h\<rparr>) m)"
    using assms(2) by (auto simp: prep_at_def)
  ultimately show ?thesis by blast
qed

lemma prep_call_ok:
  assumes "core c m" "prep_at x w m"
  shows "\<exists>ok m1 w1. prep_call a s w m = (ok, m1) \<and> core c m1 \<and> prep_at x w1 m1 \<and> began w1 = began w \<and>
    workers m1 = workers m \<and> ctx_ok m1 = ctx_ok m \<and> made m1 = made m \<and> cancelled m1 = cancelled m \<and> stopped m1 = stopped m"
proof -
  note wj = with_journal_prep [OF assms, of w "okay a" "writes a 0"]
  show ?thesis
  proof (cases s)
    case StepPreflight
    then show ?thesis using wj by (auto simp: prep_call_def)
  next
    case StepStage
    obtain st fr sg lp where f: "found a = (st, fr, sg, lp)" by (metis prod_cases4)
    show ?thesis
      using with_journal_prep [OF assms, of "w\<lparr>Staged := st, FromRef := fr, Signed := sg, LauncherProtocol := lp\<rparr>"
          "okay a" "writes a 0"] StepStage f
      by (auto simp: prep_call_def)
  next
    case StepPacks
    then show ?thesis using assms by (auto simp: prep_call_def)
  next
    case StepSmoke
    then show ?thesis using wj by (auto simp: prep_call_def)
  next
    case StepRehearse
    have r: "\<exists>m1 w1. mutate wr (\<lambda>j. j\<lparr>rehearsal := h\<rparr>) m = m1 \<and> core c m1 \<and> prep_at x w1 m1 \<and> began w1 = began w \<and>
        workers m1 = workers m \<and> ctx_ok m1 = ctx_ok m \<and> made m1 = made m \<and> cancelled m1 = cancelled m \<and> stopped m1 = stopped m"
      for wr h
      using rehearsal_set [OF assms, of wr h] by (intro exI [of _ "mutate wr (\<lambda>j. j\<lparr>rehearsal := h\<rparr>) m"] exI [of _ "w\<lparr>rehearsal := h\<rparr>"]) simp
    show ?thesis
      using r assms StepRehearse by (simp add: prep_call_def rehearse_def) blast
  qed
qed

lemma prep_answered_ok:
  assumes "core c m" "ctx_ok m" "workers m = []" "fits c m (P_call x k w)"
  shows "machine_ok c (prep_answered c a x k w m)"
proof -
  let ?s = "prep_steps c ! k"
  have w: "prep_at x w m" "k < length (prep_steps c)" "\<forall>i<k. Did (began w) (prep_steps c ! i) \<in> set (made m)"
    using assms(4) by auto
  obtain ok m1 w1 where p: "prep_call a ?s w m = (ok, m1)" "core c m1" "prep_at x w1 m1" "began w1 = began w"
      "workers m1 = []" "ctx_ok m1" "made m1 = made m" "cancelled m1 = cancelled m" "stopped m1 = stopped m"
    using prep_call_ok [OF assms(1) w(1), of a ?s] assms(2,3) by auto
  obtain j where j: "jrn m1 = Some j" "began j = began w"
    using p(3,4) by (auto simp: prep_at_def split: if_splits)
  show ?thesis
  proof (cases "ctx_ended x m1")
    case True
    then show ?thesis using p by (auto simp: prep_answered_def abort_cut_def intro!: ok_idle)
  next
    case e: False
    then have live: "x \<notin> set (cancelled m1)" "jrn m1 = Some w1" "JState w1 = StatePreparing"
      using p(3) by (auto simp: ctx_ended_def prep_at_def)
    show ?thesis
    proof (cases ok)
      case True
      let ?m = "save (writes a 1) (log_call (Did (began w) ?s) m1)"
      have "core c ?m" using p(2) j core_began [OF p(2) j(1)] by simp
      moreover have "prep_at x w1 ?m" using p(3) by (auto simp: prep_at_def)
      moreover have "\<forall>i<Suc k. Did (began w1) (prep_steps c ! i) \<in> set (made ?m)"
        using w(3) p(4,7) by (auto simp: less_Suc_eq)
      ultimately have "machine_ok c (prep_begin c (writes a 2) x (Suc k) ?m)"
        using p live w(2) by (intro prep_begin_ok [where w = w1]) auto
      then show ?thesis using e True p(1) by (simp add: prep_answered_def)
    next
      case False
      let ?f = "\<lambda>j :: Journal. j\<lparr>JState := StatePrepareFailed, Err := Some (word a)\<rparr>"
      have "journal_ok c (made m1) (begun m1) (?f w1)"
        using journal_state [of c "made m1" "begun m1" w1 StatePrepareFailed] core_jrn [OF p(2) live(2)] live(3)
        by (simp add: journal_rest before_switch_def)
      then have "core c (mutate (writes a 2) ?f (save (writes a 1) m1))"
        using p(2) live(2) by (intro core_set [where j = w1]) auto
      then show ?thesis using e False p by (auto simp: prep_answered_def intro!: ok_idle)
    qed
  qed
qed

lemma prep_last_ok:
  assumes "core c m" "ctx_ok m" "workers m = []" "fits c m (P_last x)"
  shows "machine_ok c (prep_last a m)"
proof -
  obtain w where w: "prep_at x w m" "all_done c (began w) (made m)" using assms(4) by auto
  show ?thesis
  proof (cases "state_is StatePreparing m")
    case True
    then have j: "jrn m = Some w" "JState w = StatePreparing"
      using w(1) by (auto simp: prep_at_def state_is_def split: if_splits)
    then have "journal_ok c (made m) (begun m) (w\<lparr>JState := StatePrepared\<rparr>)"
      using core_jrn [OF assms(1)] w(2) by (intro journal_state) (auto simp: before_switch_def)
    then have "core c (mutate (writes a 0) (\<lambda>j. j\<lparr>JState := StatePrepared\<rparr>) m)"
      by (rule core_set [OF assms(1) j(1)])
    then show ?thesis using True assms by (auto simp: prep_last_def intro!: ok_idle)
  qed (use assms in \<open>auto simp: prep_last_def intro!: ok_idle\<close>)
qed

subsection \<open>Order and apply\<close>

text \<open>A state no earlier one speaks against: the run ended, or goes on after its switch.\<close>

definition later :: "run_state set" where
  "later = {StateRestarting, StateWatching, StateCommitted, StateRollingBack, StateRolledBack, StateApplyFailed, StateFailed}"

lemma journal_later_state: "journal_ok c es n j \<Longrightarrow> s \<in> later \<Longrightarrow> journal_ok c es n (j\<lparr>JState := s\<rparr>)"
  by (rule journal_state) (auto simp: later_def before_switch_def)

lemma core_later:
  assumes "core c m" "s \<in> later" "\<And>j. journal_ok c (made m) (begun m) (f j) = journal_ok c (made m) (begun m) (j\<lparr>JState := s\<rparr>)"
  shows "core c (mutate wr f m)"
proof (cases "jrn m")
  case (Some j)
  then show ?thesis
    using journal_later_state [OF core_jrn [OF assms(1) Some] assms(2)] assms(3) by (intro core_set [OF assms(1) Some]) simp
qed (use assms in \<open>simp add: mutate_def\<close>)

lemma later_idle:
  assumes "core c m" "ctx_ok m" "workers m = []" "s \<in> later"
    "\<And>j. journal_ok c (made m) (begun m) (f j) = journal_ok c (made m) (begun m) (j\<lparr>JState := s\<rparr>)"
  shows "machine_ok c (mutate wr f m)"
  using assms core_later by (intro ok_idle) auto

lemma orderFailed_ok:
  assumes "machine_ok c m"
  shows "machine_ok c (orderFailed a r m)"
proof (cases "jrn m")
  case (Some j)
  show ?thesis
  proof (cases "RunID (job j) = r \<and> ordered (JState j)")
    case True
    have idle: "workers m = []"
      by (rule idle_state [OF assms]) (use True Some in \<open>auto simp: ordered_def working_def\<close>)
    have core: "core c m" "ctx_ok m" using assms by (auto simp: machine_ok_def)
    let ?m = "mutate (writes a 0) (\<lambda>j. j\<lparr>JState := StateApplyFailed, Err := Some (word a)\<rparr>) m"
    have "core c ?m" by (rule core_later [OF core(1), of StateApplyFailed]) (simp_all add: later_def journal_rest)
    then show ?thesis
      using True Some idle core core_began [OF core(1) Some] by (auto simp: orderFailed_def intro!: ok_idle)
  qed (use assms Some in \<open>auto simp: orderFailed_def\<close>)
qed (use assms in \<open>simp add: orderFailed_def\<close>)

text \<open>What waits for the app is no worker, and stands beside any.\<close>

lemma fits_save: "fits c m b \<Longrightarrow> fits c (save ok m) b"
  by (cases b) (auto simp: prep_at_def in_state_def on_disk_def split: option.splits)

lemma fits_go: "fits c (go a m) b = fits c m b"
  by (cases b) (auto simp: prep_at_def in_state_def on_disk_def)

lemma ok_save: "machine_ok c m \<Longrightarrow> machine_ok c (save ok m)"
  by (auto simp: machine_ok_def intro: fits_save split: list.splits)

lemma ok_go_order: "machine_ok c m \<Longrightarrow> of_order a \<Longrightarrow> machine_ok c (go a m)"
  by (auto simp: machine_ok_def fits_go split: list.splits)

lemma await_begin_ok: "machine_ok c m \<Longrightarrow> machine_ok c (await_begin r m)"
  by (simp add: await_begin_def ok_go_order)

lemma await_answered_ok:
  assumes "machine_ok c m"
  shows "machine_ok c (await_answered a r m)"
proof -
  have core: "core c m" "ctx_ok m" using assms by (auto simp: machine_ok_def)
  have staged: "machine_ok c (mutate wr (\<lambda>j. j\<lparr>JState := StateAppStaged\<rparr>) m)" if o: "state_is StateOrdered m" for wr
  proof -
    obtain j where j: "jrn m = Some j" "JState j = StateOrdered" using o by (auto simp: state_is_def split: option.splits)
    have "workers m = []" by (rule idle_state [OF assms]) (use j in \<open>auto simp: working_def\<close>)
    moreover have "journal_ok c (made m) (begun m) (j\<lparr>JState := StateAppStaged\<rparr>)"
      using core_jrn [OF core(1) j(1)] j(2) by (auto simp: journal_ok_def before_switch_def)
    ultimately show ?thesis
      using core j by (intro ok_idle core_set [OF core(1) j(1)]) simp_all
  qed
  then show ?thesis
    using assms by (auto simp: await_answered_def Let_def orderFailed_ok ok_save intro!: ok_go_order)
qed

lemma undo_begin_ok:
  assumes "core c m" "ctx_ok m" "workers m = []" "in_state {StateApplying, StateRestarting} m"
  shows "machine_ok c (undo_begin e m)"
  using assms by (auto simp: undo_begin_def in_state_def intro!: ok_works split: option.splits)

lemma undo_answered_ok:
  assumes "core c m" "ctx_ok m" "workers m = []" "jrn m = Some w"
  shows "machine_ok c (undo_answered a e w m)"
proof -
  define m1 where "m1 = (if okay a then log_call (Reverted (began w)) m else m)"
  have m1: "core c m1" "ctx_ok m1" "workers m1 = []" "jrn m1 = Some w"
    using assms core_began by (auto simp: m1_def)
  then have "machine_ok c (mutate (writes a 1) (\<lambda>j. j\<lparr>JState := StateApplyFailed, Err := Some e\<rparr>) (save (writes a 0) m1))"
    by (intro later_idle [where s = StateApplyFailed]) (simp_all add: later_def journal_rest)
  then show ?thesis
    using with_journal_same [OF m1(4)] by (simp add: undo_answered_def Let_def flip: m1_def)
qed

lemma backup_answered_ok:
  assumes "core c m" "ctx_ok m" "workers m = []" "fits c m A_backup"
  shows "machine_ok c (backup_answered a m)"
proof -
  obtain w where w: "jrn m = Some w" "JState w = StateApplying" "on_disk m w" using assms(4) by auto
  have "machine_ok c (go (A_switch w) (save (writes a 0) m))"
    by (rule ok_works) (use assms w in \<open>auto simp: on_disk_def\<close>)
  then show ?thesis
    using assms w undo_begin_ok by (auto simp: backup_answered_def in_state_def intro: ok_idle)
qed

lemma switch_answered_ok:
  assumes "core c m" "ctx_ok m" "workers m = []" "fits c m (A_switch w)"
  shows "machine_ok c (switch_answered a w m)"
proof -
  have w: "jrn m = Some w" "JState w = StateApplying" "on_disk m w" using assms(4) by auto
  have steps: "all_done c (began w) (made m)"
    using core_jrn [OF assms(1) w(1)] w(2) by (simp add: journal_ok_def)
  define m1 where "m1 = (if okay a then log_call (Switched (began w)) m else m)"
  have "core c (log_call (Switched (began w)) m)"
    using assms(1) w steps core_began [OF assms(1) w(1)]
    by (intro core_log) (auto simp: justified_def before_switch_def on_disk_def)
  then have m1: "core c m1" "ctx_ok m1" "workers m1 = []" "jrn m1 = Some w"
    using assms w by (auto simp: m1_def)
  have "machine_ok c (go A_handover (save w1 (save w0 m1)))" for w0 w1
    by (rule ok_works) (use m1 w in \<open>auto simp: in_state_def\<close>)
  moreover have "machine_ok c (undo_begin (word a) (save w1 (save w0 m1)))" for w0 w1
    by (rule undo_begin_ok) (use m1 w in \<open>auto simp: in_state_def\<close>)
  ultimately show ?thesis
    using with_journal_same [OF m1(4)] by (simp add: switch_answered_def Let_def flip: m1_def)
qed

lemma handover_answered_ok:
  assumes "core c m" "ctx_ok m" "workers m = []" "in_state {StateApplying} m"
  shows "machine_ok c (handover_answered a m)"
proof -
  obtain w where w: "jrn m = Some w" using assms(4) by (auto simp: in_state_def split: option.splits)
  define m1 where "m1 = save (writes a 1) (mutate (writes a 0) (\<lambda>j. j\<lparr>JState := StateRestarting\<rparr>) m)"
  have "core c m1" unfolding m1_def
    by (intro core_save core_later [OF assms(1), of StateRestarting]) (simp_all add: later_def)
  then have "machine_ok c (go (A_restart (w\<lparr>JState := StateRestarting\<rparr>)) m1)"
    by (intro ok_works) (use assms w in \<open>auto simp: m1_def\<close>)
  then show ?thesis
    using w by (simp add: handover_answered_def Let_def m1_def)
qed

lemma restart_answered_ok:
  assumes "core c m" "ctx_ok m" "workers m = []" "fits c m (A_restart w)"
  shows "machine_ok c (restart_answered a w m)"
proof -
  have w: "jrn m = Some w" "JState w = StateRestarting" using assms(4) by auto
  define m1 where "m1 = (if okay a then (log_call (Restarted (began w)) m)\<lparr>leaving := True\<rparr> else m)"
  have "core c (log_call (Restarted (began w)) m)" using assms(1) core_began [OF assms(1) w(1)] by simp
  then have m1: "core c m1" "ctx_ok m1" "workers m1 = []" "jrn m1 = Some w"
    using assms w by (auto simp: m1_def core_def ctx_ok_def workers_def)
  have "machine_ok c (save (writes a 0) m1)" using m1 by (intro ok_idle) auto
  moreover have "machine_ok c (undo_begin (word a) (save (writes a 1) (save (writes a 0) m1)))"
    by (rule undo_begin_ok) (use m1 w in \<open>auto simp: in_state_def\<close>)
  ultimately show ?thesis
    using with_journal_same [OF m1(4)] by (simp add: restart_answered_def Let_def flip: m1_def)
qed

subsection \<open>Rollback, watch and start\<close>

lemma rollback_ok:
  assumes "core c m" "ctx_ok m" "workers m = []"
  shows "machine_ok c (rollback a r m)"
proof (cases "jrn m")
  case (Some j)
  have failed: "machine_ok c (mutate (writes a 8) (\<lambda>j. j\<lparr>JState := StateFailed, Reason := r, Err := e\<rparr>) m)" for e
    using assms by (intro later_idle [where s = StateFailed]) (simp_all add: later_def journal_rest)
  show ?thesis
  proof (cases "FromRef j = '''' \<and> From j = '''' \<or> 2 \<le> Rollbacks j")
    case False
    let ?f = "\<lambda>j :: Journal. j\<lparr>JState := StateRollingBack, Reason := r, Rollbacks := Rollbacks j + 1\<rparr>"
    let ?m = "save (writes a 9) (mutate (writes a 8) ?f (save (writes a 7) m))"
    have "journal_ok c (made m) (begun m) (?f j)"
      using core_jrn [OF assms(1) Some] False by (auto simp: journal_ok_def before_switch_def)
    then have "core c (mutate (writes a 8) ?f (save (writes a 7) m))"
      using assms(1) Some by (intro core_set [where j = j]) auto
    then have "core c (log_call (Rolling (began j)) ?m)"
      using core_began [OF assms(1) Some] by simp
    then have "machine_ok c (go R_mark (log_call (Rolling (began j)) ?m))"
      using assms Some by (intro ok_works) (auto simp: in_state_def)
    then show ?thesis using False Some by (auto simp: rollback_def)
  qed (use failed Some in \<open>auto simp: rollback_def\<close>)
qed (use assms in \<open>simp add: rollback_def ok_idle\<close>)

lemma mark_answered_ok:
  assumes "core c m" "ctx_ok m" "workers m = []" "in_state {StateRollingBack} m"
  shows "machine_ok c (mark_answered a m)"
proof -
  obtain j where j: "jrn m = Some j" "JState j = StateRollingBack" using assms(4) by (auto simp: in_state_def split: option.splits)
  then have "machine_ok c (go (R_revert g j) m)" "machine_ok c (go (R_revert g j) (log_call (Marked (began j)) m))" for g
    using assms core_began [OF assms(1) j(1)] by (auto intro!: ok_works)
  then show ?thesis
    using j by (simp add: mark_answered_def Let_def)
qed

lemma revert_answered_ok:
  assumes "core c m" "ctx_ok m" "workers m = []" "jrn m = Some w"
  shows "machine_ok c (revert_answered a g w m)"
proof -
  define m1 where "m1 = (if okay a then log_call (Reverted (began w)) m else m)"
  have m1: "core c m1" "ctx_ok m1" "workers m1 = []" "jrn m1 = Some w" "began w < begun m1"
    using assms core_began by (auto simp: m1_def)
  have "machine_ok c ((save wr m1)\<lparr>leaving := True\<rparr>)" for wr
    by (rule ok_idle) (use m1 in \<open>auto simp: core_def ctx_ok_def workers_def\<close>)
  moreover have "machine_ok c (mutate w2 (\<lambda>j. j\<lparr>JState := StateFailed, Err := e\<rparr>) (save w1 (save w0 m1)))"
    "machine_ok c (mutate w2 (\<lambda>j. j\<lparr>JState := StateFailed, Err := e\<rparr>) (save w1 (log_call (Unmarked (began w)) (save w0 m1))))"
    for w0 w1 w2 e
    using m1 by (intro later_idle [where s = StateFailed]; simp add: later_def journal_rest)+
  ultimately show ?thesis
    using with_journal_same [OF m1(4)] by (simp add: revert_answered_def Let_def flip: m1_def)
qed

lemma cameBackOld_ok:
  assumes "core c m" "ctx_ok m" "workers m = []" "jrn m = Some w" "JState w \<in> {StateRestarting, StateWatching}"
  shows "machine_ok c (cameBackOld a why w m)"
proof -
  define m1 where "m1 = (if okay a then log_call (Reverted (began w)) m else m)"
  have m1: "core c m1" "ctx_ok m1" "workers m1 = []" "jrn m1 = Some w"
    using assms core_began by (auto simp: m1_def)
  then have "machine_ok c (go (C_mark why) (save (writes a 0) m1))"
    using assms(5) by (intro ok_works) (auto simp: in_state_def)
  then show ?thesis
    using with_journal_same [OF m1(4)] by (simp add: cameBackOld_def flip: m1_def)
qed

lemma cameBackOld_end_ok:
  assumes "core c m" "ctx_ok m" "workers m = []"
  shows "machine_ok c (cameBackOld_end a why m)"
proof (cases "jrn m")
  case (Some j)
  define m1 where "m1 = (if Home (job j) \<and> okay a then log_call (Marked (began j)) m else m)"
  have "core c m1" "ctx_ok m1" "workers m1 = []"
    using assms core_began [OF assms(1) Some] by (auto simp: m1_def)
  then have "machine_ok c (mutate (writes a 0) (\<lambda>j. j\<lparr>JState := StateRolledBack, Reason := why, Err := Some why\<rparr>) m1)"
    by (intro later_idle [where s = StateRolledBack]) (simp_all add: later_def journal_rest)
  then show ?thesis using Some by (simp add: cameBackOld_end_def flip: m1_def)
qed (use assms in \<open>simp add: cameBackOld_end_def ok_idle\<close>)

lemma beginWatch_ok:
  assumes "core c m" "ctx_ok m" "workers m = []" "jrn m = Some j" "same_release (running m) (JobVersion (job j))"
  shows "machine_ok c (beginWatch c a m)"
proof -
  define m1 where "m1 = mutate (writes a 0) (\<lambda>j. j\<lparr>JState := StateWatching, Starts := Starts j + 1\<rparr>) m"
  have "core c m1"
    unfolding m1_def by (rule core_later [OF assms(1), of StateWatching]) (simp_all add: later_def journal_rest)
  then have m1: "core c m1" "ctx_ok m1" "workers m1 = []" "jrn m1 = Some (j\<lparr>JState := StateWatching, Starts := Starts j + 1\<rparr>)"
      "running m1 = running m"
    using assms by (auto simp: m1_def)
  have W: "watched_so_far (limits_of (job j) rh) (watch_init sec t) (j\<lparr>JState := StateWatching, Starts := Starts j + 1\<rparr>) (made m1)" for rh sec t
    unfolding watched_so_far_def
    by (rule exI [of _ rh], rule exI [of _ sec], rule exI [of _ t], rule exI [of _ "[]"], simp)
  have "machine_ok c (go (W_watch (limits_of (job j) rh) (watch_init sec t)) m1)" for rh sec t
    by (intro ok_works) (use m1 assms(5) W [of rh sec t] in auto)
  then show ?thesis
    using m1(4) rollback_ok [OF m1(1-3)] by (simp add: beginWatch_def Let_def flip: m1_def)
qed

text \<open>The next check, and the commit of a watch that has passed.\<close>

lemma watch_run_append: "watch_run l xs w = (GoOn, w1) \<Longrightarrow> watch_run l (xs @ [x]) w = watch_tick l x w1"
  by (induction xs arbitrary: w) (auto split: prod.splits decision.splits)

lemma watched_on:
  assumes "watched_so_far l w j es" "watch_tick l x w = (GoOn, w1)"
  shows "watched_so_far l w1 j (Checked (began j) (x\<lparr>commitOK := False\<rparr>) # es)"
proof -
  obtain rh sec t xs pre where *: "l = limits_of (job j) rh" "watch_run l xs (watch_init sec t) = (GoOn, w)"
    "checks_of (began j) es = pre @ map (\<lambda>x. x\<lparr>commitOK := False\<rparr>) xs"
    using assms(1) unfolding watched_so_far_def by blast
  then show ?thesis
    using assms(2) unfolding watched_so_far_def
    by - (rule exI [of _ rh], rule exI [of _ sec], rule exI [of _ t], rule exI [of _ "xs @ [x]"], rule exI [of _ pre],
        simp add: watch_run_append)
qed

lemma watched_same: "job j1 = job j \<Longrightarrow> began j1 = began j \<Longrightarrow> checks_of (began j) es1 = checks_of (began j) es \<Longrightarrow>
  watched_so_far l w j1 es1 = watched_so_far l w j es"
  by (simp add: watched_so_far_def)

lemma count_time_answer [simp]: "count_time (x\<lparr>commitOK := b\<rparr>) w = count_time x w"
  by (simp add: count_time_def Let_def)

lemma passed_would_commit:
  assumes "watch_tick l x w = (GoOn, w1)" "passed w1"
  shows "fst (watch_tick l (x\<lparr>commitOK := True\<rparr>) w) = Committed"
proof (cases "passed w")
  case True
  then show ?thesis
    using passed_tick [OF assms(1)] by (simp add: watch_tick_def try_commit_def Let_def)
next
  case False
  then have h: "\<not> Pending (verdict x)" "Healthy (verdict x)"
    using pending_tick [OF assms(1)] unhealthy_tick [OF assms(1)] assms(2) by blast+
  note t = healthy_tick [OF assms(1) False h]
  then show ?thesis
    using False h assms(2)
    by (cases "healthySince w") (auto simp: watch_tick_def healthy_case_def try_commit_def good_def Let_def)
qed

lemma going_on_not_fatal: "watch_run l xs w = (GoOn, w1) \<Longrightarrow> \<forall>x\<in>set xs. \<not> Fatal (verdict x)"
proof (induction xs arbitrary: w)
  case (Cons x xs)
  then show ?case
    by (cases "Fatal (verdict x)") (auto simp: watch_tick_def Let_def split: prod.splits decision.splits)
qed simp

lemma watched_earned:
  assumes "watched_so_far l w j es" "watch_tick l x w = (d, w1)" "d = Committed \<or> d = GoOn \<and> passed w1"
  shows "healthy_long (job j) (checks_of (began j) (Checked (began j) (x\<lparr>commitOK := False\<rparr>) # es))"
proof -
  let ?no = "\<lambda>x :: Tick. x\<lparr>commitOK := False\<rparr>"
  obtain rh sec t xs pre0 where *: "l = limits_of (job j) rh" "watch_run l xs (watch_init sec t) = (GoOn, w)"
    "checks_of (began j) es = pre0 @ map ?no xs"
    using assms(1) unfolding watched_so_far_def by blast
  have quiet: "\<forall>y\<in>set (xs @ [x]). \<not> Fatal (verdict y)"
    using going_on_not_fatal [OF *(2)] assms(2,3) by (auto simp: watch_tick_def Let_def split: if_splits)
  obtain x1 w2 where x1: "watch_tick l x1 w = (Committed, w2)" "?no x1 = ?no x"
  proof (cases "d = Committed")
    case False
    then have "fst (watch_tick l (x\<lparr>commitOK := True\<rparr>) w) = Committed"
      using assms(2,3) passed_would_commit by blast
    then have "watch_tick l (x\<lparr>commitOK := True\<rparr>) w = (Committed, snd (watch_tick l (x\<lparr>commitOK := True\<rparr>) w))"
      by (metis prod.collapse)
    then show ?thesis by (rule that) simp
  qed (use assms(2) that in blast)
  have "watch_run (limits_of (job j) rh) (xs @ [x1]) (watch_init sec t) = (Committed, w2)"
    using watch_run_append [OF *(2)] x1(1) *(1) by simp
  then have "earned (limits_of (job j) rh) None (xs @ [x1])"
    using commit_earned [of "limits_of (job j) rh" "xs @ [x1]" "watch_init sec t"] by (simp add: watch_init_def)
  then obtain pre mid post where m: "xs @ [x1] = pre @ mid @ post" "mid \<noteq> []" "\<forall>x\<in>set mid. good x"
    "Watch (job j) \<le> now (last mid) - now (hd mid)"
    unfolding earned_def by (auto simp: limits_of_def)
  have n: "map ?no (xs @ [x]) = map ?no pre @ map ?no mid @ map ?no post"
    using arg_cong [OF m(1), of "map ?no"] x1(2) by simp
  have "verdict x1 = verdict x" using arg_cong [OF x1(2), of verdict] by simp
  moreover have "y \<in> set xs \<or> y = x1" if "y \<in> set post" for y
    using that arg_cong [OF m(1), of set] by auto
  ultimately have "\<forall>y\<in>set (map ?no post). \<not> Fatal (verdict y)"
    using quiet by fastforce
  then show ?thesis
    using n m(2-4) *(3) unfolding healthy_long_def
    by - (rule exI [of _ "pre0 @ map ?no pre"], rule exI [of _ "map ?no mid"], rule exI [of _ "map ?no post"],
        simp add: good_def last_map hd_map)
qed

lemma watch_answered_ok:
  assumes "core c m" "ctx_ok m" "workers m = []" "fits c m (W_watch l w)"
  shows "machine_ok c (watch_answered a l w m)"
proof -
  obtain j where j: "jrn m = Some j" "JState j = StateWatching" "same_release (running m) (JobVersion (job j))"
      "watched_so_far l w j (made m)"
    using assms(4) by auto
  obtain d w1 where t: "watch_tick l (tick a\<lparr>commitOK := okay a \<and> writes a 1\<rparr>) w = (d, w1)" by fastforce
  let ?x = "Checked (began j) (tick a\<lparr>commitOK := False\<rparr>)"
  have t2: "watch_tick l (tick a\<lparr>commitOK := okay a \<and> writes a 1\<rparr>) w = (d, w1)" by (rule t)
  define m0 where "m0 = log_call ?x m"
  have m0: "core c m0" "ctx_ok m0" "workers m0 = []" "running m0 = running m" "jrn m0 = Some j" "made m0 = ?x # made m"
    using assms j core_began [OF assms(1) j(1)] by (auto simp: m0_def)
  define m1 where "m1 = count_saved a w w1 m0"
  have "core c (mutate wr (\<lambda>j. j\<lparr>WatchedSec := x, PendingSec := y\<rparr>) m0)" for wr x y
    using core_jrn [OF m0(1,5)] by (intro core_set [OF m0(1,5)]) (simp add: journal_rest)
  then have m1: "core c m1" "ctx_ok m1" "workers m1 = []" "running m1 = running m" "made m1 = ?x # made m"
      "\<exists>j1. jrn m1 = Some j1 \<and> JState j1 = StateWatching \<and> job j1 = job j \<and> began j1 = began j"
    using m0 j by (auto simp: m1_def count_saved_def)
  have "core c (log_call (Kept (began j) (job j) (running m)) m1)" if "d = Committed \<or> d = GoOn \<and> passed w1"
    using m1 j core_began [OF m1(1)] watched_earned [OF j(4) t2 that]
    by (intro core_log) (auto simp: justified_def)
  then have asked: "core c (ask_commit a j m1)" if "d = Committed \<or> d = GoOn \<and> passed w1"
    using m1(1,4) that by (auto simp: ask_commit_def)
  define m2 where "m2 = (if d = Committed \<or> d = GoOn \<and> passed w1 then ask_commit a j m1 else m1)"
  have m2: "core c m2" "ctx_ok m2" "workers m2 = []" "running m2 = running m"
      "\<exists>j1. jrn m2 = Some j1 \<and> JState j1 = StateWatching \<and> job j1 = job j \<and> began j1 = began j"
    using m1 asked by (auto simp: m2_def ask_commit_def)
  have "checks_of (began j) (made m2) = checks_of (began j) (?x # made m)"
    using m1(5) by (auto simp: m2_def ask_commit_def)
  then have "watched_so_far l w1 j1 (made m2)" if "d = GoOn" "job j1 = job j" "began j1 = began j" for j1
    using watched_on [OF j(4), of "tick a\<lparr>commitOK := okay a \<and> writes a 1\<rparr>" w1] t2 that
      watched_same [of j1 j "made m2" "?x # made m"] by simp
  then have fits2: "fits c m2 (W_watch l w1)" if "d = GoOn"
    using m2(4,5) j(3) that by auto
  have "machine_ok c (go (W_watch l w1) m2)" if "d = GoOn"
    by (rule ok_works) (use m2 fits2 that in auto)
  moreover have "machine_ok c (mutate (writes a 2) (\<lambda>j. j\<lparr>JState := StateCommitted\<rparr>) m2)"
    using m2 by (intro later_idle [where s = StateCommitted]) (simp_all add: later_def)
  moreover have "machine_ok c (rollback a r (mutate wr (\<lambda>j. j\<lparr>Err := e\<rparr>) m2))" for wr e r
  proof (rule rollback_ok)
    obtain j2 where j2: "jrn m2 = Some j2" using m2(5) by auto
    show "core c (mutate wr (\<lambda>j. j\<lparr>Err := e\<rparr>) m2)"
      using core_jrn [OF m2(1) j2] by (intro core_set [OF m2(1) j2]) (simp add: journal_rest)
  qed (use m2 in auto)
  moreover have "machine_ok c (rollback a r m2)" for r using m2 by (intro rollback_ok) auto
  moreover have "machine_ok c m" using assms(1-3) by (rule ok_idle)
  ultimately show ?thesis
    using j(1) t unfolding m2_def m1_def m0_def by (cases d; cases "passed w1") (simp_all add: watch_answered_def Let_def)
qed


lemma start_prepare_ok:
  assumes "core c m" "ctx_ok m" "workers m = []" "jrn m = Some w" "JState w = StatePreparing"
  shows "machine_ok c (start_prepare c wr m)"
proof -
  define m1 where "m1 = m\<lparr>cancel := Some (contexts m), contexts := contexts m + 1\<rparr>"
  have x: "\<forall>x\<in>set (cancelled m). x < contexts m" using assms(2) by (simp add: ctx_ok_def)
  then have "ctx_ok m1" "contexts m \<notin> set (cancelled m1)" by (auto simp: m1_def ctx_ok_def intro: less_SucI)
  moreover have "core c m1" "workers m1 = []" using assms(1,3) by (auto simp: m1_def core_def workers_def)
  moreover have "prep_at (contexts m) w m1" using assms(4,5) x by (auto simp: m1_def prep_at_def)
  ultimately show ?thesis
    unfolding start_prepare_def by (fold m1_def) (rule prep_begin_ok [where w = w]; simp)
qed

lemma set_aborted_ok:
  assumes "core c m" "jrn m = Some j" "JState j \<in> before_switch"
  shows "core c (mutate wr (\<lambda>j. j\<lparr>JState := StateAborted\<rparr>) m)"
    "core c (mutate wr (\<lambda>j. j\<lparr>JState := StateAborted, Err := e\<rparr>) m)"
  using core_jrn [OF assms(1,2)] assms(3)
  by (intro core_set [OF assms(1,2)]; auto simp: journal_rest intro: journal_state)+

lemma Resume_ok:
  assumes "core c m" "ctx_ok m" "acts m = []"
  shows "machine_ok c (Resume c a installed m)"
proof (cases "jrn m")
  case (Some j)
  have i: "workers m = []" using assms(3) by (simp add: workers_def)
  have ok: "machine_ok c m" using assms(1,2) i by (rule ok_idle)
  have watch: "machine_ok c (beginWatch c a m)" if "same_release (running m) (JobVersion (job j))"
    using beginWatch_ok [OF assms(1,2) i Some that] .
  have away: "machine_ok c (discard w1 (mutate w0 (\<lambda>j. j\<lparr>JState := StateAborted, Err := e\<rparr>) m))"
    if "JState j \<in> before_switch" for w0 w1 e
    using set_aborted_ok(2) [OF assms(1) Some that] assms(2) i by (intro ok_idle) auto
  have over: "machine_ok c (mutate wr (\<lambda>j. j\<lparr>JState := StateApplyFailed, Err := e\<rparr>) m)" for wr e
    using assms(1,2) i by (intro later_idle [where s = StateApplyFailed]) (simp_all add: later_def journal_rest)
  have returned: "machine_ok c (mutate wr (\<lambda>j. j\<lparr>JState := StateRolledBack\<rparr>) m)" for wr
    using assms(1,2) i by (intro later_idle [where s = StateRolledBack]) (simp_all add: later_def)
  have undo: "machine_ok c (undo_begin e m)" if "JState j \<in> {StateApplying, StateRestarting}" for e
    using undo_begin_ok [OF assms(1,2) i] Some that by (auto simp: in_state_def)
  have old: "machine_ok c (go (C_revert why j) m)" if "JState j \<in> {StateRestarting, StateWatching}" for why
    by (rule ok_works) (use assms i Some that in auto)
  have prep: "machine_ok c (start_prepare c w1 (save w0 m))" if "JState j = StatePreparing" for w0 w1
    using start_prepare_ok [of c "save w0 m" j w1] assms(1,2) i Some that by simp
  have roll: "machine_ok c (rollback a r m)" for r using rollback_ok [OF assms(1,2) i] .
  have wait: "machine_ok c (go (O_order r) m)" for r using ok by (simp add: ok_go_order)
  show ?thesis
    using Some ok watch away over returned undo old prep roll wait
    by (cases "JState j") (simp_all add: Resume_def Let_def same_release_def before_switch_def split: option.splits)
qed (use assms in \<open>simp add: Resume_def ok_idle workers_def\<close>)

lemma come_up_ok:
  assumes "core c m"
  shows "machine_ok c (come_up c a ld installed r m)"
proof -
  have f: "core c (fresh r m)" "core c ((fresh r m)\<lparr>dsk := None\<rparr>)" "core c ((fresh r m)\<lparr>jrn := dsk m\<rparr>)"
    using assms by (auto simp: core_def fresh_def)
  have "machine_ok c (fresh r m)" "machine_ok c ((fresh r m)\<lparr>dsk := None\<rparr>)"
    by (rule ok_idle; (use f in \<open>simp add: fresh_def ctx_ok_def workers_def\<close>))+
  moreover have "machine_ok c (Resume c a installed ((fresh r m)\<lparr>jrn := dsk m\<rparr>))"
    by (rule Resume_ok) (use f in \<open>simp_all add: fresh_def ctx_ok_def\<close>)
  ultimately show ?thesis by (simp add: come_up_def split: load.splits)
qed

subsection \<open>Requests\<close>

text \<open>A prepare is in turn when no goroutine of an earlier one is under way any more.\<close>

definition in_turn :: "event \<Rightarrow> Machine \<Rightarrow> bool" where
  "in_turn e m \<longleftrightarrow> (case e of Ask_prepare a j \<Rightarrow> list_all (\<lambda>t. \<not> of_prepare t) (acts m) | _ \<Rightarrow> True)"

lemma workers_acts: "workers m = [t] \<Longrightarrow> t \<in> set (acts m)"
  by (metis filter_is_subset list.set_intros(1) subsetD workers_def)

lemma prepare_idle:
  assumes "machine_ok c m" "list_all (\<lambda>t. \<not> of_prepare t) (acts m)" "jrn m \<noteq> None \<Longrightarrow> \<not> Busy (JState (the (jrn m)))"
  shows "workers m = []"
  using assms(1)
proof (cases rule: machine_okE)
  case (2 t)
  then have "\<not> of_prepare t" using assms(2) workers_acts by (auto simp: list_all_iff)
  then show ?thesis
    using 2 assms(3) by (cases t) (auto simp: in_state_def Busy_def split: option.splits)
qed

lemma Prepare_ok:
  assumes "machine_ok c m" "in_turn (Ask_prepare a jb) m"
  shows "machine_ok c (snd (Prepare c a jb m))"
proof (cases "jrn m \<noteq> None \<and> Busy (JState (the (jrn m)))")
  case True
  then show ?thesis using assms(1) by (auto simp: Prepare_def Let_def split: option.splits)
next
  case False
  have core: "core c m" "ctx_ok m" using assms(1) by (auto simp: machine_ok_def)
  have i: "workers m = []"
    using prepare_idle [OF assms(1)] assms(2) False by (auto simp: in_turn_def)
  define m1 where "m1 = (case jrn m of None \<Rightarrow> m | Some old \<Rightarrow>
             if JState old \<in> {StatePrepared, StateOrdered, StateAppStaged, StateAborted, StatePrepareFailed}
             then log_call (Discarded (began old)) m else m)"
  have m1: "core c m1" "ctx_ok m1" "workers m1 = []"
    using core i core_began [OF core(1)] by (auto simp: m1_def split: option.splits)
  define jb1 where "jb1 = jb\<lparr>JobVersion := NormalizeVersion (JobVersion jb)\<rparr>"
  define m2 where "m2 = new_run jb1 m1"
  obtain j where j: "jrn m2 = Some j" "JState j = StatePreparing" by (simp add: m2_def new_run_def new_journal_def)
  have m2: "core c m2" "ctx_ok m2" "workers m2 = []"
    using m1 core_new_run by (auto simp: m2_def new_run_def ctx_ok_def workers_def)
  have "journal_ok c (made m2) (begun m2) (j\<lparr>JState := StatePrepared, Staged := ''running''\<rparr>)"
    using core_jrn [OF m2(1) j(1)] j(2) by (auto simp: journal_ok_def before_switch_def)
  then have "machine_ok c (mutate wr (\<lambda>j. j\<lparr>JState := StatePrepared, Staged := ''running''\<rparr>) m2)" for wr
    using m2 by (intro ok_idle core_set [OF m2(1) j(1)]) auto
  moreover have "machine_ok c (start_prepare c wr (save True m2))" for wr
    using start_prepare_ok [of c "save True m2" j] m2 j by simp
  moreover have "machine_ok c m2" using m2 by (rule ok_idle)
  ultimately show ?thesis
    using assms(1) unfolding Prepare_def Let_def jb1_def [symmetric] m1_def [symmetric] m2_def [symmetric]
    by simp
qed

lemma Abort_ok:
  assumes "machine_ok c m"
  shows "machine_ok c (snd (Abort a r m))"
proof (cases "jrn m")
  case (Some j)
  have core: "core c m" "ctx_ok m" using assms by (auto simp: machine_ok_def)
  define m1 where "m1 = mutate (writes a 0) (\<lambda>j. j\<lparr>JState := StateAborted\<rparr>) m"
  have "machine_ok c (discard wr m1)" if s: "JState j = StatePrepared \<or> ordered (JState j)" for wr
  proof -
    have "workers m = []" by (rule idle_state [OF assms]) (use Some s in \<open>auto simp: ordered_def working_def\<close>)
    moreover have "core c m1"
      unfolding m1_def by (rule set_aborted_ok [OF core(1) Some]) (use s in \<open>auto simp: before_switch_def ordered_def\<close>)
    ultimately show ?thesis using core by (auto simp: m1_def intro!: ok_idle)
  qed
  moreover have "machine_ok c (m1\<lparr>cancelled := (case cancel m of None \<Rightarrow> cancelled m | Some x \<Rightarrow> x # cancelled m)\<rparr>)"
    (is "machine_ok c ?m") if s: "JState j = StatePreparing"
  proof -
    have "core c m1"
      unfolding m1_def by (rule set_aborted_ok [OF core(1) Some]) (use s in \<open>auto simp: before_switch_def\<close>)
    then have m: "core c ?m" "ctx_ok ?m" "workers ?m = workers m" "made ?m = made m" "jrn ?m = Some (j\<lparr>JState := StateAborted\<rparr>)"
      using core Some by (auto simp: m1_def core_def ctx_ok_def workers_def split: option.splits)
    have live: "prep_at x w ?m" if "prep_at x w m" for x w
    proof -
      have "x \<notin> set (cancelled m)" "jrn m = Some w" "cancel m = Some x"
        using that Some s by (auto simp: prep_at_def split: if_splits)
      then show ?thesis using that m(5) Some by (auto simp: prep_at_def)
    qed
    from assms show ?thesis
    proof (cases rule: machine_okE)
      case 1
      then show ?thesis using m by (intro ok_idle) auto
    next
      case (2 t)
      then have "fits c ?m t"
        using Some s live m(4) by (cases t) (auto simp: in_state_def)
      then show ?thesis using m 2 by (intro ok_works [of c ?m t]) simp_all
    qed
  qed
  ultimately show ?thesis
    using Some assms by (simp add: Abort_def Let_def flip: m1_def)
qed (use assms in \<open>simp add: Abort_def\<close>)


lemma Apply_ok:
  assumes "machine_ok c m"
  shows "machine_ok c (snd (Apply c a r m))"
proof (cases "\<exists>j. jrn m = Some j \<and> JState j \<in> {StatePrepared, StateAppStaged}")
  case True
  then obtain j where j: "jrn m = Some j" "JState j = StatePrepared \<or> JState j = StateAppStaged" by auto
  have core: "core c m" "ctx_ok m" using assms by (auto simp: machine_ok_def)
  have i: "workers m = []" by (rule idle_state [OF assms]) (use j in \<open>auto simp: working_def\<close>)
  let ?set = "\<lambda>s m. mutate (writes a 0) (\<lambda>j. j\<lparr>JState := s\<rparr>) m"
  have ok: "journal_ok c (made m) (begun m) (j\<lparr>JState := s\<rparr>)"
    if "Staged j \<noteq> ''running''" "s = StateOrdered \<or> s = StateApplying" for s
    using core_jrn [OF core(1) j(1)] j(2) that by (auto simp: journal_ok_def before_switch_def)
  have order: "machine_ok c (?set StateOrdered m)" if "Staged j \<noteq> ''running''"
    using core i ok [OF that] by (intro ok_idle core_set [OF core(1) j(1)]) auto
  have run: "machine_ok c (?set StateCommitted m)"
    using core i by (intro later_idle [where s = StateCommitted]) (simp_all add: later_def)
  have app: "core c (?set StateApplying m)" if "Staged j \<noteq> ''running''"
    using ok [OF that] by (intro core_set [OF core(1) j(1)]) auto
  have "machine_ok c (?set StateApplying m)" if "Staged j \<noteq> ''running''"
    using core i app [OF that] by (intro ok_idle) auto
  moreover have "machine_ok c (go A_backup (?set StateApplying m))" if "Staged j \<noteq> ''running''" "writes a 0"
    using core i j app [OF that(1)] that by (intro ok_works [of _ _ A_backup]) (auto simp: on_disk_def)
  ultimately show ?thesis
    using j assms order run by (auto simp: Apply_def Let_def intro!: ok_go_order)
next
  case False
  then show ?thesis using assms by (cases "jrn m") (auto simp: Apply_def Let_def)
qed

lemma ApplyGated_ok: "machine_ok c m \<Longrightarrow> machine_ok c (snd (ApplyGated c a refused r m))"
  by (simp add: ApplyGated_def Apply_ok ok_save)

lemma RollbackCommitted_ok:
  assumes "machine_ok c m"
  shows "machine_ok c (snd (RollbackCommitted a g r m))"
proof (cases "state_is StateCommitted m")
  case True
  then obtain j where j: "jrn m = Some j" "JState j = StateCommitted" by (auto simp: state_is_def split: option.splits)
  have "workers m = []" by (rule idle_state [OF assms]) (use j in \<open>auto simp: working_def\<close>)
  then have "machine_ok c (rollback a ''admin'' m)" using assms by (intro rollback_ok) (auto simp: machine_ok_def)
  then show ?thesis using assms by (simp add: RollbackCommitted_def split: option.splits)
next
  case False
  then show ?thesis using assms by (auto simp: RollbackCommitted_def state_is_def split: option.splits)
qed

section \<open>Every history keeps the invariant\<close>

text \<open>The goroutine that goes on leaves the list; what is left has no other worker, if it was one.\<close>

lemma take_away:
  assumes "machine_ok c m" "i < length (acts m)"
  defines "m1 \<equiv> m\<lparr>acts := take i (acts m) @ drop (Suc i) (acts m)\<rparr>"
  shows "if of_order (acts m ! i) then machine_ok c m1
    else core c m1 \<and> ctx_ok m1 \<and> workers m1 = [] \<and> fits c m1 (acts m ! i)"
proof -
  have w: "workers m = filter (\<lambda>a. \<not> of_order a) (take i (acts m)) @
      (if of_order (acts m ! i) then [] else [acts m ! i]) @ filter (\<lambda>a. \<not> of_order a) (drop (Suc i) (acts m))"
    unfolding workers_def by (subst id_take_nth_drop [OF assms(2)]) simp
  have w1: "workers m1 = filter (\<lambda>a. \<not> of_order a) (take i (acts m)) @ filter (\<lambda>a. \<not> of_order a) (drop (Suc i) (acts m))"
    by (simp add: workers_def m1_def)
  have fits: "fits c m1 b = fits c m b" for b
    by (cases b) (auto simp: m1_def prep_at_def in_state_def on_disk_def)
  have core: "core c m1 = core c m" "ctx_ok m1 = ctx_ok m" by (auto simp: m1_def core_def ctx_ok_def)
  show ?thesis
  proof (cases "of_order (acts m ! i)")
    case True
    then show ?thesis using assms(1) w w1 fits core by (simp add: machine_ok_def split: list.splits)
  next
    case False
    from assms(1) show ?thesis
    proof (cases rule: machine_okE)
      case (2 t)
      then have "workers m1 = []" "acts m ! i = t" using w w1 False by (auto simp: append_eq_Cons_conv)
      then show ?thesis using 2 False fits core by simp
    qed (use w False in simp)
  qed
qed

lemma step_ok:
  assumes "machine_ok c m" "in_turn e m"
  shows "machine_ok c (machine_step c e m)"
proof (cases e)
  case (Goes_on i a)
  define m1 where "m1 = m\<lparr>acts := take i (acts m) @ drop (Suc i) (acts m)\<rparr>"
  show ?thesis
  proof (cases "i < length (acts m)")
    case True
    note t = take_away [OF assms(1) True, folded m1_def]
    have "machine_ok c (activity_step c a (acts m ! i) m1)"
    proof (cases "of_order (acts m ! i)")
      case o: True
      then show ?thesis
        using t by (cases "acts m ! i")
          (auto simp: activity_step_def intro: await_begin_ok orderFailed_ok await_answered_ok)
    next
      case False
      then have w: "core c m1" "ctx_ok m1" "workers m1 = []" "fits c m1 (acts m ! i)" using t by simp_all
      note ok = prep_answered_ok [OF w(1-3)] prep_last_ok [OF w(1-3)] backup_answered_ok [OF w(1-3)]
        switch_answered_ok [OF w(1-3)] handover_answered_ok [OF w(1-3)] restart_answered_ok [OF w(1-3)]
        undo_answered_ok [OF w(1-3)] watch_answered_ok [OF w(1-3)] mark_answered_ok [OF w(1-3)]
        revert_answered_ok [OF w(1-3)] cameBackOld_ok [OF w(1-3)] cameBackOld_end_ok [OF w(1-3)]
      show ?thesis
        using False w(4) ok by (cases "acts m ! i") (simp_all add: activity_step_def)
    qed
    then show ?thesis using True Goes_on by (simp add: machine_step_def m1_def)
  qed (use assms Goes_on in \<open>simp add: machine_step_def\<close>)
next
  case Stops
  have "fits c (m\<lparr>stopped := True\<rparr>) b = fits c m b" for b
    by (cases b) (auto simp: prep_at_def in_state_def on_disk_def)
  then have "machine_ok c (m\<lparr>stopped := True\<rparr>)"
    using assms(1) by (simp add: machine_ok_def core_def ctx_ok_def workers_def split: list.splits)
  then show ?thesis using Stops by (simp add: machine_step_def)
next
  case (Comes_up a ld installed r)
  then show ?thesis using assms(1) come_up_ok by (simp add: machine_step_def machine_ok_def)
qed (use assms in \<open>simp_all add: machine_step_def Prepare_ok Abort_ok ApplyGated_ok RollbackCommitted_ok ok_save\<close>)

text \<open>The machines that come to be, from one that was never updated, by events in turn.\<close>

inductive reached :: "Config \<Rightarrow> Machine \<Rightarrow> bool" for c where
  first: "reached c (power_on r)"
| event: "reached c m \<Longrightarrow> in_turn e m \<Longrightarrow> reached c (machine_step c e m)"

lemma power_on_ok: "machine_ok c (power_on r)"
  by (simp add: machine_ok_def power_on_def core_def ctx_ok_def workers_def)

theorem reached_ok: "reached c m \<Longrightarrow> machine_ok c m"
  by (induction rule: reached.induct) (simp_all add: power_on_ok step_ok)


section \<open>While the journal can be written\<close>

text \<open>
  With every write made, the journal in memory is the one on disk, the way back is tried at most twice,
  and a busy run has a goroutine that goes on with it, or the process ends.
\<close>

definition rolled :: "nat \<Rightarrow> Machine \<Rightarrow> nat" where
  "rolled n m = count_list (made m) (Rolling n)"

definition tallied :: "Machine \<Rightarrow> bool" where
  "tallied m \<longleftrightarrow> (jrn m = None \<or> dsk m = jrn m) \<and> (\<forall>n. rolled n m \<le> 2) \<and>
     (\<forall>j. dsk m = Some j \<longrightarrow> int (rolled (began j) m) = Rollbacks j)"

definition attended :: "Machine \<Rightarrow> bool" where
  "attended m \<longleftrightarrow> (\<forall>j. jrn m = Some j \<and> Busy (JState j) \<longrightarrow> workers m \<noteq> [] \<or> stopped m \<or> leaving m)"

fun answered :: "event \<Rightarrow> bool" where
  "answered (Ask_prepare a j) = (\<forall>k. writes a k)"
| "answered (Ask_abort a r) = (\<forall>k. writes a k)"
| "answered (Ask_apply a g r) = (\<forall>k. writes a k)"
| "answered (Ask_rollback a g r) = (\<forall>k. writes a k)"
| "answered (Comes_up a ld e r) = (\<forall>k. writes a k)"
| "answered (Goes_on i a) = (\<forall>k. writes a k)"
| "answered (Saves wr) = wr"
| "answered Stops = True"

lemma tallied_save [simp]: "tallied m \<Longrightarrow> tallied (save ok m)"
  by (auto simp: tallied_def rolled_def)

lemma tallied_go [simp]: "tallied (go a m) = tallied m"
  by (simp add: tallied_def rolled_def)

lemma tallied_log [simp]: "tallied m \<Longrightarrow> (\<forall>n. e \<noteq> Rolling n) \<Longrightarrow> tallied (log_call e m)"
  by (auto simp: tallied_def rolled_def)

lemma tallied_mutate [simp]:
  assumes "tallied m" "\<forall>j. began (f j) = began j \<and> Rollbacks (f j) = Rollbacks j"
  shows "tallied (mutate True f m)"
  using assms by (cases "jrn m") (auto simp: tallied_def rolled_def)

lemma tallied_with_journal [simp]: "tallied m \<Longrightarrow> tallied (snd (with_journal ok True w m))"
  by (cases "jrn m") (auto simp: with_journal_def tallied_def rolled_def)

lemma tallied_discard [simp]: "tallied m \<Longrightarrow> tallied (discard wr m)"
  by (simp add: discard_def split: option.splits)

lemma tallied_fields [simp]:
  "tallied (m\<lparr>leaving := b\<rparr>) = tallied m" "tallied (m\<lparr>stopped := b\<rparr>) = tallied m"
  "tallied (m\<lparr>acts := ts\<rparr>) = tallied m" "tallied (m\<lparr>cancelled := xs\<rparr>) = tallied m"
  by (simp_all add: tallied_def rolled_def)

lemma rolled_new: "core c m \<Longrightarrow> rolled (begun m) m = 0"
  by (auto simp: core_def rolled_def count_list_0_iff)

lemma tallied_new_run:
  assumes "tallied m" "core c m"
  shows "tallied (save True (new_run jb m))"
    and "\<forall>j. began (f j) = began j \<and> Rollbacks (f j) = Rollbacks j \<Longrightarrow> tallied (mutate True f (new_run jb m))"
  using assms rolled_new [OF assms(2)]
  by (auto simp: tallied_def rolled_def new_run_def new_journal_def)

lemma tallied_rollback:
  assumes "tallied m" "\<forall>k. writes a k"
  shows "tallied (rollback a r m)"
proof (cases "jrn m")
  case (Some j)
  then have d: "dsk m = Some j" "int (rolled (began j) m) = Rollbacks j" "\<forall>n. rolled n m \<le> 2"
    using assms(1) by (auto simp: tallied_def)
  show ?thesis
  proof (cases "FromRef j = '''' \<and> From j = '''' \<or> 2 \<le> Rollbacks j")
    case False
    let ?f = "\<lambda>j :: Journal. j\<lparr>JState := StateRollingBack, Reason := r, Rollbacks := Rollbacks j + 1\<rparr>"
    have "tallied (log_call (Rolling (began j)) (save True (mutate True ?f (save True m))))"
      using d Some False by (auto simp: tallied_def rolled_def)
    then show ?thesis using False Some assms(2) by (auto simp: rollback_def)
  qed (use assms Some in \<open>auto simp: rollback_def\<close>)
qed (use assms in \<open>simp add: rollback_def\<close>)

lemma tallied_prep_begin: "tallied m \<Longrightarrow> tallied (prep_begin c wr x k m)"
  by (simp add: prep_begin_def split: option.splits)

lemma tallied_start_prepare: "tallied m \<Longrightarrow> tallied (start_prepare c wr m)"
  unfolding start_prepare_def by (rule tallied_prep_begin) (simp add: tallied_def rolled_def)

lemma tallied_prep_call:
  assumes "tallied m" "\<forall>k. writes a k"
  shows "tallied (snd (prep_call a s w m))"
  using assms by (cases s) (simp_all add: prep_call_def rehearse_def case_prod_beta)


lemma tallied_prep_answered:
  assumes "tallied m" "\<forall>k. writes a k"
  shows "tallied (prep_answered c a x k w m)"
  using assms tallied_prep_call [OF assms]
  by (simp add: prep_answered_def abort_cut_def case_prod_beta tallied_prep_begin)

lemma tallied_undo_begin: "tallied m \<Longrightarrow> tallied (undo_begin e m)"
  by (simp add: undo_begin_def split: option.splits)

lemma tallied_activity:
  assumes "tallied m" "\<forall>k. writes a k"
  shows "tallied (activity_step c a t m)"
proof (cases t)
  case (W_watch l w)
  obtain d w1 where t: "watch_tick l (tick a\<lparr>commitOK := okay a \<and> writes a 1\<rparr>) w = (d, w1)" by fastforce
  have c: "tallied (count_saved a w w1 (log_call (Checked n x) m))" for n x
    using assms by (simp add: count_saved_def)
  have k: "tallied (ask_commit a j m1)" if "tallied m1" for j m1
    using that by (simp add: ask_commit_def)
  show ?thesis
    using assms t W_watch c k
    by (cases d) (auto simp: activity_step_def watch_answered_def Let_def intro: tallied_rollback split: option.splits)
qed (use assms in \<open>simp_all add: activity_step_def prep_last_def backup_answered_def switch_answered_def handover_answered_def
      restart_answered_def undo_answered_def orderFailed_def await_begin_def await_answered_def mark_answered_def
      revert_answered_def cameBackOld_def cameBackOld_end_def case_prod_beta Let_def tallied_prep_answered tallied_undo_begin
      split: option.splits\<close>)


lemma tallied_beginWatch:
  assumes "tallied m" "\<forall>k. writes a k"
  shows "tallied (beginWatch c a m)"
  using assms by (simp add: beginWatch_def Let_def tallied_rollback split: option.splits)

lemma tallied_come_up:
  assumes "tallied m" "\<forall>k. writes a k"
  shows "tallied (come_up c a ld e r m)"
proof -
  have f: "tallied (fresh r m)" "tallied ((fresh r m)\<lparr>dsk := None\<rparr>)" "tallied ((fresh r m)\<lparr>jrn := dsk m\<rparr>)"
    using assms(1) by (auto simp: tallied_def rolled_def fresh_def)
  have "tallied (Resume c a e m1)" if m1: "tallied m1" for m1
  proof (cases "jrn m1")
    case (Some j)
    then show ?thesis
      using m1 assms(2)
      by (cases "JState j") (simp_all add: Resume_def Let_def tallied_beginWatch tallied_rollback tallied_start_prepare
        tallied_undo_begin split: option.splits)
  qed (use m1 in \<open>simp add: Resume_def\<close>)
  then show ?thesis using f by (simp add: come_up_def split: load.splits)
qed

lemma tallied_Prepare:
  assumes "tallied m" "core c m" "\<forall>k. writes a k"
  shows "tallied (snd (Prepare c a jb m))"
proof -
  define m1 where "m1 = (case jrn m of None \<Rightarrow> m | Some old \<Rightarrow>
             if JState old \<in> {StatePrepared, StateOrdered, StateAppStaged, StateAborted, StatePrepareFailed}
             then log_call (Discarded (began old)) m else m)"
  have m1: "core c m1" "tallied m1"
    using assms core_began [OF assms(2)] by (auto simp: m1_def split: option.splits)
  note n = tallied_new_run [OF m1(2,1)]
  show ?thesis
    using assms(1,3) n unfolding Prepare_def Let_def m1_def [symmetric] by (auto simp: tallied_start_prepare)
qed

lemma tallied_step:
  assumes "tallied m" "core c m" "answered e"
  shows "tallied (machine_step c e m)"
  using assms
  by (cases e) (auto simp: machine_step_def tallied_Prepare tallied_activity tallied_come_up Abort_def ApplyGated_def Apply_def
      RollbackCommitted_def tallied_rollback Let_def split: option.splits)


lemma attended_works: "workers m \<noteq> [] \<Longrightarrow> attended m"
  by (simp add: attended_def)

lemma attended_state: "jrn m = Some j \<Longrightarrow> \<not> Busy (JState j) \<Longrightarrow> attended m"
  by (simp add: attended_def)

lemma attended_ending: "stopped m \<or> leaving m \<Longrightarrow> attended m"
  by (auto simp: attended_def)

lemma attended_keep:
  "jrn m' = jrn m \<Longrightarrow> workers m' = workers m \<Longrightarrow> stopped m' = stopped m \<Longrightarrow> leaving m' = leaving m \<Longrightarrow> attended m \<Longrightarrow> attended m'"
  by (simp add: attended_def)

lemma attended_none: "jrn m = None \<Longrightarrow> attended m"
  by (simp add: attended_def)

lemma attended_prep_begin: "attended (prep_begin c True x k m)"
  by (cases "jrn m") (auto simp: prep_begin_def attended_none intro!: attended_works)

lemma attended_prep_answered:
  assumes "core c m" "workers m = []" "fits c m (P_call x k w)" "\<forall>k. writes a k"
  shows "attended (prep_answered c a x k w m)"
proof -
  obtain ok m1 w1 where p: "prep_call a (prep_steps c ! k) w m = (ok, m1)" "prep_at x w1 m1"
    using prep_call_ok [OF assms(1), of x w a "prep_steps c ! k"] assms(3) by auto
  obtain j where j: "jrn m1 = Some j" "x \<in> set (cancelled m1) \<longrightarrow> JState j = StateAborted"
    using p(2) by (auto simp: prep_at_def split: if_splits)
  show ?thesis
  proof (cases "ctx_ended x m1")
    case True
    have "jrn (abort_cut a m1) = Some j" "stopped (abort_cut a m1) = stopped m1"
      using j(1) by (auto simp: abort_cut_def discard_def)
    then show ?thesis
      using True p(1) j by (auto simp: prep_answered_def attended_def ctx_ended_def Busy_def)
  qed (use p(1) j assms(4) in \<open>auto simp: prep_answered_def attended_prep_begin Busy_def intro!: attended_state\<close>)
qed

lemma attended_rollback: "attended (rollback a r m)"
  by (cases "jrn m") (auto simp: rollback_def Busy_def attended_none intro: attended_works attended_state)

lemma attended_undo_begin: "attended (undo_begin e m)"
  by (cases "jrn m") (auto simp: undo_begin_def attended_none intro: attended_works)

lemma attended_worker:
  assumes "core c m" "workers m = []" "fits c m t" "\<forall>k. writes a k" "\<not> of_order t"
  shows "attended (activity_step c a t m)"
proof (cases t)
  case (P_call x k w)
  then show ?thesis using attended_prep_answered [of c m x k w a] assms by (simp add: activity_step_def)
next
  case (P_last x)
  then obtain w where w: "prep_at x w m" using assms(3) by auto
  then obtain j where "jrn m = Some j" by (auto simp: prep_at_def split: if_splits)
  then show ?thesis
    using P_last assms(4) w
    by (auto simp: activity_step_def prep_last_def state_is_def Busy_def prep_at_def discard_def intro!: attended_state split: if_splits)
next
  case (A_restart w)
  then have j: "jrn m = Some w" using assms(3) by simp
  define m1 where "m1 = (if okay a then (log_call (Restarted (began w)) m)\<lparr>leaving := True\<rparr> else m)"
  have m1: "jrn m1 = Some w" "okay a \<Longrightarrow> leaving m1" using j by (auto simp: m1_def)
  show ?thesis
    using A_restart with_journal_same [OF m1(1)] assms(4) m1(2)
    by (auto simp: activity_step_def restart_answered_def Let_def attended_undo_begin simp flip: m1_def intro!: attended_ending)
next
  case (W_watch l w)
  then obtain j where j: "jrn m = Some j" using assms(3) by auto
  obtain d w1 where "watch_tick l (tick a\<lparr>commitOK := okay a \<and> writes a 1\<rparr>) w = (d, w1)" by fastforce
  then show ?thesis
    using W_watch j by (cases d) (auto simp: activity_step_def watch_answered_def Let_def attended_rollback Busy_def count_saved_def
        ask_commit_def intro: attended_works attended_ending attended_state)
next
  case (R_revert g w)
  then have j: "jrn m = Some w" using assms(3) by simp
  define m1 where "m1 = (if okay a then log_call (Reverted (began w)) m else m)"
  have m1: "jrn m1 = Some w" using j by (auto simp: m1_def)
  show ?thesis
    using R_revert with_journal_same [OF m1] m1
    by (auto simp: activity_step_def revert_answered_def Let_def Busy_def simp flip: m1_def intro: attended_ending attended_state)
next
  case (A_undo e w)
  then have j: "jrn m = Some w" using assms(3) by simp
  define m1 where "m1 = (if okay a then log_call (Reverted (began w)) m else m)"
  have m1: "jrn m1 = Some w" using j by (auto simp: m1_def)
  show ?thesis
    using A_undo with_journal_same [OF m1] m1
    by (auto simp: activity_step_def undo_answered_def Let_def Busy_def simp flip: m1_def intro!: attended_state)
next
  case (A_switch w)
  then show ?thesis
    by (auto simp: activity_step_def switch_answered_def Let_def case_prod_beta attended_undo_begin intro: attended_works)
next
  case A_backup
  then show ?thesis
    using assms(3) by (auto simp: activity_step_def backup_answered_def attended_undo_begin intro: attended_works attended_ending)
next
  case A_handover
  then show ?thesis
    using assms(3) by (auto simp: activity_step_def handover_answered_def in_state_def Let_def intro: attended_works split: option.splits)
next
  case R_mark
  then show ?thesis
    using assms(3) by (auto simp: activity_step_def mark_answered_def in_state_def Let_def intro!: attended_works split: option.splits)
next
  case (C_revert why w)
  then show ?thesis by (auto simp: activity_step_def cameBackOld_def intro: attended_works)
next
  case (C_mark why)
  then show ?thesis
    using assms(3) by (auto simp: activity_step_def cameBackOld_end_def in_state_def Busy_def intro!: attended_state split: option.splits)
qed (use assms in \<open>auto simp: activity_step_def\<close>)


lemma attended_order:
  assumes "attended m" "of_order t"
  shows "attended (activity_step c a t m)"
proof -
  have save: "attended (save ok m)" "attended (go b (save ok m))" "attended (go b m)" for ok b
    using assms(1) by (auto simp: attended_def)
  have "attended (orderFailed a r m)" for r
    using assms(1) by (cases "jrn m") (auto simp: orderFailed_def Busy_def intro: attended_state)
  moreover have "attended (mutate wr (\<lambda>j. j\<lparr>JState := StateAppStaged\<rparr>) m)" for wr
    by (cases "jrn m") (auto simp: Busy_def attended_none intro: attended_state)
  ultimately show ?thesis
    using assms save by (cases t) (auto simp: activity_step_def await_begin_def await_answered_def Let_def)
qed

lemma attended_Resume:
  assumes "\<forall>k. writes a k"
  shows "attended (Resume c a e m)"
proof (cases "jrn m")
  case (Some j)
  have w: "attended (beginWatch c a m)"
    using Some by (auto simp: beginWatch_def Let_def attended_rollback intro: attended_works)
  have p: "attended (start_prepare c True (save wr m))" for wr
    by (simp add: start_prepare_def attended_prep_begin)
  show ?thesis
    using Some w p assms attended_rollback attended_undo_begin
    by (cases "JState j") (auto simp: Resume_def Let_def Busy_def intro: attended_works attended_state split: option.splits)
qed (simp add: Resume_def attended_none)

lemma attended_step:
  assumes "attended m" "machine_ok c m" "answered e"
  shows "attended (machine_step c e m)"
proof (cases e)
  case (Goes_on i a)
  define m1 where "m1 = m\<lparr>acts := take i (acts m) @ drop (Suc i) (acts m)\<rparr>"
  show ?thesis
  proof (cases "i < length (acts m)")
    case True
    note t = take_away [OF assms(2) True, folded m1_def]
    have "attended (activity_step c a (acts m ! i) m1)"
    proof (cases "of_order (acts m ! i)")
      case o: True
      have "workers m1 = workers m"
        unfolding m1_def workers_def by (simp, subst (3) id_take_nth_drop [OF True]) (simp add: o)
      then have "attended m1" using assms(1) by (simp add: attended_def m1_def)
      then show ?thesis using o attended_order by blast
    next
      case False
      then show ?thesis using t attended_worker [of c m1] assms(3) Goes_on by auto
    qed
    then show ?thesis using True Goes_on by (simp add: machine_step_def m1_def)
  qed (use assms Goes_on in \<open>simp add: machine_step_def\<close>)
next
  case (Ask_prepare a jb)
  have "attended (mutate wr (\<lambda>j. j\<lparr>JState := StatePrepared, Staged := ''running''\<rparr>) m1)" for wr m1
    by (cases "jrn m1") (auto simp: Busy_def attended_none intro: attended_state)
  then show ?thesis
    using Ask_prepare assms(1,3) unfolding machine_step_def
    by (auto simp: Prepare_def Let_def start_prepare_def attended_prep_begin split: option.splits)
next
  case (Ask_abort a r)
  have "attended (discard wr (mutate w0 (\<lambda>j. j\<lparr>JState := StateAborted\<rparr>) m))" for wr w0
    by (cases "jrn m") (auto simp: Busy_def intro: attended_state attended_none)
  moreover have "attended ((mutate w0 (\<lambda>j. j\<lparr>JState := StateAborted\<rparr>) m)\<lparr>cancelled := xs\<rparr>)" for w0 xs
    by (cases "jrn m") (auto simp: attended_def Busy_def)
  ultimately show ?thesis
    using Ask_abort assms(1) by (auto simp: machine_step_def Abort_def Let_def split: option.splits)
next
  case (Ask_apply a g r)
  have "attended (save wr m)" for wr using assms(1) by (simp add: attended_def)
  moreover have "attended (go (O_order r) (mutate w0 (\<lambda>j. j\<lparr>JState := StateOrdered\<rparr>) m))"
    "attended (mutate w0 (\<lambda>j. j\<lparr>JState := StateCommitted\<rparr>) m)" for w0
    by (cases "jrn m"; auto simp: attended_def Busy_def)+
  ultimately show ?thesis
    using Ask_apply assms(1,3)
    by (auto simp: machine_step_def ApplyGated_def Apply_def Let_def intro: attended_works split: option.splits)
next
  case (Ask_rollback a g r)
  then show ?thesis
    using assms(1) attended_rollback by (auto simp: machine_step_def RollbackCommitted_def split: option.splits)
next
  case (Comes_up a ld er r)
  then show ?thesis
    using assms(3) attended_Resume
    by (auto simp: machine_step_def come_up_def fresh_def intro: attended_none split: load.splits)
qed (use assms(1) in \<open>auto simp: machine_step_def attended_def\<close>)

inductive served :: "Config \<Rightarrow> Machine \<Rightarrow> bool" for c where
  first: "served c (power_on r)"
| event: "served c m \<Longrightarrow> in_turn e m \<Longrightarrow> answered e \<Longrightarrow> served c (machine_step c e m)"

lemma served_ok: "served c m \<Longrightarrow> machine_ok c m \<and> tallied m \<and> attended m"
proof (induction rule: served.induct)
  case (first r)
  then show ?case by (simp add: power_on_ok) (simp add: power_on_def tallied_def rolled_def attended_def)
next
  case (event m e)
  then show ?case using step_ok tallied_step attended_step by (auto simp: machine_ok_def)
qed


section \<open>Properties\<close>

text \<open>A history as the list of its events, each in turn.\<close>

fun happens :: "Config \<Rightarrow> event list \<Rightarrow> Machine \<Rightarrow> Machine" where
  "happens c [] m = m"
| "happens c (e # es) m = happens c es (machine_step c e m)"

fun in_turns :: "Config \<Rightarrow> event list \<Rightarrow> Machine \<Rightarrow> bool" where
  "in_turns c [] m = True"
| "in_turns c (e # es) m = (in_turn e m \<and> in_turns c es (machine_step c e m))"

lemma reached_happens: "reached c m \<Longrightarrow> in_turns c es m \<Longrightarrow> reached c (happens c es m)"
  by (induction es arbitrary: m) (auto intro: reached.event)

lemma served_happens: "served c m \<Longrightarrow> in_turns c es m \<Longrightarrow> list_all answered es \<Longrightarrow> served c (happens c es m)"
  by (induction es arbitrary: m) (auto intro: served.event)

text \<open>An update of a node from 1.1.0 to 1.2.0 that goes well, for the instances below.\<close>

definition node :: Config where
  "node = \<lparr>hasPacks = False, hasOrderer = False, maxStarts = 3\<rparr>"

definition yes :: "int \<Rightarrow> Answer" where
  "yes s = \<lparr>okay = True, writes = (\<lambda>k. True), extra = True, found = (''1.2.0'', ''1.1.0'', Some ''1.2.0'', 2),
     measured = \<lparr>Skipped = '''', DBBytes = 0, MigrateSec = 0\<rparr>, word = '''', tick = tick_of True False s, clock = 0\<rparr>"

definition good_update :: "event list" where
  "good_update = [Ask_prepare (yes 0) sample_job] @ replicate 5 (Goes_on 0 (yes 0)) @
     [Ask_apply (yes 0) False ''r1''] @ replicate 4 (Goes_on 0 (yes 0)) @
     [Comes_up (yes 0) Readable None ''1.2.0'', Goes_on 0 (yes 5), Goes_on 0 (yes 10), Goes_on 0 (yes 15)]"

definition updated :: Machine where
  "updated = happens node good_update (power_on ''1.1.0'')"

lemma good_update_in_turn: "in_turns node good_update (power_on ''1.1.0'')" by code_simp

lemma good_update_calls:
  "made updated = [Kept 0 sample_job ''1.2.0'', Checked 0 ((tick_of True False 15)\<lparr>commitOK := False\<rparr>),
     Checked 0 ((tick_of True False 10)\<lparr>commitOK := False\<rparr>), Checked 0 ((tick_of True False 5)\<lparr>commitOK := False\<rparr>), Restarted 0,
     Switched 0, Did 0 StepRehearse, Did 0 StepSmoke, Did 0 StepStage, Did 0 StepPreflight]"
  by code_simp

lemma good_update_answered: "list_all answered good_update"
  by (auto simp: list_all_iff good_update_def yes_def)

lemma updated_reached: "reached node updated"
  unfolding updated_def using reached_happens [OF reached.first good_update_in_turn] .


lemma lawful_at: "lawful c (es1 @ e # es2) \<Longrightarrow> justified c e es2"
  by (induction es1) auto



text \<open>
  Property C22. A release is kept only by itself and only when it earned it: at every commit in the list of
  calls the running release is the job's, and among the checks made for that run before it there is an
  unbroken stretch of healthy ones at least as long as the job's watch, with nothing fatal after it.
\<close>

theorem kept_only_when_earned:
  assumes "reached c m" "made m = es1 @ Kept n jb r # es2"
  shows "CompareVersions (NormalizeVersion r) (JobVersion jb) = 0 \<and>
    (\<exists>pre mid post. checks_of n es2 = pre @ mid @ post \<and> mid \<noteq> [] \<and> (\<forall>x\<in>set mid. good x) \<and>
       Watch jb \<le> now (last mid) - now (hd mid) \<and> (\<forall>x\<in>set post. \<not> Fatal (verdict x)))"
proof -
  have "lawful c (es1 @ Kept n jb r # es2)"
    using reached_ok [OF assms(1)] assms(2) by (simp add: machine_ok_def core_def)
  then have "justified c (Kept n jb r) es2" by (rule lawful_at)
  then show ?thesis by (simp add: justified_def same_release_def healthy_long_def)
qed

theorem kept_only_when_earned_witness:
  "CompareVersions (NormalizeVersion ''1.2.0'') (JobVersion sample_job) = 0 \<and> Watch sample_job = 10 * second \<and>
   (\<exists>es mid. made updated = Kept 0 sample_job ''1.2.0'' # es \<and> set mid \<subseteq> set (checks_of 0 es) \<and>
      Watch sample_job \<le> now (last mid) - now (hd mid))"
proof -
  have m: "made updated = [] @ Kept 0 sample_job ''1.2.0'' # tl (made updated)" by (simp add: good_update_calls)
  have "Watch sample_job = 10 * second" by code_simp
  then show ?thesis using m kept_only_when_earned [OF updated_reached m] by fastforce
qed


definition aborted :: Machine where
  "aborted = happens node (take 3 good_update @ [Ask_abort (yes 0) ''r1'', Goes_on 0 (yes 0)]) (power_on ''1.1.0'')"


text \<open>
  No run is left lying: while the journal can be written, a busy run (preparing, applying,
  restarting, watching, rolling back) has exactly one goroutine that goes on with it, or the process is ending.
\<close>

theorem busy_run_is_attended:
  assumes "served c m" "jrn m = Some j" "Busy (JState j)" "\<not> stopped m" "\<not> leaving m"
  shows "\<exists>t. workers m = [t] \<and> fits c m t"
proof -
  have "machine_ok c m" "workers m \<noteq> []" using served_ok [OF assms(1)] assms(2-5) by (auto simp: attended_def)
  then show ?thesis by (elim machine_okE) auto
qed

theorem busy_run_is_attended_witness:
  "\<exists>t. workers (happens node (take 8 good_update) (power_on ''1.1.0'')) = [t]"
proof -
  have "in_turns node (take 8 good_update) (power_on ''1.1.0'')" by code_simp
  moreover have "list_all answered (take 8 good_update)"
    using good_update_answered by (auto simp: list_all_iff dest: in_set_takeD)
  ultimately have s: "served node (happens node (take 8 good_update) (power_on ''1.1.0''))"
    using served_happens [OF served.first] by blast
  have "map_option JState (jrn (happens node (take 8 good_update) (power_on ''1.1.0''))) = Some StateApplying"
    "\<not> stopped (happens node (take 8 good_update) (power_on ''1.1.0''))"
    "\<not> leaving (happens node (take 8 good_update) (power_on ''1.1.0''))" by code_simp+
  then show ?thesis using busy_run_is_attended [OF s] by (auto simp: Busy_def)
qed

text \<open>
  A machine does not go back and forth: while the journal can be written, the way back of a run
  is begun at most twice, whatever release comes up after it and whoever asks for it.
\<close>

theorem rolled_back_at_most_twice:
  assumes "served c m"
  shows "count_list (made m) (Rolling n) \<le> 2"
  using served_ok [OF assms] by (simp add: tallied_def rolled_def)

text \<open>A release that is not left by its way back: the second time a person is needed.\<close>

definition stubborn :: "event list" where
  "stubborn = good_update @ [Ask_rollback (yes 0) False ''r1'', Goes_on 0 (yes 0), Goes_on 0 (yes 0),
     Comes_up (yes 0) Readable None ''1.2.0'', Goes_on 0 (yes 0), Goes_on 0 (yes 0), Comes_up (yes 0) Readable None ''1.2.0'']"

theorem rolled_back_at_most_twice_witness:
  "count_list (made (happens node stubborn (power_on ''1.1.0''))) (Rolling 0) \<le> 2 \<and>
   Rolling 0 \<in> set (made (happens node stubborn (power_on ''1.1.0''))) \<and>
   map_option JState (jrn (happens node stubborn (power_on ''1.1.0''))) = Some StateFailed"
proof -
  have "in_turns node stubborn (power_on ''1.1.0'')" by code_simp
  moreover have "list_all answered stubborn" using good_update_answered by (simp add: stubborn_def yes_def)
  ultimately have "served node (happens node stubborn (power_on ''1.1.0''))"
    using served_happens [OF served.first] by blast
  moreover have "Rolling 0 \<in> set (made (happens node stubborn (power_on ''1.1.0'')))"
    "map_option JState (jrn (happens node stubborn (power_on ''1.1.0''))) = Some StateFailed" by code_simp+
  ultimately show ?thesis using rolled_back_at_most_twice by blast
qed


section \<open>Where the code departs from what it says\<close>

text \<open>
  \<open>Stage\<close> notes what it verified of the release (its signed record, its launcher protocol) in the copy of
  the journal it is given, and \<open>withJournal\<close> takes back only the two handles. So no journal ever holds
  them: the commit records no signed release (\<open>keepSigned\<close> of nothing), and no update asks for the
  launcher its release needs.
\<close>

theorem stage_loses_the_release:
  assumes "reached c m" "jrn m = Some j"
  shows "Signed j = None \<and> LauncherProtocol j = 0"
  using reached_ok [OF assms(1)] assms(2) by (auto simp: machine_ok_def core_def journal_ok_def)

text \<open>
  The end of a prepare marks whatever run is preparing as prepared, not its own: a run aborted at its last
  step, and the next one asked for before that goroutine came to its end, which is then prepared with no
  step made.
\<close>

definition other_job :: Job where
  "other_job = sample_job\<lparr>RunID := ''r2'', JobVersion := ''1.3.0'', Tag := ''v1.3.0''\<rparr>"

lemma late_prepare_marks_the_next_run:
  "let m = happens node (take 5 good_update @
      [Ask_abort (yes 0) ''r1'', Ask_prepare (yes 0) other_job, Goes_on 0 (yes 0)]) (power_on ''1.1.0'')
   in map_option (\<lambda>j. (RunID (job j), JState j, Staged j, began j)) (jrn m) = Some (''r2'', StatePrepared, '''', 1) \<and>
      list_all (\<lambda>e. call_of e \<noteq> 1) (made m)"
  by code_simp

text \<open>
  An apply whose journal cannot be written answers with the error and leaves the run applying in memory with no
  goroutine: asked again it is said to be under way, and nothing else is taken until the process starts again.
\<close>

definition no_writes :: Answer where
  "no_writes = (yes 0)\<lparr>writes := (\<lambda>k. False)\<rparr>"

lemma failed_apply_stays_busy:
  "let m = happens node (take 6 good_update) (power_on ''1.1.0'');
       m1 = snd (Apply node no_writes ''r1'' m)
   in fst (Apply node no_writes ''r1'' m) = Some ErrSave \<and> acts m1 = [] \<and>
      fst (Apply node (yes 0) ''r1'' m1) = None \<and> acts (snd (Apply node (yes 0) ''r1'' m1)) = [] \<and>
      fst (Abort (yes 0) ''r1'' m1) = Some ErrPastSwitch \<and> fst (Prepare node (yes 0) other_job m1) = Some ErrBusy"
  by code_simp

text \<open>
  A switch back that was made, but whose journal could not be written, counts as one that failed: the record's
  mark is taken back, the run fails and the process runs on, while the next start is on the release before, with
  the database of the new one.
\<close>

definition home_job :: Job where
  "home_job = sample_job\<lparr>Home := True\<rparr>"

lemma unwritten_switch_back_is_undone_halfway:
  "let m = happens node ([Ask_prepare (yes 0) home_job] @ drop 1 (butlast good_update) @
      [Goes_on 0 ((yes 15)\<lparr>tick := (tick_of False False 30)\<lparr>verdict := \<lparr>Healthy = False, Fatal = True, Pending = False,
         Progress = '''', Unmeasured = False, Why = ''crash''\<rparr>\<rparr>\<rparr>), Goes_on 0 (yes 0), Goes_on 0 no_writes]) (power_on ''1.1.0'')
   in take 3 (made m) = [Unmarked 0, Reverted 0, Marked 0] \<and> map_option JState (jrn m) = Some StateFailed \<and> \<not> leaving m"
  by code_simp

text \<open>
  A prepare refuses to go below the running release, an order is withdrawn when a newer release runs; a run that
  was prepared already is not: after another release was installed by hand, its apply switches back below it.
\<close>

lemma prepared_run_goes_below:
  "let m = happens node (take 6 good_update @ [Comes_up (yes 0) Readable None ''1.3.0'', Ask_apply (yes 0) False ''r1'',
      Goes_on 0 (yes 0), Goes_on 0 (yes 0)]) (power_on ''1.1.0'')
   in running m = ''1.3.0'' \<and> hd (made m) = Switched 0 \<and> map_option (\<lambda>j. JobVersion (job j)) (jrn m) = Some ''1.2.0'' \<and>
      fst (Prepare node (yes 0) sample_job (power_on ''1.3.0'')) = Some ErrAhead"
  by code_simp


end
