(* ===== verification/Install_Layout.thy ===== *)
theory Install_Layout
  imports Updater_Machine
begin

text \<open>
  The side-by-side install of a machine (shared/go/layout): the pointer files \<open>current\<close>,
  \<open>previous\<close> and \<open>watermark\<close>, the \<open>pending\<close> marker, the releases kept beside each other
  (layout.go, prune.go), the marks on the database's record (guard.go), and the updater's installer
  over them (cmd/maktaba-server/internal/updater/layout.go). The launcher is in \<open>Launcher\<close>, the
  properties of both in \<open>Launcher_Safety\<close>.

  The state is what the disk holds. Every write is one atomic replacement of a file or one removal
  (atomic.go), and its outcome is an input: \<open>Written\<close>, \<open>Lost\<close> (nothing changed, an error) or
  \<open>Unsynced\<close> (changed, but the directory's sync failed: an error too). An operation stops at its first
  error, so the disks a power cut can leave are those of a lost or an unsynced write. The executables'
  names are those of a system other than Windows. A release directory is its \<open>.verified\<close> record, the
  digests of its files and the paths in it other users could write; reading the list of releases
  does not fail.
\<close>

section \<open>Files\<close>

datatype 'a stored = Missing | Unreadable | Holds 'a

datatype disk_write = Written | Lost | Unsynced

datatype layout_error = ErrNoPointer | ErrBadVersion | ErrNotVerified | ErrDigest | ErrMissingRelease
  | ErrUnsafePerm | ErrNoMarker | ErrCorrupt | ErrIO

datatype pointer = CurrentFile | PreviousFile | WatermarkFile

record Pending =
  pVersion :: string
  pPrevious :: string
  pRunID :: string
  pSince :: instant
  pDeadline :: "instant option"
  pRecord :: string

text \<open>What the marker's file holds: the JSON of a marker, or no such JSON.\<close>

datatype marker = Marker Pending | Garbled

record Release =
  SHA256 :: "(string \<times> string) list option"
  digests :: "(string \<times> string) list"
  shared :: "string list"

record Install =
  current_file :: "string stored"
  previous_file :: "string stored"
  watermark_file :: "string stored"
  pending_file :: "marker stored"
  releases :: "(string \<times> Release) list"

fun pointer_file :: "pointer \<Rightarrow> Install \<Rightarrow> string stored" where
  "pointer_file CurrentFile d = current_file d"
| "pointer_file PreviousFile d = previous_file d"
| "pointer_file WatermarkFile d = watermark_file d"

fun set_pointer :: "pointer \<Rightarrow> string \<Rightarrow> Install \<Rightarrow> Install" where
  "set_pointer CurrentFile s d = d\<lparr>current_file := Holds s\<rparr>"
| "set_pointer PreviousFile s d = d\<lparr>previous_file := Holds s\<rparr>"
| "set_pointer WatermarkFile s d = d\<lparr>watermark_file := Holds s\<rparr>"

definition WriteFileAtomic :: "disk_write \<Rightarrow> ('d \<Rightarrow> 'd) \<Rightarrow> 'd \<Rightarrow> layout_error option \<times> 'd" where
  "WriteFileAtomic w f d = (case w of Written \<Rightarrow> (None, f d) | Lost \<Rightarrow> (Some ErrIO, d) | Unsynced \<Rightarrow> (Some ErrIO, f d))"

section \<open>Pointers\<close>

definition ReadPointer :: "pointer \<Rightarrow> Install \<Rightarrow> layout_error + string" where
  "ReadPointer p d = (case pointer_file p d of
       Missing \<Rightarrow> Inl ErrNoPointer
     | Unreadable \<Rightarrow> Inl ErrIO
     | Holds b \<Rightarrow> (let v = trim_space b in
         if v = '''' then Inl ErrNoPointer else if ValidVersion v then Inr v else Inl ErrBadVersion))"

definition WritePointer :: "pointer \<Rightarrow> string \<Rightarrow> disk_write \<Rightarrow> Install \<Rightarrow> layout_error option \<times> Install" where
  "WritePointer p v w d =
    (if ValidVersion v then WriteFileAtomic w (set_pointer p (v @ [CHR 0x0A])) d else (Some ErrBadVersion, d))"

text \<open>The value of a pointer with its error dropped is \<open>''\<close> on an error.\<close>

definition value_of :: "layout_error + string \<Rightarrow> string" where
  "value_of r = (case r of Inl _ \<Rightarrow> '''' | Inr v \<Rightarrow> v)"

definition Current :: "Install \<Rightarrow> layout_error + string" where
  "Current d = ReadPointer CurrentFile d"

definition Previous :: "Install \<Rightarrow> layout_error + string" where
  "Previous d = ReadPointer PreviousFile d"

definition layout_Watermark :: "Install \<Rightarrow> string" where
  "layout_Watermark d = value_of (ReadPointer WatermarkFile d)"

definition RaiseWatermark :: "string \<Rightarrow> disk_write \<Rightarrow> Install \<Rightarrow> layout_error option \<times> Install" where
  "RaiseWatermark v w d =
    (let m = layout_Watermark d in
     if m \<noteq> '''' \<and> CompareVersions v m \<le> 0 then (None, d) else WritePointer WatermarkFile v w d)"

section \<open>The pending marker\<close>

definition ReadPending :: "Install \<Rightarrow> layout_error + Pending option" where
  "ReadPending d = (case pending_file d of
       Missing \<Rightarrow> Inr None
     | Unreadable \<Rightarrow> Inl ErrIO
     | Holds Garbled \<Rightarrow> Inl ErrCorrupt
     | Holds (Marker p) \<Rightarrow> if ValidVersion (pVersion p) then Inr (Some p) else Inl ErrBadVersion)"

definition write_pending :: "Pending \<Rightarrow> disk_write \<Rightarrow> Install \<Rightarrow> layout_error option \<times> Install" where
  "write_pending p w d = WriteFileAtomic w (\<lambda>d. d\<lparr>pending_file := Holds (Marker p)\<rparr>) d"

definition GuardPending :: "string \<Rightarrow> instant \<Rightarrow> string \<Rightarrow> disk_write \<Rightarrow> Install \<Rightarrow> layout_error option \<times> Install" where
  "GuardPending v t r w d = (case ReadPending d of
       Inl e \<Rightarrow> (Some e, d)
     | Inr None \<Rightarrow> (Some ErrNoMarker, d)
     | Inr (Some p) \<Rightarrow> if pVersion p \<noteq> v then (Some ErrNoMarker, d)
         else write_pending (p\<lparr>pDeadline := Some t, pRecord := r\<rparr>) w d)"

definition before :: "instant option \<Rightarrow> instant \<Rightarrow> bool" where
  "before t u = (case t of None \<Rightarrow> True | Some t \<Rightarrow> t < u)"

definition ExtendPending :: "string \<Rightarrow> instant \<Rightarrow> disk_write \<Rightarrow> Install \<Rightarrow> bool \<times> layout_error option \<times> Install" where
  "ExtendPending r t w d = (case ReadPending d of
       Inl e \<Rightarrow> (False, Some e, d)
     | Inr None \<Rightarrow> (False, None, d)
     | Inr (Some p) \<Rightarrow> if r = '''' \<or> pRunID p \<noteq> r \<or> \<not> before (pDeadline p) t then (False, None, d)
         else (True, write_pending (p\<lparr>pDeadline := Some t\<rparr>) w d))"

definition ClearPending :: "disk_write \<Rightarrow> Install \<Rightarrow> layout_error option \<times> Install" where
  "ClearPending w d = WriteFileAtomic w (\<lambda>d. d\<lparr>pending_file := Missing\<rparr>) d"

definition Confirm :: "disk_write \<Rightarrow> Install \<Rightarrow> layout_error option \<times> Install" where
  "Confirm w d = ClearPending w d"

section \<open>Releases\<close>

definition server :: string where "server = ''maktaba-server''"

definition checkFile :: "string \<Rightarrow> (string \<times> string) list \<Rightarrow> Release \<Rightarrow> layout_error option" where
  "checkFile n v r = (case map_of v n of
       None \<Rightarrow> Some ErrNotVerified
     | Some want \<Rightarrow> (case map_of (digests r) n of
           None \<Rightarrow> Some ErrMissingRelease
         | Some got \<Rightarrow> if to_lower got = to_lower want then None else Some ErrDigest))"

definition ReadVerifiedDir :: "Release \<Rightarrow> (string \<times> string) list option" where
  "ReadVerifiedDir r = (case SHA256 r of Some (x # xs) \<Rightarrow> Some (x # xs) | _ \<Rightarrow> None)"

definition ValidateRelease :: "string \<Rightarrow> Install \<Rightarrow> layout_error option" where
  "ValidateRelease v d =
    (if \<not> ValidVersion v then Some ErrBadVersion
     else case map_of (releases d) v of
       None \<Rightarrow> Some ErrMissingRelease
     | Some r \<Rightarrow> (case ReadVerifiedDir r of
         None \<Rightarrow> Some ErrNotVerified
       | Some s \<Rightarrow> if list_ex (\<lambda>p. p \<in> set (shared r)) [''.'', server, ''.verified''] then Some ErrUnsafePerm
           else checkFile server s r))"

text \<open>The releases present, oldest first.\<close>

definition Versions :: "Install \<Rightarrow> string list" where
  "Versions d = SortVersions (filter ValidVersion (map fst (releases d)))"

section \<open>Switch, rollback, reconcile\<close>

definition switch_steps :: "string \<Rightarrow> string \<Rightarrow> string \<Rightarrow> instant \<Rightarrow> (nat \<Rightarrow> disk_write) \<Rightarrow> Install \<Rightarrow> layout_error option \<times> Install" where
  "switch_steps old v r t ws d =
    (let (e, d) = (if old \<noteq> '''' then WritePointer PreviousFile old (ws 0) d else (None, d)) in
     if e \<noteq> None then (e, d)
     else
       let (e, d) = write_pending \<lparr>pVersion = v, pPrevious = old, pRunID = r, pSince = t,
                      pDeadline = None, pRecord = ''''\<rparr> (ws 1) d in
       if e \<noteq> None then (e, d) else WritePointer CurrentFile v (ws 2) d)"

definition Switch :: "string \<Rightarrow> string \<Rightarrow> instant \<Rightarrow> (nat \<Rightarrow> disk_write) \<Rightarrow> Install \<Rightarrow> layout_error option \<times> Install" where
  "Switch v r t ws d = (case ValidateRelease v d of
       Some e \<Rightarrow> (Some e, d)
     | None \<Rightarrow> (case Current d of
         Inl e \<Rightarrow> if e \<noteq> ErrNoPointer then (Some e, d) else switch_steps '''' v r t ws d
       | Inr old \<Rightarrow> if old = v then (None, d) else switch_steps old v r t ws d))"

definition rollback_target :: "Install \<Rightarrow> layout_error + string" where
  "rollback_target d = (case ReadPending d of
       Inr (Some p) \<Rightarrow> if pPrevious p \<noteq> '''' then Inr (pPrevious p) else Previous d
     | _ \<Rightarrow> Previous d)"

definition Rollback :: "(nat \<Rightarrow> disk_write) \<Rightarrow> Install \<Rightarrow> (layout_error option \<times> string) \<times> Install" where
  "Rollback ws d = (case rollback_target d of
       Inl e \<Rightarrow> ((Some e, ''''), d)
     | Inr prev \<Rightarrow>
         let (e, d) = WritePointer CurrentFile prev (ws 0) d in
         if e \<noteq> None then ((e, ''''), d)
         else let (e, d) = ClearPending (ws 1) d in ((e, prev), d))"

definition Reconcile :: "disk_write \<Rightarrow> Install \<Rightarrow> bool \<times> layout_error option \<times> Install" where
  "Reconcile w d = (case ReadPending d of
       Inl _ \<Rightarrow> (True, ClearPending w d)
     | Inr None \<Rightarrow> (False, None, d)
     | Inr (Some p) \<Rightarrow> if Current d \<noteq> Inr (pVersion p) then (True, ClearPending w d) else (False, None, d))"

section \<open>Pruning (prune.go)\<close>

definition MinKeep :: int where "MinKeep = 2"

record PruneResult =
  Removed :: "string list"
  KeptVersions :: "string list"
  SkippedVersions :: "string list"

text \<open>
  The removal of a directory: \<open>left v\<close> is what it leaves of release \<open>v\<close>, nothing when it succeeds.
\<close>

definition RemoveAll :: "(string \<Rightarrow> Release option) \<Rightarrow> string \<Rightarrow> (string \<times> Release) list \<Rightarrow> (string \<times> Release) list" where
  "RemoveAll left v rs = (case left v of
       None \<Rightarrow> filter (\<lambda>x. fst x \<noteq> v) rs
     | Some r \<Rightarrow> map (\<lambda>x. if fst x = v then (v, r) else x) rs)"

text \<open>The loop, newest first; \<open>n\<close> are the releases kept so far.\<close>

fun prune_loop :: "(string \<Rightarrow> bool) \<Rightarrow> (string \<Rightarrow> Release option) \<Rightarrow> int \<Rightarrow> int \<Rightarrow> string list \<Rightarrow>
    (string \<times> Release) list \<Rightarrow> PruneResult \<times> (string \<times> Release) list" where
  "prune_loop protect left keep n [] rs = (\<lparr>Removed = [], KeptVersions = [], SkippedVersions = []\<rparr>, rs)"
| "prune_loop protect left keep n (v # vs) rs =
     (if protect v \<or> n < keep then
        let (res, rs) = prune_loop protect left keep (n + 1) vs rs in
        (res\<lparr>KeptVersions := v # KeptVersions res\<rparr>, rs)
      else
        let (res, rs') = prune_loop protect left keep n vs (RemoveAll left v rs) in
        if left v = None then (res\<lparr>Removed := v # Removed res\<rparr>, rs')
        else (res\<lparr>SkippedVersions := v # SkippedVersions res\<rparr>, rs'))"

definition protected_versions :: "string list \<Rightarrow> Install \<Rightarrow> string list" where
  "protected_versions inUse d = map NormalizeVersion inUse
     @ (case Current d of Inr v \<Rightarrow> [v] | Inl _ \<Rightarrow> [])
     @ (case Previous d of Inr v \<Rightarrow> [v] | Inl _ \<Rightarrow> [])
     @ (case ReadPending d of
          Inr (Some p) \<Rightarrow> pVersion p # (if pPrevious p \<noteq> '''' then [pPrevious p] else [])
        | _ \<Rightarrow> [])"

definition Prune :: "(string \<Rightarrow> Release option) \<Rightarrow> int \<Rightarrow> string list \<Rightarrow> Install \<Rightarrow> PruneResult \<times> Install" where
  "Prune left keep inUse d =
    (let (res, rs) = prune_loop (\<lambda>v. v \<in> set (protected_versions inUse d)) left (max keep MinKeep) 0
                       (rev (Versions d)) (releases d)
     in (res, d\<lparr>releases := rs\<rparr>))"

section \<open>The database's record (guard.go)\<close>

text \<open>
  A JSON object as a map, its values strings or something else; \<open>stamp\<close> is the clock's text.
\<close>

datatype jval = Str string | Other

datatype record_json = Object "string \<Rightarrow> jval option" | NotJson

type_synonym databases = "string \<Rightarrow> record_json stored"

definition str :: "(string \<Rightarrow> jval option) \<Rightarrow> string \<Rightarrow> string" where
  "str r k = (case r k of Some (Str s) \<Rightarrow> s | _ \<Rightarrow> '''')"

definition same_version :: "string \<Rightarrow> string \<Rightarrow> bool" where
  "same_version a b \<longleftrightarrow> NormalizeVersion a = NormalizeVersion b"

text \<open>The frame of every mark: the file is read, \<open>f\<close> answers whether it is marked already or how it changes.\<close>

definition mark_file :: "string \<Rightarrow> ((string \<Rightarrow> jval option) \<Rightarrow> bool + (string \<Rightarrow> jval option)) \<Rightarrow> disk_write \<Rightarrow>
    databases \<Rightarrow> (bool \<times> layout_error option) \<times> databases" where
  "mark_file path f w s =
    (if path = '''' then ((False, None), s)
     else case s path of
       Missing \<Rightarrow> ((False, None), s)
     | Unreadable \<Rightarrow> ((False, Some ErrIO), s)
     | Holds NotJson \<Rightarrow> ((False, Some ErrCorrupt), s)
     | Holds (Object r) \<Rightarrow> (case f r of
           Inl b \<Rightarrow> ((b, None), s)
         | Inr r' \<Rightarrow> (let (e, s) = WriteFileAtomic w (\<lambda>s. s(path := Holds (Object r'))) s in ((True, e), s))))"

definition restoring :: "string \<Rightarrow> string \<Rightarrow> string \<Rightarrow> (string \<Rightarrow> jval option) \<Rightarrow> bool + (string \<Rightarrow> jval option)" where
  "restoring failed reason stamp r =
    (if \<not> same_version (str r ''version'') failed \<or> str r ''dump'' = '''' then Inl False
     else if str r ''state'' = ''migrated'' \<or> str r ''state'' = ''migrating'' then
       Inr (r(''state'' \<mapsto> Str ''restoring'', ''failed'' \<mapsto> Str (str r ''version''), ''error'' \<mapsto> Str reason, ''at'' \<mapsto> Str stamp))
     else Inl (str r ''state'' = ''restoring''))"

definition MarkRecordRestoring :: "string \<Rightarrow> string \<Rightarrow> string \<Rightarrow> string \<Rightarrow> disk_write \<Rightarrow> databases \<Rightarrow>
    (bool \<times> layout_error option) \<times> databases" where
  "MarkRecordRestoring path failed reason stamp = mark_file path (restoring failed reason stamp)"

definition not_restoring :: "string \<Rightarrow> string \<Rightarrow> (string \<Rightarrow> jval option) \<Rightarrow> bool + (string \<Rightarrow> jval option)" where
  "not_restoring failed stamp r =
    (if str r ''state'' \<noteq> ''restoring'' \<or> \<not> same_version (str r ''failed'') failed then Inl False
     else Inr (r(''state'' \<mapsto> Str ''migrated'', ''failed'' := None, ''error'' := None, ''at'' \<mapsto> Str stamp)))"

definition UnmarkRecordRestoring :: "string \<Rightarrow> string \<Rightarrow> string \<Rightarrow> disk_write \<Rightarrow> databases \<Rightarrow>
    (bool \<times> layout_error option) \<times> databases" where
  "UnmarkRecordRestoring path failed stamp = mark_file path (not_restoring failed stamp)"

definition kept_for :: "string \<Rightarrow> string \<Rightarrow> string \<Rightarrow> string \<Rightarrow> (string \<Rightarrow> jval option) \<Rightarrow> bool + (string \<Rightarrow> jval option)" where
  "kept_for failed older reason stamp r =
    (if \<not> same_version (str r ''version'') failed \<or> str r ''state'' \<noteq> ''migrated'' then Inl False
     else Inr (r(''kept_for'' \<mapsto> Str (NormalizeVersion older), ''kept_reason'' \<mapsto> Str reason, ''at'' \<mapsto> Str stamp)))"

definition MarkRecordKept :: "string \<Rightarrow> string \<Rightarrow> string \<Rightarrow> string \<Rightarrow> string \<Rightarrow> disk_write \<Rightarrow> databases \<Rightarrow>
    (bool \<times> layout_error option) \<times> databases" where
  "MarkRecordKept path failed older reason stamp w s =
    (if older = '''' then ((False, None), s) else mark_file path (kept_for failed older reason stamp) w s)"

definition not_kept :: "string \<Rightarrow> string \<Rightarrow> (string \<Rightarrow> jval option) \<Rightarrow> bool + (string \<Rightarrow> jval option)" where
  "not_kept failed stamp r =
    (if str r ''kept_for'' = '''' \<or> \<not> same_version (str r ''version'') failed then Inl False
     else Inr (r(''kept_for'' := None, ''kept_reason'' := None, ''at'' \<mapsto> Str stamp)))"

definition UnmarkRecordKept :: "string \<Rightarrow> string \<Rightarrow> string \<Rightarrow> disk_write \<Rightarrow> databases \<Rightarrow>
    (bool \<times> layout_error option) \<times> databases" where
  "UnmarkRecordKept path failed stamp = mark_file path (not_kept failed stamp)"

text \<open>A state or a version that is no string fails the typed read of \<open>RecordMigrated\<close>.\<close>

definition RecordMigrated :: "string \<Rightarrow> string \<Rightarrow> databases \<Rightarrow> bool" where
  "RecordMigrated path v s = (case s path of
       Holds (Object r) \<Rightarrow> r ''version'' \<noteq> Some Other \<and> r ''state'' \<noteq> Some Other \<and> same_version (str r ''version'') v
         \<and> (str r ''state'' = ''migrated'' \<or> str r ''state'' = ''migrating'')
     | _ \<Rightarrow> False)"

definition NoteRecordNext :: "string \<Rightarrow> string \<Rightarrow> string \<Rightarrow> string \<Rightarrow> string \<Rightarrow> disk_write \<Rightarrow> databases \<Rightarrow>
    layout_error option \<times> databases" where
  "NoteRecordNext path cur nxt dump stamp w s =
    (let note = (\<lambda>r. WriteFileAtomic w (\<lambda>s. s(path := Holds (Object (r(''next'' \<mapsto> Str nxt, ''next_dump'' \<mapsto> Str dump,
                        ''next_at'' \<mapsto> Str stamp))))) s) in
     case s path of
       Missing \<Rightarrow> note [''version'' \<mapsto> Str cur, ''state'' \<mapsto> Str ''migrated'']
     | Unreadable \<Rightarrow> (Some ErrIO, s)
     | Holds NotJson \<Rightarrow> (Some ErrCorrupt, s)
     | Holds (Object r) \<Rightarrow> note r)"

section \<open>The updater's installer (updater/layout.go)\<close>

definition guardDeadline :: "instant \<Rightarrow> Journal \<Rightarrow> instant" where
  "guardDeadline t j = t + Watch (job j) + HealthLimit (job j) + 20 * minute
     + (case rehearsal j of
          Some r \<Rightarrow> if 0 < MigrateSec r then 3 * duration_of (f64_mul (MigrateSec r) (f64_of_int second)) else 0
        | None \<Rightarrow> 0)"

definition installer_Switch :: "string \<Rightarrow> instant \<Rightarrow> Journal \<Rightarrow> (nat \<Rightarrow> disk_write) \<Rightarrow> Install \<Rightarrow> layout_error option \<times> Install" where
  "installer_Switch rec t j ws d =
    (let v = NormalizeVersion (JobVersion (job j));
         (e, d) = Switch v (RunID (job j)) t ws d in
     if e \<noteq> None then (e, d) else GuardPending v (guardDeadline t j) rec (ws 3) d)"

definition installer_Extend :: "Journal \<Rightarrow> instant \<Rightarrow> disk_write \<Rightarrow> Install \<Rightarrow> layout_error option \<times> Install" where
  "installer_Extend j t w d = snd (ExtendPending (RunID (job j)) t w d)"

definition installer_Revert :: "Journal \<Rightarrow> (nat \<Rightarrow> disk_write) \<Rightarrow> Install \<Rightarrow> layout_error option \<times> Install" where
  "installer_Revert j ws d =
    (let older = NormalizeVersion (From j) in
     if older = '''' then (Some ErrNoPointer, d)
     else if value_of (Current d) = older then ClearPending (ws 0) d
     else case ValidateRelease older d of
       Some e \<Rightarrow> (Some e, d)
     | None \<Rightarrow> (let (e, d) = WritePointer CurrentFile older (ws 1) d in
                if e \<noteq> None then (e, d) else ClearPending (ws 0) d))"

text \<open>
  The commit, without the signed release's record in the watermark; \<open>tv\<close> and \<open>procs\<close> are the
  releases the TV's change keeps and those running processes use.
\<close>

definition installer_Commit :: "Journal \<Rightarrow> int \<Rightarrow> string list \<Rightarrow> string list \<Rightarrow> (string \<Rightarrow> Release option) \<Rightarrow>
    (nat \<Rightarrow> disk_write) \<Rightarrow> Install \<Rightarrow> layout_error option \<times> Install" where
  "installer_Commit j versions tv procs left ws d =
    (let v = NormalizeVersion (JobVersion (job j)); (e, d) = Confirm (ws 0) d in
     if e \<noteq> None then (e, d)
     else
       let (_, d) = RaiseWatermark v (ws 1) d;
           keep = (if versions < 2 then 3 else versions);
           (_, d) = Prune left keep (NormalizeVersion (From j) # tv @ procs) d
       in (None, d))"

text \<open>The base name of the staged directory is the release; \<open>own\<close> is the release that runs.\<close>

definition installer_Discard :: "string \<Rightarrow> string \<Rightarrow> (string \<Rightarrow> Release option) \<Rightarrow> Install \<Rightarrow> Install" where
  "installer_Discard own v left d =
    (if v = '''' \<or> v = ''running'' \<or> v = value_of (Current d) \<or> v = value_of (Previous d) \<or> v = NormalizeVersion own
     then d else d\<lparr>releases := RemoveAll left v (releases d)\<rparr>)"

section \<open>What each write shows\<close>

lemma valid_no_space:
  assumes "ValidVersion v" and "c \<in> set v"
  shows "\<not> is_space c"
proof -
  have "is_digit c \<or> (CHR ''a'' \<le> c \<and> c \<le> CHR ''z'') \<or> (CHR ''A'' \<le> c \<and> c \<le> CHR ''Z'') \<or>
      c \<in> {CHR ''.'', CHR ''-'', CHR ''+'', CHR ''_''}"
    using assms by (auto simp: ValidVersion_def list_all_iff)
  moreover have "is_space c \<Longrightarrow> \<not> is_digit c \<and> \<not> CHR ''a'' \<le> c \<and> \<not> CHR ''A'' \<le> c \<and>
      c \<notin> {CHR ''.'', CHR ''-'', CHR ''+'', CHR ''_''}"
    unfolding is_space_def insert_iff empty_iff by (elim disjE; (simp only:)?; code_simp)
  ultimately show ?thesis by blast
qed

lemma valid_trim [simp]:
  assumes "ValidVersion v"
  shows "trim_space v = v"
proof -
  have "dropWhile is_space xs = xs" if "set xs \<subseteq> set v" for xs
    using that valid_no_space [OF assms] by (cases xs) auto
  from this [of v] this [of "rev v"] show ?thesis by (simp add: trim_space_def)
qed

lemma ReadPointer_set [simp]:
  "ValidVersion v \<Longrightarrow> ReadPointer q (set_pointer p (v @ [CHR 0x0A]) d) = (if p = q then Inr v else ReadPointer q d)"
  by (cases p; cases q) (auto simp: ReadPointer_def ValidVersion_def)

lemma ReadPointer_valid: "ReadPointer p d = Inr v \<Longrightarrow> ValidVersion v"
  by (auto simp: ReadPointer_def Let_def split: stored.splits if_splits)

lemma other_views [simp]:
  "pending_file (set_pointer p s d) = pending_file d" "releases (set_pointer p s d) = releases d"
  "ReadPending (set_pointer p s d) = ReadPending d" "ValidateRelease u (set_pointer p s d) = ValidateRelease u d"
  by (cases p; simp add: ReadPending_def ValidateRelease_def)+

declare set_pointer.simps [simp del]

lemma pending_views [simp]:
  "ReadPointer p (d\<lparr>pending_file := m\<rparr>) = ReadPointer p d" "ValidateRelease u (d\<lparr>pending_file := m\<rparr>) = ValidateRelease u d"
  "ReadPending (d\<lparr>pending_file := Missing\<rparr>) = Inr None"
  "ReadPending (d\<lparr>pending_file := Holds (Marker p')\<rparr>) = (if ValidVersion (pVersion p') then Inr (Some p') else Inl ErrBadVersion)"
  by (cases p; simp add: ReadPointer_def ValidateRelease_def ReadPending_def)+

lemma release_views [simp]:
  "ReadPointer p (d\<lparr>releases := rs\<rparr>) = ReadPointer p d" "ReadPending (d\<lparr>releases := rs\<rparr>) = ReadPending d"
  by (cases p; simp add: ReadPointer_def ReadPending_def)+

lemma ValidateRelease_cong: "map_of (releases d) v = map_of (releases d') v \<Longrightarrow> ValidateRelease v d = ValidateRelease v d'"
  by (simp add: ValidateRelease_def)

lemma ValidateRelease_valid: "ValidateRelease v d = None \<Longrightarrow> ValidVersion v"
  by (auto simp: ValidateRelease_def split: if_splits)

section \<open>What is pruned\<close>

lemma prune_loop_spec:
  "fst (prune_loop protect left keep n vs rs) =
     \<lparr>Removed = filter (\<lambda>v. \<not> protect v \<and> left v = None) (drop (nat (keep - n)) vs),
      KeptVersions = take (nat (keep - n)) vs @ filter protect (drop (nat (keep - n)) vs),
      SkippedVersions = filter (\<lambda>v. \<not> protect v \<and> left v \<noteq> None) (drop (nat (keep - n)) vs)\<rparr>"
proof (induction vs arbitrary: n rs)
  case (Cons v vs)
  show ?case
  proof (cases "n < keep")
    case True
    then have "nat (keep - n) = Suc (nat (keep - (n + 1)))" by simp
    with Cons True show ?thesis by (simp add: case_prod_beta Let_def)
  next
    case False
    with Cons show ?thesis by (simp add: case_prod_beta Let_def)
  qed
qed simp

lemma prune_loop_map_of:
  "left v = None \<Longrightarrow> v \<in> set (Removed (fst (prune_loop protect left keep n vs rs))) \<Longrightarrow>
     map_of (snd (prune_loop protect left keep n vs rs)) v = None"
proof (induction vs arbitrary: n rs)
  case (Cons u vs)
  have gone: "map_of rs' v = None \<Longrightarrow> map_of (snd (prune_loop protect left keep n vs rs')) v = None" for n rs'
  proof (induction vs arbitrary: n rs')
    case (Cons w ws)
    have "map_of (RemoveAll left w rs') v = None"
      using Cons.prems by (force simp: RemoveAll_def map_of_eq_None_iff split: option.split)
    with Cons show ?case by (simp add: case_prod_beta Let_def)
  qed simp
  have "map_of (RemoveAll left v rs) v = None"
    using Cons.prems(1) by (auto simp: RemoveAll_def map_of_eq_None_iff)
  with Cons gone show ?case
    by (auto simp: case_prod_beta Let_def split: if_splits)
qed simp

text \<open>
  A prune keeps the newest releases (two at least) and, of the older ones, exactly those
  \<open>current\<close>, \<open>previous\<close>, the marker or a running process names; every other one it removes or, when its
  directory cannot be removed, lists as skipped.
\<close>

theorem prune_keeps_what_is_named:
  "let vs = rev (Versions d); k = nat (max keep MinKeep); named = (\<lambda>v. v \<in> set (protected_versions inUse d)) in
   fst (Prune left keep inUse d) =
     \<lparr>Removed = filter (\<lambda>v. \<not> named v \<and> left v = None) (drop k vs),
      KeptVersions = take k vs @ filter named (drop k vs),
      SkippedVersions = filter (\<lambda>v. \<not> named v \<and> left v \<noteq> None) (drop k vs)\<rparr>"
  by (simp add: Prune_def prune_loop_spec case_prod_beta Let_def)

end
