(* ===== verification/Launcher.thy ===== *)
theory Launcher
  imports Install_Layout
begin

text \<open>
  The launcher of a layout install (cmd/maktaba-launcher, run.go and cantstart.go): it starts the
  current release, starts it again when it exits, and goes back to the release before when a new one
  is not confirmed. The properties are in \<open>Launcher_Safety\<close>.

  The state is the disk, the database's records, the fields of \<open>launcher\<close>, the place of its loop
  and the lines of launcher.log, newest first. An event is the next section of the loop (a section
  ends where it sleeps or waits), an operation of the running server on the disk, damage to a
  release, or the start of the launcher on whatever the disk holds. The clock and the outcomes of
  writes are inputs of an event. Two fields are the model's own: the releases that were confirmed and
  those that were damaged.

  Not modelled: the bundled app and the runtime copy (\<open>Bundle\<close>), the processes left behind by a
  server, the replacement of the launcher, the page and the record of a launcher that gave up, and
  the text of what is logged.
\<close>

section \<open>Settings\<close>

record Tuning =
  PendingTimeout :: duration
  LoopWindow :: duration
  LoopMax :: int
  BackoffInitial :: duration
  BackoffMax :: duration
  StableAfter :: duration
  CantStartLimit :: int

definition positive :: "int \<Rightarrow> int \<Rightarrow> int" where
  "positive x y = (if x \<le> 0 then y else x)"

definition defaults :: "Tuning \<Rightarrow> Tuning" where
  "defaults c = c\<lparr>PendingTimeout := positive (PendingTimeout c) (15 * minute),
     LoopWindow := positive (LoopWindow c) (10 * minute), LoopMax := positive (LoopMax c) 3,
     BackoffInitial := positive (BackoffInitial c) second, BackoffMax := positive (BackoffMax c) (30 * second),
     StableAfter := positive (StableAfter c) minute\<rparr>"

definition CantStartMax :: int where "CantStartMax = 3"
definition CantStartWindow :: duration where "CantStartWindow = 2 * minute"

definition ExitRestart :: int where "ExitRestart = 75"

section \<open>The launcher\<close>

text \<open>
  \<open>Up v t\<close>: release \<open>v\<close> runs since \<open>t\<close>; \<open>Going v t timed\<close>: it was asked to stop, by the timeout or by a
  stop of the launcher; \<open>Asking v\<close>: the launcher waits for a choice.
\<close>

datatype place = Top | Sleeping duration | Up string instant | Going string instant bool | Asking string | Ended

datatype line =
    Reconciled
  | Reconcile_error
  | Refused string layout_error
  | No_previous string
  | Record_error string
  | Record_restore string
  | Rolled_back string string string
  | Start_error string
  | Started string bool
  | Stopped string int
  | Restart string
  | Child_exit string int duration
  | Timed_out string
  | Cant_start string
  | Choice string string

record Launcher =
  disk :: Install
  dbs :: databases
  guardVersion :: string
  firstStart :: instant
  failures :: "instant list"
  early :: "(int \<times> instant) list"
  safeNext :: bool
  backoff :: duration
  place :: place
  lines :: "(instant \<times> line) list"
  confirmed :: "string list"
  damaged :: "string list"

record Inputs =
  clock :: instant
  clock_text :: string
  outs :: "nat \<Rightarrow> disk_write"

definition Event :: "Inputs \<Rightarrow> line \<Rightarrow> Launcher \<Rightarrow> Launcher" where
  "Event i e la = la\<lparr>lines := (clock i, e) # lines la\<rparr>"

definition later :: "nat \<Rightarrow> Inputs \<Rightarrow> Inputs" where
  "later k i = i\<lparr>outs := \<lambda>n. outs i (k + n)\<rparr>"

definition reconcile :: "Inputs \<Rightarrow> Launcher \<Rightarrow> Launcher" where
  "reconcile i la =
    (let (changed, e, d) = Reconcile (outs i 0) (disk la); la = la\<lparr>disk := d\<rparr> in
     if e \<noteq> None then Event i Reconcile_error la else if changed then Event i Reconciled la else la)"

definition isPending :: "string \<Rightarrow> Launcher \<Rightarrow> bool" where
  "isPending v la \<longleftrightarrow> (case ReadPending (disk la) of Inr (Some p) \<Rightarrow> pVersion p = v | _ \<Rightarrow> False)"

definition deadline :: "Tuning \<Rightarrow> string \<Rightarrow> Launcher \<Rightarrow> instant" where
  "deadline c v la =
    (let t = firstStart la + PendingTimeout c in
     case ReadPending (disk la) of
       Inr (Some p) \<Rightarrow> if pVersion p = v then (case pDeadline p of Some s \<Rightarrow> if t < s then s else t | None \<Rightarrow> t) else t
     | _ \<Rightarrow> t)"

definition markRecord :: "Inputs \<Rightarrow> string \<Rightarrow> string \<Rightarrow> string \<Rightarrow> Launcher \<Rightarrow> Launcher" where
  "markRecord i v rec reason la =
    (if rec = '''' then la
     else
       let ((b, e), s) = MarkRecordRestoring rec v (''launcher_'' @ reason) (clock_text i) (outs i 2) (dbs la);
           la = la\<lparr>dbs := s\<rparr> in
       if e \<noteq> None then Event i (Record_error v) la else if b then Event i (Record_restore v) la else la)"

definition rollback_version :: "Inputs \<Rightarrow> string \<Rightarrow> string \<Rightarrow> Launcher \<Rightarrow> bool \<times> Launcher" where
  "rollback_version i v reason la =
    (let p = ReadPending (disk la);
         ((e, to), d) = Rollback (outs i) (disk la);
         la = la\<lparr>disk := d, failures := [], guardVersion := ''''\<rparr> in
     if e \<noteq> None then (False, Event i (No_previous v) la)
     else
       let la = (case p of Inr (Some p) \<Rightarrow> if pVersion p = v then markRecord i v (pRecord p) reason la else la
                         | _ \<Rightarrow> la)
       in (True, Event i (Rolled_back v reason to) la))"

text \<open>After a rollback that succeeded there is no marker, so \<open>choose\<close> calls itself once at most.\<close>

definition choose_previous :: "Inputs \<Rightarrow> string \<Rightarrow> Launcher \<Rightarrow> string \<times> Launcher" where
  "choose_previous i cur la = (case Previous (disk la) of
       Inl e \<Rightarrow> ('''', Event i (No_previous cur) la)
     | Inr prev \<Rightarrow>
         if prev = cur then ('''', Event i (No_previous cur) la)
         else case ValidateRelease prev (disk la) of
           Some e \<Rightarrow> ('''', Event i (No_previous cur) (Event i (Refused prev e) la))
         | None \<Rightarrow> (prev, la))"

lemma rollback_clears:
  assumes "rollback_version i v reason la = (True, la')"
  shows "pending_file (disk la') = Missing" and "isPending u la' = False"
  using assms
  by (auto simp: rollback_version_def Rollback_def ClearPending_def WriteFileAtomic_def Let_def markRecord_def Event_def
      isPending_def ReadPending_def split: prod.splits sum.splits disk_write.splits option.splits if_splits)

function choose_release :: "Inputs \<Rightarrow> Launcher \<Rightarrow> string \<times> Launcher" where
  "choose_release i la = (case Current (disk la) of
       Inl e \<Rightarrow> choose_previous i '''' (Event i (Refused '''' e) la)
     | Inr cur \<Rightarrow> (case ValidateRelease cur (disk la) of
           None \<Rightarrow> (cur, la)
         | Some e \<Rightarrow>
             let la = Event i (Refused cur e) la in
             if isPending cur la then
               (if fst (rollback_version i cur ''refused'' la)
                then choose_release (later 3 i) (snd (rollback_version i cur ''refused'' la))
                else ('''', snd (rollback_version i cur ''refused'' la)))
             else choose_previous i cur la))"
  by pat_completeness auto
termination choose_release
proof (relation "measure (\<lambda>(i, la). if pending_file (disk la) = Missing then 0 else 1)", goal_cases)
  case (2 i la cur e la')
  then have "pending_file (disk la') \<noteq> Missing" by (auto simp: isPending_def ReadPending_def)
  moreover from 2 have "pending_file (disk (snd (rollback_version i cur ''refused'' la'))) = Missing"
    by (intro rollback_clears(1)) (auto simp: prod_eq_iff)
  ultimately show ?case using 2 by (simp add: Event_def)
qed simp

section \<open>One run of the server\<close>

definition minDur :: "duration \<Rightarrow> duration \<Rightarrow> duration" where
  "minDur a b = (if a < b then a else b)"

text \<open>The loop's sleep: it records what is asked for.\<close>

definition sleep_backoff :: "Tuning \<Rightarrow> Launcher \<Rightarrow> Launcher" where
  "sleep_backoff c la = la\<lparr>place := Sleeping (backoff la), backoff := minDur (backoff la * 2) (BackoffMax c)\<rparr>"

definition to_top :: "Tuning \<Rightarrow> Launcher \<Rightarrow> Launcher" where
  "to_top c la = la\<lparr>place := Top, backoff := BackoffInitial c\<rparr>"

text \<open>\<open>runOnce\<close> up to the start of the server.\<close>

definition guard_start :: "string \<Rightarrow> Inputs \<Rightarrow> Launcher \<Rightarrow> Launcher" where
  "guard_start v i la =
    (if isPending v la then
       (if guardVersion la \<noteq> v then la\<lparr>guardVersion := v, firstStart := clock i, failures := []\<rparr> else la)
     else la\<lparr>guardVersion := '''', failures := []\<rparr>)"

definition earlyExit :: "Tuning \<Rightarrow> instant \<Rightarrow> int \<Rightarrow> duration \<Rightarrow> Launcher \<Rightarrow> bool \<times> Launcher" where
  "earlyExit c t code took la =
    (if StableAfter c \<le> took then (False, la\<lparr>early := []\<rparr>)
     else
       let kept = filter (\<lambda>e. t - snd e \<le> CantStartWindow) (early la @ [(code, t)]);
           limit = (if CantStartLimit c = 0 then CantStartMax else CantStartLimit c)
       in (0 < limit \<and> limit \<le> int (length kept), la\<lparr>early := kept\<rparr>))"

text \<open>The boot-loop guard: whether it fired and went back.\<close>

definition count_failure :: "Tuning \<Rightarrow> Inputs \<Rightarrow> string \<Rightarrow> Launcher \<Rightarrow> bool \<times> Launcher" where
  "count_failure c i v la =
    (if isPending v la then
       let la = la\<lparr>failures := filter (\<lambda>t. clock i - LoopWindow c < t) (failures la @ [clock i])\<rparr> in
       if LoopMax c \<le> int (length (failures la)) then rollback_version i v ''boot_loop'' la else (False, la)
     else (False, la))"

text \<open>The loop after an exit that no stop and no timeout asked for.\<close>

definition after_exit :: "Tuning \<Rightarrow> Inputs \<Rightarrow> string \<Rightarrow> int \<Rightarrow> duration \<Rightarrow> Launcher \<Rightarrow> Launcher" where
  "after_exit c i v code took la =
    (if code = ExitRestart then to_top c (Event i (Restart v) la)
     else
       let (gone, la) = count_failure c i v (Event i (Child_exit v code took) la) in
       if gone then to_top c la
       else
         let (cut, la) = (if \<not> isPending v la then earlyExit c (clock i) code took la else (False, la)) in
         if cut then Event i (Cant_start v) (la\<lparr>place := Asking v\<rparr>)
         else sleep_backoff c (if StableAfter c \<le> took then la\<lparr>backoff := BackoffInitial c\<rparr> else la))"

text \<open>A turn of the loop; \<open>starts\<close> is whether the server's process could be started.\<close>

definition turn :: "Tuning \<Rightarrow> Inputs \<Rightarrow> bool \<Rightarrow> Launcher \<Rightarrow> Launcher" where
  "turn c i starts la =
    (let (v, la) = choose_release (later 1 i) (reconcile i la) in
     if v = '''' then sleep_backoff c la
     else
       let pend = isPending v la; la = (guard_start v i la)\<lparr>safeNext := False\<rparr> in
       if starts then Event i (Started v pend) (la\<lparr>place := Up v (clock i)\<rparr>)
       else after_exit c (later 8 i) v (-1) 0 (Event i (Start_error v) la))"

definition tick_poll :: "Tuning \<Rightarrow> Inputs \<Rightarrow> Launcher \<Rightarrow> Launcher" where
  "tick_poll c i la = (case place la of
       Up v t \<Rightarrow> if guardVersion la = v \<and> isPending v la \<and> \<not> clock i < deadline c v la
                 then Event i (Timed_out v) (la\<lparr>place := Going v t True\<rparr>) else la
     | _ \<Rightarrow> la)"

definition child_exits :: "Tuning \<Rightarrow> Inputs \<Rightarrow> int \<Rightarrow> Launcher \<Rightarrow> Launcher" where
  "child_exits c i code la = (case place la of
       Up v t \<Rightarrow> after_exit c i v code (clock i - t) la
     | Going v t True \<Rightarrow> to_top c (snd (rollback_version i v ''pending_timeout'' la))
     | Going v t False \<Rightarrow> Event i (Stopped v code) (la\<lparr>place := Ended\<rparr>)
     | _ \<Rightarrow> la)"

definition stop_asked :: "Launcher \<Rightarrow> Launcher" where
  "stop_asked la = (case place la of
       Up v t \<Rightarrow> la\<lparr>place := Going v t False\<rparr>
     | Going v t timed \<Rightarrow> la
     | _ \<Rightarrow> la\<lparr>place := Ended\<rparr>)"

text \<open>\<open>takeChoice\<close> takes one of three words; anything else is left.\<close>

definition choice_taken :: "Tuning \<Rightarrow> Inputs \<Rightarrow> string \<Rightarrow> Launcher \<Rightarrow> Launcher" where
  "choice_taken c i ch la = (case place la of
       Asking v \<Rightarrow>
         if ch \<in> {''retry'', ''safe'', ''rollback''} then
           let la = Event i (Choice v ch) (la\<lparr>early := []\<rparr>);
               la = (if ch = ''safe'' then la\<lparr>safeNext := True\<rparr>
                     else if ch = ''rollback'' then snd (rollback_version i v ''cant_start'' la) else la)
           in to_top c la
         else la
     | _ \<Rightarrow> la)"

text \<open>A start of the launcher: nothing but the disk, the records and the log is left of the one before.\<close>

definition boot :: "Tuning \<Rightarrow> Launcher \<Rightarrow> Launcher" where
  "boot c la = la\<lparr>guardVersion := '''', firstStart := 0, failures := [], early := [], safeNext := False,
     backoff := BackoffInitial c, place := Top\<rparr>"

section \<open>What the running server does to the disk\<close>

text \<open>
  \<open>S_confirm healthy\<close> is the server's own confirmation (\<open>confirmPending\<close>), \<open>S_place v r\<close> the end of
  a stage: the release put in place, or the invalid one there before moved aside and nothing yet in
  its place.
\<close>

datatype server_op =
    S_switch string instant Journal "nat \<Rightarrow> disk_write"
  | S_extend Journal instant disk_write
  | S_revert Journal "nat \<Rightarrow> disk_write"
  | S_commit Journal int "string list" "string list" "string \<Rightarrow> Release option" "nat \<Rightarrow> disk_write"
  | S_discard string "string \<Rightarrow> Release option"
  | S_confirm bool "nat \<Rightarrow> disk_write"
  | S_place string "Release option"

definition confirmPending :: "string \<Rightarrow> bool \<Rightarrow> (nat \<Rightarrow> disk_write) \<Rightarrow> Install \<Rightarrow> layout_error option \<times> Install" where
  "confirmPending v healthy ws d = (case ReadPending d of
       Inr (Some p) \<Rightarrow>
         if pVersion p \<noteq> v \<or> pRunID p \<noteq> '''' \<or> \<not> healthy then (Some ErrNoMarker, d)
         else (let (e, d) = Confirm (ws 0) d in
               if e \<noteq> None then (e, d) else (None, snd (RaiseWatermark v (ws 1) d)))
     | _ \<Rightarrow> (Some ErrNoMarker, d))"

definition place_release :: "string \<Rightarrow> Release option \<Rightarrow> Install \<Rightarrow> Install" where
  "place_release v r d =
    (if ValidateRelease v d = None then d
     else d\<lparr>releases := (case r of None \<Rightarrow> [] | Some r \<Rightarrow> [(v, r)]) @ filter (\<lambda>x. fst x \<noteq> v) (releases d)\<rparr>)"

fun served :: "string \<Rightarrow> server_op \<Rightarrow> Install \<Rightarrow> Install" where
  "served v (S_switch rec t j ws) d = snd (installer_Switch rec t j ws d)"
| "served v (S_extend j t w) d = snd (installer_Extend j t w d)"
| "served v (S_revert j ws) d = snd (installer_Revert j ws d)"
| "served v (S_commit j n tv procs left ws) d = snd (installer_Commit j n tv procs left ws d)"
| "served v (S_discard s left) d = installer_Discard v s left d"
| "served v (S_confirm h ws) d = snd (confirmPending v h ws d)"
| "served v (S_place s r) d = place_release s r d"

text \<open>
  A commit or the server's own confirmation confirms the release its marker named, which was the
  current one, when it removed it.
\<close>

definition confirms :: "server_op \<Rightarrow> Install \<Rightarrow> Install \<Rightarrow> string list" where
  "confirms oper d d' = (case ReadPending d of
       Inr (Some p) \<Rightarrow>
         if (case oper of S_commit j n tv procs left ws \<Rightarrow> True | S_confirm h ws \<Rightarrow> True | _ \<Rightarrow> False)
            \<and> Current d = Inr (pVersion p) \<and> ReadPending d' = Inr None
         then [pVersion p] else []
     | _ \<Rightarrow> [])"

definition serve :: "server_op \<Rightarrow> Launcher \<Rightarrow> Launcher" where
  "serve oper la = (case place la of
       Up v t \<Rightarrow> la\<lparr>disk := served v oper (disk la), confirmed := confirms oper (disk la) (served v oper (disk la)) @ confirmed la\<rparr>
     | Going v t timed \<Rightarrow> la\<lparr>disk := served v oper (disk la), confirmed := confirms oper (disk la) (served v oper (disk la)) @ confirmed la\<rparr>
     | _ \<Rightarrow> la)"

definition damage :: "string \<Rightarrow> Release option \<Rightarrow> Launcher \<Rightarrow> Launcher" where
  "damage v r la = la\<lparr>damaged := v # damaged la,
     disk := (disk la)\<lparr>releases := RemoveAll (\<lambda>_. r) v (releases (disk la))\<rparr>\<rparr>"

datatype event =
    Turn Inputs bool
  | Tick_poll Inputs
  | Exits Inputs int
  | Stop_asked
  | Chosen Inputs string
  | Serves server_op
  | Damages string "Release option"
  | Boot

fun launcher_step :: "Tuning \<Rightarrow> event \<Rightarrow> Launcher \<Rightarrow> Launcher" where
  "launcher_step c (Turn i starts) la = (case place la of Top \<Rightarrow> turn c i starts la | Sleeping d \<Rightarrow> turn c i starts la | _ \<Rightarrow> la)"
| "launcher_step c (Tick_poll i) la = tick_poll c i la"
| "launcher_step c (Exits i code) la = child_exits c i code la"
| "launcher_step c Stop_asked la = stop_asked la"
| "launcher_step c (Chosen i ch) la = choice_taken c i ch la"
| "launcher_step c (Serves oper) la = serve oper la"
| "launcher_step c (Damages v r) la = damage v r la"
| "launcher_step c Boot la = boot c la"

definition launcher_run :: "Tuning \<Rightarrow> event list \<Rightarrow> Launcher \<Rightarrow> Launcher" where
  "launcher_run c es la = fold (launcher_step c) es la"

end
