(* ===== verification/Launcher_Safety.thy ===== *)
theory Launcher_Safety
  imports Launcher
begin

text \<open>
  What the layout and the launcher promise together: a release that was not confirmed never runs
  without its guard and a confirmed release to go back to, whatever is cut short; a release that
  checks is started as long as one of the two is whole; a boot loop ends on the release before and a
  rollback has its cause. The runs are those of \<open>launched\<close>: any events in any order with any outcome
  of the writes, from an install on a confirmed release.
\<close>

section \<open>The state of the disk\<close>

text \<open>
  \<open>C\<close> are the confirmed releases and \<open>D\<close> the damaged ones. The current release is confirmed or the
  marker's; the release before is confirmed, and so is the one the marker goes back to.
\<close>

definition on_trial :: "Install \<Rightarrow> string \<Rightarrow> bool" where
  "on_trial d v \<longleftrightarrow> (case ReadPending d of Inr (Some p) \<Rightarrow> pVersion p = v | _ \<Rightarrow> False)"

definition fine :: "string set \<Rightarrow> Install \<Rightarrow> string \<Rightarrow> bool" where
  "fine D d v \<longleftrightarrow> ValidVersion v \<and> (v \<in> D \<or> ValidateRelease v d = None)"

definition sound :: "string set \<Rightarrow> string set \<Rightarrow> Install \<Rightarrow> bool" where
  "sound C D d \<longleftrightarrow>
     (\<exists>v. Current d = Inr v \<and> fine D d v \<and> (v \<in> C \<or> on_trial d v)) \<and>
     (Previous d = Inl ErrNoPointer \<or> (\<exists>v. Previous d = Inr v \<and> fine D d v \<and> v \<in> C)) \<and>
     (pending_file d = Missing \<or>
       (\<exists>p. pending_file d = Holds (Marker p) \<and> ValidVersion (pVersion p) \<and> fine D d (pPrevious p) \<and> pPrevious p \<in> C \<and>
         pPrevious p \<noteq> pVersion p))"

lemma fine_views [simp]:
  "fine D (set_pointer p s d) v = fine D d v" "fine D (d\<lparr>pending_file := m\<rparr>) v = fine D d v"
  "on_trial (set_pointer p s d) v = on_trial d v"
  by (simp_all add: fine_def on_trial_def)

lemma trial_views [simp]:
  "\<not> on_trial (d\<lparr>pending_file := Missing\<rparr>) v"
  "ValidVersion (pVersion p) \<Longrightarrow> on_trial (d\<lparr>pending_file := Holds (Marker p)\<rparr>) v \<longleftrightarrow> pVersion p = v"
  by (simp_all add: on_trial_def)

lemma pointer_views [simp]:
  "ValidVersion v \<Longrightarrow> Current (set_pointer p (v @ [CHR 0x0A]) d) = (if p = CurrentFile then Inr v else Current d)"
  "ValidVersion v \<Longrightarrow> Previous (set_pointer p (v @ [CHR 0x0A]) d) = (if p = PreviousFile then Inr v else Previous d)"
  "Current (d\<lparr>pending_file := m\<rparr>) = Current d" "Previous (d\<lparr>pending_file := m\<rparr>) = Previous d"
  "Current (d\<lparr>releases := rs\<rparr>) = Current d" "Previous (d\<lparr>releases := rs\<rparr>) = Previous d"
  by (simp_all add: Current_def Previous_def)

lemma fine_valid: "fine D d v \<Longrightarrow> ValidVersion v"
  by (simp add: fine_def)

lemma valid_nonempty [simp]: "\<not> ValidVersion ''''"
  by (simp add: ValidVersion_def)

lemma soundE:
  assumes "sound C D d"
  obtains v where "Current d = Inr v" and "fine D d v" and "v \<in> C \<or> on_trial d v"
  using assms by (auto simp: sound_def)

lemma sound_current:
  "sound C D d \<Longrightarrow> fine D d v \<Longrightarrow> v \<in> C \<or> on_trial d v \<Longrightarrow> sound C D (set_pointer CurrentFile (v @ [CHR 0x0A]) d)"
  unfolding sound_def by (simp add: fine_valid)

lemma sound_previous:
  "sound C D d \<Longrightarrow> fine D d v \<Longrightarrow> v \<in> C \<Longrightarrow> sound C D (set_pointer PreviousFile (v @ [CHR 0x0A]) d)"
  unfolding sound_def by (simp add: fine_valid)

lemma sound_watermark: "sound C D d \<Longrightarrow> ValidVersion v \<Longrightarrow> sound C D (set_pointer WatermarkFile (v @ [CHR 0x0A]) d)"
  unfolding sound_def by simp

lemma sound_marker:
  assumes "sound C D d" and "ValidVersion (pVersion p)" and "fine D d (pPrevious p)" and "pPrevious p \<in> C"
    and "pPrevious p \<noteq> pVersion p" and "\<And>v. Current d = Inr v \<Longrightarrow> v \<in> C \<or> pVersion p = v"
  shows "sound C D (d\<lparr>pending_file := Holds (Marker p)\<rparr>)"
  using assms unfolding sound_def by auto

lemma sound_clear:
  assumes "sound C D d" and "\<And>v. Current d = Inr v \<Longrightarrow> v \<in> C"
  shows "sound C D (d\<lparr>pending_file := Missing\<rparr>)"
  using assms unfolding sound_def by auto

lemma sound_mono: "sound C D d \<Longrightarrow> C \<subseteq> C' \<Longrightarrow> sound C' D d"
  unfolding sound_def by blast

lemma sound_write: "sound C D d \<Longrightarrow> sound C D (f d) \<Longrightarrow> sound C D (snd (WriteFileAtomic w f d))"
  by (cases w) (simp_all add: WriteFileAtomic_def)

lemma sound_pending:
  assumes "sound C D d" and "ReadPending d = Inr (Some p)"
  shows "ValidVersion (pVersion p)" and "fine D d (pPrevious p)" and "pPrevious p \<in> C" and "pPrevious p \<noteq> ''''"
    and "pPrevious p \<noteq> pVersion p"
  using assms by (auto simp: sound_def ReadPending_def fine_def)

lemma sound_pending_ok: "sound C D d \<Longrightarrow> ReadPending d \<noteq> Inl e"
  by (auto simp: sound_def ReadPending_def)

section \<open>Every operation keeps it, wherever it is cut\<close>

lemma WritePointer_snd:
  "snd (WritePointer p v w d) = (if ValidVersion v then snd (WriteFileAtomic w (set_pointer p (v @ [CHR 0x0A])) d) else d)"
  by (simp add: WritePointer_def)

lemma sound_set_previous:
  "sound C D d \<Longrightarrow> fine D d v \<Longrightarrow> v \<in> C \<Longrightarrow> sound C D (snd (WritePointer PreviousFile v w d))"
  by (simp add: WritePointer_snd sound_write sound_previous)

lemma sound_set_current:
  "sound C D d \<Longrightarrow> fine D d v \<Longrightarrow> v \<in> C \<or> on_trial d v \<Longrightarrow> sound C D (snd (WritePointer CurrentFile v w d))"
  by (simp add: WritePointer_snd sound_write sound_current)

lemma sound_write_pending:
  assumes "sound C D d" and "ValidVersion (pVersion p)" and "fine D d (pPrevious p)" and "pPrevious p \<in> C"
    and "pPrevious p \<noteq> pVersion p" and "\<And>v. Current d = Inr v \<Longrightarrow> v \<in> C \<or> pVersion p = v"
  shows "sound C D (snd (write_pending p w d))"
  unfolding write_pending_def by (rule sound_write, rule assms(1), rule sound_marker) (use assms in simp_all)

lemma sound_ClearPending:
  assumes "sound C D d" and "\<And>v. Current d = Inr v \<Longrightarrow> v \<in> C"
  shows "sound C D (snd (ClearPending w d))"
  unfolding ClearPending_def by (rule sound_write, rule assms(1), rule sound_clear) (use assms in simp_all)

text \<open>The disk a pointer's write leaves when it succeeded.\<close>

lemma WritePointer_done:
  "WritePointer p v w d = (None, d') \<Longrightarrow> ValidVersion v \<and> d' = set_pointer p (v @ [CHR 0x0A]) d"
  by (auto simp: WritePointer_def WriteFileAtomic_def split: if_splits disk_write.splits)

lemma write_pending_done: "write_pending p w d = (None, d') \<Longrightarrow> d' = d\<lparr>pending_file := Holds (Marker p)\<rparr>"
  by (auto simp: write_pending_def WriteFileAtomic_def split: disk_write.splits)

lemma ClearPending_done: "ClearPending w d = (None, d') \<Longrightarrow> d' = d\<lparr>pending_file := Missing\<rparr>"
  by (auto simp: ClearPending_def WriteFileAtomic_def split: disk_write.splits)

lemma sound_switch_steps:
  assumes "sound C D d" and "Current d = Inr old" and "old \<in> C" and "fine D d v" and "old \<noteq> v"
  shows "sound C D (snd (switch_steps old v r t ws d))"
proof -
  let ?p = "\<lparr>pVersion = v, pPrevious = old, pRunID = r, pSince = t, pDeadline = None, pRecord = ''''\<rparr>"
  have old: "fine D d old" "old \<noteq> ''''" using assms(1,2) by (auto simp: sound_def fine_def)
  obtain e1 d1 where w1: "WritePointer PreviousFile old (ws 0) d = (e1, d1)" by fastforce
  obtain e2 d2 where w2: "write_pending ?p (ws 1) d1 = (e2, d2)" by fastforce
  have s1: "sound C D d1"
    using sound_set_previous [OF assms(1) old(1) assms(3), of "ws 0"] w1 by simp
  show ?thesis
  proof (cases "e1 = None")
    case False
    with w1 s1 old show ?thesis by (simp add: switch_steps_def)
  next
    case True
    then have d1: "d1 = set_pointer PreviousFile (old @ [CHR 0x0A]) d" "ValidVersion old" using w1 WritePointer_done by blast+
    then have k: "fine D d1 v" "fine D d1 old" "Current d1 = Inr old" using assms(2,4) old by simp_all
    have s2: "sound C D d2"
      using sound_write_pending [of C D d1 ?p "ws 1"] s1 k assms(3,5) w2 by (simp add: fine_valid)
    show ?thesis
    proof (cases "e2 = None")
      case False
      with True w1 w2 s2 old show ?thesis by (simp add: switch_steps_def)
    next
      case e2: True
      then have d2: "d2 = d1\<lparr>pending_file := Holds (Marker ?p)\<rparr>" using w2 write_pending_done by blast
      then have "fine D d2 v" "on_trial d2 v" using k by (simp_all add: fine_valid)
      then show ?thesis
        using sound_set_current [OF s2, of v "ws 2"] True e2 w1 w2 old by (simp add: switch_steps_def)
    qed
  qed
qed

lemma sound_Switch:
  assumes "sound C D d" and "\<And>u. Current d = Inr u \<Longrightarrow> \<not> on_trial d u"
  shows "sound C D (snd (Switch v r t ws d))"
proof -
  from assms obtain old where old: "Current d = Inr old" "old \<in> C" by (meson soundE)
  show ?thesis
  proof (cases "ValidateRelease v d")
    case None
    then have "fine D d v" by (simp add: fine_def ValidateRelease_valid)
    from sound_switch_steps [OF assms(1) old this] None old assms(1) show ?thesis by (cases "old = v") (simp_all add: Switch_def)
  qed (use assms(1) in \<open>simp add: Switch_def\<close>)
qed

lemma sound_GuardPending: "sound C D d \<Longrightarrow> sound C D (snd (GuardPending v t r w d))"
  by (auto simp: GuardPending_def sound_pending intro!: sound_write_pending split: sum.split option.split)
    (auto simp: on_trial_def elim: soundE)

lemma sound_ExtendPending: "sound C D d \<Longrightarrow> sound C D (snd (snd (ExtendPending r t w d)))"
  by (auto simp: ExtendPending_def sound_pending intro!: sound_write_pending split: sum.split option.split)
    (auto simp: on_trial_def elim: soundE)

lemma sound_Rollback:
  assumes "sound C D d"
  shows "sound C D (snd (Rollback ws d))"
proof (cases "rollback_target d")
  case (Inr prev)
  then have prev: "fine D d prev" "prev \<in> C"
    using assms sound_pending [OF assms]
    by (auto simp: rollback_target_def sound_def split: sum.splits option.splits if_splits)
  obtain e d1 where w: "WritePointer CurrentFile prev (ws 0) d = (e, d1)" by fastforce
  have s: "sound C D d1" using sound_set_current [OF assms prev(1), of "ws 0"] prev(2) w by simp
  show ?thesis
  proof (cases "e = None")
    case True
    then have "ValidVersion prev" "d1 = set_pointer CurrentFile (prev @ [CHR 0x0A]) d" using w WritePointer_done by blast+
    then have "Current d1 = Inr prev" by simp
    from sound_ClearPending [OF s, of "ws 1"] this True w Inr prev show ?thesis by (simp add: Rollback_def case_prod_beta)
  qed (use w s Inr in \<open>simp add: Rollback_def\<close>)
qed (use assms in \<open>simp add: Rollback_def\<close>)

lemma sound_Reconcile:
  assumes "sound C D d"
  shows "sound C D (snd (snd (Reconcile w d)))"
proof (cases "ReadPending d")
  case (Inr m)
  show ?thesis
  proof (cases m)
    case (Some p)
    have "v \<in> C" if "Current d = Inr v" "pVersion p \<noteq> v" for v
      using assms that Inr Some by (auto simp: sound_def on_trial_def)
    with Inr Some assms show ?thesis by (auto simp: Reconcile_def intro!: sound_ClearPending)
  qed (use Inr assms in \<open>simp add: Reconcile_def\<close>)
qed (use sound_pending_ok [OF assms] in blast)

section \<open>Releases removed, placed and damaged\<close>

lemma trial_releases [simp]: "on_trial (d\<lparr>releases := rs\<rparr>) v = on_trial d v"
  by (simp add: on_trial_def)

lemma sound_releases:
  assumes "sound C D d" and "D \<subseteq> D'"
    and "\<And>v. Current d = Inr v \<or> Previous d = Inr v \<or> (\<exists>p. ReadPending d = Inr (Some p) \<and> pPrevious p = v) \<Longrightarrow>
           fine D d v \<Longrightarrow> fine D' (d\<lparr>releases := rs\<rparr>) v"
  shows "sound C D' (d\<lparr>releases := rs\<rparr>)"
  using assms unfolding sound_def by (force simp: ReadPending_def)

lemma map_of_RemoveAll: "u \<noteq> v \<Longrightarrow> map_of (RemoveAll left v rs) u = map_of rs u"
proof (cases "left v")
  case None
  assume "u \<noteq> v"
  with None show ?thesis by (induction rs) (auto simp: RemoveAll_def)
next
  case (Some r)
  assume "u \<noteq> v"
  with Some show ?thesis by (induction rs) (auto simp: RemoveAll_def)
qed

lemma fine_RemoveAll: "u \<noteq> v \<Longrightarrow> fine D d u \<Longrightarrow> fine D (d\<lparr>releases := RemoveAll left v (releases d)\<rparr>) u"
  using ValidateRelease_cong [of "d\<lparr>releases := RemoveAll left v (releases d)\<rparr>" u d]
  by (auto simp: fine_def map_of_RemoveAll)

lemma prune_loop_protects: "protect u \<Longrightarrow> map_of (snd (prune_loop protect left keep n vs rs)) u = map_of rs u"
proof (induction vs arbitrary: n rs)
  case (Cons v vs)
  then have "\<not> protect v \<Longrightarrow> u \<noteq> v" by auto
  with Cons show ?case by (simp add: case_prod_beta Let_def map_of_RemoveAll)
qed simp

lemma sound_Prune:
  assumes "sound C D d"
  shows "sound C D (snd (Prune left keep inUse d))"
proof -
  have "map_of (releases (snd (Prune left keep inUse d))) v = map_of (releases d) v"
    if "v \<in> set (protected_versions inUse d)" for v
    using that by (simp add: Prune_def case_prod_beta prune_loop_protects)
  then have "fine D (snd (Prune left keep inUse d)) v"
    if "v \<in> set (protected_versions inUse d)" "fine D d v" for v
    using that ValidateRelease_cong [of "snd (Prune left keep inUse d)" v d] by (simp add: fine_def)
  moreover have "v \<in> set (protected_versions inUse d)"
    if "Current d = Inr v \<or> Previous d = Inr v \<or> (\<exists>p. ReadPending d = Inr (Some p) \<and> pPrevious p = v)" for v
    using that sound_pending(4) [OF assms] by (auto simp: protected_versions_def)
  ultimately show ?thesis
    using sound_releases [OF assms, of D "releases (snd (Prune left keep inUse d))"]
    by (simp add: Prune_def case_prod_beta)
qed

lemma Prune_views [simp]:
  "Current (snd (Prune left keep inUse d)) = Current d" "Previous (snd (Prune left keep inUse d)) = Previous d"
  "pending_file (snd (Prune left keep inUse d)) = pending_file d" "ReadPending (snd (Prune left keep inUse d)) = ReadPending d"
  by (simp_all add: Prune_def case_prod_beta)

lemma sound_RaiseWatermark: "sound C D d \<Longrightarrow> sound C D (snd (RaiseWatermark v w d))"
  by (auto simp: RaiseWatermark_def Let_def WritePointer_snd intro!: sound_write sound_watermark)

lemma RaiseWatermark_views [simp]:
  "ReadPending (snd (RaiseWatermark v w d)) = ReadPending d" "Current (snd (RaiseWatermark v w d)) = Current d"
  by (cases w; simp add: RaiseWatermark_def Let_def WritePointer_def WriteFileAtomic_def)+

lemma sound_Confirm_served:
  assumes "sound C D d" and "case oper of S_commit j n tv procs left ws \<Rightarrow> True | S_confirm h ws \<Rightarrow> True | _ \<Rightarrow> False"
    and "ReadPending d' = Inr None"
  shows "sound (set (confirms oper d d') \<union> C) D (d\<lparr>pending_file := Missing\<rparr>)"
proof -
  have "v \<in> set (confirms oper d d') \<union> C" if "Current d = Inr v" for v
    using assms that by (auto simp: sound_def on_trial_def confirms_def split: sum.splits option.splits)
  then show ?thesis
    by (intro sound_clear) (auto intro: sound_mono [OF assms(1)])
qed

lemma ClearPending_cases:
  "snd (ClearPending w d) = d \<and> fst (ClearPending w d) \<noteq> None \<or> snd (ClearPending w d) = d\<lparr>pending_file := Missing\<rparr>"
  by (cases w) (simp_all add: ClearPending_def WriteFileAtomic_def)

definition orderly :: "server_op \<Rightarrow> string set \<Rightarrow> Install \<Rightarrow> bool" where
  "orderly oper C d \<longleftrightarrow> (case oper of
       S_switch rec t j ws \<Rightarrow> (\<forall>v \<in> set_option (case Current d of Inr v \<Rightarrow> Some v | _ \<Rightarrow> None). \<not> on_trial d v)
     | S_revert j ws \<Rightarrow> NormalizeVersion (From j) \<in> C \<and> \<not> on_trial d (NormalizeVersion (From j))
     | S_discard v left \<Rightarrow> (case ReadPending d of Inr (Some p) \<Rightarrow> pPrevious p \<noteq> v | _ \<Rightarrow> True)
     | _ \<Rightarrow> True)"

lemma sound_Revert:
  assumes "sound C D d" and "NormalizeVersion (From j) \<in> C"
  shows "sound C D (snd (installer_Revert j ws d))"
proof -
  let ?o = "NormalizeVersion (From j)"
  obtain e d1 where w: "WritePointer CurrentFile ?o (ws 1) d = (e, d1)" by fastforce
  show ?thesis
  proof (cases "?o = '''' \<or> value_of (Current d) = ?o \<or> ValidateRelease ?o d \<noteq> None")
    case True
    then show ?thesis
      using assms by (auto simp: installer_Revert_def value_of_def Let_def intro!: sound_ClearPending split: sum.splits option.split)
  next
    case False
    then have f: "fine D d ?o" by (auto simp: fine_def dest: ValidateRelease_valid)
    from sound_set_current [OF assms(1) f, of "ws 1"] w assms(2) have s: "sound C D d1" by simp
    have "e = None \<Longrightarrow> Current d1 = Inr ?o" using WritePointer_done w by fastforce
    then have "e = None \<Longrightarrow> sound C D (snd (ClearPending (ws 0) d1))"
      using assms(2) by (intro sound_ClearPending [OF s]) simp
    with False w s show ?thesis by (cases e) (simp_all add: installer_Revert_def Let_def)
  qed
qed

lemma sound_installer_Switch:
  assumes "sound C D d" and "\<And>u. Current d = Inr u \<Longrightarrow> \<not> on_trial d u"
  shows "sound C D (snd (installer_Switch rec t j ws d))"
  using sound_Switch [OF assms] sound_GuardPending
  by (auto simp: installer_Switch_def Let_def split: prod.split) (metis snd_conv)+

lemma sound_Commit:
  assumes "sound C D d" and oper_def: "oper = S_commit j n tv procs left ws"
  shows "sound (set (confirms oper d (served v oper d)) \<union> C) D (served v oper d)"
proof -
  obtain e d1 where w: "ClearPending (ws 0) d = (e, d1)" by fastforce
  let ?d = "served v oper d"
  from ClearPending_cases [of "ws 0" d] w
  consider "d1 = d" "e \<noteq> None" | "d1 = d\<lparr>pending_file := Missing\<rparr>" by auto
  then show ?thesis
  proof cases
    case 1
    then have "?d = d" using w by (simp add: oper_def installer_Commit_def Confirm_def Let_def)
    then show ?thesis using sound_mono [OF assms(1)] by simp
  next
    case 2
    then have "ReadPending ?d = Inr None"
      using w by (simp add: oper_def installer_Commit_def Confirm_def Let_def case_prod_beta)
    with assms(1) have "sound (set (confirms oper d ?d) \<union> C) D d1"
      using sound_Confirm_served [of C D d oper ?d] 2 by (simp add: oper_def)
    moreover have "?d = d1 \<or> (\<exists>k u s. ?d = snd (Prune left k u (snd (RaiseWatermark s (ws 1) d1))))"
      using w by (auto simp: oper_def installer_Commit_def Confirm_def Let_def case_prod_beta)
    ultimately show ?thesis by (metis sound_RaiseWatermark sound_Prune)
  qed
qed

lemma sound_confirmPending:
  assumes "sound C D d" and oper_def: "oper = S_confirm h ws"
  shows "sound (set (confirms oper d (served v oper d)) \<union> C) D (served v oper d)"
proof -
  obtain e d1 where w: "ClearPending (ws 0) d = (e, d1)" by fastforce
  let ?d = "served v oper d"
  have "?d = d \<or> ?d = d1 \<or> ?d = snd (RaiseWatermark v (ws 1) d1)"
    using w by (auto simp: oper_def confirmPending_def Confirm_def split: sum.split option.split)
  moreover from ClearPending_cases [of "ws 0" d] w have "d1 = d \<and> e \<noteq> None \<or> d1 = d\<lparr>pending_file := Missing\<rparr>" by auto
  ultimately consider "?d = d" | "?d = snd (RaiseWatermark v (ws 1) d)" | "?d = d\<lparr>pending_file := Missing\<rparr>"
    | "?d = snd (RaiseWatermark v (ws 1) (d\<lparr>pending_file := Missing\<rparr>))" by blast
  then show ?thesis
  proof cases
    case 1
    then show ?thesis using sound_mono [OF assms(1)] by simp
  next
    case 2
    then show ?thesis using sound_RaiseWatermark [OF sound_mono [OF assms(1)]] by simp
  next
    case 3
    then show ?thesis using sound_Confirm_served [of C D d oper ?d] assms(1) by (simp add: oper_def)
  next
    case 4
    then show ?thesis using sound_Confirm_served [of C D d oper ?d] assms(1) sound_RaiseWatermark by (simp add: oper_def)
  qed
qed

lemma sound_place: "sound C D d \<Longrightarrow> sound C D (place_release s r d)"
proof -
  assume s: "sound C D d"
  let ?rs = "(case r of None \<Rightarrow> [] | Some r \<Rightarrow> [(s, r)]) @ filter (\<lambda>x. fst x \<noteq> s) (releases d)"
  have "map_of (filter (\<lambda>x. fst x \<noteq> s) xs) u = map_of xs u" if "u \<noteq> s" for u and xs :: "(string \<times> Release) list"
    using that by (induction xs) auto
  then have "map_of ?rs u = map_of (releases d) u" if "u \<noteq> s" for u using that by (auto split: option.split)
  then have "fine D (d\<lparr>releases := ?rs\<rparr>) u" if "fine D d u" "ValidateRelease s d \<noteq> None" for u
    using that ValidateRelease_cong [of "d\<lparr>releases := ?rs\<rparr>" u d] by (cases "u = s") (auto simp: fine_def)
  then show ?thesis
    using s sound_releases [OF s, of D ?rs] by (auto simp: place_release_def)
qed

lemma sound_served:
  assumes "sound C D d" and "orderly oper C d"
  shows "sound (set (confirms oper d (served v oper d)) \<union> C) D (served v oper d)"
proof -
  have more: "sound C D (served v oper d) \<Longrightarrow> ?thesis" by (erule sound_mono) simp
  show ?thesis
  proof (cases oper)
    case (S_switch rec t j ws)
    with assms(2) have "\<not> on_trial d u" if "Current d = Inr u" for u using that by (simp add: orderly_def)
    from sound_installer_Switch [OF assms(1) this] S_switch show ?thesis by (intro more) simp
  next
    case (S_extend j t w)
    with sound_ExtendPending [OF assms(1)] show ?thesis by (intro more) (simp add: installer_Extend_def)
  next
    case (S_revert j ws)
    with sound_Revert [OF assms(1)] assms(2) show ?thesis by (intro more) (simp add: orderly_def)
  next
    case (S_commit j n tv procs left ws)
    with sound_Commit [OF assms(1)] show ?thesis by simp
  next
    case (S_discard s left)
    let ?rs = "RemoveAll left s (releases d)"
    have "sound C D (d\<lparr>releases := ?rs\<rparr>)" if "s \<noteq> value_of (Current d)" "s \<noteq> value_of (Previous d)"
    proof (rule sound_releases [OF assms(1) subset_refl])
      fix u
      assume u: "Current d = Inr u \<or> Previous d = Inr u \<or> (\<exists>p. ReadPending d = Inr (Some p) \<and> pPrevious p = u)" "fine D d u"
      with that assms(2) S_discard have "u \<noteq> s" by (auto simp: value_of_def orderly_def)
      then show "fine D (d\<lparr>releases := ?rs\<rparr>) u" using u(2) by (rule fine_RemoveAll)
    qed
    then have "sound C D (installer_Discard v s left d)" using assms(1) by (simp add: installer_Discard_def)
    with S_discard show ?thesis by (intro more) simp
  next
    case (S_confirm h ws)
    with sound_confirmPending [OF assms(1)] show ?thesis by simp
  next
    case (S_place s r)
    with sound_place [OF assms(1)] show ?thesis by (intro more) simp
  qed
qed

lemma sound_damage: "sound C D d \<Longrightarrow> sound C (insert v D) (d\<lparr>releases := RemoveAll left v (releases d)\<rparr>)"
proof -
  assume s: "sound C D d"
  have "fine (insert v D) (d\<lparr>releases := RemoveAll left v (releases d)\<rparr>) u" if "fine D d u" for u
    using that fine_RemoveAll [of u v D d left] by (cases "u = v") (auto simp: fine_def)
  then show ?thesis by (intro sound_releases [OF s]) auto
qed

section \<open>The launcher keeps it\<close>

definition guarded :: "Launcher \<Rightarrow> bool" where
  "guarded la \<longleftrightarrow> sound (set (confirmed la)) (set (damaged la)) (disk la)"

lemma guarded_views [simp]:
  "guarded (Event i e la) = guarded la" "guarded (la\<lparr>place := x\<rparr>) = guarded la" "guarded (la\<lparr>backoff := b\<rparr>) = guarded la"
  "guarded (la\<lparr>failures := f\<rparr>) = guarded la" "guarded (la\<lparr>early := z\<rparr>) = guarded la" "guarded (la\<lparr>safeNext := s\<rparr>) = guarded la"
  "guarded (la\<lparr>guardVersion := v\<rparr>) = guarded la" "guarded (la\<lparr>firstStart := t\<rparr>) = guarded la" "guarded (la\<lparr>dbs := r\<rparr>) = guarded la"
  by (simp_all add: guarded_def Event_def)

lemma guarded_disk: "guarded (la\<lparr>disk := d\<rparr>) \<longleftrightarrow> sound (set (confirmed la)) (set (damaged la)) d"
  by (simp add: guarded_def)

lemma guarded_mark [simp]: "guarded (markRecord i v rec reason la) = guarded la"
  by (simp add: markRecord_def case_prod_beta Let_def)

lemma guarded_reconcile: "guarded la \<Longrightarrow> guarded (reconcile i la)"
  using sound_Reconcile [of "set (confirmed la)" "set (damaged la)" "disk la" "outs i 0"]
  by (simp add: reconcile_def case_prod_beta Let_def guarded_disk) (simp add: guarded_def)

lemma guarded_rollback: "guarded la \<Longrightarrow> guarded (snd (rollback_version i v reason la))"
  using sound_Rollback [of "set (confirmed la)" "set (damaged la)" "disk la" "outs i"]
  by (simp add: rollback_version_def case_prod_beta Let_def guarded_disk guarded_def [of la] split: sum.split option.split)

lemma guarded_choose_previous: "guarded la \<Longrightarrow> guarded (snd (choose_previous i v la))"
  by (simp add: choose_previous_def split: sum.split option.split)

declare choose_release.simps [simp del]

lemma guarded_choose: "guarded la \<Longrightarrow> guarded (snd (choose_release i la))"
proof (induction i la rule: choose_release.induct)
  case (1 i la)
  show ?case
  proof (cases "Current (disk la)")
    case (Inr cur)
    with 1 show ?thesis
      by (cases "ValidateRelease cur (disk la)"; subst choose_release.simps)
        (simp_all add: Let_def guarded_rollback guarded_choose_previous)
  qed (subst choose_release.simps, simp add: guarded_choose_previous 1)
qed

lemma guarded_start [simp]: "guarded (guard_start v i la) = guarded la"
  by (simp add: guard_start_def)

lemma guarded_sleep [simp]: "guarded (sleep_backoff c la) = guarded la" "guarded (to_top c la) = guarded la"
  by (simp_all add: sleep_backoff_def to_top_def)

lemma guarded_early [simp]: "guarded (snd (earlyExit c t code took la)) = guarded la"
  by (simp add: earlyExit_def Let_def)

lemma guarded_count: "guarded la \<Longrightarrow> guarded (snd (count_failure c i v la))"
  by (simp add: count_failure_def Let_def guarded_rollback)

lemma guarded_after_exit: "guarded la \<Longrightarrow> guarded (after_exit c i v code took la)"
  by (simp add: after_exit_def Let_def case_prod_beta guarded_count)

lemma guarded_turn: "guarded la \<Longrightarrow> guarded (turn c i starts la)"
  by (simp add: turn_def Let_def case_prod_beta guarded_after_exit guarded_choose guarded_reconcile)

text \<open>
  What the server's operations are asked for in order: the updater switches only from a release that
  is not on trial (its run is busy until the marker is gone), goes back to a release that had been
  confirmed and is not the one its marker names, and never discards the one the marker goes back to.
\<close>

definition orderly_event :: "event \<Rightarrow> Launcher \<Rightarrow> bool" where
  "orderly_event e la \<longleftrightarrow> (case e of Serves oper \<Rightarrow> orderly oper (set (confirmed la)) (disk la) | _ \<Rightarrow> True)"

lemma guarded_step:
  assumes "guarded la" and "orderly_event e la"
  shows "guarded (launcher_step c e la)"
proof (cases e)
  case (Turn i s)
  with assms show ?thesis by (auto simp: guarded_turn split: place.split)
next
  case (Tick_poll i)
  with assms show ?thesis by (auto simp: tick_poll_def split: place.split)
next
  case (Exits i code)
  with assms show ?thesis
    by (auto simp: child_exits_def guarded_after_exit guarded_rollback split: place.split bool.split)
next
  case Stop_asked
  with assms show ?thesis by (auto simp: stop_asked_def split: place.split)
next
  case (Chosen i ch)
  with assms show ?thesis by (auto simp: choice_taken_def Let_def guarded_rollback split: place.split)
next
  case (Serves oper)
  with assms show ?thesis
    using sound_served [of "set (confirmed la)" "set (damaged la)" "disk la" oper]
    by (auto simp: serve_def orderly_event_def guarded_def split: place.split)
next
  case (Damages v r)
  with assms show ?thesis using sound_damage by (auto simp: damage_def guarded_def)
next
  case Boot
  with assms show ?thesis by (simp add: boot_def)
qed

text \<open>An install to begin with: a confirmed release that checks, and nothing else.\<close>

definition installed :: "Launcher \<Rightarrow> bool" where
  "installed la \<longleftrightarrow>
     (case Current (disk la) of Inr v \<Rightarrow> ValidateRelease v (disk la) = None \<and> v \<in> set (confirmed la) | Inl e \<Rightarrow> False) \<and>
     previous_file (disk la) = Missing \<and> pending_file (disk la) = Missing \<and>
     place la = Top \<and> guardVersion la = '''' \<and> failures la = [] \<and> early la = [] \<and> lines la = []"

inductive launched :: "Tuning \<Rightarrow> Launcher \<Rightarrow> bool" for c where
  launched_installed: "installed la \<Longrightarrow> launched c la"
| launched_step: "launched c la \<Longrightarrow> orderly_event e la \<Longrightarrow> launched c (launcher_step c e la)"

lemma launched_guarded: "launched c la \<Longrightarrow> guarded la"
proof (induction rule: launched.induct)
  case (launched_installed la)
  then show ?case
    by (auto simp: installed_def guarded_def sound_def fine_def Previous_def ReadPointer_def
        dest: ValidateRelease_valid split: sum.splits)
qed (rule guarded_step)

section \<open>No unconfirmed release without its guard\<close>


section \<open>Only a release that checks is started\<close>

lemma markRecord_views [simp]:
  "disk (markRecord i v rec reason la) = disk la" "place (markRecord i v rec reason la) = place la"
  by (simp_all add: markRecord_def Event_def case_prod_beta Let_def)

lemma Event_views [simp]:
  "disk (Event i e la) = disk la" "place (Event i e la) = place la" "confirmed (Event i e la) = confirmed la"
  "damaged (Event i e la) = damaged la" "failures (Event i e la) = failures la" "guardVersion (Event i e la) = guardVersion la"
  "lines (Event i e la) = (clock i, e) # lines la" "backoff (Event i e la) = backoff la" "early (Event i e la) = early la"
  "isPending v (Event i e la) = isPending v la" "safeNext (Event i e la) = safeNext la"
  "firstStart (Event i e la) = firstStart la"
  by (simp_all add: Event_def isPending_def)

lemma rollback_place [simp]: "place (snd (rollback_version i v reason la)) = place la"
  by (simp add: rollback_version_def case_prod_beta Let_def split: sum.split option.split)

lemma choose_checks:
  "fst (choose_release i la) \<noteq> '''' \<Longrightarrow>
     ValidateRelease (fst (choose_release i la)) (disk (snd (choose_release i la))) = None"
proof (induction i la rule: choose_release.induct)
  case (1 i la)
  have prev: "fst (choose_previous i v la) \<noteq> '''' \<Longrightarrow>
      ValidateRelease (fst (choose_previous i v la)) (disk (snd (choose_previous i v la))) = None" for v la
    by (auto simp: choose_previous_def split: sum.splits option.splits)
  show ?case
  proof (cases "Current (disk la)")
    case (Inl e)
    with 1(2) show ?thesis by (subst (asm) choose_release.simps, subst (1 2) choose_release.simps) (simp add: prev)
  next
    case (Inr cur)
    show ?thesis
    proof (cases "ValidateRelease cur (disk la)")
      case None
      with Inr show ?thesis by (subst (1 2) choose_release.simps) simp
    next
      case (Some e)
      with 1 Inr show ?thesis
        by (subst (asm) (2) choose_release.simps, subst (1 2) choose_release.simps) (auto simp: Let_def prev split: if_splits)
    qed
  qed
qed

lemma choose_place [simp]: "place (snd (choose_release i la)) = place la"
proof (induction i la rule: choose_release.induct)
  case (1 i la)
  have "place (snd (choose_previous i v la)) = place la" for v la
    by (simp add: choose_previous_def split: sum.split option.split)
  with 1 show ?case
    by (subst choose_release.simps) (auto simp: Let_def split: sum.split option.split)
qed

lemma after_exit_not_up [simp]: "place (after_exit c i v code took la) \<noteq> Up u t"
  by (simp add: after_exit_def to_top_def sleep_backoff_def Let_def case_prod_beta)

lemma guard_start_views [simp]:
  "disk (guard_start v i la) = disk la" "isPending u (guard_start v i la) = isPending u la"
  by (simp_all add: guard_start_def isPending_def)

lemma turn_up:
  assumes "place (turn c i starts la) = Up v t"
  shows "starts" and "t = clock i" and "v \<noteq> ''''" and "v = fst (choose_release (later 1 i) (reconcile i la))"
    and "disk (turn c i starts la) = disk (snd (choose_release (later 1 i) (reconcile i la)))"
  using assms by (auto simp: turn_def Let_def case_prod_beta sleep_backoff_def split: if_splits)

text \<open>
  No event brings a release up whose directory does not check at that moment: it is
  there, has its \<open>.verified\<close>, is not writable by others and its server has the digest it lists.
\<close>

theorem only_checked_releases_start:
  assumes "place (launcher_step c e la) = Up v t" and "place la \<noteq> Up v t"
  shows "ValidateRelease v (disk (launcher_step c e la)) = None"
proof (cases e)
  case (Turn i starts)
  with assms have up: "place (turn c i starts la) = Up v t" by (auto split: place.splits)
  have "launcher_step c e la = turn c i starts la"
    using assms Turn by (auto split: place.splits)
  with turn_up(3-5) [OF up] choose_checks [of "later 1 i" "reconcile i la"] show ?thesis by simp
qed (use assms in \<open>auto simp: tick_poll_def child_exits_def stop_asked_def choice_taken_def serve_def damage_def boot_def
      to_top_def Let_def split: place.splits if_splits bool.splits\<close>)

lemma reconcile_views [simp]:
  "Current (disk (reconcile i la)) = Current (disk la)" "Previous (disk (reconcile i la)) = Previous (disk la)"
  "ValidateRelease u (disk (reconcile i la)) = ValidateRelease u (disk la)" "place (reconcile i la) = place la"
  by (auto simp: reconcile_def Reconcile_def ClearPending_def WriteFileAtomic_def case_prod_beta Let_def
      split: sum.split option.split disk_write.split)

lemma turn_starts:
  assumes "fst (choose_release (later 1 i) (reconcile i la)) = v" and "v \<noteq> ''''"
  shows "place (turn c i True la) = Up v (clock i)"
  using assms by (simp add: turn_def Let_def case_prod_beta)

lemma choose_current:
  "Current (disk la) = Inr v \<Longrightarrow> ValidateRelease v (disk la) = None \<Longrightarrow> choose_release i la = (v, la)"
  by (subst choose_release.simps) simp

lemma rollback_written:
  assumes "rollback_target (disk la) = Inr b" and "ValidVersion b" and "outs i 0 = Written" and "outs i 1 = Written"
  shows "fst (rollback_version i v reason la)" and "Current (disk (snd (rollback_version i v reason la))) = Inr b"
    and "ReadPending (disk (snd (rollback_version i v reason la))) = Inr None"
    and "ValidateRelease u (disk (snd (rollback_version i v reason la))) = ValidateRelease u (disk la)"
  using assms
  by (auto simp: rollback_version_def Rollback_def WritePointer_def ClearPending_def WriteFileAtomic_def Let_def
      split: sum.split option.split)

text \<open>Where a release is gone back from: the marker's, else the release before.\<close>

definition way_back :: "string \<Rightarrow> Launcher \<Rightarrow> layout_error + string" where
  "way_back v la = (if isPending v la then rollback_target (disk la) else Previous (disk la))"

lemma guarded_fine:
  assumes "guarded la" and "Current (disk la) = Inr u \<or> Previous (disk la) = Inr u \<or> rollback_target (disk la) = Inr u"
    and "u \<notin> set (damaged la)"
  shows "ValidateRelease u (disk la) = None"
proof -
  have s: "sound (set (confirmed la)) (set (damaged la)) (disk la)" using assms(1) by (simp add: guarded_def)
  have "fine (set (damaged la)) (disk la) u"
  proof -
    have prev: "fine (set (damaged la)) (disk la) u" if "Previous (disk la) = Inr u" using s that by (auto simp: sound_def)
    have "fine (set (damaged la)) (disk la) u" if "rollback_target (disk la) = Inr u"
      using that prev sound_pending(2) [OF s] by (auto simp: rollback_target_def split: sum.splits option.splits if_splits)
    moreover have "fine (set (damaged la)) (disk la) u" if "Current (disk la) = Inr u" using s that by (auto elim: soundE)
    ultimately show ?thesis using prev assms(2) by blast
  qed
  with assms(3) show ?thesis by (simp add: fine_def)
qed

lemma isPending_reconcile: "isPending v la \<Longrightarrow> Current (disk la) = Inr v \<Longrightarrow> reconcile i la = la"
  by (auto simp: isPending_def reconcile_def Reconcile_def split: sum.splits option.splits)

lemma not_pending_reconcile:
  "\<not> isPending v la \<Longrightarrow> Current (disk la) = Inr v \<Longrightarrow> outs i 0 = Written \<Longrightarrow> \<not> isPending v (reconcile i la)"
  by (auto simp: isPending_def reconcile_def Reconcile_def ClearPending_def WriteFileAtomic_def Let_def split: sum.splits option.splits)


section \<open>A boot loop ends on the release before\<close>

text \<open>Release \<open>v\<close> runs on trial, and the marker goes back to \<open>b\<close>; both check.\<close>

definition trying :: "string \<Rightarrow> string \<Rightarrow> Launcher \<Rightarrow> bool" where
  "trying v b la \<longleftrightarrow>
     (case place la of Up u t \<Rightarrow> u = v | _ \<Rightarrow> False) \<and> guardVersion la = v \<and> Current (disk la) = Inr v \<and>
     isPending v la \<and> rollback_target (disk la) = Inr b \<and>
     ValidateRelease v (disk la) = None \<and> ValidateRelease b (disk la) = None"

text \<open>An exit of the server and the turn that starts it again.\<close>

definition crash :: "Inputs \<times> int \<times> Inputs \<Rightarrow> event list" where
  "crash x = (case x of (i, code, j) \<Rightarrow> [Exits i code, Turn j True])"

lemma turn_current:
  assumes "Current (disk la) = Inr v" and "ValidateRelease v (disk la) = None" and "isPending v la"
  shows "turn c i True la = Event i (Started v True) ((guard_start v i la)\<lparr>safeNext := False, place := Up v (clock i)\<rparr>)"
proof -
  have r: "reconcile i la = la" using assms isPending_reconcile by blast
  have "v \<noteq> ''''" using assms(2) ValidateRelease_valid by force
  with r assms choose_current [OF assms(1,2), of "later 1 i"] show ?thesis
    by (simp add: turn_def Let_def case_prod_beta)
qed

lemma isPending_views [simp]:
  "isPending v (la\<lparr>place := x\<rparr>) = isPending v la" "isPending v (la\<lparr>failures := f\<rparr>) = isPending v la"
  "isPending v (la\<lparr>backoff := b\<rparr>) = isPending v la" "isPending v (la\<lparr>safeNext := s\<rparr>) = isPending v la"
  "isPending v (la\<lparr>early := z\<rparr>) = isPending v la"
  by (simp_all add: isPending_def)

lemma exit_below:
  assumes "isPending v la" and "place la = Up v t" and "code \<noteq> ExitRestart"
    and "\<And>s. s \<in> set (failures la) \<Longrightarrow> clock i - LoopWindow c < s" and "0 < LoopWindow c"
    and "int (length (failures la)) + 1 < LoopMax c"
  defines "la' \<equiv> child_exits c i code la"
  shows "\<exists>bo. place la' = Sleeping bo" and "disk la' = disk la" and "guardVersion la' = guardVersion la"
    and "failures la' = failures la @ [clock i]"
proof -
  have "filter (\<lambda>s. clock i - LoopWindow c < s) (failures la @ [clock i]) = failures la @ [clock i]"
    using assms(4,5) by (simp add: filter_id_conv)
  then have "la' = sleep_backoff c (if StableAfter c \<le> clock i - t
        then (Event i (Child_exit v code (clock i - t)) la)\<lparr>failures := failures la @ [clock i], backoff := BackoffInitial c\<rparr>
        else (Event i (Child_exit v code (clock i - t)) la)\<lparr>failures := failures la @ [clock i]\<rparr>)"
    using assms by (simp add: child_exits_def after_exit_def count_failure_def Let_def)
  then show "\<exists>bo. place la' = Sleeping bo" and "disk la' = disk la" and "guardVersion la' = guardVersion la"
    and "failures la' = failures la @ [clock i]"
    by (simp_all add: sleep_backoff_def)
qed

lemma crash_below:
  assumes "trying v b la" and "code \<noteq> ExitRestart"
    and "\<And>s. s \<in> set (failures la) \<Longrightarrow> clock i - LoopWindow c < s" and "0 < LoopWindow c"
    and "int (length (failures la)) + 1 < LoopMax c"
  shows "trying v b (launcher_run c (crash (i, code, j)) la)"
    and "failures (launcher_run c (crash (i, code, j)) la) = failures la @ [clock i]"
proof -
  obtain t where t: "place la = Up v t" using assms(1) by (auto simp: trying_def split: place.splits)
  have p: "isPending v la" using assms(1) by (simp add: trying_def)
  define m where "m = child_exits c i code la"
  note x = exit_below [OF p t assms(2-5), folded m_def]
  have "isPending v m" using p x(2) by (simp add: isPending_def)
  then have "turn c j True m = Event j (Started v True) ((guard_start v j m)\<lparr>safeNext := False, place := Up v (clock j)\<rparr>)"
    using assms(1) x(2) by (intro turn_current) (simp_all add: trying_def)
  moreover have "guard_start v j m = m" using \<open>isPending v m\<close> assms(1) x(3) by (simp add: guard_start_def trying_def)
  ultimately have r: "launcher_run c (crash (i, code, j)) la = Event j (Started v True) (m\<lparr>safeNext := False, place := Up v (clock j)\<rparr>)"
    using x(1) by (auto simp: launcher_run_def crash_def simp flip: m_def)
  show "trying v b (launcher_run c (crash (i, code, j)) la)"
    unfolding r using assms(1) x by (simp add: trying_def isPending_def)
  show "failures (launcher_run c (crash (i, code, j)) la) = failures la @ [clock i]"
    unfolding r using x by simp
qed

lemma crash_last:
  assumes "trying v b la" and "code \<noteq> ExitRestart"
    and "\<And>s. s \<in> set (failures la) \<Longrightarrow> clock i - LoopWindow c < s" and "0 < LoopWindow c"
    and "LoopMax c \<le> int (length (failures la)) + 1" and "\<And>n. outs i n = Written"
    and la'_def: "la' = launcher_run c (crash (i, code, j)) la"
  shows "place la' = Up b (clock j)" and "Current (disk la') = Inr b" and "ReadPending (disk la') = Inr None"
    and "(clock i, Rolled_back v ''boot_loop'' b) \<in> set (lines la')"
proof -
  obtain t where t: "place la = Up v t" using assms(1) by (auto simp: trying_def split: place.splits)
  have p: "isPending v la" "rollback_target (disk la) = Inr b" "ValidateRelease b (disk la) = None"
    using assms(1) by (simp_all add: trying_def)
  have vb: "ValidVersion b" using p(3) by (rule ValidateRelease_valid)
  have f: "filter (\<lambda>s. clock i - LoopWindow c < s) (failures la @ [clock i]) = failures la @ [clock i]"
    using assms(3,4) by (simp add: filter_id_conv)
  define x where "x = (Event i (Child_exit v code (clock i - t)) la)\<lparr>failures := failures la @ [clock i]\<rparr>"
  have "rollback_target (disk x) = Inr b" using p(2) by (simp add: x_def)
  note rb = rollback_written [OF this vb, where i = i and v = v and reason = "''boot_loop''"]
  define m where "m = child_exits c i code la"
  have "m = to_top c (snd (rollback_version i v ''boot_loop'' x))"
    using t p(1) f assms(2,5) rb(1) assms(6)
    by (simp add: m_def child_exits_def after_exit_def count_failure_def Let_def case_prod_beta flip: x_def)
  moreover have "(clock i, Rolled_back v ''boot_loop'' b) \<in> set (lines (snd (rollback_version i v ''boot_loop'' x)))"
    using p(2) vb assms(6)
    by (simp add: rollback_version_def Rollback_def WritePointer_def ClearPending_def WriteFileAtomic_def x_def Let_def)
  moreover have "ValidateRelease b (disk x) = None" using p(3) by (simp add: x_def)
  ultimately have m: "place m = Top" "Current (disk m) = Inr b" "ReadPending (disk m) = Inr None"
    "ValidateRelease b (disk m) = None" "(clock i, Rolled_back v ''boot_loop'' b) \<in> set (lines m)"
    using rb assms(6) by (simp_all add: to_top_def)
  have la': "la' = turn c j True m"
    using m(1) by (simp add: la'_def launcher_run_def crash_def flip: m_def)
  have r: "reconcile j m = m" using m(3) by (simp add: reconcile_def Reconcile_def)
  have np: "\<not> isPending b m" using m(3) by (simp add: isPending_def)
  have "b \<noteq> ''''" using vb by auto
  then have "la' = Event j (Started b False) ((guard_start b j m)\<lparr>safeNext := False, place := Up b (clock j)\<rparr>)"
    unfolding la' using choose_current [OF m(2,4), of "later 1 j"] r np by (simp add: turn_def Let_def case_prod_beta)
  then show "place la' = Up b (clock j)" and "Current (disk la') = Inr b" and "ReadPending (disk la') = Inr None"
    and "(clock i, Rolled_back v ''boot_loop'' b) \<in> set (lines la')"
    using m np by (simp_all add: guard_start_def)
qed

definition fell_back :: "string \<Rightarrow> string \<Rightarrow> Launcher \<Rightarrow> bool" where
  "fell_back v b la \<longleftrightarrow>
     (case place la of Up u t \<Rightarrow> u = b | _ \<Rightarrow> False) \<and> Current (disk la) = Inr b \<and> ReadPending (disk la) = Inr None \<and>
     list_ex (\<lambda>x. snd x = Rolled_back v ''boot_loop'' b) (lines la)"

lemma launcher_run_append: "launcher_run c (xs @ ys) la = launcher_run c ys (launcher_run c xs la)"
  by (simp add: launcher_run_def)

lemma crashes_fall_back:
  assumes "trying v b la" and "0 < LoopWindow c" and "xs \<noteq> []" and "int (length (failures la)) + int (length xs) = LoopMax c"
    and "\<And>i code j. (i, code, j) \<in> set xs \<Longrightarrow> code \<noteq> ExitRestart \<and> (\<forall>n. outs i n = Written)"
    and "\<And>i code j i' code' j'. (i, code, j) \<in> set xs \<Longrightarrow> (i', code', j') \<in> set xs \<Longrightarrow> clock i - clock i' < LoopWindow c"
    and "\<And>i code j s. (i, code, j) \<in> set xs \<Longrightarrow> s \<in> set (failures la) \<Longrightarrow> clock i - LoopWindow c < s"
  shows "fell_back v b (launcher_run c (concat (map crash xs)) la)"
  using assms
proof (induction xs arbitrary: la)
  case (Cons x xs)
  obtain i code j where x: "x = (i, code, j)" by (cases x)
  have "(i, code, j) \<in> set (x # xs)" by (simp add: x)
  from Cons.prems(5) [OF this] Cons.prems(7) [OF this] have k: "code \<noteq> ExitRestart" "\<And>n. outs i n = Written"
    "\<And>s. s \<in> set (failures la) \<Longrightarrow> clock i - LoopWindow c < s" by blast+
  define m where "m = launcher_run c (crash x) la"
  show ?case
  proof (cases "xs = []")
    case True
    with Cons.prems(4) have n: "LoopMax c \<le> int (length (failures la)) + 1" by simp
    have d: "m = launcher_run c (crash (i, code, j)) la" by (simp add: m_def x)
    note z = crash_last [OF Cons.prems(1) k(1,3) Cons.prems(2) n k(2) d]
    have "list_ex (\<lambda>x. snd x = Rolled_back v ''boot_loop'' b) (lines m)"
      unfolding list_ex_iff by (rule bexI [OF _ z(4)]) (rule snd_conv)
    with z(1-3) True show ?thesis by (simp add: fell_back_def flip: m_def)
  next
    case False
    with Cons.prems(4) have n: "int (length (failures la)) + 1 < LoopMax c" by (cases xs) simp_all
    note z = crash_below [OF Cons.prems(1) k(1,3) Cons.prems(2) n, where j = j, folded x m_def]
    have "fell_back v b (launcher_run c (concat (map crash xs)) m)"
    proof (rule Cons.IH [OF z(1) Cons.prems(2) False])
      show "int (length (failures m)) + int (length xs) = LoopMax c" using Cons.prems(4) z(2) by simp
      fix i' code' j'
      assume y: "(i', code', j') \<in> set xs"
      then have y': "(i', code', j') \<in> set (x # xs)" by simp
      show "code' \<noteq> ExitRestart \<and> (\<forall>n. outs i' n = Written)" by (rule Cons.prems(5) [OF y'])
      show "clock i' - LoopWindow c < s" if "s \<in> set (failures m)" for s
        using that Cons.prems(6) [OF y', of i code j] Cons.prems(7) [OF y', of s] x z(2) by auto
      show "clock i' - clock i'' < LoopWindow c" if "(i'', code'', j'') \<in> set xs" for i'' code'' j''
        using Cons.prems(6) [OF y', of i'' code'' j''] that by simp
    qed
    then show ?thesis by (simp add: launcher_run_append m_def)
  qed
qed simp


section \<open>Every rollback has its cause\<close>

fun failed_exit :: "string \<Rightarrow> line \<Rightarrow> bool" where
  "failed_exit v (Child_exit u code took) \<longleftrightarrow> u = v \<and> code \<noteq> ExitRestart"
| "failed_exit v _ \<longleftrightarrow> False"

definition exits :: "string \<Rightarrow> (instant \<times> line) list \<Rightarrow> instant multiset" where
  "exits v ls = mset (map fst (filter (\<lambda>x. failed_exit v (snd x)) ls))"

definition tried :: "string \<Rightarrow> instant \<Rightarrow> (instant \<times> line) list \<Rightarrow> bool" where
  "tried v t ls \<longleftrightarrow> (t, Started v True) \<in> set ls \<or> (t, Start_error v) \<in> set ls"

text \<open>The pending timeout was passed: \<open>v\<close> was started on trial at least that long before.\<close>

definition timed :: "Tuning \<Rightarrow> string \<Rightarrow> (instant \<times> line) list \<Rightarrow> bool" where
  "timed c v ls \<longleftrightarrow> (\<exists>s s0. (s, Timed_out v) \<in> set ls \<and> tried v s0 ls \<and> s0 + PendingTimeout c \<le> s)"

text \<open>What the log holds before a rollback of \<open>v\<close> at \<open>t\<close> for \<open>reason\<close>.\<close>

definition reason_given :: "Tuning \<Rightarrow> instant \<Rightarrow> string \<Rightarrow> string \<Rightarrow> (instant \<times> line) list \<Rightarrow> bool" where
  "reason_given c t v reason ls \<longleftrightarrow>
     reason = ''boot_loop'' \<and> LoopMax c \<le> int (size (filter_mset (\<lambda>s. t - LoopWindow c < s) (exits v ls))) \<or>
     reason = ''pending_timeout'' \<and> timed c v ls \<or>
     reason = ''refused'' \<and> (\<exists>e. (t, Refused v e) \<in> set ls) \<or>
     reason = ''cant_start'' \<and> (t, Choice v ''rollback'') \<in> set ls"

definition cause :: "Tuning \<Rightarrow> instant \<Rightarrow> line \<Rightarrow> (instant \<times> line) list \<Rightarrow> bool" where
  "cause c t e ls = (case e of Rolled_back v reason b \<Rightarrow> reason_given c t v reason ls | _ \<Rightarrow> True)"

fun causes :: "Tuning \<Rightarrow> (instant \<times> line) list \<Rightarrow> bool" where
  "causes c [] = True"
| "causes c (x # ls) = (cause c (fst x) (snd x) ls \<and> causes c ls)"

definition accounted :: "Tuning \<Rightarrow> Launcher \<Rightarrow> bool" where
  "accounted c la \<longleftrightarrow> causes c (lines la) \<and>
     (guardVersion la \<noteq> '''' \<longrightarrow>
        mset (failures la) \<subseteq># exits (guardVersion la) (lines la) \<and> tried (guardVersion la) (firstStart la) (lines la))"

definition running_well :: "string \<Rightarrow> Launcher \<Rightarrow> bool" where
  "running_well v la \<longleftrightarrow> v \<noteq> '''' \<and> guardVersion la \<in> {'''', v} \<and> mset (failures la) \<subseteq># exits v (lines la)"

lemma exits_Cons [simp]: "exits v (x # ls) = (if failed_exit v (snd x) then {#fst x#} else {#}) + exits v ls"
  by (simp add: exits_def)

lemma exits_grow: "X \<subseteq># exits v ls \<Longrightarrow> X \<subseteq># exits v (x # ls)"
  by (auto intro: subset_mset.trans)

lemma tried_Cons [simp]: "tried v t ls \<Longrightarrow> tried v t (x # ls)"
  by (auto simp: tried_def)

lemma timed_Cons [simp]: "timed c v ls \<Longrightarrow> timed c v (x # ls)"
  unfolding timed_def by (meson list.set_intros(2) tried_Cons)

lemma reason_given_Cons:
  assumes "reason_given c t v reason ls"
  shows "reason_given c t v reason (x # ls)"
proof -
  let ?n = "\<lambda>ls. size (filter_mset (\<lambda>s. t - LoopWindow c < s) (exits v ls))"
  have "?n ls \<le> ?n (x # ls)" by simp
  then have "LoopMax c \<le> int (?n (x # ls))" if "LoopMax c \<le> int (?n ls)" using that by linarith
  moreover have "\<exists>e. (t, Refused v e) \<in> set (x # ls)" if "\<exists>e. (t, Refused v e) \<in> set ls" using that by auto
  ultimately show ?thesis
    using assms timed_Cons unfolding reason_given_def by (metis list.set_intros(2))
qed

lemma accounted_Event: "accounted c la \<Longrightarrow> cause c (clock i) e (lines la) \<Longrightarrow> accounted c (Event i e la)"
  unfolding accounted_def by (simp add: exits_grow del: exits_Cons)

lemma running_well_Event: "running_well v la \<Longrightarrow> running_well v (Event i e la)"
  unfolding running_well_def by (simp add: exits_grow del: exits_Cons)

lemma accounted_views [simp]:
  "accounted c (la\<lparr>disk := d\<rparr>) = accounted c la" "accounted c (la\<lparr>dbs := s\<rparr>) = accounted c la"
  "accounted c (la\<lparr>place := x\<rparr>) = accounted c la" "accounted c (la\<lparr>backoff := b\<rparr>) = accounted c la"
  "accounted c (la\<lparr>early := z\<rparr>) = accounted c la" "accounted c (la\<lparr>safeNext := n\<rparr>) = accounted c la"
  by (simp_all add: accounted_def)

lemma accounted_cleared: "accounted c la \<Longrightarrow> accounted c (la\<lparr>failures := [], guardVersion := ''''\<rparr>)"
  by (simp add: accounted_def)

lemma accounted_reconcile: "accounted c la \<Longrightarrow> accounted c (reconcile i la)"
  by (simp add: reconcile_def case_prod_beta Let_def accounted_Event cause_def)

lemma markRecord_log: "\<exists>xs. lines (markRecord i v rec reason la) = xs @ lines la"
  by (auto simp: markRecord_def case_prod_beta Let_def)

lemma accounted_rollback:
  assumes "accounted c la" and "reason_given c (clock i) v reason (lines la)"
  shows "accounted c (snd (rollback_version i v reason la))"
    and "guardVersion (snd (rollback_version i v reason la)) = ''''"
proof -
  define m where "m = la\<lparr>disk := snd (Rollback (outs i) (disk la)), failures := [], guardVersion := ''''\<rparr>"
  have m: "accounted c m" "reason_given c (clock i) v reason (lines m)" "guardVersion m = ''''"
    using assms by (simp_all add: m_def accounted_def)
  have k: "accounted c (markRecord i v rec r m)" "reason_given c (clock i) v reason (lines (markRecord i v rec r m))"
      "guardVersion (markRecord i v rec r m) = ''''" for rec r
    using m by (simp_all add: markRecord_def case_prod_beta Let_def accounted_Event cause_def reason_given_Cons)
  show "accounted c (snd (rollback_version i v reason la))"
    and "guardVersion (snd (rollback_version i v reason la)) = ''''"
    unfolding rollback_version_def case_prod_beta Let_def
    using m k by (auto simp: cause_def simp flip: m_def intro!: accounted_Event split: sum.split option.split)
qed

lemma accounted_choose_previous: "accounted c la \<Longrightarrow> accounted c (snd (choose_previous i v la))"
  by (auto simp: choose_previous_def cause_def intro!: accounted_Event split: sum.split option.split)

lemma accounted_choose: "accounted c la \<Longrightarrow> accounted c (snd (choose_release i la))"
proof (induction i la rule: choose_release.induct)
  case (1 i la)
  show ?case
  proof (cases "Current (disk la)")
    case (Inl e)
    then show ?thesis
      by (subst choose_release.simps) (simp add: accounted_choose_previous accounted_Event 1(2) cause_def)
  next
    case (Inr cur)
    show ?thesis
    proof (cases "ValidateRelease cur (disk la)")
      case None
      with Inr 1(2) show ?thesis by (subst choose_release.simps) simp
    next
      case (Some e)
      let ?l = "Event i (Refused cur e) la"
      have "accounted c ?l" using 1(2) by (simp add: accounted_Event cause_def)
      moreover have "reason_given c (clock i) cur ''refused'' (lines ?l)" by (auto simp: reason_given_def)
      ultimately have "accounted c (snd (rollback_version i cur ''refused'' ?l))" by (rule accounted_rollback)
      with 1(1) Inr Some \<open>accounted c ?l\<close> show ?thesis
        by (subst choose_release.simps) (simp add: Let_def accounted_choose_previous)
    qed
  qed
qed

text \<open>\<open>guard_start\<close> is followed by the line that says the release was started, or could not be.\<close>

lemma accounted_start:
  assumes "accounted c la" and "e = Started v (isPending v la) \<or> e = Start_error v" and "v \<noteq> ''''"
  shows "accounted c (Event i e (guard_start v i la))" and "running_well v (Event i e (guard_start v i la))"
proof -
  have "cause c t e ls" for t ls using assms(2) by (auto simp: cause_def)
  then show "accounted c (Event i e (guard_start v i la))"
    using assms unfolding accounted_def guard_start_def by (auto simp: exits_grow tried_def simp del: exits_Cons)
  show "running_well v (Event i e (guard_start v i la))"
    using assms unfolding accounted_def guard_start_def running_well_def by (auto simp: exits_grow simp del: exits_Cons)
qed

lemma accounted_sleep [simp]:
  "accounted c (sleep_backoff d la) = accounted c la" "accounted c (to_top d la) = accounted c la"
  "accounted c (snd (earlyExit d t code took la)) = accounted c la"
  by (simp_all add: sleep_backoff_def to_top_def earlyExit_def Let_def)

lemma accounted_after_exit:
  assumes "accounted c la" and "running_well v la"
  shows "accounted c (after_exit c i v code took la)"
proof (cases "code = ExitRestart")
  case True
  with assms show ?thesis by (simp add: after_exit_def accounted_Event cause_def)
next
  case False
  let ?l = "Event i (Child_exit v code took) la"
  let ?fs = "filter (\<lambda>t. clock i - LoopWindow c < t) (failures la @ [clock i])"
  have acc: "accounted c ?l" using assms(1) by (simp add: accounted_Event cause_def)
  have sub: "mset (failures la @ [clock i]) \<subseteq># exits v (lines ?l)"
    using assms(2) False by (simp add: running_well_def)
  then have fs: "mset ?fs \<subseteq># filter_mset (\<lambda>t. clock i - LoopWindow c < t) (exits v (lines ?l))"
    unfolding mset_filter by (rule multiset_filter_mono)
  then have mono: "mset ?fs \<subseteq># exits v (lines ?l)"
    by (meson multiset_filter_subset subset_mset.trans)
  let ?m = "?l\<lparr>failures := ?fs\<rparr>"
  have accm: "accounted c ?m"
    using acc mono assms(2) unfolding accounted_def running_well_def by (auto simp del: exits_Cons)
  have "accounted c (snd (rollback_version i v ''boot_loop'' ?m))" if "LoopMax c \<le> int (length ?fs)"
  proof (rule accounted_rollback(1) [OF accm])
    have "length ?fs \<le> size (filter_mset (\<lambda>t. clock i - LoopWindow c < t) (exits v (lines ?l)))"
      using size_mset_mono [OF fs] by (simp only: size_mset)
    with that show "reason_given c (clock i) v ''boot_loop'' (lines ?m)"
      unfolding reason_given_def by (simp del: exits_Cons)
  qed
  then have "accounted c (snd (count_failure c i v ?l))"
    using acc accm by (simp add: count_failure_def Let_def)
  then show ?thesis
    using False by (simp add: after_exit_def Let_def case_prod_beta accounted_Event cause_def)
qed

lemma Event_place: "Event i e (la\<lparr>place := x\<rparr>) = (Event i e la)\<lparr>place := x\<rparr>"
  by (simp add: Event_def)

lemma accounted_turn: "accounted c la \<Longrightarrow> accounted c (turn c i starts la)"
proof -
  assume a: "accounted c la"
  define m where "m = snd (choose_release (later 1 i) (reconcile i la))"
  define v where "v = fst (choose_release (later 1 i) (reconcile i la))"
  have m: "accounted c m" using a unfolding m_def by (intro accounted_choose accounted_reconcile)
  have "(guard_start v i m)\<lparr>safeNext := False\<rparr> = guard_start v i (m\<lparr>safeNext := False\<rparr>)"
    by (simp add: guard_start_def)
  with m accounted_start [of c "m\<lparr>safeNext := False\<rparr>" _ v i] accounted_after_exit show ?thesis
    unfolding turn_def Let_def case_prod_beta m_def [symmetric] v_def [symmetric] by (simp add: Event_place)
qed

definition in_account :: "Tuning \<Rightarrow> Launcher \<Rightarrow> bool" where
  "in_account c la \<longleftrightarrow> accounted c la \<and> (case place la of
       Up v t \<Rightarrow> running_well v la
     | Going v t b \<Rightarrow> b \<longrightarrow> timed c v (lines la)
     | _ \<Rightarrow> True)"

lemma running_well_views [simp]:
  "running_well v (la\<lparr>place := x\<rparr>) = running_well v la" "running_well v (la\<lparr>disk := d\<rparr>) = running_well v la"
  "running_well v (la\<lparr>confirmed := xs\<rparr>) = running_well v la" "running_well v (la\<lparr>damaged := xs\<rparr>) = running_well v la"
  "accounted c (la\<lparr>confirmed := xs\<rparr>) = accounted c la" "accounted c (la\<lparr>damaged := xs\<rparr>) = accounted c la"
  by (simp_all add: running_well_def accounted_def)

lemma after_exit_not_going [simp]: "place (after_exit c i v code took la) \<noteq> Going u t b"
  by (simp add: after_exit_def to_top_def sleep_backoff_def Let_def case_prod_beta)

lemma turn_not_going: "place (turn c i starts la) \<noteq> Going u t b"
  by (simp add: turn_def Let_def case_prod_beta sleep_backoff_def)

lemma turn_running_well:
  assumes "accounted c la" and "place (turn c i starts la) = Up v t"
  shows "running_well v (turn c i starts la)"
proof -
  define m where "m = snd (choose_release (later 1 i) (reconcile i la))"
  define u where "u = fst (choose_release (later 1 i) (reconcile i la))"
  have m: "accounted c (m\<lparr>safeNext := False\<rparr>)"
    using assms(1) unfolding m_def by (simp add: accounted_choose accounted_reconcile)
  have g: "(guard_start u i m)\<lparr>safeNext := False\<rparr> = guard_start u i (m\<lparr>safeNext := False\<rparr>)"
    by (simp add: guard_start_def)
  from turn_up [OF assms(2)] have "u = v" "v \<noteq> ''''" "starts" by (simp_all add: u_def)
  with accounted_start(2) [OF m, of "Started v (isPending v (m\<lparr>safeNext := False\<rparr>))" v i] g show ?thesis
    unfolding turn_def Let_def case_prod_beta m_def [symmetric] u_def [symmetric] by (simp add: Event_place)
qed

lemma deadline_after: "firstStart la + PendingTimeout c \<le> deadline c v la"
  by (auto simp: deadline_def Let_def split: sum.split option.split)

lemma in_account_tick: "in_account c la \<Longrightarrow> in_account c (tick_poll c i la)"
proof (cases "place la")
  case (Up v t)
  assume a: "in_account c la"
  show ?thesis
  proof (cases "guardVersion la = v \<and> isPending v la \<and> \<not> clock i < deadline c v la")
    case True
    have "v \<noteq> ''''" using a Up by (simp add: in_account_def running_well_def)
    with a True have "tried v (firstStart la) (lines la)" by (auto simp: in_account_def accounted_def)
    moreover have "firstStart la + PendingTimeout c \<le> clock i" using True deadline_after [of la c v] by linarith
    ultimately have "timed c v ((clock i, Timed_out v) # lines la)"
      unfolding timed_def by (intro exI [of _ "clock i"] exI [of _ "firstStart la"]) simp
    with a True Up show ?thesis by (simp add: tick_poll_def in_account_def Event_place accounted_Event cause_def)
  qed (use a Up in \<open>auto simp: tick_poll_def\<close>)
qed (simp_all add: tick_poll_def)

lemma in_account_step: "in_account c la \<Longrightarrow> in_account c (launcher_step c e la)"
proof (cases e)
  case (Turn i s)
  assume a: "in_account c la"
  then have "accounted c (turn c i s la)" by (simp add: in_account_def accounted_turn)
  then have "in_account c (turn c i s la)"
    using turn_running_well [of c la i s] turn_not_going [of c i s la] a by (auto simp: in_account_def split: place.split)
  with a Turn show ?thesis by (simp split: place.split)
next
  case (Exits i code)
  assume a: "in_account c la"
  have "in_account c (child_exits c i code la)"
  proof (cases "place la")
    case (Up v t)
    with a show ?thesis
      by (auto simp: in_account_def child_exits_def accounted_after_exit split: place.split)
  next
    case (Going v t b)
    have "accounted c (snd (rollback_version i v ''pending_timeout'' la))" if b
      using a Going that by (intro accounted_rollback) (simp_all add: in_account_def reason_given_def)
    with a Going show ?thesis
      by (cases b) (simp_all add: in_account_def child_exits_def accounted_Event cause_def to_top_def)
  qed (use a in \<open>simp_all add: child_exits_def\<close>)
  with Exits show ?thesis by simp
next
  case (Chosen i ch)
  assume a: "in_account c la"
  have "in_account c (choice_taken c i ch la)"
  proof (cases "place la")
    case (Asking v)
    let ?l = "Event i (Choice v ch) (la\<lparr>early := []\<rparr>)"
    have "accounted c ?l" using a by (simp add: in_account_def accounted_Event cause_def)
    moreover have "accounted c (snd (rollback_version i v ''cant_start'' ?l))" if "ch = ''rollback''"
      using \<open>accounted c ?l\<close> that by (intro accounted_rollback) (simp_all add: reason_given_def)
    ultimately show ?thesis
      using a Asking by (auto simp: in_account_def choice_taken_def Let_def to_top_def)
  qed (use a in \<open>simp_all add: choice_taken_def\<close>)
  with Chosen show ?thesis by simp
next
  case Boot
  assume "in_account c la"
  then show ?thesis by (simp add: Boot in_account_def boot_def accounted_def)
qed (simp_all add: in_account_tick, auto simp: in_account_def stop_asked_def serve_def damage_def split: place.splits)

lemma launched_in_account: "launched c la \<Longrightarrow> in_account c la"
proof (induction rule: launched.induct)
  case (launched_installed la)
  then show ?case by (simp add: installed_def in_account_def accounted_def)
qed (rule in_account_step)

lemma causes_at: "causes c (ys @ (t, e) # zs) \<Longrightarrow> cause c t e zs"
  by (induction ys) simp_all

text \<open>
  Wherever the log of a run has a rollback (the newest line is first), the lines before
  it give its reason: \<open>LoopMax\<close> failed exits of that release within the window, its pending timeout
  passed since it was started on trial, its directory refused, or a person's choice.
\<close>

theorem rollback_has_cause:
  assumes "launched c la" and "lines la = ys @ (t, Rolled_back v reason b) # zs"
  shows "reason_given c t v reason zs"
proof -
  have "causes c (lines la)" using launched_in_account [OF assms(1)] by (simp add: in_account_def accounted_def)
  with assms(2) have "cause c t (Rolled_back v reason b) zs" by (metis causes_at)
  then show ?thesis by (simp add: cause_def)
qed

section \<open>Concrete runs\<close>

definition sample :: Release where
  "sample = \<lparr>SHA256 = Some [(server, ''ab'')], digests = [(server, ''ab'')], shared = []\<rparr>"

definition one_release :: Install where
  "one_release = \<lparr>current_file = Holds (''1.0.0'' @ [CHR 0x0A]), previous_file = Missing, watermark_file = Missing,
     pending_file = Missing, releases = [(''1.0.0'', sample), (''1.1.0'', sample)]\<rparr>"

definition begin_run :: Launcher where
  "begin_run = \<lparr>disk = one_release,
     dbs = (\<lambda>_. Holds (Object [''version'' \<mapsto> Str ''1.1.0'', ''state'' \<mapsto> Str ''migrated'', ''dump'' \<mapsto> Str ''d'']))  ,
     guardVersion = '''', firstStart = 0, failures = [], early = [], safeNext = False, backoff = second, place = Top,
     lines = [], confirmed = [''1.0.0''], damaged = []\<rparr>"

definition usual :: Tuning where
  "usual = defaults \<lparr>PendingTimeout = 0, LoopWindow = 0, LoopMax = 0, BackoffInitial = 0, BackoffMax = 0,
     StableAfter = 0, CantStartLimit = 0\<rparr>"

definition moment :: "int \<Rightarrow> Inputs" where
  "moment s = \<lparr>clock = s * second, clock_text = ''t'', outs = (\<lambda>_. Written)\<rparr>"

definition update_journal :: Journal where
  "update_journal = new_journal 0 \<lparr>RunID = ''r'', JobVersion = ''1.1.0'', Tag = ''v1.1.0'', Home = True, Rehearse = False,
     WatchSeconds = 0, HealthSeconds = 0\<rparr> ''1.0.0''"

text \<open>Release 1.0.0 runs, switches to 1.1.0 and exits 75; 1.1.0 is started on trial.\<close>

definition to_trial :: "event list" where
  "to_trial = [Turn (moment 1) True, Serves (S_switch ''db'' (10 * second) update_journal (\<lambda>_. Written)),
     Exits (moment 11) 75, Turn (moment 12) True]"

definition on_the_new :: Launcher where
  "on_the_new = launcher_run usual to_trial begin_run"

lemma begin_installed: "installed begin_run"
  by code_simp

fun orderly_run :: "Tuning \<Rightarrow> event list \<Rightarrow> Launcher \<Rightarrow> bool" where
  "orderly_run c [] la \<longleftrightarrow> True"
| "orderly_run c (e # es) la \<longleftrightarrow> orderly_event e la \<and> orderly_run c es (launcher_step c e la)"

lemma launched_run: "launched c la \<Longrightarrow> orderly_run c es la \<Longrightarrow> launched c (launcher_run c es la)"
  by (induction es arbitrary: la) (simp_all add: launcher_run_def launched_step del: launcher_step.simps)

lemma trial_orderly: "orderly_run usual to_trial begin_run"
  by code_simp

lemma trial_launched: "launched usual on_the_new"
  unfolding on_the_new_def by (rule launched_run [OF launched_installed [OF begin_installed] trial_orderly])

lemma on_the_new_trying: "trying ''1.1.0'' ''1.0.0'' on_the_new" "failures on_the_new = []"
  by code_simp+


lemma only_checked_releases_start_witness:
  "ValidateRelease ''1.0.0'' (disk (launcher_step usual (Turn (moment 1) True) begin_run)) = None"
proof (rule only_checked_releases_start [of usual "Turn (moment 1) True" begin_run "''1.0.0''" second])
  show "place (launcher_step usual (Turn (moment 1) True) begin_run) = Up ''1.0.0'' second" by code_simp
  show "place begin_run \<noteq> Up ''1.0.0'' second" by (simp add: begin_run_def)
qed

text \<open>The release on trial was damaged and its server exited: the turn after it starts the release before.\<close>

definition damaged_trial :: Launcher where
  "damaged_trial = launcher_run usual [Damages ''1.1.0'' None, Exits (moment 13) 1] on_the_new"

lemma damaged_trial_launched: "launched usual damaged_trial"
proof -
  have "orderly_run usual [Damages ''1.1.0'' None, Exits (moment 13) 1] on_the_new" by code_simp
  from launched_run [OF trial_launched this] show ?thesis by (simp add: damaged_trial_def)
qed


definition three_crashes :: "(Inputs \<times> int \<times> Inputs) list" where
  "three_crashes = [(moment 13, 1, moment 14), (moment 15, 2, moment 17), (moment 18, 1, moment 22)]"


text \<open>After the third crash and the turn that follows, the newest lines but one are the rollback's.\<close>

definition after_crashes :: Launcher where
  "after_crashes = launcher_run usual (concat (map crash three_crashes)) on_the_new"

lemma after_crashes_launched: "launched usual after_crashes"
proof -
  have "orderly_run usual (concat (map crash three_crashes)) on_the_new" by code_simp
  from launched_run [OF trial_launched this] show ?thesis by (simp add: after_crashes_def)
qed

lemma rollback_has_cause_witness:
  "reason_given usual (18 * second) ''1.1.0'' ''boot_loop'' (drop 2 (lines after_crashes))"
proof (rule rollback_has_cause [OF after_crashes_launched])
  show "lines after_crashes = [(22 * second, Started ''1.0.0'' False)] @
      (18 * second, Rolled_back ''1.1.0'' ''boot_loop'' ''1.0.0'') # drop 2 (lines after_crashes)"
    by code_simp
qed

section \<open>What the guard does not catch\<close>

text \<open>
  A release on trial whose server exits 75 each time before the launcher polls is started again at
  once, for ever: such exits are not counted, and the pending timeout is looked at by a poll only.
\<close>

lemma restart_once:
  assumes "trying v b la"
  shows "trying v b (launcher_run c (crash (i, 75, j)) la)"
proof -
  obtain t where t: "place la = Up v t" using assms by (auto simp: trying_def split: place.splits)
  define m where "m = child_exits c i 75 la"
  have m: "m = to_top c (Event i (Restart v) la)"
    using t by (simp add: m_def child_exits_def after_exit_def ExitRestart_def)
  have "isPending v m" "Current (disk m) = Inr v" "ValidateRelease v (disk m) = None"
    using assms by (simp_all add: m to_top_def trying_def)
  moreover have "place m = Top" by (simp add: m to_top_def)
  ultimately have "launcher_run c (crash (i, 75, j)) la =
      Event j (Started v True) ((guard_start v j m)\<lparr>safeNext := False, place := Up v (clock j)\<rparr>)"
    using turn_current [of m v c j] by (simp add: launcher_run_def crash_def flip: m_def)
  with assms show ?thesis by (simp add: trying_def m to_top_def guard_start_def)
qed

lemma restarts_are_never_caught:
  "trying v b la \<Longrightarrow> trying v b (launcher_run c (concat (map (\<lambda>(i, j). crash (i, 75, j)) xs)) la)"
  by (induction xs arbitrary: la) (auto simp: launcher_run_append restart_once simp: launcher_run_def [of c "[]"])

lemma restarts_past_the_deadline:
  "deadline usual ''1.1.0'' on_the_new < clock (moment 1000000)"
  "lines (launcher_run usual (concat (map crash [(moment 1000000, 75, moment 1000000), (moment 1000001, 75, moment 1000001)])) on_the_new)
     = [(1000001 * second, Started ''1.1.0'' True), (1000001 * second, Restart ''1.1.0''),
        (1000000 * second, Started ''1.1.0'' True), (1000000 * second, Restart ''1.1.0'')] @ lines on_the_new"
  by code_simp+

text \<open>
  A rollback moves \<open>current\<close> first and marks the database's record last. When the write of the mark
  fails, or the sync after the marker's removal does, the release before starts on the database the
  new one migrated, and nothing says its dump is to be put back.
\<close>

definition third_crash :: "(nat \<Rightarrow> disk_write) \<Rightarrow> Launcher" where
  "third_crash ws = launcher_run usual (concat (map crash (take 2 three_crashes)) @
     [Exits (moment 18 \<lparr>outs := ws\<rparr>) 1, Turn (moment 22) True]) on_the_new"

definition record_state :: "Launcher \<Rightarrow> string" where
  "record_state la = (case dbs la ''db'' of Holds (Object r) \<Rightarrow> str r ''state'' | _ \<Rightarrow> '''')"

lemma rollback_marks_the_record:
  "place (third_crash (\<lambda>_. Written)) = Up ''1.0.0'' (22 * second)" "record_state (third_crash (\<lambda>_. Written)) = ''restoring''"
  by code_simp+

lemma rollback_without_the_mark:
  "place (third_crash (\<lambda>n. if n = 2 then Lost else Written)) = Up ''1.0.0'' (22 * second)"
  "record_state (third_crash (\<lambda>n. if n = 2 then Lost else Written)) = ''migrated''"
  "place (third_crash (\<lambda>n. if n = 1 then Unsynced else Written)) = Up ''1.0.0'' (22 * second)"
  "record_state (third_crash (\<lambda>n. if n = 1 then Unsynced else Written)) = ''migrated''"
  by code_simp+

text \<open>
  A release whose timeout has passed is asked to stop. What it confirms while it stops is not looked
  at again: the confirmed release is rolled back, and with no marker left its record is not marked.
\<close>

definition late_commit :: Launcher where
  "late_commit = launcher_run usual [Tick_poll (moment 100000),
     Serves (S_commit update_journal 3 [] [] (\<lambda>_. None) (\<lambda>_. Written)), Exits (moment 100001) 0] on_the_new"

lemma confirmed_while_stopping:
  "orderly_run usual [Tick_poll (moment 100000),
     Serves (S_commit update_journal 3 [] [] (\<lambda>_. None) (\<lambda>_. Written)), Exits (moment 100001) 0] on_the_new"
  "''1.1.0'' \<in> set (confirmed late_commit)" "Current (disk late_commit) = Inr ''1.0.0''"
  "record_state late_commit = ''migrated''" "layout_Watermark (disk late_commit) = ''1.1.0''"
  by code_simp+

text \<open>
  The updater's switch reports a failure when only the marker's second write fails, or the last sync:
  the new release is current all the same, and the next start runs it.
\<close>

lemma failed_switch_switches:
  "fst (installer_Switch ''db'' 0 update_journal (\<lambda>n. if n = 3 then Lost else Written) one_release) = Some ErrIO"
  "Current (snd (installer_Switch ''db'' 0 update_journal (\<lambda>n. if n = 3 then Lost else Written) one_release)) = Inr ''1.1.0''"
  "fst (installer_Switch ''db'' 0 update_journal (\<lambda>n. if n = 2 then Unsynced else Written) one_release) = Some ErrIO"
  "Current (snd (installer_Switch ''db'' 0 update_journal (\<lambda>n. if n = 2 then Unsynced else Written) one_release)) = Inr ''1.1.0''"
  by code_simp+

text \<open>
  A switch cut after its first write leaves the current release as its own release before: the one
  kept until then is no longer named, and a current release damaged later has nothing to fall back to.
\<close>

definition two_kept :: Install where
  "two_kept = one_release\<lparr>previous_file := Holds ''0.9.0'', releases := (''0.9.0'', sample) # releases one_release\<rparr>"

lemma cut_switch_loses_previous:
  "Previous two_kept = Inr ''0.9.0''" "ValidateRelease ''0.9.0'' two_kept = None"
  "Previous (snd (Switch ''1.1.0'' ''r'' 0 (\<lambda>n. if n = 1 then Lost else Written) two_kept)) = Inr ''1.0.0''"
  "Current (snd (Switch ''1.1.0'' ''r'' 0 (\<lambda>n. if n = 1 then Lost else Written) two_kept)) = Inr ''1.0.0''"
  by code_simp+

text \<open>
  The guard goes back to the release before without looking whether it can be started: when it was
  removed, a boot loop ends with nothing started although the release on trial still checks.
\<close>

definition no_way_back :: Launcher where
  "no_way_back = launcher_run usual (Damages ''1.0.0'' None # concat (map crash three_crashes)) on_the_new"

lemma rollback_to_nothing:
  "place no_way_back = Sleeping second" "Current (disk no_way_back) = Inr ''1.0.0''"
  "ValidateRelease ''1.1.0'' (disk no_way_back) = None"
  "fst (choose_release (moment 23) no_way_back) = ''''"
  by code_simp+

end
