(* ===== verification/Launcher_Phases.thy ===== *)
theory Launcher_Phases
  imports Launcher_Safety
begin

text \<open>
  What the pointer files stand for: a machine is settled on one release, or tries a new one with one
  to go back to. Every operation of the layout and every section of the launcher, with any outcome
  of its writes, is one move of that small machine or none.
\<close>

section \<open>The specification\<close>

datatype phase = Unset | Settled string | Trial string string

definition phase :: "Install \<Rightarrow> phase" where
  "phase d = (case Current d of
       Inl e \<Rightarrow> Unset
     | Inr v \<Rightarrow> if on_trial d v then Trial v (value_of (rollback_target d)) else Settled v)"

text \<open>A trial begins from the release it goes back to, and ends on one of the two; \<open>C\<close> are confirmed.\<close>

inductive moves :: "string set \<Rightarrow> phase \<Rightarrow> phase \<Rightarrow> bool" for C where
  stays: "moves C p p"
| tries: "v \<noteq> a \<Longrightarrow> moves C (Settled a) (Trial v a)"
| keeps: "moves C (Trial v a) (Settled v)"
| goes_back: "moves C (Trial v a) (Settled a)"
| returns: "a \<in> C \<Longrightarrow> moves C p (Settled a)"

inductive_simps moves_from_trial: "moves C (Trial v a) q"
inductive_simps moves_from_settled: "moves C (Settled v) q"

section \<open>The operations\<close>

lemma rollback_target_views [simp]:
  "rollback_target (d\<lparr>releases := rs\<rparr>) = rollback_target d"
  "ValidVersion v \<Longrightarrow> p \<noteq> PreviousFile \<Longrightarrow> rollback_target (set_pointer p (v @ [CHR 0x0A]) d) = rollback_target d"
  by (auto simp: rollback_target_def split: sum.split option.split)

lemma phase_views [simp]:
  "phase (d\<lparr>releases := rs\<rparr>) = phase d"
  "ValidVersion v \<Longrightarrow> phase (set_pointer WatermarkFile (v @ [CHR 0x0A]) d) = phase d"
  by (auto simp: phase_def split: sum.split)

lemma phase_current:
  "ValidVersion v \<Longrightarrow> \<not> on_trial d v \<Longrightarrow> phase (set_pointer CurrentFile (v @ [CHR 0x0A]) d) = Settled v"
  by (simp add: phase_def)

lemma phase_cleared: "Current d = Inr v \<Longrightarrow> phase (d\<lparr>pending_file := Missing\<rparr>) = Settled v"
  by (simp add: phase_def)

lemma phase_cases:
  assumes "sound C D d"
  obtains v where "Current d = Inr v" and "phase d = Settled v" and "\<not> on_trial d v" and "v \<in> C"
  | v p where "Current d = Inr v" and "ReadPending d = Inr (Some p)" and "pVersion p = v"
      and "rollback_target d = Inr (pPrevious p)" and "phase d = Trial v (pPrevious p)"
proof -
  obtain v where v: "Current d = Inr v" "v \<in> C \<or> on_trial d v" using assms by (rule soundE)
  show ?thesis
  proof (cases "on_trial d v")
    case True
    then obtain p where p: "ReadPending d = Inr (Some p)" "pVersion p = v"
      by (auto simp: on_trial_def split: sum.splits option.splits)
    then have "rollback_target d = Inr (pPrevious p)" using sound_pending(4) [OF assms p(1)] by (simp add: rollback_target_def)
    with True v p that(2) show ?thesis by (simp add: phase_def value_of_def)
  next
    case False
    with v that(1) show ?thesis by (simp add: phase_def)
  qed
qed

lemma WriteFileAtomic_cases: "snd (WriteFileAtomic w f d) = d \<or> snd (WriteFileAtomic w f d) = f d"
  by (cases w) (simp_all add: WriteFileAtomic_def)

lemma write_fst: "fst (WriteFileAtomic w f d) = None \<Longrightarrow> snd (WriteFileAtomic w f d) = f d"
  by (cases w) (simp_all add: WriteFileAtomic_def)

lemma WritePointer_cases: "ValidVersion v \<Longrightarrow> snd (WritePointer p v w d) \<in> {d, set_pointer p (v @ [CHR 0x0A]) d}"
  using WriteFileAtomic_cases [of w "set_pointer p (v @ [CHR 0x0A])" d] by (auto simp: WritePointer_snd)

lemma WritePointer_fst:
  "ValidVersion v \<Longrightarrow> fst (WritePointer p v w d) = None \<Longrightarrow> snd (WritePointer p v w d) = set_pointer p (v @ [CHR 0x0A]) d"
  using write_fst [of w "set_pointer p (v @ [CHR 0x0A])" d] by (simp add: WritePointer_def)

lemma write_pending_cases: "snd (write_pending q w d) \<in> {d, d\<lparr>pending_file := Holds (Marker q)\<rparr>}"
  using WriteFileAtomic_cases [of w "\<lambda>d. d\<lparr>pending_file := Holds (Marker q)\<rparr>" d] by (auto simp: write_pending_def)

lemma write_pending_fst: "fst (write_pending q w d) = None \<Longrightarrow> snd (write_pending q w d) = d\<lparr>pending_file := Holds (Marker q)\<rparr>"
  using write_fst [of w "\<lambda>d. d\<lparr>pending_file := Holds (Marker q)\<rparr>" d] by (simp add: write_pending_def)

lemma phase_marker_kept:
  assumes "ReadPending d = Inr (Some p)" and "pVersion q = pVersion p" and "pPrevious q = pPrevious p"
  shows "phase (snd (write_pending q w d)) = phase d"
proof -
  have "ValidVersion (pVersion p)" using assms(1) by (auto simp: ReadPending_def split: stored.splits marker.splits if_splits)
  then have "phase (d\<lparr>pending_file := Holds (Marker q)\<rparr>) = phase d"
    using assms by (auto simp: phase_def on_trial_def rollback_target_def split: sum.split)
  then show ?thesis using write_pending_cases [of q w d] by auto
qed

lemma phase_GuardPending [simp]: "phase (snd (GuardPending v t r w d)) = phase d"
  by (auto simp: GuardPending_def phase_marker_kept split: sum.split option.split)

lemma phase_ExtendPending [simp]: "phase (snd (snd (ExtendPending r t w d))) = phase d"
  by (auto simp: ExtendPending_def phase_marker_kept split: sum.split option.split)

lemma phase_Prune [simp]: "phase (snd (Prune left keep inUse d)) = phase d"
  by (simp add: Prune_def case_prod_beta)

lemma phase_RaiseWatermark [simp]: "phase (snd (RaiseWatermark v w d)) = phase d"
  using WriteFileAtomic_cases [of w "set_pointer WatermarkFile (v @ [CHR 0x0A])" d]
  by (auto simp: RaiseWatermark_def Let_def WritePointer_snd)

lemma phase_ClearPending:
  assumes "sound C D d"
  shows "moves C (phase d) (phase (snd (ClearPending w d)))"
  using assms
proof (cases rule: phase_cases)
  case (1 v)
  with ClearPending_cases [of w d] show ?thesis by (auto simp: phase_cleared intro: moves.intros)
next
  case (2 v p)
  with ClearPending_cases [of w d] show ?thesis by (auto simp: phase_cleared intro: moves.intros)
qed

lemma phase_previous:
  assumes "\<not> on_trial d u" and "Current d = Inr u" and "ValidVersion v"
  shows "phase (set_pointer PreviousFile (v @ [CHR 0x0A]) d) = Settled u"
  using assms by (simp add: phase_def)

lemma phase_switch_steps:
  assumes "sound C D d" and "Current d = Inr old" and "\<not> on_trial d old" and "ValidVersion v" and "old \<noteq> v"
  shows "phase (snd (switch_steps old v r t ws d)) \<in> {Settled old, Trial v old}"
proof -
  let ?p = "\<lparr>pVersion = v, pPrevious = old, pRunID = r, pSince = t, pDeadline = None, pRecord = ''''\<rparr>"
  have old: "ValidVersion old" using assms(1,2) by (auto simp: sound_def fine_def)
  then have ne: "old \<noteq> ''''" by auto
  let ?d1 = "set_pointer PreviousFile (old @ [CHR 0x0A]) d"
  let ?d2 = "?d1\<lparr>pending_file := Holds (Marker ?p)\<rparr>"
  have p1: "phase d = Settled old" "phase ?d1 = Settled old" "phase ?d2 = Settled old"
    using assms(2-5) old by (simp_all add: phase_def)
  have "rollback_target (set_pointer CurrentFile (v @ [CHR 0x0A]) ?d2) = Inr old"
    using assms(4) ne by (simp add: rollback_target_def)
  then have p3: "phase (set_pointer CurrentFile (v @ [CHR 0x0A]) ?d2) = Trial v old"
    using assms(4) by (simp add: phase_def value_of_def)
  have s: "snd (WritePointer PreviousFile old (ws 0) d) \<in> {d, ?d1}" "snd (write_pending ?p (ws 1) ?d1) \<in> {?d1, ?d2}"
      "snd (WritePointer CurrentFile v (ws 2) ?d2) \<in> {?d2, set_pointer CurrentFile (v @ [CHR 0x0A]) ?d2}"
    using WritePointer_cases write_pending_cases old assms(4) by blast+
  have f: "fst (WritePointer PreviousFile old (ws 0) d) = None \<Longrightarrow> snd (WritePointer PreviousFile old (ws 0) d) = ?d1"
      "fst (write_pending ?p (ws 1) ?d1) = None \<Longrightarrow> snd (write_pending ?p (ws 1) ?d1) = ?d2"
    using WritePointer_fst [OF old] write_pending_fst by blast+
  have "snd (switch_steps old v r t ws d) \<in> {d, ?d1, ?d2, set_pointer CurrentFile (v @ [CHR 0x0A]) ?d2}"
    using s f ne by (auto simp: switch_steps_def Let_def case_prod_beta)
  with p1 p3 show ?thesis by auto
qed

lemma moves_Switch:
  assumes "sound C D d" and "\<And>u. Current d = Inr u \<Longrightarrow> \<not> on_trial d u"
  shows "moves C (phase d) (phase (snd (Switch v r t ws d)))"
  using assms(1)
proof (cases rule: phase_cases)
  case (1 old)
  show ?thesis
  proof (cases "ValidateRelease v d = None \<and> old \<noteq> v")
    case True
    then have "ValidVersion v" using ValidateRelease_valid by blast
    with phase_switch_steps [OF assms(1) 1(1,3), of v r t ws] True 1 show ?thesis
      by (auto simp: Switch_def intro: moves.intros)
  next
    case False
    then have "snd (Switch v r t ws d) = d" using 1(1) by (auto simp: Switch_def split: option.split)
    then show ?thesis by (simp add: stays)
  qed
next
  case (2 v p)
  with assms(2) show ?thesis by (auto simp: on_trial_def)
qed

lemma moves_installer_Switch:
  assumes "sound C D d" and "\<And>u. Current d = Inr u \<Longrightarrow> \<not> on_trial d u"
  shows "moves C (phase d) (phase (snd (installer_Switch rec t j ws d)))"
  using moves_Switch [OF assms] by (simp add: installer_Switch_def Let_def case_prod_beta)

lemma moves_Rollback:
  assumes "sound C D d"
  shows "moves C (phase d) (phase (snd (Rollback ws d)))"
proof (cases "rollback_target d")
  case (Inr b)
  have b: "ValidVersion b" "b \<in> C" "\<not> on_trial d b"
    using assms Inr sound_pending [OF assms]
    by (auto simp: rollback_target_def sound_def fine_def on_trial_def split: sum.splits option.splits if_splits)
  let ?d1 = "set_pointer CurrentFile (b @ [CHR 0x0A]) d"
  have p: "phase ?d1 = Settled b" "phase (?d1\<lparr>pending_file := Missing\<rparr>) = Settled b"
    using b by (simp_all add: phase_def)
  have "snd (Rollback ws d) \<in> {d, ?d1, ?d1\<lparr>pending_file := Missing\<rparr>}"
    using WritePointer_cases [OF b(1), of CurrentFile "ws 0" d] WritePointer_fst [OF b(1), of CurrentFile "ws 0" d]
      ClearPending_cases [of "ws 1" ?d1] Inr
    by (auto simp: Rollback_def Let_def case_prod_beta)
  with p b(2) show ?thesis by (auto intro: moves.intros)
qed (simp add: Rollback_def stays)

lemma moves_Revert:
  assumes "sound C D d" and "NormalizeVersion (From j) \<in> C" and "\<not> on_trial d (NormalizeVersion (From j))"
  shows "moves C (phase d) (phase (snd (installer_Revert j ws d)))"
proof -
  let ?o = "NormalizeVersion (From j)" and ?d1 = "set_pointer CurrentFile (NormalizeVersion (From j) @ [CHR 0x0A]) d"
  show ?thesis
  proof (cases "?o = '''' \<or> value_of (Current d) = ?o \<or> ValidateRelease ?o d \<noteq> None")
    case True
    then have "snd (installer_Revert j ws d) \<in> {d, snd (ClearPending (ws 0) d)}"
      by (auto simp: installer_Revert_def Let_def split: option.split)
    with phase_ClearPending [OF assms(1), of "ws 0"] show ?thesis by (auto intro: stays)
  next
    case False
    then have v: "ValidVersion ?o" using ValidateRelease_valid by blast
    have p: "phase ?d1 = Settled ?o" "phase (?d1\<lparr>pending_file := Missing\<rparr>) = Settled ?o"
      using v assms(3) by (simp_all add: phase_def)
    have "snd (installer_Revert j ws d) \<in> {d, ?d1, ?d1\<lparr>pending_file := Missing\<rparr>}"
      using WritePointer_cases [OF v, of CurrentFile "ws 1" d] WritePointer_fst [OF v, of CurrentFile "ws 1" d]
        ClearPending_cases [of "ws 0" ?d1] False
      by (auto simp: installer_Revert_def Let_def case_prod_beta)
    with p assms(2) show ?thesis by (auto intro: moves.intros)
  qed
qed

lemma moves_confirmed:
  assumes "sound C D d" and "snd (ClearPending w d) = d1" and "phase d' \<in> {phase d, phase d1}"
  shows "moves C (phase d) (phase d')"
  using assms(3) phase_ClearPending [OF assms(1), of w] assms(2) by (auto intro: stays)

lemma moves_served:
  assumes "sound C D d" and "orderly oper C d"
  shows "moves C (phase d) (phase (served v oper d))"
proof (cases oper)
  case (S_switch rec t j ws)
  with assms(2) have "\<not> on_trial d u" if "Current d = Inr u" for u using that by (simp add: orderly_def)
  from moves_installer_Switch [OF assms(1) this] S_switch show ?thesis by simp
next
  case (S_extend j t w)
  then show ?thesis by (simp add: installer_Extend_def stays)
next
  case (S_revert j ws)
  with moves_Revert [OF assms(1)] assms(2) show ?thesis by (simp add: orderly_def)
next
  case (S_commit j n tv procs left ws)
  have "phase (served v oper d) = phase (snd (ClearPending (ws 0) d))"
    by (simp add: S_commit installer_Commit_def Confirm_def Let_def case_prod_beta)
  then show ?thesis using phase_ClearPending [OF assms(1)] by simp
next
  case (S_discard s left)
  then show ?thesis by (simp add: installer_Discard_def stays)
next
  case (S_confirm h ws)
  have "phase (served v oper d) \<in> {phase d, phase (snd (ClearPending (ws 0) d))}"
    by (auto simp: S_confirm confirmPending_def Confirm_def Let_def case_prod_beta split: sum.split option.split)
  with moves_confirmed [OF assms(1) refl] show ?thesis by blast
next
  case (S_place s r)
  then show ?thesis by (simp add: place_release_def stays)
qed

section \<open>The launcher\<close>

text \<open>A stale marker's removal is no move: it names a release that is not the current one.\<close>

lemma phase_Reconcile:
  assumes "sound C D d"
  shows "phase (snd (snd (Reconcile w d))) = phase d"
  using assms
proof (cases rule: phase_cases)
  case (1 v)
  with ClearPending_cases [of w d] show ?thesis by (auto simp: Reconcile_def phase_cleared split: sum.split option.split)
next
  case (2 v p)
  then show ?thesis by (simp add: Reconcile_def)
qed

lemma phase_reconcile: "guarded la \<Longrightarrow> phase (disk (reconcile i la)) = phase (disk la)"
  using phase_Reconcile [of "set (confirmed la)" "set (damaged la)" "disk la" "outs i 0"]
  by (auto simp: guarded_def reconcile_def case_prod_beta Let_def)

lemma rollback_disk: "disk (snd (rollback_version i v reason la)) = snd (Rollback (outs i) (disk la))"
  by (auto simp: rollback_version_def case_prod_beta Let_def split: sum.split option.split)

lemma moves_rollback:
  "guarded la \<Longrightarrow> moves (set (confirmed la)) (phase (disk la)) (phase (disk (snd (rollback_version i v reason la))))"
  unfolding rollback_disk using moves_Rollback [of "set (confirmed la)"] by (auto simp: guarded_def)

lemma choose_previous_disk [simp]: "disk (snd (choose_previous i v la)) = disk la"
  by (simp add: choose_previous_def split: sum.split option.split)

text \<open>A choice rolls back once at most, and then there is no marker left, or nothing is chosen.\<close>

lemma choose_no_marker:
  assumes "pending_file (disk la) = Missing"
  shows "disk (snd (choose_release i la)) = disk la"
proof -
  have "\<not> isPending v la" for v using assms by (simp add: isPending_def ReadPending_def)
  then show ?thesis by (subst choose_release.simps) (simp add: Let_def split: sum.split option.split)
qed

lemma choose_disk:
  "disk (snd (choose_release i la)) = disk la \<or>
   (\<exists>i' v la'. disk la' = disk la \<and> confirmed la' = confirmed la \<and> damaged la' = damaged la \<and>
      disk (snd (choose_release i la)) = disk (snd (rollback_version i' v ''refused'' la')) \<and>
      (fst (choose_release i la) \<noteq> '''' \<longrightarrow> pending_file (disk (snd (choose_release i la))) = Missing))"
proof (cases "Current (disk la)")
  case (Inl e)
  then show ?thesis by (subst (1) choose_release.simps) simp
next
  case (Inr cur)
  show ?thesis
  proof (cases "ValidateRelease cur (disk la)")
    case None
    with Inr show ?thesis by (subst (1) choose_release.simps) simp
  next
    case (Some e)
    let ?l = "Event i (Refused cur e) la" and ?r = "rollback_version i cur ''refused'' (Event i (Refused cur e) la)"
    show ?thesis
    proof (cases "isPending cur la")
      case True
      then have c: "choose_release i la = (if fst ?r then choose_release (later 3 i) (snd ?r) else ('''', snd ?r))"
        using Inr Some by (subst choose_release.simps) (simp add: Let_def)
      have m: "pending_file (disk (snd ?r)) = Missing" if "fst ?r"
        using that rollback_clears(1) [of i cur "''refused''" ?l "snd ?r"] by (simp add: prod_eq_iff)
      have "disk (snd (choose_release i la)) = disk (snd ?r)"
        using c choose_no_marker [OF m, of "later 3 i"] by auto
      moreover have "fst (choose_release i la) \<noteq> '''' \<longrightarrow> pending_file (disk (snd ?r)) = Missing" using c m by auto
      ultimately show ?thesis by (intro disjI2 exI [of _ i] exI [of _ cur] exI [of _ ?l]) simp
    next
      case False
      with Inr Some show ?thesis by (subst (1) choose_release.simps) (simp add: Let_def)
    qed
  qed
qed

lemma after_exit_disk:
  "disk (after_exit c i v code took la) = disk la \<or>
   isPending v la \<and> (\<exists>la'. disk la' = disk la \<and> confirmed la' = confirmed la \<and> damaged la' = damaged la \<and>
      disk (after_exit c i v code took la) = disk (snd (rollback_version i v ''boot_loop'' la')))"
proof -
  let ?l = "Event i (Child_exit v code took) la"
  have e: "disk (after_exit c i v code took la) =
      (if code = ExitRestart then disk la else disk (snd (count_failure c i v ?l)))"
    by (simp add: after_exit_def Let_def case_prod_beta to_top_def sleep_backoff_def earlyExit_def)
  have "disk (snd (count_failure c i v ?l)) = disk la \<or>
      isPending v la \<and> disk (snd (count_failure c i v ?l)) =
        disk (snd (rollback_version i v ''boot_loop''
          (?l\<lparr>failures := filter (\<lambda>t. clock i - LoopWindow c < t) (failures la @ [clock i])\<rparr>)))"
    by (simp add: count_failure_def Let_def)
  with e show ?thesis by (cases "code = ExitRestart") (auto intro!: exI [of _ "?l\<lparr>failures := _\<rparr>"])
qed

lemma moves_like:
  assumes "guarded la" and "disk la' = disk la" and "confirmed la' = confirmed la" and "damaged la' = damaged la"
  shows "moves (set (confirmed la)) (phase (disk la)) (phase (disk (snd (rollback_version i v reason la'))))"
  using assms moves_rollback [of la' i v reason] by (simp add: guarded_def)

lemma after_exit_moves:
  "guarded la \<Longrightarrow> moves (set (confirmed la)) (phase (disk la)) (phase (disk (after_exit c i v code took la)))"
  using after_exit_disk [of c i v code took la] moves_like [of la] by (metis stays)

lemma reconcile_ghosts [simp]: "confirmed (reconcile i la) = confirmed la" "damaged (reconcile i la) = damaged la"
  by (simp_all add: reconcile_def case_prod_beta Let_def)

lemma turn_disk:
  fixes c i la
  defines "m \<equiv> choose_release (later 1 i) (reconcile i la)"
  shows "disk (turn c i starts la) = disk (snd m) \<or>
     fst m \<noteq> '''' \<and> isPending (fst m) (snd m) \<and>
     (\<exists>la'. disk la' = disk (snd m) \<and> disk (turn c i starts la) = disk (snd (rollback_version (later 8 i) (fst m) ''boot_loop'' la')))"
proof -
  let ?n = "Event i (Start_error (fst m)) ((guard_start (fst m) i (snd m))\<lparr>safeNext := False\<rparr>)"
  have "disk ?n = disk (snd m)" "isPending (fst m) ?n = isPending (fst m) (snd m)" by simp_all
  with after_exit_disk [of c "later 8 i" "fst m" "-1" 0 ?n] show ?thesis
    unfolding turn_def Let_def case_prod_beta m_def [symmetric] by (auto simp: sleep_backoff_def)
qed

lemma moves_turn:
  assumes "guarded la"
  shows "moves (set (confirmed la)) (phase (disk la)) (phase (disk (turn c i starts la)))"
proof -
  let ?r = "reconcile i la" and ?m = "choose_release (later 1 i) (reconcile i la)"
  have r: "guarded ?r" "phase (disk ?r) = phase (disk la)" using assms by (simp_all add: guarded_reconcile phase_reconcile)
  from choose_disk [of "later 1 i" ?r] show ?thesis
  proof
    assume d: "disk (snd ?m) = disk ?r"
    have "moves (set (confirmed la)) (phase (disk la)) (phase (snd (Rollback (outs j) (disk ?r))))" for j :: Inputs
      using moves_rollback [OF r(1), of j "''''" "''''"] r(2) by (simp add: rollback_disk)
    with turn_disk [of c i starts la] d r(2) show ?thesis by (auto simp: rollback_disk intro: stays)
  next
    assume "\<exists>i' v la'. disk la' = disk ?r \<and> confirmed la' = confirmed ?r \<and> damaged la' = damaged ?r \<and>
      disk (snd ?m) = disk (snd (rollback_version i' v ''refused'' la')) \<and>
      (fst ?m \<noteq> '''' \<longrightarrow> pending_file (disk (snd ?m)) = Missing)"
    then obtain i' v la' where l: "disk la' = disk ?r" "confirmed la' = confirmed ?r" "damaged la' = damaged ?r"
      "disk (snd ?m) = disk (snd (rollback_version i' v ''refused'' la'))"
      "fst ?m \<noteq> '''' \<longrightarrow> pending_file (disk (snd ?m)) = Missing" by blast
    from l(5) turn_disk [of c i starts la] have "disk (turn c i starts la) = disk (snd ?m)"
      by (auto simp: isPending_def ReadPending_def)
    with moves_like [OF r(1) l(1-3)] l(4) r(2) show ?thesis by simp
  qed
qed



end
