(* ===== verification/Update_Window.thy ===== *)
theory Update_Window
  imports Prelude
begin

text \<open>
  The quiet window in which a home installs releases by itself:
  \<^verbatim>\<open>api/internal/updates/window.go\<close>. A window is read from a string; its occurrences are readings of a
  local clock, whose zone changes its offset at known instants. Instants and durations are
  nanoseconds; a calendar day is its number since 1970-01-01, so that Go's normalising \<open>time.Date\<close>
  and \<open>AddDate\<close> add days to it. Each of the package's rules for zones (\<open>lookup\<close>, \<open>Date\<close>,
  \<open>ZoneBounds\<close>) is written out, without the cache and with a zone's rule expanded into its changes.
\<close>

section \<open>Zones and local time (package time)\<close>

abbreviation hour :: duration where
  "hour \<equiv> 60 * minute"

abbreviation day :: duration where
  "day \<equiv> 86400000000000"

text \<open>A zone: the offset before its first change, and the changes with the offset each brings.\<close>

record Location =
  firstOffset :: duration
  changes :: "(instant \<times> duration) list"

text \<open>The offset at an instant, with the bounds of the stretch it holds in (\<open>None\<close>: without end).\<close>

fun lookup_in :: "instant option \<Rightarrow> duration \<Rightarrow> (instant \<times> duration) list \<Rightarrow> instant
    \<Rightarrow> duration \<times> instant option \<times> instant option" where
  "lookup_in start offset [] t = (offset, start, None)"
| "lookup_in start offset ((w, o') # cs) t =
     (if t < w then (offset, start, Some w) else lookup_in (Some w) o' cs t)"

definition lookup :: "Location \<Rightarrow> instant \<Rightarrow> duration \<times> instant option \<times> instant option" where
  "lookup loc = lookup_in None (firstOffset loc) (changes loc)"

definition offset_at :: "Location \<Rightarrow> instant \<Rightarrow> duration" where
  "offset_at loc t = fst (lookup loc t)"

definition ZoneBounds :: "Location \<Rightarrow> instant \<Rightarrow> instant option \<times> instant option" where
  "ZoneBounds loc t = snd (lookup loc t)"

text \<open>\<open>time.Date\<close>: the offset of the reading taken as UTC, unless it does not hold there.\<close>

definition Date :: "Location \<Rightarrow> int \<Rightarrow> duration \<Rightarrow> instant" where
  "Date loc d reading =
    (let unix = d * day + reading; (offset, start, end') = lookup loc unix in
     if offset = 0 then unix
     else
       let utc = unix - offset;
           outside = (case start of Some s \<Rightarrow> utc < s | None \<Rightarrow> False) \<or> (case end' of Some e \<Rightarrow> e \<le> utc | None \<Rightarrow> False)
       in unix - (if outside then offset_at loc utc else offset))"

definition local_day :: "Location \<Rightarrow> instant \<Rightarrow> int" where
  "local_day loc t = (t + offset_at loc t) div day"

definition local_reading :: "Location \<Rightarrow> instant \<Rightarrow> duration" where
  "local_reading loc t = (t + offset_at loc t) mod day"

definition AddDate :: "Location \<Rightarrow> instant \<Rightarrow> int \<Rightarrow> instant" where
  "AddDate loc t days = Date loc (local_day loc t + days) (local_reading loc t)"

section \<open>The window (window.go)\<close>

definition StartMargin :: duration where
  "StartMargin = 30 * minute"

record Window =
  StartMin :: int
  EndMin :: int

datatype window_error = ErrBadWindow

definition hhmm :: "string \<Rightarrow> int option" where
  "hhmm s =
    (case cut_at (CHR '':'') (trim_space s) of
       None \<Rightarrow> None
     | Some (h, m) \<Rightarrow>
         if length h = 0 \<or> 2 < length h \<or> length m \<noteq> 2 then None
         else (case atoi h of
                 None \<Rightarrow> None
               | Some hn \<Rightarrow>
                   if hn < 0 \<or> 23 < hn then None
                   else (case atoi m of
                           None \<Rightarrow> None
                         | Some mn \<Rightarrow> if mn < 0 \<or> 59 < mn then None else Some (hn * 60 + mn))))"

definition ParseWindow :: "string \<Rightarrow> window_error + Window" where
  "ParseWindow s =
    (case cut_at (CHR ''-'') (trim_space s) of
       None \<Rightarrow> Inl ErrBadWindow
     | Some (a, b) \<Rightarrow>
         (case (hhmm a, hhmm b) of
            (Some sm, Some em) \<Rightarrow>
              if sm = em then Inl ErrBadWindow
              else if go_rem (em - sm + 1440) 1440 \<le> go_quot StartMargin minute then Inl ErrBadWindow
              else Inr \<lparr>StartMin = sm, EndMin = em\<rparr>
          | _ \<Rightarrow> Inl ErrBadWindow))"

text \<open>\<open>%02d\<close> of a number below 100.\<close>

definition two_digits :: "int \<Rightarrow> string" where
  "two_digits n = [char_of (nat (48 + n div 10)), char_of (nat (48 + n mod 10))]"

definition String :: "Window \<Rightarrow> string" where
  "String w = two_digits (go_quot (StartMin w) 60) @ '':'' @ two_digits (go_rem (StartMin w) 60) @ ''-''
     @ two_digits (go_quot (EndMin w) 60) @ '':'' @ two_digits (go_rem (EndMin w) 60)"

definition wallTime :: "Location \<Rightarrow> int \<Rightarrow> int \<Rightarrow> instant" where
  "wallTime loc d mins =
    (let t = Date loc d (go_quot mins 60 * hour + go_rem mins 60 * minute);
         r = local_reading loc t; (zs, ze) = ZoneBounds loc t in
     if r div hour = go_quot mins 60 \<and> r mod hour div minute = go_rem mins 60 then t
     else (case zs of
             Some s \<Rightarrow> if t - s < 3 * hour \<and> - 3 * hour \<le> t - s then s
                       else (case ze of Some e \<Rightarrow> e | None \<Rightarrow> t)
           | None \<Rightarrow> (case ze of Some e \<Rightarrow> e | None \<Rightarrow> t)))"

definition Occurrence :: "Window \<Rightarrow> instant \<Rightarrow> Location \<Rightarrow> instant \<times> instant" where
  "Occurrence w t loc =
    (let d = local_day loc t; endDay = (if EndMin w \<le> StartMin w then d + 1 else d) in
     (wallTime loc d (StartMin w), wallTime loc endDay (EndMin w)))"

fun containing_in :: "Window \<Rightarrow> instant \<Rightarrow> Location \<Rightarrow> int list \<Rightarrow> (instant \<times> instant) option" where
  "containing_in w t loc [] = None"
| "containing_in w t loc (off # offs) =
     (let (s, e) = Occurrence w (AddDate loc t off) loc in
      if s \<le> t \<and> t < e then Some (s, e) else containing_in w t loc offs)"

definition search_days :: "int list" where
  "search_days = [-1..370]"

definition Containing :: "Window \<Rightarrow> instant \<Rightarrow> Location \<Rightarrow> (instant \<times> instant) option" where
  "Containing w t loc = containing_in w t loc [-1, 0]"

definition CanStart :: "Window \<Rightarrow> instant \<Rightarrow> Location \<Rightarrow> bool" where
  "CanStart w t loc = (case Containing w t loc of Some (_, e) \<Rightarrow> t \<le> e - StartMargin | None \<Rightarrow> False)"

fun next_in :: "Window \<Rightarrow> instant \<Rightarrow> Location \<Rightarrow> int list \<Rightarrow> instant option" where
  "next_in w from' loc [] = None"
| "next_in w from' loc (off # offs) =
     (let (s, e) = Occurrence w (AddDate loc from' off) loc; latest = e - StartMargin in
      if latest < s \<or> latest < from' then next_in w from' loc offs
      else if s < from' then Some from' else Some s)"

text \<open>\<open>None\<close> is the zero time.\<close>

definition NextStart :: "Window \<Rightarrow> instant \<Rightarrow> Location \<Rightarrow> instant option" where
  "NextStart w from' loc = (if CanStart w from' loc then Some from' else next_in w from' loc search_days)"

section \<open>Reading and writing a window\<close>

definition valid_window :: "Window \<Rightarrow> bool" where
  "valid_window w \<longleftrightarrow> 0 \<le> StartMin w \<and> StartMin w < 1440 \<and> 0 \<le> EndMin w \<and> EndMin w < 1440
     \<and> 30 < (EndMin w - StartMin w) mod 1440"

lemma cut_at_append: "c \<notin> set a \<Longrightarrow> cut_at c (a @ c # b) = Some (a, b)"
  by (induction a) (auto simp: cut_at_def)

lemma trim_space_id: "list_all (\<lambda>c. \<not> is_space c) s \<Longrightarrow> trim_space s = s"
proof -
  assume "list_all (\<lambda>c. \<not> is_space c) s"
  then have "dropWhile is_space t = t" if "set t = set s" for t
    using that by (cases t) (auto simp: list_all_iff)
  then show ?thesis by (simp add: trim_space_def)
qed

definition plain_digits :: "string \<Rightarrow> bool" where
  "plain_digits s \<longleftrightarrow> length s = 2 \<and> list_all (\<lambda>c. \<not> is_space c \<and> c \<noteq> CHR '':'' \<and> c \<noteq> CHR ''-'') s"

lemma two_digits_upto: "list_all (\<lambda>n. atoi (two_digits n) = Some n \<and> plain_digits (two_digits n)) [0..99]"
  by code_simp

lemma two_digits:
  assumes "0 \<le> n" and "n < 100"
  shows "atoi (two_digits n) = Some n" "plain_digits (two_digits n)"
  using two_digits_upto assms by (auto simp: list_all_iff)

lemma two_digits_nonempty [simp]: "two_digits n \<noteq> []"
  by (simp add: two_digits_def)

lemma hhmm_two_digits:
  assumes "0 \<le> n" and "n < 1440"
  shows "hhmm (two_digits (n div 60) @ '':'' @ two_digits (n mod 60)) = Some n"
    and "list_all (\<lambda>c. \<not> is_space c \<and> c \<noteq> CHR ''-'') (two_digits (n div 60) @ '':'' @ two_digits (n mod 60))"
proof -
  have "0 \<le> n div 60" "n div 60 < 24" "0 \<le> n mod 60" "n mod 60 < 60" using assms by auto
  note b = this
  then have le: "n mod 60 \<le> 59" "0 \<le> n div 60" "n div 60 \<le> 23" by linarith+
  have h: "atoi (two_digits (n div 60)) = Some (n div 60)" "plain_digits (two_digits (n div 60))"
    using b by (auto intro: two_digits)
  have m: "atoi (two_digits (n mod 60)) = Some (n mod 60)" "plain_digits (two_digits (n mod 60))"
    using b by (auto intro: two_digits)
  from h m show l: "list_all (\<lambda>c. \<not> is_space c \<and> c \<noteq> CHR ''-'') (two_digits (n div 60) @ '':'' @ two_digits (n mod 60))"
    by (auto simp: plain_digits_def list_all_iff is_space_def)
  then have "trim_space (two_digits (n div 60) @ '':'' @ two_digits (n mod 60)) = two_digits (n div 60) @ '':'' @ two_digits (n mod 60)"
    by (intro trim_space_id) (simp add: list_all_iff)
  moreover have "cut_at (CHR '':'') (two_digits (n div 60) @ '':'' @ two_digits (n mod 60)) = Some (two_digits (n div 60), two_digits (n mod 60))"
    using h(2) cut_at_append [of "CHR '':''" "two_digits (n div 60)" "two_digits (n mod 60)"]
    by (auto simp: plain_digits_def list_all_iff)
  ultimately show "hhmm (two_digits (n div 60) @ '':'' @ two_digits (n mod 60)) = Some n"
    using h m le by (simp add: hhmm_def plain_digits_def not_less)
qed

lemma hhmm_bounds: "hhmm s = Some n \<Longrightarrow> 0 \<le> n \<and> n < 1440"
  by (auto simp: hhmm_def split: option.splits prod.splits if_splits)

lemma window_length:
  assumes "0 \<le> s" "s < 1440" "0 \<le> e" "e < 1440"
  shows "go_rem (e - s + 1440) 1440 = (e - s) mod 1440"
  using assms by simp

lemma margin_minutes [simp]: "go_quot StartMargin 60000000000 = 30"
  by (simp add: StartMargin_def)

lemma ParseWindow_valid: "ParseWindow s = Inr w \<Longrightarrow> valid_window w"
  by (auto simp: ParseWindow_def valid_window_def window_length dest!: hhmm_bounds
      split: option.splits prod.splits if_splits)

lemma ParseWindow_String: "valid_window w \<Longrightarrow> ParseWindow (String w) = Inr w"
proof -
  assume v: "valid_window w"
  define a b where "a = two_digits (StartMin w div 60) @ '':'' @ two_digits (StartMin w mod 60)"
    and "b = two_digits (EndMin w div 60) @ '':'' @ two_digits (EndMin w mod 60)"
  have a: "hhmm a = Some (StartMin w)" "list_all (\<lambda>c. \<not> is_space c \<and> c \<noteq> CHR ''-'') a"
    unfolding a_def using v by (auto simp: valid_window_def intro!: hhmm_two_digits [simplified])
  have b: "hhmm b = Some (EndMin w)" "list_all (\<lambda>c. \<not> is_space c \<and> c \<noteq> CHR ''-'') b"
    unfolding b_def using v by (auto simp: valid_window_def intro!: hhmm_two_digits [simplified])
  have str: "String w = a @ CHR ''-'' # b" using v by (simp add: String_def a_def b_def valid_window_def)
  have "trim_space (String w) = String w"
    unfolding str using a(2) b(2) by (intro trim_space_id) (auto simp: list_all_iff is_space_def)
  moreover have "cut_at (CHR ''-'') (String w) = Some (a, b)"
    unfolding str using a(2) by (intro cut_at_append) (auto simp: list_all_iff)
  moreover have "StartMin w \<noteq> EndMin w" using v by (auto simp: valid_window_def)
  ultimately show ?thesis
    using a b v by (simp add: ParseWindow_def window_length valid_window_def)
qed

text \<open>
  A window survives being written and read: the reader gives back exactly the windows
  that start and end within a day and last longer than the margin, and whatever text it accepts
  (one-digit hours, signs, blanks) stands for such a window.
\<close>
theorem window_roundtrip:
  "(ParseWindow (String w) = Inr w \<longleftrightarrow> valid_window w) \<and> ((\<exists>s. ParseWindow s = Inr w) \<longleftrightarrow> valid_window w)"
  using ParseWindow_valid ParseWindow_String by blast

section \<open>When a run may start\<close>

text \<open>What holds in every zone: an answer lies in the last part of an occurrence that it found.\<close>

definition startable :: "Window \<Rightarrow> instant \<Rightarrow> Location \<Rightarrow> instant \<Rightarrow> bool" where
  "startable w t loc u \<longleftrightarrow>
    (\<exists>off s e. Occurrence w (AddDate loc t off) loc = (s, e) \<and> s \<le> u \<and> u \<le> e - StartMargin)"

lemma containing_in_SomeD:
  "containing_in w t loc offs = Some (s, e) \<Longrightarrow>
    \<exists>off. Occurrence w (AddDate loc t off) loc = (s, e) \<and> s \<le> t \<and> t < e"
  by (induction offs) (auto simp: Let_def split: prod.splits if_splits)

lemma next_in_SomeD:
  "next_in w from' loc offs = Some u \<Longrightarrow>
    from' \<le> u \<and> (\<exists>off s e. Occurrence w (AddDate loc from' off) loc = (s, e) \<and> s \<le> u \<and> u \<le> e - StartMargin)"
proof (induction offs)
  case (Cons off offs)
  obtain s e where o: "Occurrence w (AddDate loc from' off) loc = (s, e)" by (rule prod.exhaust)
  show ?case
  proof (cases "e - StartMargin < s \<or> e - StartMargin < from'")
    case True
    with Cons o show ?thesis by simp
  next
    case False
    with Cons.prems o have "u = (if s < from' then from' else s)" by (simp add: Let_def split: if_splits)
    with False have "from' \<le> u" "s \<le> u" "u \<le> e - StartMargin" by (auto split: if_splits)
    with o show ?thesis by blast
  qed
qed simp

lemma CanStart_startable: "CanStart w t loc \<Longrightarrow> startable w t loc t"
  unfolding CanStart_def Containing_def startable_def
  by (cases "containing_in w t loc [-1, 0]") (auto simp del: containing_in.simps dest!: containing_in_SomeD)

lemma NextStart_SomeD:
  assumes "NextStart w from' loc = Some u"
  shows "from' \<le> u" "startable w from' loc u"
proof -
  consider "CanStart w from' loc" "u = from'" | "next_in w from' loc search_days = Some u"
    using assms unfolding NextStart_def by (cases "CanStart w from' loc") (simp_all only: if_True if_False option.inject)
  then have "from' \<le> u \<and> startable w from' loc u"
  proof cases
    case 1
    then show ?thesis by (simp add: CanStart_startable)
  next
    case 2
    from next_in_SomeD [OF this] show ?thesis
      by (simp add: startable_def)
  qed
  then show "from' \<le> u" "startable w from' loc u" by simp_all
qed

section \<open>A zone that keeps its offset\<close>

definition first_start :: "Window \<Rightarrow> Location \<Rightarrow> instant" where
  "first_start w loc = StartMin w * minute - firstOffset loc"

definition span :: "Window \<Rightarrow> duration" where
  "span w = (EndMin w - StartMin w) mod 1440 * minute"

lemma fixed_zone [simp]:
  assumes "changes loc = []"
  shows "lookup loc t = (firstOffset loc, None, None)" "offset_at loc t = firstOffset loc"
    "ZoneBounds loc t = (None, None)" "Date loc d r = d * day + r - firstOffset loc"
  using assms by (simp_all add: lookup_def offset_at_def ZoneBounds_def Date_def Let_def)

lemma fixed_AddDate [simp]:
  "changes loc = [] \<Longrightarrow> AddDate loc t off = t + off * day"
  by (simp add: AddDate_def local_day_def local_reading_def minus_mult_div_eq_mod [symmetric] algebra_simps)

lemma unit_div_mod:
  "0 < (k :: int) \<Longrightarrow> m * k div (60 * k) = m div 60" "0 < k \<Longrightarrow> m * k mod (60 * k) div k = m mod 60"
  "m div 60 * (60 * k) + m mod 60 * k = m * k"
proof -
  assume "0 < k"
  then show "m * k div (60 * k) = m div 60" by (intro div_mult_mult2) simp
  have "m * k mod (60 * k) = m mod 60 * k" by (rule mod_mult_mult2)
  with \<open>0 < k\<close> show "m * k mod (60 * k) div k = m mod 60" by simp
next
  have "(m div 60 * 60 + m mod 60) * k = m * k" by simp
  then show "m div 60 * (60 * k) + m mod 60 * k = m * k" by (simp only: distrib_right mult.assoc)
qed

lemma fixed_wallTime:
  assumes "changes loc = []" "0 \<le> m" "m < 1440"
  shows "wallTime loc d m = d * day + m * minute - firstOffset loc"
proof -
  have q: "m div 60 * hour + m mod 60 * minute = m * minute" by (rule unit_div_mod)
  have "m * minute < day" using assms by simp
  then have "(m * minute) mod day = m * minute" using assms by simp
  then have r: "local_reading loc (d * day + m * minute - firstOffset loc) = m * minute"
    using assms(1) by (simp add: local_reading_def)
  have "m * minute div hour = m div 60" "m * minute mod hour div minute = m mod 60"
    by (rule unit_div_mod, simp)+
  with r q assms show ?thesis by (simp add: wallTime_def Let_def)
qed

lemma span_bounds:
  assumes "valid_window w"
  shows "StartMargin < span w" "span w < day"
    "(if EndMin w \<le> StartMin w then day else 0) + EndMin w * minute = StartMin w * minute + span w"
proof -
  have "(EndMin w - StartMin w) mod 1440 = EndMin w - StartMin w + (if EndMin w \<le> StartMin w then 1440 else 0)"
  proof (cases "EndMin w \<le> StartMin w")
    case True
    with assms have "EndMin w < StartMin w" by (auto simp: valid_window_def order_le_less)
    then have "(EndMin w - StartMin w + 1440) mod 1440 = EndMin w - StartMin w + 1440"
      using assms by (intro mod_pos_pos_trivial) (auto simp: valid_window_def)
    with True show ?thesis by simp
  qed (use assms in \<open>auto simp: valid_window_def\<close>)
  note eq = this
  have "(EndMin w - StartMin w) mod 1440 < 1440" by simp
  with assms show "StartMargin < span w" "span w < day"
    by (simp_all add: span_def StartMargin_def valid_window_def)
  show "(if EndMin w \<le> StartMin w then day else 0) + EndMin w * minute = StartMin w * minute + span w"
    unfolding span_def eq by simp
qed

lemma fixed_Occurrence:
  assumes "changes loc = []" "valid_window w"
  shows "Occurrence w t loc =
    (first_start w loc + local_day loc t * day, first_start w loc + local_day loc t * day + span w)"
  using assms span_bounds(3) [OF assms(2)]
  by (auto simp: Occurrence_def fixed_wallTime valid_window_def first_start_def Let_def algebra_simps split: if_splits)

lemma fixed_local_day [simp]:
  "changes loc = [] \<Longrightarrow> local_day loc (t + off * day) = local_day loc t + off"
  by (simp add: local_day_def)

lemma fixed_at:
  assumes "changes loc = []" "valid_window w"
  shows "Occurrence w (AddDate loc t off) loc =
    (first_start w loc + (local_day loc t + off) * day, first_start w loc + (local_day loc t + off) * day + span w)"
  using fixed_Occurrence [OF assms] assms(1) by simp

lemma fixed_day_bounds:
  assumes "changes loc = []" "valid_window w"
  shows "t < first_start w loc + (local_day loc t + 1) * day"
    "first_start w loc + (local_day loc t - 1) * day < t"
proof -
  have "t + firstOffset loc = local_day loc t * day + (t + firstOffset loc) mod day"
    using assms(1) by (simp add: local_day_def)
  moreover have "0 \<le> (t + firstOffset loc) mod day" "(t + firstOffset loc) mod day < day" by simp_all
  moreover have "0 \<le> StartMin w * minute" "StartMin w * minute < day"
    using assms(2) by (simp_all add: valid_window_def)
  ultimately show "t < first_start w loc + (local_day loc t + 1) * day"
    "first_start w loc + (local_day loc t - 1) * day < t"
    by (simp_all add: first_start_def algebra_simps)
qed

text \<open>A run may start exactly in the occurrences, up to the margin before their end.\<close>

lemma fixed_CanStart:
  assumes "changes loc = []" "valid_window w"
  shows "CanStart w t loc \<longleftrightarrow>
    (\<exists>d. first_start w loc + d * day \<le> t \<and> t \<le> first_start w loc + d * day + span w - StartMargin)"
    (is "_ \<longleftrightarrow> (\<exists>d. ?at d)")
proof
  assume "CanStart w t loc"
  from CanStart_startable [OF this] obtain off where "?at (local_day loc t + off)"
    by (auto simp: startable_def fixed_at [OF assms])
  then show "\<exists>d. ?at d" ..
next
  assume "\<exists>d. ?at d"
  then obtain d where d: "?at d" ..
  have b: "0 < StartMargin" "span w < day" using span_bounds [OF assms(2)] by (simp_all add: StartMargin_def)
  from d fixed_day_bounds [OF assms, of t] b have "local_day loc t - 1 \<le> d" "d \<le> local_day loc t" by (simp_all add: algebra_simps)
  then consider "d = local_day loc t - 1" | "d = local_day loc t" by linarith
  then show "CanStart w t loc"
  proof cases
    case 1
    with d b show ?thesis by (simp add: CanStart_def Containing_def fixed_at [OF assms] Let_def)
  next
    case 2
    with d b have "\<not> t < first_start w loc + (local_day loc t + -1) * day + span w" by (simp add: algebra_simps)
    with d b 2 show ?thesis by (simp add: CanStart_def Containing_def fixed_at [OF assms] Let_def)
  qed
qed

lemma search_days_split: "search_days = -1 # 0 # 1 # [2..370]"
proof -
  have "[-1..370] = [-1..1] @ [1 + 1..(370 :: int)]" by (rule upto_split2) simp_all
  moreover have "[-1..1] = [-1, 0, 1 :: int]" by code_simp
  ultimately show ?thesis by (simp only: search_days_def append.simps numeral_plus_one one_add_one)
qed

text \<open>The search gives the start of the first occurrence that is not past its last start.\<close>

lemma fixed_NextStart:
  assumes "changes loc = []" "valid_window w" and no: "\<not> CanStart w t loc"
  obtains d where "NextStart w t loc = Some (first_start w loc + d * day)" "t < first_start w loc + d * day"
    "first_start w loc + (d - 1) * day + span w - StartMargin < t"
proof -
  let ?D = "local_day loc t"
  have gap: "first_start w loc + d * day \<le> t \<Longrightarrow> first_start w loc + d * day + span w - StartMargin < t" for d
    using no by (simp add: fixed_CanStart [OF assms(1,2)] not_le [symmetric])
  have b: "StartMargin < span w" using span_bounds [OF assms(2)] by simp
  have next_is: "next_in w t loc (off # offs) = (if first_start w loc + (?D + off) * day \<le> t then next_in w t loc offs
      else Some (first_start w loc + (?D + off) * day))" for off offs
  proof (cases "first_start w loc + (?D + off) * day \<le> t")
    case True
    with gap [OF True] show ?thesis by (simp add: fixed_at [OF assms(1,2)] Let_def)
  qed (use b in \<open>simp add: fixed_at [OF assms(1,2)] Let_def\<close>)
  have D: "first_start w loc + (?D + -1) * day \<le> t" "\<not> first_start w loc + (?D + 1) * day \<le> t"
    using fixed_day_bounds [OF assms(1,2), of t] by (simp_all add: algebra_simps)
  have n: "NextStart w t loc = (if first_start w loc + ?D * day \<le> t then Some (first_start w loc + (?D + 1) * day)
      else Some (first_start w loc + ?D * day))"
    using no D by (simp add: NextStart_def search_days_split next_is del: next_in.simps)
  show thesis
  proof (cases "first_start w loc + ?D * day \<le> t")
    case True
    with n D gap [OF True] show ?thesis by (intro that [of "?D + 1"]) simp_all
  next
    case False
    with n gap [OF D(1)] show ?thesis by (intro that [of ?D]) (simp_all add: algebra_simps)
  qed
qed

lemma NextStart_first:
  assumes "changes loc = []" and "valid_window w"
  shows "\<exists>u. NextStart w t loc = Some u \<and> t \<le> u \<and> u < t + day \<and> CanStart w u loc
    \<and> (\<forall>v. t \<le> v \<and> CanStart w v loc \<longrightarrow> u \<le> v)"
proof (cases "CanStart w t loc")
  case True
  then show ?thesis by (auto simp: NextStart_def)
next
  case False
  obtain d where d: "NextStart w t loc = Some (first_start w loc + d * day)" "t < first_start w loc + d * day"
    "first_start w loc + (d - 1) * day + span w - StartMargin < t"
    using fixed_NextStart [OF assms False] .
  have b: "StartMargin < span w" "span w < day" "0 < StartMargin"
    using span_bounds [OF assms(2)] by (simp_all add: StartMargin_def)
  have "CanStart w (first_start w loc + d * day) loc"
    unfolding fixed_CanStart [OF assms] using b by (intro exI [of _ d]) simp
  moreover have "first_start w loc + d * day \<le> v" if v: "t \<le> v" "CanStart w v loc" for v
  proof -
    from v(2) obtain d' where d': "first_start w loc + d' * day \<le> v"
      "v \<le> first_start w loc + d' * day + span w - StartMargin"
      unfolding fixed_CanStart [OF assms] by blast
    with v(1) d(3) have "d \<le> d'" by (simp add: algebra_simps)
    with d'(1) show ?thesis by linarith
  qed
  moreover have "first_start w loc + d * day < t + day"
    using d(3) b(1) by (simp add: algebra_simps)
  ultimately show ?thesis using d(1,2) by (intro exI [of _ "first_start w loc + d * day"]) simp
qed

text \<open>
  In a zone that keeps its offset the planned start is the right one: at or after the
  asked instant and less than a day later there is a first instant at which a run may start, and
  it is the one given.
\<close>
theorem NextStart_is_first:
  assumes "changes loc = []" and "valid_window w"
  shows "\<exists>u. NextStart w t loc = Some u \<and> t \<le> u \<and> u < t + day \<and> CanStart w u loc
    \<and> (\<forall>v. t \<le> v \<and> CanStart w v loc \<longrightarrow> u \<le> v)"
  using NextStart_first [OF assms] .

text \<open>A home in Tokyo, window 23:00-01:00, at 00:45 on a morning: the next start is 23:00.\<close>

theorem NextStart_is_first_witness:
  "\<exists>u. NextStart \<lparr>StartMin = 1380, EndMin = 60\<rparr> (15 * hour + 45 * minute) \<lparr>firstOffset = 9 * hour, changes = []\<rparr> = Some u
     \<and> u < 2 * day"
proof -
  have "valid_window \<lparr>StartMin = 1380, EndMin = 60\<rparr>" by (simp add: valid_window_def)
  from NextStart_is_first [OF _ this, of "\<lparr>firstOffset = 9 * hour, changes = []\<rparr>" "15 * hour + 45 * minute"]
  show ?thesis by auto
qed

section \<open>Where the clocks change\<close>

text \<open>Berlin around 2026-10-25 (03:00 becomes 02:00), Havana around 2026-03-08 (00:00 becomes 01:00).\<close>

definition Berlin :: Location where
  "Berlin = \<lparr>firstOffset = 2 * hour, changes = [(20751 * day + hour, hour)]\<rparr>"

definition Havana :: Location where
  "Havana = \<lparr>firstOffset = - 5 * hour, changes = [(20520 * day + 5 * hour, - 4 * hour)]\<rparr>"

text \<open>
  The reading 02:30 comes twice; the window starts at the second one, an hour after the clock
  first showed it. The comment says the first.
\<close>

lemma ambiguous_is_second:
  "fst (Occurrence \<lparr>StartMin = 150, EndMin = 300\<rparr> (20751 * day) Berlin) = 20751 * day + 90 * minute"
  "local_reading Berlin (20751 * day + 30 * minute) = 150 * minute"
  "local_reading Berlin (20751 * day + 90 * minute) = 150 * minute"
  by code_simp+

text \<open>
  The day before 00:30 has no 00:30 of its own: its reading falls back to the day before that one.
  In the night after, the occurrence 23:00-02:00 is not found between midnight and one, though it
  is found before and after.
\<close>

lemma occurrence_missed:
  "local_day Havana (20521 * day + 4 * hour + 30 * minute) = 20521"
  "local_day Havana (AddDate Havana (20521 * day + 4 * hour + 30 * minute) (-1)) = 20519"
  "CanStart \<lparr>StartMin = 1380, EndMin = 120\<rparr> (20521 * day + 3 * hour + 30 * minute) Havana"
  "\<not> CanStart \<lparr>StartMin = 1380, EndMin = 120\<rparr> (20521 * day + 4 * hour + 30 * minute) Havana"
  "CanStart \<lparr>StartMin = 1380, EndMin = 120\<rparr> (20521 * day + 5 * hour + 15 * minute) Havana"
  by code_simp+

end
