(* ===== verification/Update_Plan.thy ===== *)
theory Update_Plan
  imports Version_Order Update_Window
begin

text \<open>
  Which release a home installs next and when: \<^verbatim>\<open>api/internal/updates\<close> (target.go, version.go, policy.go
  and \<open>MakePlan\<close> of scheduler.go). A catalogue is the list of the rows of \<open>release_catalog\<close>; the build
  switch \<open>autoInstallEnabled\<close> and the environment are arguments. The zero \<open>time.Time\<close> is
  \<open>zero_time\<close>; a nil pointer is \<open>None\<close>.
\<close>

section \<open>Versions (version.go)\<close>

definition normalize :: "string \<Rightarrow> string" where
  "normalize v = trim_prefix_v (trim_space v)"

definition suffix_char :: "char \<Rightarrow> bool" where
  "suffix_char c \<longleftrightarrow> any_suffix c \<or> c = CHR ''-''"

definition ValidVersion :: "string \<Rightarrow> bool" where
  "ValidVersion v =
    (case cut_at (CHR ''-'') (normalize v) of
       None \<Rightarrow> core_shape (normalize v)
     | Some (core, suff) \<Rightarrow> core_shape core \<and> suff \<noteq> [] \<and> list_all suffix_char suff)"

definition maxVersion :: "string \<Rightarrow> string \<Rightarrow> string" where
  "maxVersion a b = (if a = '''' then b else if b = '''' \<or> 0 \<le> Compare a b then a else b)"

section \<open>Releases of the catalogue (target.go)\<close>

definition zero_time :: instant where
  "zero_time = - 62135596800 * second"

definition nonzero :: "instant \<Rightarrow> instant option" where
  "nonzero t = (if t = zero_time then None else Some t)"

text \<open>
  Of a manifest and a row, what policy, the scheduler and the discovery read or write: \<open>Digest\<close> is
  \<open>ChecksumsSHA256\<close>, \<open>VerifyErr\<close> the kind of the verification error.
\<close>

record Manifest =
  Published :: instant
  BreaksPreviousHome :: bool
  MinUpgradeFrom :: string
  MSignedAt :: instant

datatype verify_state = VerifyUnverified | VerifyVerified | VerifyFailed

record Release =
  Version :: string
  Channel :: string
  PublishedAt :: "instant option"
  Prerelease :: bool
  RManifest :: "Manifest option"
  Digest :: string
  VerifyState :: verify_state
  VerifyErr :: "string option"
  FirstSeenAt :: instant
  WithdrawnAt :: "instant option"
  BlockedReason :: string
  HeldAt :: "instant option"
  ApprovedAt :: "instant option"
  Attempts :: int

abbreviation ChannelStable :: string where "ChannelStable \<equiv> ''stable''"
abbreviation ChannelBeta :: string where "ChannelBeta \<equiv> ''beta''"

definition breaks_previous_home :: "Release \<Rightarrow> bool" where
  "breaks_previous_home r = (case RManifest r of Some m \<Rightarrow> BreaksPreviousHome m | None \<Rightarrow> False)"

definition min_upgrade_from :: "Release \<Rightarrow> string" where
  "min_upgrade_from r = (case RManifest r of None \<Rightarrow> '''' | Some m \<Rightarrow> MinUpgradeFrom m)"

definition published :: "Release \<Rightarrow> instant" where
  "published r =
    (let by_host = (case PublishedAt r of Some t \<Rightarrow> if t \<noteq> zero_time then t else FirstSeenAt r | None \<Rightarrow> FirstSeenAt r) in
     case RManifest r of
       Some m \<Rightarrow> if Published m \<noteq> zero_time then Published m else by_host
     | None \<Rightarrow> by_host)"

definition signedTime :: "Release \<Rightarrow> instant" where
  "signedTime r =
    (case RManifest r of
       None \<Rightarrow> zero_time
     | Some m \<Rightarrow> if VerifyState r \<noteq> VerifyVerified then zero_time
                 else if MSignedAt m \<noteq> zero_time then MSignedAt m else Published m)"

fun olderBuildThan :: "Release list \<Rightarrow> Release \<Rightarrow> string \<Rightarrow> bool" where
  "olderBuildThan [] r installed = False"
| "olderBuildThan (c # cs) r installed =
     (if installed = '''' then False
      else if Compare (Version c) installed = 0
      then OlderBuild (Version r) (nonzero (signedTime r)) (Version c) (nonzero (signedTime c))
      else olderBuildThan cs r installed)"

definition is_prerelease :: "Release \<Rightarrow> bool" where
  "is_prerelease r \<longleftrightarrow> Prerelease r \<or> Channel r = ChannelBeta \<or> IsPrerelease (Version r)"

section \<open>The policy (policy.go)\<close>

record Policy =
  AutoInstall :: bool
  PChannel :: string
  PWindow :: string
  WindowOverrunMinutes :: int
  MinReleaseAgeHours :: int
  PinnedVersion :: string
  DeferredUntil :: "instant option"
  SkippedVersions :: "string list"
  NodeFailurePolicy :: string
  NodeHealthTimeoutMinutes :: int
  DrainTimeoutMinutes :: int
  RehearseMigrations :: bool
  RehearseMaxDBGB :: int
  KeepVersions :: int
  BackupsKeep :: int
  CatchUp :: string
  ProxyCacheMB :: int
  Wheelhouse :: bool

definition DefaultPolicy :: Policy where
  "DefaultPolicy = \<lparr>AutoInstall = True, PChannel = ChannelStable, PWindow = ''03:00-05:00'',
     WindowOverrunMinutes = 120, MinReleaseAgeHours = 24, PinnedVersion = '''', DeferredUntil = None,
     SkippedVersions = [], NodeFailurePolicy = ''hold_platform'', NodeHealthTimeoutMinutes = 10,
     DrainTimeoutMinutes = 10, RehearseMigrations = True, RehearseMaxDBGB = 20, KeepVersions = 3,
     BackupsKeep = 3, CatchUp = ''immediate'', ProxyCacheMB = 2048, Wheelhouse = True\<rparr>"

definition EffectiveAutoInstall :: "bool \<Rightarrow> Policy \<Rightarrow> bool" where
  "EffectiveAutoInstall built p \<longleftrightarrow> AutoInstall p \<and> built"

definition Skipped :: "Policy \<Rightarrow> string \<Rightarrow> bool" where
  "Skipped p v = list_ex (\<lambda>s. Compare s v = 0 \<and> normalize s \<noteq> '''') (SkippedVersions p)"

text \<open>\<open>strconv.ParseBool\<close>.\<close>

definition ParseBool :: "string \<Rightarrow> bool option" where
  "ParseBool s =
    (if s \<in> {''1'', ''t'', ''T'', ''true'', ''TRUE'', ''True''} then Some True
     else if s \<in> {''0'', ''f'', ''F'', ''false'', ''FALSE'', ''False''} then Some False else None)"

text \<open>The environment: a name without a value reads as empty.\<close>

definition env_channel :: "(string \<Rightarrow> string) \<Rightarrow> Policy \<Rightarrow> Policy" where
  "env_channel getenv p =
    (let v = to_lower (trim_space (getenv ''MAKTABA_UPDATE_CHANNEL'')) in
     if v = ChannelStable \<or> v = ChannelBeta then p\<lparr>PChannel := v\<rparr> else p)"

definition env_auto :: "(string \<Rightarrow> string) \<Rightarrow> Policy \<Rightarrow> Policy" where
  "env_auto getenv p =
    (let v = trim_space (getenv ''MAKTABA_UPDATE_AUTO_INSTALL'') in
     if v \<noteq> '''' then (case ParseBool v of Some b \<Rightarrow> p\<lparr>AutoInstall := b\<rparr> | None \<Rightarrow> p) else p)"

definition env_window :: "(string \<Rightarrow> string) \<Rightarrow> Policy \<Rightarrow> Policy" where
  "env_window getenv p =
    (let v = trim_space (getenv ''MAKTABA_UPDATE_WINDOW'') in
     if v \<noteq> '''' then (case ParseWindow v of Inr _ \<Rightarrow> p\<lparr>PWindow := v\<rparr> | Inl _ \<Rightarrow> p) else p)"

definition env_age :: "(string \<Rightarrow> string) \<Rightarrow> Policy \<Rightarrow> Policy" where
  "env_age getenv p =
    (let v = trim_space (getenv ''MAKTABA_UPDATE_MIN_AGE_HOURS'') in
     if v \<noteq> '''' then (case atoi v of Some n \<Rightarrow> if 0 \<le> n then p\<lparr>MinReleaseAgeHours := n\<rparr> else p | None \<Rightarrow> p) else p)"

definition env_pin :: "(string \<Rightarrow> string) \<Rightarrow> Policy \<Rightarrow> Policy" where
  "env_pin getenv p =
    (let v = trim_space (getenv ''MAKTABA_UPDATE_PIN'') in
     if v \<noteq> '''' \<and> ValidVersion v then p\<lparr>PinnedVersion := normalize v\<rparr> else p)"

definition ApplyEnv :: "(string \<Rightarrow> string) option \<Rightarrow> Policy \<Rightarrow> Policy" where
  "ApplyEnv getenv p = (case getenv of None \<Rightarrow> p
     | Some g \<Rightarrow> env_pin g (env_age g (env_window g (env_auto g (env_channel g p)))))"

datatype policy_error = ErrBadChannel | ErrWindow window_error | ErrBadPin | ErrPinBelowInstalled

definition Validate :: "Policy \<Rightarrow> string \<Rightarrow> policy_error option" where
  "Validate p installed =
    (if PChannel p \<noteq> ChannelStable \<and> PChannel p \<noteq> ChannelBeta then Some ErrBadChannel
     else (case ParseWindow (PWindow p) of
             Inl e \<Rightarrow> Some (ErrWindow e)
           | Inr _ \<Rightarrow>
               if PinnedVersion p \<noteq> '''' then
                 if \<not> ValidVersion (PinnedVersion p) then Some ErrBadPin
                 else if installed \<noteq> '''' \<and> Compare (PinnedVersion p) installed < 0 then Some ErrPinBelowInstalled
                 else None
               else None))"

section \<open>The release to install (ChooseTarget)\<close>

datatype reason = NoReason | ReasonUpToDate | ReasonNoUpgradeFor | ReasonHeld
  | WaitAutoInstallOff | WaitNotBuilt | WaitDeferred | WaitReleaseAge | WaitWindow
  | WaitRetryBackoff | WaitRetryWindow | WaitNeedsPerson

record Choice =
  Target :: "Release option"
  Held :: bool
  SteppingStone :: bool
  Newest :: "Release option"
  Reason :: reason

text \<open>The cases of the switch that pass a row by.\<close>

definition candidate :: "Release list \<Rightarrow> Policy \<Rightarrow> string \<Rightarrow> Release \<Rightarrow> bool" where
  "candidate catalog p floor' r =
    (if VerifyState r \<noteq> VerifyVerified \<or> RManifest r = None then False
     else if WithdrawnAt r \<noteq> None \<or> BlockedReason r \<noteq> '''' then False
     else if PChannel p \<noteq> ChannelBeta \<and> is_prerelease r then False
     else if floor' \<noteq> '''' \<and> Compare (Version r) floor' \<le> 0 then False
     else if Skipped p (Version r) then False
     else if PinnedVersion p \<noteq> '''' \<and> 0 < Compare (Version r) (PinnedVersion p) then False
     else \<not> olderBuildThan catalog r floor')"

definition upgradable :: "string \<Rightarrow> Release \<Rightarrow> bool" where
  "upgradable current r \<longleftrightarrow>
    \<not> (min_upgrade_from r \<noteq> '''' \<and> current \<noteq> '''' \<and> 0 < Compare (min_upgrade_from r) current)"

fun first_upgradable :: "string \<Rightarrow> nat \<Rightarrow> Release list \<Rightarrow> (Release \<times> nat) option" where
  "first_upgradable current i [] = None"
| "first_upgradable current i (r # rs) =
     (if upgradable current r then Some (r, i) else first_upgradable current (Suc i) rs)"

definition floor_of :: "string \<Rightarrow> string \<Rightarrow> string" where
  "floor_of current watermark = maxVersion (normalize current) (normalize watermark)"

definition sort_candidates :: "Release list \<Rightarrow> Release list" where
  "sort_candidates cands = sort_by (\<lambda>a b. 0 < Compare (Version a) (Version b)) cands"

definition ChooseTarget :: "Release list \<Rightarrow> Policy \<Rightarrow> string \<Rightarrow> string \<Rightarrow> Choice" where
  "ChooseTarget catalog p current watermark =
    (let cands = filter (candidate catalog p (floor_of current watermark)) catalog;
         none = \<lparr>Target = None, Held = False, SteppingStone = False, Newest = None, Reason = ReasonUpToDate\<rparr> in
     if cands = [] then none
     else
       let cands = sort_candidates cands; out = none\<lparr>Newest := Some (hd cands), Reason := NoReason\<rparr> in
       (case first_upgradable current 0 cands of
          None \<Rightarrow> out\<lparr>Reason := ReasonNoUpgradeFor\<rparr>
        | Some (r, i) \<Rightarrow>
            let out = out\<lparr>Target := Some r, SteppingStone := 0 < i\<rparr> in
            if breaks_previous_home r \<and> ApprovedAt r = None then out\<lparr>Held := True, Reason := ReasonHeld\<rparr> else out))"

section \<open>The plan (MakePlan)\<close>

record Plan = Choice +
  PlanAutoInstall :: bool
  Due :: bool
  NextRunAt :: "instant option"
  EligibleAt :: "instant option"
  Waiting :: reason

definition eligible_at :: "Policy \<Rightarrow> Release \<Rightarrow> instant" where
  "eligible_at p r = published r + MinReleaseAgeHours p * hour"

text \<open>The instant the run may start from and what holds it until then.\<close>

definition start_from :: "instant \<Rightarrow> Policy \<Rightarrow> Release \<Rightarrow> instant \<times> reason" where
  "start_from now' p r =
    (let (f, why) = (case DeferredUntil p of Some d \<Rightarrow> if now' < d then (d, WaitDeferred) else (now', NoReason)
                     | None \<Rightarrow> (now', NoReason)) in
     if f < eligible_at p r then (eligible_at p r, WaitReleaseAge) else (f, why))"

definition MakePlan :: "bool \<Rightarrow> instant \<Rightarrow> Location \<Rightarrow> Policy \<Rightarrow> Release list \<Rightarrow> string \<Rightarrow> string \<Rightarrow> Plan" where
  "MakePlan built now' loc p catalog current watermark =
    (let c = ChooseTarget catalog p current watermark;
         pl = Choice.extend c \<lparr>PlanAutoInstall = EffectiveAutoInstall built p, Due = False, NextRunAt = None,
                EligibleAt = None, Waiting = NoReason\<rparr> in
     (case Target c of
        None \<Rightarrow> pl\<lparr>Waiting := Reason c\<rparr>
      | Some r \<Rightarrow>
          if Held c then pl\<lparr>Waiting := Reason c\<rparr>
          else
            let pl = pl\<lparr>EligibleAt := Some (eligible_at p r)\<rparr> in
            if \<not> AutoInstall p then pl\<lparr>Waiting := WaitAutoInstallOff\<rparr>
            else if \<not> built then pl\<lparr>Waiting := WaitNotBuilt\<rparr>
            else (case ParseWindow (PWindow p) of
                    Inl _ \<Rightarrow> pl\<lparr>Waiting := WaitWindow\<rparr>
                  | Inr w \<Rightarrow>
                      let (f, why) = start_from now' p r in
                      (case NextStart w f loc of
                         None \<Rightarrow> pl\<lparr>Waiting := WaitWindow\<rparr>
                       | Some next' \<Rightarrow>
                           let pl = pl\<lparr>NextRunAt := Some next'\<rparr> in
                           if next' \<le> now' then pl\<lparr>Due := True\<rparr>
                           else pl\<lparr>Waiting := (if why = NoReason \<or> \<not> CanStart w now' loc then WaitWindow else why)\<rparr>))))"

section \<open>What is chosen\<close>

abbreviation ver_key :: "Release \<Rightarrow> _" where
  "ver_key r \<equiv> version_key (Version r)"

lemma Compare_le: "Compare a b \<le> 0 \<longleftrightarrow> version_key a \<le> version_key b"
  by (simp add: Compare_key ord_of_props(3))

lemma Compare_gr: "0 < Compare a b \<longleftrightarrow> version_key b < version_key a"
  by (auto simp: Compare_key ord_of_def)

lemma Compare_less: "Compare a b < 0 \<longleftrightarrow> version_key a < version_key b"
  by (auto simp: Compare_key ord_of_def)

lemma first_upgradable_None: "first_upgradable current i rs = None \<longleftrightarrow> (\<forall>r \<in> set rs. \<not> upgradable current r)"
  by (induction rs arbitrary: i) auto

lemma first_upgradable_Some:
  "first_upgradable current i rs = Some (r, j) \<Longrightarrow>
    \<exists>us vs. rs = us @ r # vs \<and> upgradable current r \<and> (\<forall>u \<in> set us. \<not> upgradable current u) \<and> j = i + length us"
proof (induction rs arbitrary: i)
  case (Cons a rs)
  show ?case
  proof (cases "upgradable current a")
    case True
    with Cons.prems show ?thesis by (intro exI [of _ "[]"] exI [of _ rs]) simp
  next
    case False
    with Cons.prems have "first_upgradable current (Suc i) rs = Some (r, j)" by simp
    from Cons.IH [OF this] obtain us vs where "rs = us @ r # vs" "upgradable current r"
      "\<forall>u \<in> set us. \<not> upgradable current u" "j = Suc i + length us" by blast
    with False show ?thesis by (intro exI [of _ "a # us"] exI [of _ vs]) simp
  qed
qed simp

lemma set_sort_candidates [simp]: "set (sort_candidates cs) = set cs"
  by (simp add: sort_candidates_def)

lemma sort_candidates_sorted: "sorted_wrt (\<lambda>a b. ver_key b \<le> ver_key a) (sort_candidates cs)"
proof -
  have "sorted_wrt (\<lambda>a b. \<not> 0 < Compare (Version b) (Version a)) (sort_candidates cs)"
    unfolding sort_candidates_def by (rule sort_by_sorted) (auto simp: Compare_gr)
  then show ?thesis by (rule sorted_wrt_mono_rel [rotated]) (auto simp: Compare_gr)
qed

text \<open>What a release must be to be installed, over the order of versions.\<close>

definition allowed :: "Release list \<Rightarrow> Policy \<Rightarrow> string \<Rightarrow> string \<Rightarrow> Release \<Rightarrow> bool" where
  "allowed catalog p current watermark r \<longleftrightarrow>
    r \<in> set catalog \<and> VerifyState r = VerifyVerified \<and> RManifest r \<noteq> None \<and> WithdrawnAt r = None \<and> BlockedReason r = ''''
    \<and> (is_prerelease r \<longrightarrow> PChannel p = ChannelBeta)
    \<and> (\<forall>v \<in> {normalize current, normalize watermark}. v \<noteq> '''' \<longrightarrow> version_key v < ver_key r)
    \<and> \<not> Skipped p (Version r) \<and> (PinnedVersion p \<noteq> '''' \<longrightarrow> ver_key r \<le> version_key (PinnedVersion p))
    \<and> \<not> olderBuildThan catalog r (floor_of current watermark)"

lemma floor_above:
  "(floor_of current watermark \<noteq> '''' \<longrightarrow> version_key (floor_of current watermark) < k) \<longleftrightarrow>
    (\<forall>v \<in> {normalize current, normalize watermark}. v \<noteq> '''' \<longrightarrow> version_key v < k)"
proof -
  have "0 \<le> Compare a b \<longleftrightarrow> version_key b \<le> version_key a" for a b
    by (auto simp: Compare_key ord_of_def)
  then show ?thesis
    by (cases "normalize current = ''''"; cases "normalize watermark = ''''")
      (auto simp: floor_of_def maxVersion_def)
qed

lemma candidate_allowed:
  "r \<in> set catalog \<and> candidate catalog p (floor_of current watermark) r \<longleftrightarrow> allowed catalog p current watermark r"
  unfolding allowed_def floor_above [symmetric] candidate_def
  by (auto simp: Compare_le not_le Compare_gr)

lemma ChooseTarget_cases:
  obtains (no_candidate) "\<forall>r. \<not> allowed catalog p current watermark r"
      "ChooseTarget catalog p current watermark =
        \<lparr>Target = None, Held = False, SteppingStone = False, Newest = None, Reason = ReasonUpToDate\<rparr>"
  | (no_path) n where "allowed catalog p current watermark n"
      "\<forall>q. allowed catalog p current watermark q \<longrightarrow> ver_key q \<le> ver_key n"
      "\<forall>q. allowed catalog p current watermark q \<longrightarrow> \<not> upgradable current q"
      "ChooseTarget catalog p current watermark =
        \<lparr>Target = None, Held = False, SteppingStone = False, Newest = Some n, Reason = ReasonNoUpgradeFor\<rparr>"
  | (target) n r where "allowed catalog p current watermark n" "allowed catalog p current watermark r"
      "\<forall>q. allowed catalog p current watermark q \<longrightarrow> ver_key q \<le> ver_key n"
      "upgradable current r" "\<forall>q. allowed catalog p current watermark q \<and> upgradable current q \<longrightarrow> ver_key q \<le> ver_key r"
      "ChooseTarget catalog p current watermark =
        \<lparr>Target = Some r, Held = (breaks_previous_home r \<and> ApprovedAt r = None),
          SteppingStone = (\<not> upgradable current n), Newest = Some n,
          Reason = (if breaks_previous_home r \<and> ApprovedAt r = None then ReasonHeld else NoReason)\<rparr>"
proof -
  define cs where "cs = filter (candidate catalog p (floor_of current watermark)) catalog"
  have cs: "r \<in> set cs \<longleftrightarrow> allowed catalog p current watermark r" for r
    by (simp add: cs_def candidate_allowed [symmetric])
  show thesis
  proof (cases "cs = []")
    case True
    then have "\<forall>r. \<not> allowed catalog p current watermark r" using cs by (metis empty_iff empty_set)
    moreover from True have "ChooseTarget catalog p current watermark =
        \<lparr>Target = None, Held = False, SteppingStone = False, Newest = None, Reason = ReasonUpToDate\<rparr>"
      by (simp add: ChooseTarget_def cs_def [symmetric] del: filter_empty_conv)
    ultimately show thesis by (rule no_candidate)
  next
    case False
    then obtain n ss where ns: "sort_candidates cs = n # ss"
      by (metis list.exhaust set_empty set_sort_candidates)
    have sorted: "sorted_wrt (\<lambda>a b. ver_key b \<le> ver_key a) (n # ss)" using sort_candidates_sorted [of cs] ns by simp
    have mem: "r \<in> set (n # ss) \<longleftrightarrow> allowed catalog p current watermark r" for r
      using cs set_sort_candidates [of cs] ns by simp
    have n: "allowed catalog p current watermark n"
      "\<forall>q. allowed catalog p current watermark q \<longrightarrow> ver_key q \<le> ver_key n"
      using sorted unfolding mem [symmetric] by auto
    have out: "ChooseTarget catalog p current watermark =
      (let out = \<lparr>Target = None, Held = False, SteppingStone = False, Newest = Some n, Reason = NoReason\<rparr> in
       case first_upgradable current 0 (n # ss) of
         None \<Rightarrow> out\<lparr>Reason := ReasonNoUpgradeFor\<rparr>
       | Some (r, i) \<Rightarrow> let out = out\<lparr>Target := Some r, SteppingStone := 0 < i\<rparr> in
           if breaks_previous_home r \<and> ApprovedAt r = None then out\<lparr>Held := True, Reason := ReasonHeld\<rparr> else out)"
      using False by (simp add: ChooseTarget_def cs_def [symmetric] ns Let_def del: filter_empty_conv first_upgradable.simps
          split: option.split)
    show thesis
    proof (cases "first_upgradable current 0 (n # ss)")
      case None
      then have "\<forall>q. allowed catalog p current watermark q \<longrightarrow> \<not> upgradable current q"
        unfolding first_upgradable_None using mem by blast
      moreover from None out have "ChooseTarget catalog p current watermark =
        \<lparr>Target = None, Held = False, SteppingStone = False, Newest = Some n, Reason = ReasonNoUpgradeFor\<rparr>" by simp
      ultimately show thesis using n by (intro no_path)
    next
      case (Some x)
      then obtain r i where x: "first_upgradable current 0 (n # ss) = Some (r, i)" by (cases x) simp
      from first_upgradable_Some [OF x] obtain us vs where split: "n # ss = us @ r # vs" "upgradable current r"
        "\<forall>u \<in> set us. \<not> upgradable current u" "i = length us" by auto
      have r: "allowed catalog p current watermark r" using mem [of r] split(1) by simp
      have best: "ver_key q \<le> ver_key r" if q: "allowed catalog p current watermark q" "upgradable current q" for q
      proof -
        from q(1) mem split(1) have "q \<in> set (us @ r # vs)" by metis
        with q(2) split(3) have "q = r \<or> q \<in> set vs" by auto
        with sorted show ?thesis unfolding split(1) by (auto simp: sorted_wrt_append)
      qed
      have stone: "0 < i \<longleftrightarrow> \<not> upgradable current n"
        using split by (cases us) auto
      have choice: "ChooseTarget catalog p current watermark =
        \<lparr>Target = Some r, Held = (breaks_previous_home r \<and> ApprovedAt r = None),
          SteppingStone = (\<not> upgradable current n), Newest = Some n,
          Reason = (if breaks_previous_home r \<and> ApprovedAt r = None then ReasonHeld else NoReason)\<rparr>"
        using out x stone by (auto simp: Let_def)
      have "\<forall>q. allowed catalog p current watermark q \<and> upgradable current q \<longrightarrow> ver_key q \<le> ver_key r"
        using best by blast
      from target [OF n(1) r n(2) split(2) this choice] show thesis .
    qed
  qed
qed

text \<open>
  Property C32. The release chosen is the best one there is: nothing is chosen exactly when no
  release that policy allows can be installed from the running version; otherwise it is an allowed
  one, none that could be installed is newer, it is a stepping stone exactly when the newest
  allowed release cannot be installed yet, and it is held exactly when it breaks the release
  before and no admin approved it.
\<close>
theorem ChooseTarget_is_best:
  "case Target (ChooseTarget catalog p current watermark) of
     None \<Rightarrow> \<forall>q. \<not> (allowed catalog p current watermark q \<and> upgradable current q)
   | Some r \<Rightarrow> allowed catalog p current watermark r \<and> upgradable current r
       \<and> (\<forall>q. \<not> (allowed catalog p current watermark q \<and> upgradable current q \<and> ver_key r < ver_key q))
       \<and> SteppingStone (ChooseTarget catalog p current watermark)
           = (\<exists>q. allowed catalog p current watermark q \<and> \<not> upgradable current q
                \<and> Newest (ChooseTarget catalog p current watermark) = Some q)
       \<and> Held (ChooseTarget catalog p current watermark) = (breaks_previous_home r \<and> ApprovedAt r = None)"
proof (cases rule: ChooseTarget_cases [of catalog p current watermark])
  case no_candidate
  then show ?thesis by simp
next
  case (no_path n)
  then show ?thesis by simp
next
  case (target n r)
  then show ?thesis by (auto simp: not_less [symmetric])
qed

section \<open>What is due\<close>

lemma MakePlan_choice [simp]:
  "Target (MakePlan built now' loc p catalog current watermark) = Target (ChooseTarget catalog p current watermark)"
  "Held (MakePlan built now' loc p catalog current watermark) = Held (ChooseTarget catalog p current watermark)"
  by (auto simp: MakePlan_def Choice.defs Let_def split: option.split sum.split prod.split)

lemma MakePlan_times:
  assumes "Target (ChooseTarget catalog p current watermark) = Some r"
  shows "NextRunAt (MakePlan built now' loc p catalog current watermark) =
      (if Held (ChooseTarget catalog p current watermark) \<or> \<not> EffectiveAutoInstall built p then None
       else case right (ParseWindow (PWindow p)) of None \<Rightarrow> None | Some w \<Rightarrow> NextStart w (fst (start_from now' p r)) loc)"
    and "Due (MakePlan built now' loc p catalog current watermark) =
      (case NextRunAt (MakePlan built now' loc p catalog current watermark) of None \<Rightarrow> False | Some u \<Rightarrow> u \<le> now')"
  using assms
  by (auto simp: MakePlan_def Choice.defs Let_def EffectiveAutoInstall_def right_def split: option.split sum.split prod.split)

lemma MakePlan_no_target:
  assumes "Target (ChooseTarget catalog p current watermark) = None"
  shows "\<not> Due (MakePlan built now' loc p catalog current watermark)"
    "NextRunAt (MakePlan built now' loc p catalog current watermark) = None"
  using assms by (simp_all add: MakePlan_def Choice.defs Let_def)

lemma start_from_max:
  "fst (start_from now' p r) = max (max now' (case DeferredUntil p of Some d \<Rightarrow> d | None \<Rightarrow> now')) (eligible_at p r)"
  by (auto simp: start_from_def Let_def max_def split: option.split)

lemma due_allowed:
  assumes "Due (MakePlan built now' loc p catalog current watermark)"
  shows "\<exists>r w. Target (MakePlan built now' loc p catalog current watermark) = Some r
    \<and> allowed catalog p current watermark r \<and> upgradable current r
    \<and> (breaks_previous_home r \<longrightarrow> ApprovedAt r \<noteq> None)
    \<and> EffectiveAutoInstall built p
    \<and> published r + MinReleaseAgeHours p * hour \<le> now' \<and> (\<forall>d. DeferredUntil p = Some d \<longrightarrow> d \<le> now')
    \<and> ParseWindow (PWindow p) = Inr w \<and> valid_window w \<and> startable w now' loc now'"
proof (cases "Target (ChooseTarget catalog p current watermark)")
  case None
  with assms MakePlan_no_target show ?thesis by blast
next
  case (Some r)
  from assms obtain u where u: "NextRunAt (MakePlan built now' loc p catalog current watermark) = Some u" "u \<le> now'"
    unfolding MakePlan_times(2) [OF Some] by (auto split: option.splits)
  then obtain w where h: "\<not> Held (ChooseTarget catalog p current watermark)" "EffectiveAutoInstall built p"
    and w: "ParseWindow (PWindow p) = Inr w" "NextStart w (fst (start_from now' p r)) loc = Some u"
    unfolding MakePlan_times(1) [OF Some] by (auto split: option.splits if_splits)
  have "fst (start_from now' p r) \<le> u" by (rule NextStart_SomeD [OF w(2)])
  with u(2) have eq: "fst (start_from now' p r) = now'" "u = now'" by (auto simp: start_from_max)
  then have "startable w now' loc now'" using NextStart_SomeD(2) [OF w(2)] by simp
  moreover from eq(1) have "eligible_at p r \<le> now'" "\<forall>d. DeferredUntil p = Some d \<longrightarrow> d \<le> now'"
    unfolding start_from_max by (auto simp: max_def split: if_splits)
  moreover have "allowed catalog p current watermark r" "upgradable current r"
    "breaks_previous_home r \<longrightarrow> ApprovedAt r \<noteq> None"
    using h(1) Some by (cases rule: ChooseTarget_cases [of catalog p current watermark]; simp)+
  ultimately show ?thesis
    using Some h(2) w(1) ParseWindow_valid [OF w(1)] by (auto simp: eligible_at_def)
qed

text \<open>A verified release of the stable channel, and a home on UTC, for examples.\<close>

abbreviation signed_release :: "string \<Rightarrow> instant \<Rightarrow> Release" where
  "signed_release v t \<equiv> \<lparr>Version = v, Channel = ''stable'', PublishedAt = None, Prerelease = False,
     RManifest = Some \<lparr>Published = t, BreaksPreviousHome = False, MinUpgradeFrom = '''', MSignedAt = t\<rparr>,
     Digest = ''digest'', VerifyState = VerifyVerified, VerifyErr = None, FirstSeenAt = t, WithdrawnAt = None, BlockedReason = '''', HeldAt = None,
     ApprovedAt = None, Attempts = 0\<rparr>"

abbreviation utc :: Location where
  "utc \<equiv> \<lparr>firstOffset = 0, changes = []\<rparr>"

lemma start_from_mono:
  assumes "now' \<le> v" and "v \<le> u" and "fst (start_from now' p r) \<le> u"
  shows "fst (start_from now' p r) \<le> fst (start_from v p r)" "fst (start_from v p r) \<le> u"
    "v \<le> fst (start_from v p r)"
  using assms by (auto simp: start_from_max max_def split: option.splits if_splits)

lemma NextStart_eq:
  assumes "changes loc = []" "valid_window w" "f \<le> g" "g \<le> u" "NextStart w f loc = Some u"
  shows "NextStart w g loc = Some u"
proof -
  obtain a where a: "NextStart w f loc = Some a" "CanStart w a loc" "\<forall>v. f \<le> v \<and> CanStart w v loc \<longrightarrow> a \<le> v"
    using NextStart_first [OF assms(1,2)] by blast
  obtain b where b: "NextStart w g loc = Some b" "g \<le> b" "CanStart w b loc" "\<forall>v. g \<le> v \<and> CanStart w v loc \<longrightarrow> b \<le> v"
    using NextStart_first [OF assms(1,2)] by blast
  from a(1) assms(5) have "a = u" by simp
  with a b assms(3,4) have "b \<le> u" "u \<le> b" by auto
  with b(1) show ?thesis by simp
qed

text \<open>
  Property C33. The plan keeps its word, in a zone that keeps its offset: the instant announced for the
  next automatic run stays announced as time passes, and with the same catalogue and policy the run is
  due when it comes and not a moment before.
\<close>
theorem plan_keeps_its_word:
  assumes "changes loc = []" and "NextRunAt (MakePlan built now' loc p catalog current watermark) = Some u"
    and "now' \<le> v" and "v \<le> u"
  shows "NextRunAt (MakePlan built v loc p catalog current watermark) = Some u
    \<and> Due (MakePlan built v loc p catalog current watermark) = (v = u)"
proof -
  from assms(2) obtain r where r: "Target (ChooseTarget catalog p current watermark) = Some r"
    using MakePlan_no_target(2) by fastforce
  note times = MakePlan_times(1) [OF r]
  from assms(2) obtain w where h: "\<not> Held (ChooseTarget catalog p current watermark)" "EffectiveAutoInstall built p"
    and w: "ParseWindow (PWindow p) = Inr w" and n: "NextStart w (fst (start_from now' p r)) loc = Some u"
    unfolding times by (auto split: option.splits if_splits)
  have "fst (start_from now' p r) \<le> u" by (rule NextStart_SomeD [OF n])
  note mono = start_from_mono [OF assms(3,4) this]
  have "NextStart w (fst (start_from v p r)) loc = Some u"
    by (rule NextStart_eq [OF assms(1) ParseWindow_valid [OF w] mono(1,2) n])
  with h w have next': "NextRunAt (MakePlan built v loc p catalog current watermark) = Some u"
    unfolding times by (simp add: right_def)
  with assms(4) show ?thesis
    unfolding MakePlan_times(2) [OF r] by auto
qed

theorem plan_keeps_its_word_witness:
  "Due (MakePlan True (10 * day + 3 * hour) utc DefaultPolicy [signed_release ''0.2.1'' (2 * day)] ''0.2.0'' ''0.2.0'')"
proof -
  have "NextRunAt (MakePlan True (9 * day + 12 * hour) utc DefaultPolicy
      [signed_release ''0.2.1'' (2 * day)] ''0.2.0'' ''0.2.0'') = Some (10 * day + 3 * hour)"
    by code_simp
  from plan_keeps_its_word [OF _ this, of "10 * day + 3 * hour"] show ?thesis by simp
qed

section \<open>Policies from the environment\<close>

lemma split_on_chars: "x \<in> set s \<Longrightarrow> x = c \<or> (\<exists>w \<in> set (split_on c s). x \<in> set w)"
  by (induction s) (auto split: list.splits)

lemma split_on_hd: "split_on c s = (a # as) # ws \<Longrightarrow> \<exists>t. s = a # t"
  by (cases s) (auto split: if_splits list.splits)

lemma core_shape_chars:
  assumes "core_shape s"
  obtains a t where "s = a # t" "is_digit a" "\<forall>c \<in> set s. is_digit c \<or> c = CHR ''.''"
proof -
  from assms obtain x y z where xyz: "split_on (CHR ''.'') s = [x, y, z]" "digits x" "digits y" "digits z"
    by (auto simp: core_shape_def split: list.splits)
  then obtain a as where x: "x = a # as" "is_digit a" by (cases x) (auto simp: digits_def)
  with xyz(1) obtain t where "s = a # t" using split_on_hd by metis
  moreover have "is_digit c \<or> c = CHR ''.''" if "c \<in> set s" for c
    using split_on_chars [OF that, of "CHR ''.''"] xyz by (auto simp: digits_def list_all_iff)
  ultimately show thesis using x(2) that by blast
qed

lemma cut_at_Some: "cut_at c s = Some (a, b) \<Longrightarrow> s = a @ c # b"
proof -
  assume "cut_at c s = Some (a, b)"
  then have "c \<in> set s" "a = takeWhile (\<lambda>x. x \<noteq> c) s" "b = tl (dropWhile (\<lambda>x. x \<noteq> c) s)"
    by (auto simp: cut_at_def split: if_splits)
  moreover have "dropWhile (\<lambda>x. x \<noteq> c) s = c # tl (dropWhile (\<lambda>x. x \<noteq> c) s)"
    using \<open>c \<in> set s\<close> by (induction s) auto
  ultimately show ?thesis by (metis takeWhile_dropWhile_id)
qed

lemma no_space: "is_digit c \<Longrightarrow> \<not> is_space c" "suffix_char c \<Longrightarrow> \<not> is_space c" "is_digit c \<Longrightarrow> c \<noteq> CHR ''v''"
  by (auto simp: is_space_def is_digit_def suffix_char_def any_suffix_def lower_suffix_def)

lemma normalized_chars:
  assumes "ValidVersion v"
  shows "\<exists>a t. normalize v = a # t \<and> is_digit a \<and> (\<forall>c \<in> set (normalize v). \<not> is_space c)"
proof (cases "cut_at (CHR ''-'') (normalize v)")
  case None
  with assms have "core_shape (normalize v)" by (simp add: ValidVersion_def)
  then obtain a t where "normalize v = a # t" "is_digit a" "\<forall>c \<in> set (normalize v). is_digit c \<or> c = CHR ''.''"
    by (rule core_shape_chars)
  then show ?thesis using no_space(1) by (auto simp: is_space_def)
next
  case (Some x)
  then obtain core suff where x: "cut_at (CHR ''-'') (normalize v) = Some (core, suff)" by (cases x) simp
  with assms have "core_shape core" and suff: "list_all suffix_char suff" by (auto simp: ValidVersion_def)
  then obtain a t where c: "core = a # t" "is_digit a" "\<forall>c \<in> set core. is_digit c \<or> c = CHR ''.''"
    using core_shape_chars by metis
  have "normalize v = core @ CHR ''-'' # suff" by (rule cut_at_Some [OF x])
  then show ?thesis using c suff no_space by (auto simp: list_all_iff is_space_def)
qed

lemma normalize_ValidVersion:
  assumes "ValidVersion v"
  shows "normalize (normalize v) = normalize v"
proof -
  from normalized_chars [OF assms] obtain a t where n: "normalize v = a # t" "is_digit a" "\<forall>c \<in> set (normalize v). \<not> is_space c" by blast
  then have "trim_space (normalize v) = normalize v" by (intro trim_space_id) (simp add: list_all_iff)
  then show ?thesis using n(1,2) no_space(3) unfolding normalize_def [of "normalize v"] by (auto simp: trim_prefix_v_def)
qed

lemma ValidVersion_normalize:
  assumes "ValidVersion v"
  shows "ValidVersion (normalize v)"
  using assms unfolding ValidVersion_def normalize_ValidVersion [OF assms] .

lemma env_keeps_valid:
  assumes "Validate p '''' = None"
  shows "Validate (ApplyEnv g p) '''' = None"
proof -
  have V: "Validate q '''' = None \<longleftrightarrow> PChannel q \<in> {ChannelStable, ChannelBeta} \<and> (\<exists>w. ParseWindow (PWindow q) = Inr w)
      \<and> (PinnedVersion q = '''' \<or> ValidVersion (PinnedVersion q))" for q
    by (auto simp: Validate_def split: sum.split)
  show ?thesis
  proof (cases g)
    case None
    with assms show ?thesis by (simp add: ApplyEnv_def)
  next
    case (Some e)
    have c: "Validate (env_channel e q) '''' = None" if "Validate q '''' = None" for q
      using that unfolding V by (auto simp: env_channel_def Let_def)
    have a: "Validate (env_auto e q) '''' = None" if "Validate q '''' = None" for q
      using that unfolding V by (auto simp: env_auto_def Let_def split: option.split)
    have w: "Validate (env_window e q) '''' = None" if "Validate q '''' = None" for q
      using that unfolding V by (auto simp: env_window_def Let_def split: sum.split)
    have h: "Validate (env_age e q) '''' = None" if "Validate q '''' = None" for q
      using that unfolding V by (auto simp: env_age_def Let_def split: option.split)
    have n: "Validate (env_pin e q) '''' = None" if "Validate q '''' = None" for q
      using that unfolding V by (auto simp: env_pin_def Let_def ValidVersion_normalize)
    show ?thesis unfolding ApplyEnv_def Some option.case
      by (rule n, rule h, rule w, rule a, rule c, rule assms)
  qed
qed

end
