(* ===== verification/Update_Scheduler.thy ===== *)
theory Update_Scheduler
  imports Update_Plan
begin

text \<open>
  The home's update scheduler and the records it decides on: \<^verbatim>\<open>api/internal/updates\<close> (scheduler.go, the
  rows of store.go and runs.go, the counting of failures in driver.go). A tick reads the plan,
  waits for an earlier failure in the same window, asks the blockers, checks the release again and
  plans a run; the driver ends the run and says what its failure is to the release. The answers of
  GitHub, the database, the blockers and the home's supervisor are inputs of a step.
\<close>

section \<open>Runs (store.go, runs.go)\<close>

datatype trigger = TriggerAuto | TriggerManual | TriggerCatchUp | TriggerRetry

datatype run_state = RunPlanned | RunHomePreparing | RunHomePrepared | RunDraining | RunHomeApplying
  | RunHomeCommitted | RunRollingOut | RunDone | RunDoneFailures | RunDoneNeedsPerson | RunHeld | RunFailed
  | RunRolledBack | RunFailedRollback | RunCancelled | RunSuperseded

text \<open>An error document; one that is absent or not JSON reads as empty.\<close>

record ErrDoc =
  Code :: string
  Detail :: string

record Run =
  ID :: nat
  RunVersion :: string
  Trigger :: trigger
  RunState :: run_state
  Step :: string
  StartedAt :: instant
  FinishedAt :: "instant option"
  RunError :: ErrDoc

record Store =
  releases :: "Release list"
  runs :: "Run list"
  highest :: string

datatype store_error = ErrRunActive

definition update_release :: "string \<Rightarrow> (Release \<Rightarrow> Release) \<Rightarrow> Store \<Rightarrow> Store" where
  "update_release v f s = s\<lparr>releases := map (\<lambda>r. if Version r = v then f r else r) (releases s)\<rparr>"

definition Get :: "Store \<Rightarrow> string \<Rightarrow> Release option" where
  "Get s v = find (\<lambda>r. Version r = normalize v) (releases s)"

text \<open>The catalogue, newest version first: the insertion sort of \<open>sortReleases\<close>.\<close>

definition Catalog :: "Store \<Rightarrow> Release list" where
  "Catalog s = sort_candidates (releases s)"

definition newest_first :: "Run list \<Rightarrow> Run list" where
  "newest_first rs = sort_by (\<lambda>a b. StartedAt b < StartedAt a) rs"

definition ActiveRun :: "Store \<Rightarrow> Run option" where
  "ActiveRun s = (case newest_first (filter (\<lambda>r. FinishedAt r = None) (runs s)) of r # _ \<Rightarrow> Some r | [] \<Rightarrow> None)"

definition LastFinishedOf :: "Store \<Rightarrow> string \<Rightarrow> Run option" where
  "LastFinishedOf s v =
    (case newest_first (filter (\<lambda>r. RunVersion r = v \<and> FinishedAt r \<noteq> None) (runs s)) of r # _ \<Rightarrow> Some r | [] \<Rightarrow> None)"

definition FailedAutoRuns :: "Store \<Rightarrow> string \<Rightarrow> instant \<Rightarrow> Run list" where
  "FailedAutoRuns s v since =
    filter (\<lambda>r. \<not> StartedAt r < since)
      (take 50 (newest_first (filter (\<lambda>r. RunVersion r = v \<and> Trigger r = TriggerAuto \<and> RunState r = RunFailed
         \<and> FinishedAt r \<noteq> None) (runs s))))"

text \<open>A row that breaks the primary key or the index of the one active run is refused.\<close>

definition InsertRun :: "nat \<Rightarrow> instant \<Rightarrow> string \<Rightarrow> trigger \<Rightarrow> Store \<Rightarrow> Store \<times> (store_error + Run)" where
  "InsertRun uuid now' v trig s =
    (if ActiveRun s \<noteq> None then (s, Inl ErrRunActive)
     else
       let r = \<lparr>ID = uuid, RunVersion = v, Trigger = trig, RunState = RunPlanned, Step = '''', StartedAt = now',
                FinishedAt = None, RunError = \<lparr>Code = '''', Detail = ''''\<rparr>\<rparr> in
       if uuid \<in> ID ` set (runs s) \<or> (\<exists>a \<in> set (runs s). FinishedAt a = None) then (s, Inl ErrRunActive)
       else (s\<lparr>runs := r # runs s\<rparr>, Inr r))"

definition update_run :: "nat \<Rightarrow> (Run \<Rightarrow> Run) \<Rightarrow> Store \<Rightarrow> Store" where
  "update_run i f s = s\<lparr>runs := map (\<lambda>r. if ID r = i then f r else r) (runs s)\<rparr>"

definition FinishRun :: "nat \<Rightarrow> instant \<Rightarrow> run_state \<Rightarrow> ErrDoc \<Rightarrow> Store \<Rightarrow> Store" where
  "FinishRun i now' st doc = update_run i (\<lambda>r. r\<lparr>RunState := st, RunError := doc, FinishedAt := Some now'\<rparr>)"

definition SetRunState :: "nat \<Rightarrow> run_state \<Rightarrow> string \<Rightarrow> Store \<Rightarrow> Store" where
  "SetRunState i st step' = update_run i (\<lambda>r. if FinishedAt r = None then r\<lparr>RunState := st, Step := step'\<rparr> else r)"

section \<open>Rows of the catalogue\<close>

definition SetVerified :: "string \<Rightarrow> Manifest \<Rightarrow> string \<Rightarrow> Store \<Rightarrow> Store" where
  "SetVerified v m digest = update_release v
     (\<lambda>r. r\<lparr>VerifyState := VerifyVerified, VerifyErr := None, RManifest := Some m, Digest := digest\<rparr>)"

text \<open>A failure that is not "not verifiable yet" is an incident.\<close>

definition Incident :: "string \<Rightarrow> bool" where
  "Incident kind' \<longleftrightarrow> kind' \<noteq> ''no_manifest'' \<and> kind' \<noteq> ''unavailable''"

definition SetVerifyError :: "string \<Rightarrow> string \<Rightarrow> string \<Rightarrow> Store \<Rightarrow> Store" where
  "SetVerifyError v kind' digest = update_release v
     (\<lambda>r. r\<lparr>VerifyState := (if Incident kind' then VerifyFailed else VerifyUnverified), VerifyErr := Some kind',
          Digest := (if digest = '''' then Digest r else digest)\<rparr>)"

definition ResetForReverify :: "string \<Rightarrow> Store \<Rightarrow> Store" where
  "ResetForReverify v = update_release v
     (\<lambda>r. r\<lparr>VerifyState := VerifyUnverified, VerifyErr := None, RManifest := None, HeldAt := None, ApprovedAt := None\<rparr>)"

definition SetWithdrawn :: "string \<Rightarrow> instant \<Rightarrow> string \<Rightarrow> Store \<Rightarrow> Store" where
  "SetWithdrawn v now' why = update_release v
     (\<lambda>r. r\<lparr>WithdrawnAt := Some now', BlockedReason := (if BlockedReason r = '''' then why else BlockedReason r)\<rparr>)"

definition SetHeld :: "string \<Rightarrow> instant \<Rightarrow> Store \<Rightarrow> Store \<times> bool" where
  "SetHeld v now' s =
    (update_release v (\<lambda>r. if HeldAt r = None then r\<lparr>HeldAt := Some now'\<rparr> else r) s,
     \<exists>r \<in> set (releases s). Version r = v \<and> HeldAt r = None)"

definition Approve :: "string \<Rightarrow> instant \<Rightarrow> Store \<Rightarrow> Store" where
  "Approve v now' = update_release v (\<lambda>r. r\<lparr>ApprovedAt := Some now'\<rparr>)"

definition Block :: "string \<Rightarrow> string \<Rightarrow> Store \<Rightarrow> Store" where
  "Block v why = update_release v (\<lambda>r. if BlockedReason r = '''' then r\<lparr>BlockedReason := why\<rparr> else r)"

definition Unblock :: "string \<Rightarrow> Store \<Rightarrow> Store" where
  "Unblock v = update_release v (\<lambda>r. if WithdrawnAt r = None \<and> VerifyState r = VerifyVerified
     then r\<lparr>BlockedReason := '''', Attempts := 0\<rparr> else r)"

definition MaxAttempts :: int where
  "MaxAttempts = 3"

definition CountAttempt :: "string \<Rightarrow> Store \<Rightarrow> Store \<times> bool" where
  "CountAttempt v s =
    (let s = update_release v (\<lambda>r. r\<lparr>Attempts := Attempts r + 1\<rparr>) s in
     case find (\<lambda>r. Version r = v) (releases s) of
       None \<Rightarrow> (s, False)
     | Some r \<Rightarrow> if MaxAttempts \<le> Attempts r then (Block v ''attempts'' s, True) else (s, False))"

definition RaiseWatermark :: "string \<Rightarrow> Store \<Rightarrow> Store" where
  "RaiseWatermark v s =
    (let v = normalize v in
     if \<not> ValidVersion v \<or> highest s \<noteq> '''' \<and> Compare v (highest s) \<le> 0 then s else s\<lparr>highest := v\<rparr>)"

section \<open>What a failure is to its release (driver.go)\<close>

fun contains :: "string \<Rightarrow> string \<Rightarrow> bool" where
  "contains p [] \<longleftrightarrow> p = []"
| "contains p (c # cs) \<longleftrightarrow> prefix p (c # cs) \<or> contains p cs"

definition needsPersonCodes :: "string list" where
  "needsPersonCodes = [''not_self_managed'', ''old_launcher'', ''no_app'', ''no_app_update'', ''launcher_protocol'',
     ''disk_space'', ''not_writable'', ''no_runtime'', ''no_python'', ''venv_network'', ''venv_python_unsupported'',
     ''needs_admin'', ''local_build'', ''app_management'', ''translocated'', ''verify_trust_root_expired'',
     ''no_trust_root'', ''trust_root'', ''python_store_stub'', ''login_item_unsigned'', ''pg_major_change'']"

definition needsPerson :: "ErrDoc \<Rightarrow> bool" where
  "needsPerson doc \<longleftrightarrow> Code doc \<in> set needsPersonCodes
     \<or> Code doc = ''prepare_refused'' \<and> (contains ''does not run update.'' (Detail doc)
         \<or> contains ''unknown command'' (Detail doc) \<or> contains ''not supported'' (Detail doc)
         \<or> contains ''machine_agent_only'' (Detail doc))"

datatype failure_class = classOlderBuild | classPerson | classVerify | classRehearsal | classAttempt

definition failureClass :: "ErrDoc \<Rightarrow> failure_class" where
  "failureClass doc =
    (if Code doc = ''older_build'' then classOlderBuild
     else if needsPerson doc then classPerson
     else if prefix ''verify_'' (Code doc) then classVerify
     else if Code doc = ''rehearsal_failed'' then classRehearsal
     else classAttempt)"

definition countedInWindow :: "Location \<Rightarrow> Policy \<Rightarrow> Store \<Rightarrow> Run \<Rightarrow> bool" where
  "countedInWindow loc p s rn =
    (if Trigger rn \<noteq> TriggerAuto then False
     else (case ParseWindow (PWindow p) of
             Inl _ \<Rightarrow> False
           | Inr w \<Rightarrow>
               (case Containing w (StartedAt rn) loc of
                  None \<Rightarrow> False
                | Some (start, _) \<Rightarrow> list_ex (\<lambda>r. ID r \<noteq> ID rn \<and> failureClass (RunError r) = classAttempt)
                    (FailedAutoRuns s (RunVersion rn) start))))"

definition blockFor :: "Location \<Rightarrow> Policy \<Rightarrow> Run \<Rightarrow> ErrDoc \<Rightarrow> Store \<Rightarrow> Store" where
  "blockFor loc p rn doc s =
    (case failureClass doc of
       classOlderBuild \<Rightarrow> Block (RunVersion rn) ''older_build'' s
     | classPerson \<Rightarrow> s
     | classVerify \<Rightarrow> Block (RunVersion rn) ''verify'' s
     | classRehearsal \<Rightarrow> Block (RunVersion rn) ''rehearsal'' s
     | classAttempt \<Rightarrow> if countedInWindow loc p s rn then s else fst (CountAttempt (RunVersion rn) s))"

section \<open>The end of a run (driver.go, stuck.go)\<close>

text \<open>
  What the home's supervisor reports of a run, or what ends it otherwise; each carries the
  document or the code the ending writes.
\<close>

datatype outcome = PrepareFailed ErrDoc | ApplyFailed ErrDoc | RolledBackFor ErrDoc | TvRolledBack string ErrDoc
  | RollbackFailed ErrDoc | GateEnded string | Committed | Aborted ErrDoc | Cancel ErrDoc | Ended run_state ErrDoc

definition finish :: "Run \<Rightarrow> instant \<Rightarrow> run_state \<Rightarrow> ErrDoc \<Rightarrow> Store \<Rightarrow> Store" where
  "finish rn now' st doc = FinishRun (ID rn) now' st doc"

definition tvRolledBack :: "Location \<Rightarrow> Policy \<Rightarrow> Run \<Rightarrow> instant \<Rightarrow> string \<Rightarrow> ErrDoc \<Rightarrow> Store \<Rightarrow> Store" where
  "tvRolledBack loc p rn now' code doc s =
    (let doc = doc\<lparr>Code := code\<rparr> in
     if code = ''tv_change_pending'' then finish rn now' RunFailed \<lparr>Code = code, Detail =
       ''the TV change waited behind a change awaiting approval until the window ended; tried again in the next window''\<rparr> s
     else
       let s = (if code = ''tv_timeout'' then blockFor loc p rn doc s
                else if code = ''tv_change_cancelled'' then Block (RunVersion rn) ''tv_cancelled'' s
                else Block (RunVersion rn) ''failed_tv'' s)
       in finish rn now' RunRolledBack doc s)"

definition homeCommitted :: "Run \<Rightarrow> Store \<Rightarrow> Store" where
  "homeCommitted rn s = SetRunState (ID rn) RunHomeCommitted '''' (RaiseWatermark (RunVersion rn) s)"

definition run_outcome :: "Location \<Rightarrow> Policy \<Rightarrow> instant \<Rightarrow> outcome \<Rightarrow> Run \<Rightarrow> Store \<Rightarrow> Store" where
  "run_outcome loc p now' out rn s =
    (case out of
       PrepareFailed doc \<Rightarrow> finish rn now' RunFailed doc (blockFor loc p rn doc s)
     | ApplyFailed doc \<Rightarrow> finish rn now' RunFailed doc (blockFor loc p rn doc s)
     | RolledBackFor doc \<Rightarrow> finish rn now' RunRolledBack doc (Block (RunVersion rn) ''rolled_back'' s)
     | TvRolledBack code doc \<Rightarrow> tvRolledBack loc p rn now' code doc s
     | RollbackFailed doc \<Rightarrow> finish rn now' RunFailedRollback doc (Block (RunVersion rn) ''rolled_back'' s)
     | GateEnded code \<Rightarrow> finish rn now' RunFailed \<lparr>Code = code, Detail =
         ''the window ended before the home could restart; tried again in the next window''\<rparr> s
     | Committed \<Rightarrow> homeCommitted rn s
     | Aborted doc \<Rightarrow> finish rn now' RunCancelled doc s
     | Cancel doc \<Rightarrow> finish rn now' RunCancelled doc s
     | Ended st doc \<Rightarrow> finish rn now' st doc s)"

text \<open>The driver works on the active run, if there is one.\<close>

definition driver_step :: "Location \<Rightarrow> Policy \<Rightarrow> instant \<Rightarrow> outcome \<Rightarrow> Store \<Rightarrow> Store" where
  "driver_step loc p now' out s = (case ActiveRun s of None \<Rightarrow> s | Some rn \<Rightarrow> run_outcome loc p now' out rn s)"

section \<open>Starting a run (scheduler.go)\<close>

definition triesPerWindow :: nat where
  "triesPerWindow = 3"

definition retryBackoff :: duration where
  "retryBackoff = 15 * minute"

definition retryWait :: "bool \<Rightarrow> instant \<Rightarrow> Location \<Rightarrow> Policy \<Rightarrow> Store \<Rightarrow> string \<Rightarrow> reason" where
  "retryWait readable now' loc p s v =
    (case ParseWindow (PWindow p) of
       Inl _ \<Rightarrow> NoReason
     | Inr w \<Rightarrow>
         (case Containing w now' loc of
            None \<Rightarrow> NoReason
          | Some (start, _) \<Rightarrow>
              let failed = FailedAutoRuns s v start in
              if \<not> readable \<or> failed = [] then NoReason
              else if needsPerson (RunError (hd failed)) then WaitNeedsPerson
              else if triesPerWindow \<le> length failed then WaitRetryWindow
              else if length failed = triesPerWindow - 1
                 \<and> (case FinishedAt (hd failed) of Some f \<Rightarrow> now' < f + retryBackoff | None \<Rightarrow> False)
              then WaitRetryBackoff
              else NoReason))"

text \<open>The answers a start gets: GitHub's, the supervisor's, and whether the driver lets its run go.\<close>

datatype recheck = RecheckFails | RecheckGood | RecheckWithdraws string

text \<open>A release as GitHub lists it; its checksums file is the digest the download would have, if there is one.\<close>

record ghRelease =
  TagName :: string
  Draft :: bool
  GPrerelease :: bool
  GPublishedAt :: instant

datatype github = NotFound | Unreachable | Undecodable | Listed ghRelease
datatype checksums_file = NoFile | NoAnswer | FileDigest string

definition gh_release :: "ghRelease \<Rightarrow> instant \<Rightarrow> Release" where
  "gh_release g now' = \<lparr>Version = normalize (TagName g),
     Channel = (if GPrerelease g \<or> IsPrerelease (TagName g) then ChannelBeta else ChannelStable),
     PublishedAt = nonzero (GPublishedAt g), Prerelease = GPrerelease g, RManifest = None, Digest = '''',
     VerifyState = VerifyUnverified, VerifyErr = None, FirstSeenAt = now', WithdrawnAt = None, BlockedReason = '''',
     HeldAt = None, ApprovedAt = None, Attempts = 0\<rparr>"

definition Recheck :: "github \<Rightarrow> checksums_file \<Rightarrow> Release \<Rightarrow> string \<Rightarrow> recheck" where
  "Recheck answer file r channel =
    (case answer of
       NotFound \<Rightarrow> RecheckWithdraws ''withdrawn''
     | Unreachable \<Rightarrow> RecheckFails
     | Undecodable \<Rightarrow> RecheckFails
     | Listed g \<Rightarrow>
         if Draft g then RecheckWithdraws ''withdrawn''
         else if channel \<noteq> ChannelBeta \<and> is_prerelease (gh_release g 0) then RecheckWithdraws ''turned_prerelease''
         else (case file of
                 NoFile \<Rightarrow> RecheckWithdraws ''checksums_changed''
               | NoAnswer \<Rightarrow> RecheckFails
               | FileDigest d \<Rightarrow> if Digest r \<noteq> '''' \<and> d \<noteq> Digest r then RecheckWithdraws ''checksums_changed'' else RecheckGood))"

record Answers =
  HistoryRead :: bool
  ActiveRead :: bool
  GivesWay :: bool
  Blockers :: "string option list"
  GitHub :: github
  Checksums :: checksums_file
  Starts :: "ErrDoc option"
  RetryNow :: instant
  InsertNow :: instant
  FinishNow :: instant
  UUID :: nat

definition waitingApp :: "string \<Rightarrow> bool" where
  "waitingApp step' \<longleftrightarrow> step' = ''waiting_app'' \<or> step' = ''waiting_click''"

definition Supersedable :: "Answers \<Rightarrow> Store \<Rightarrow> string \<Rightarrow> bool" where
  "Supersedable a s v =
    (case ActiveRun s of None \<Rightarrow> False
     | Some rn \<Rightarrow> if \<not> waitingApp (Step rn) \<or> Compare v (RunVersion rn) \<le> 0 then False else GivesWay a)"

definition Supersede :: "Answers \<Rightarrow> Store \<Rightarrow> string \<Rightarrow> Store" where
  "Supersede a s v =
    (case ActiveRun s of None \<Rightarrow> s
     | Some rn \<Rightarrow> if \<not> waitingApp (Step rn) \<or> Compare v (RunVersion rn) \<le> 0 \<or> \<not> GivesWay a then s
                  else finish rn (InsertNow a) RunSuperseded \<lparr>Code = ''superseded'', Detail = ''''\<rparr> s)"

text \<open>The first reason wins; \<open>None\<close> is a read that failed, the empty string no reason.\<close>

fun first_block :: "string option list \<Rightarrow> string option" where
  "first_block [] = Some ''''"
| "first_block (None # bs) = None"
| "first_block (Some why # bs) = (if why \<noteq> '''' then Some why else first_block bs)"

definition blockedFor :: "Answers \<Rightarrow> Store \<Rightarrow> string \<Rightarrow> string option" where
  "blockedFor a s v =
    (if \<not> ActiveRead a then None
     else if ActiveRun s \<noteq> None \<and> (v = '''' \<or> \<not> Supersedable a s v) then Some ''run_active''
     else first_block (Blockers a))"

datatype start_error = NotBuilt | RecheckError | Withdrawn string | StoreError store_error | StartError Run ErrDoc

definition start :: "bool \<Rightarrow> Policy \<Rightarrow> Answers \<Rightarrow> Release \<Rightarrow> trigger \<Rightarrow> Store \<Rightarrow> Store \<times> (start_error + Run)" where
  "start built p a r trig s =
    (if \<not> built then (s, Inl NotBuilt)
     else (case Recheck (GitHub a) (Checksums a) r (PChannel p) of
             RecheckFails \<Rightarrow> (s, Inl RecheckError)
           | RecheckWithdraws why \<Rightarrow> (SetWithdrawn (Version r) (InsertNow a) why s, Inl (Withdrawn why))
           | RecheckGood \<Rightarrow>
               let s = Supersede a s (Version r) in
               (case InsertRun (UUID a) (InsertNow a) (Version r) trig s of
                  (s, Inl e) \<Rightarrow> (s, Inl (StoreError e))
                | (s, Inr rn) \<Rightarrow>
                    (case Starts a of
                       None \<Rightarrow> (s, Inr rn)
                     | Some doc \<Rightarrow> (FinishRun (ID rn) (FinishNow a) RunFailed doc s, Inl (StartError rn doc))))))"

text \<open>The scheduler's decision, with the version and run it is about.\<close>

datatype Decision = DNone reason | DNoneErr | DHeld string | DBlocked string string | DWithdrawn string string
  | DStarted string nat | DFailed string start_error

definition tick_target :: "bool \<Rightarrow> instant \<Rightarrow> Location \<Rightarrow> Policy \<Rightarrow> Answers \<Rightarrow> Release \<Rightarrow> Store \<Rightarrow> Store \<times> Decision" where
  "tick_target built now' loc p a r s =
    (let wait = retryWait (HistoryRead a) (RetryNow a) loc p s (Version r) in
     if wait \<noteq> NoReason then (s, DNone wait)
     else (case blockedFor a s (Version r) of
             None \<Rightarrow> (s, DNoneErr)
           | Some why \<Rightarrow>
               if why \<noteq> '''' then (s, DBlocked why (Version r))
               else (case start built p a r TriggerAuto s of
                       (s, Inr rn) \<Rightarrow> (s, DStarted (RunVersion rn) (ID rn))
                     | (s, Inl (Withdrawn why)) \<Rightarrow> (s, DWithdrawn why (Version r))
                     | (s, Inl NotBuilt) \<Rightarrow> (s, DNone WaitNotBuilt)
                     | (s, Inl e) \<Rightarrow> (s, DFailed (Version r) e))))"

definition tick :: "bool \<Rightarrow> instant \<Rightarrow> Location \<Rightarrow> Policy \<Rightarrow> string \<Rightarrow> Answers \<Rightarrow> Store \<Rightarrow> Store \<times> Decision" where
  "tick built now' loc p current a s =
    (let pl = MakePlan built now' loc p (Catalog s) current (highest s) in
     case Target pl of
       None \<Rightarrow> (s, DNone (Waiting pl))
     | Some r \<Rightarrow>
         if Held pl then (fst (SetHeld (Version r) now' s), DHeld (Version r))
         else if \<not> Due pl then (s, DNone (Waiting pl))
         else tick_target built now' loc p a r s)"

section \<open>Update now (scheduler.go)\<close>

definition unblock :: "string \<Rightarrow> Store \<Rightarrow> Store \<times> bool" where
  "unblock v s =
    (case Get s v of
       None \<Rightarrow> (s, False)
     | Some rel \<Rightarrow>
         if BlockedReason rel = '''' \<and> Attempts rel = 0 then (s, False)
         else if WithdrawnAt rel \<noteq> None \<or> VerifyState rel \<noteq> VerifyVerified then (s, False)
         else (Unblock v s, True))"

datatype now_error = NowNotBuilt | NoTarget | ReadError | BlockedError string | NowStart start_error

definition now_target :: "Policy \<Rightarrow> string \<Rightarrow> string \<Rightarrow> Store \<Rightarrow> Store \<times> Release option" where
  "now_target p current version s =
    (let v = normalize version in
     if v \<noteq> '''' then
       let s = fst (unblock v s); p = p\<lparr>SkippedVersions := [], PinnedVersion := ''''\<rparr>;
           only = filter (\<lambda>r. Compare (Version r) v = 0) (Catalog s)
       in (s, Target (ChooseTarget only p current (highest s)))
     else (s, Target (ChooseTarget (Catalog s) p current (highest s))))"

definition RunNow :: "bool \<Rightarrow> Policy \<Rightarrow> string \<Rightarrow> Answers \<Rightarrow> string \<Rightarrow> Store \<Rightarrow> Store \<times> (now_error + Run)" where
  "RunNow built p current a version s =
    (if \<not> built then (s, Inl NowNotBuilt)
     else (case now_target p current version s of
             (s, None) \<Rightarrow> (s, Inl NoTarget)
           | (s, Some r) \<Rightarrow>
               (case blockedFor a s (Version r) of
                  None \<Rightarrow> (s, Inl ReadError)
                | Some why \<Rightarrow>
                    if why \<noteq> '''' \<and> why \<noteq> ''recent_crash'' then (s, Inl (BlockedError why))
                    else
                      let s = (if breaks_previous_home r \<and> ApprovedAt r = None then Approve (Version r) (InsertNow a) s else s)
                      in (case start built p a r TriggerManual s of
                            (s, Inr rn) \<Rightarrow> (s, Inr rn)
                          | (s, Inl e) \<Rightarrow> (s, Inl (NowStart e))))))"

section \<open>Histories\<close>

text \<open>
  The events of a home, in any order: a scheduler's tick, an admin's Update now, Unblock and
  a cancel or a report the driver acts on, a move of the active run's state, and what the
  discovery writes in the catalogue. The log keeps, of every automatic run started, its release, the
  start of the window occurrence the tick found itself in, and the run.
\<close>

datatype catalog_op = Seen Release | Verified string Manifest string | VerifyFailedOn string string string | Reverify string
  | Withdraw string instant string

definition Seen_release :: "Release \<Rightarrow> Store \<Rightarrow> Store" where
  "Seen_release r s =
    (if Version r \<in> Version ` set (releases s)
     then update_release (Version r)
            (\<lambda>q. q\<lparr>Channel := Channel r, PublishedAt := PublishedAt r, Prerelease := Prerelease r\<rparr>) s
     else s\<lparr>releases := releases s @ [\<lparr>Version = Version r, Channel = Channel r, PublishedAt = PublishedAt r,
       Prerelease = Prerelease r, RManifest = None, Digest = '''', VerifyState = VerifyUnverified, VerifyErr = None, FirstSeenAt = FirstSeenAt r,
       WithdrawnAt = None, BlockedReason = '''', HeldAt = None, ApprovedAt = None, Attempts = 0\<rparr>]\<rparr>)"

fun catalog_step :: "catalog_op \<Rightarrow> Store \<Rightarrow> Store" where
  "catalog_step (Seen r) s = Seen_release r s"
| "catalog_step (Verified v m digest) s = SetVerified v m digest s"
| "catalog_step (VerifyFailedOn v kind' digest) s = SetVerifyError v kind' digest s"
| "catalog_step (Reverify v) s = ResetForReverify v s"
| "catalog_step (Withdraw v t why) s = SetWithdrawn v t why s"

record World =
  db :: Store
  starts :: "(string \<times> instant \<times> nat) list"

datatype event = ETick bool instant Location Policy string Answers | ENow bool Policy string Answers string
  | EUnblock string | EDriver Location Policy instant outcome | EMove nat run_state string | ECatalog catalog_op

definition occurrence_of :: "Location \<Rightarrow> Policy \<Rightarrow> Answers \<Rightarrow> instant option" where
  "occurrence_of loc p a =
    (case ParseWindow (PWindow p) of Inl _ \<Rightarrow> None
     | Inr w \<Rightarrow> map_option fst (Containing w (RetryNow a) loc))"

definition log_start :: "Location \<Rightarrow> Policy \<Rightarrow> Answers \<Rightarrow> Decision \<Rightarrow> (string \<times> instant \<times> nat) list \<Rightarrow> (string \<times> instant \<times> nat) list" where
  "log_start loc p a d l =
    (case (d, occurrence_of loc p a) of
       (DStarted v i, Some o') \<Rightarrow> (v, o', i) # l
     | (DFailed v (StartError rn _), Some o') \<Rightarrow> (v, o', ID rn) # l
     | _ \<Rightarrow> l)"

fun step :: "event \<Rightarrow> World \<Rightarrow> World" where
  "step (ETick built now' loc p current a) w =
     (let (s, d) = tick built now' loc p current a (db w) in \<lparr>db = s, starts = log_start loc p a d (starts w)\<rparr>)"
| "step (ENow built p current a version) w = w\<lparr>db := fst (RunNow built p current a version (db w))\<rparr>"
| "step (EUnblock v) w = w\<lparr>db := fst (unblock (normalize v) (db w))\<rparr>"
| "step (EDriver loc p now' out) w = w\<lparr>db := driver_step loc p now' out (db w)\<rparr>"
| "step (EMove i st step') w = w\<lparr>db := SetRunState i st step' (db w)\<rparr>"
| "step (ECatalog op) w = w\<lparr>db := catalog_step op (db w)\<rparr>"

definition empty_world :: World where
  "empty_world = \<lparr>db = \<lparr>releases = [], runs = [], highest = ''''\<rparr>, starts = []\<rparr>"

text \<open>A tick that could read the runs, on a clock that did not go back while it asked GitHub.\<close>

fun sound :: "event \<Rightarrow> bool" where
  "sound (ETick built now' loc p current a) \<longleftrightarrow> HistoryRead a \<and> RetryNow a \<le> InsertNow a"
| "sound _ \<longleftrightarrow> True"

section \<open>How the runs change\<close>

definition whole :: "Store \<Rightarrow> bool" where
  "whole s \<longleftrightarrow> distinct (map ID (runs s)) \<and> length (filter (\<lambda>r. FinishedAt r = None) (runs s)) \<le> 1"

text \<open>Runs keep what they are; one that ended does not change.\<close>

definition advances :: "Store \<Rightarrow> Store \<Rightarrow> bool" where
  "advances s s' \<longleftrightarrow> (\<exists>f. runs s' = map f (runs s) \<and> (\<forall>r \<in> set (runs s). ID (f r) = ID r \<and> RunVersion (f r) = RunVersion r
     \<and> Trigger (f r) = Trigger r \<and> StartedAt (f r) = StartedAt r \<and> (FinishedAt r \<noteq> None \<longrightarrow> f r = r)))"

lemma set_newest_first [simp]: "set (newest_first rs) = set rs"
  by (simp add: newest_first_def)

lemma newest_first_Nil [simp]: "newest_first rs = [] \<longleftrightarrow> rs = []"
  by (simp add: newest_first_def)

lemma ActiveRun_SomeD: "ActiveRun s = Some r \<Longrightarrow> r \<in> set (runs s) \<and> FinishedAt r = None"
proof -
  assume "ActiveRun s = Some r"
  then obtain rs where "newest_first (filter (\<lambda>r. FinishedAt r = None) (runs s)) = r # rs"
    by (auto simp: ActiveRun_def split: list.splits)
  then have "r \<in> set (filter (\<lambda>r. FinishedAt r = None) (runs s))"
    by (metis list.set_intros(1) set_newest_first)
  then show ?thesis by simp
qed

lemma ActiveRun_None: "ActiveRun s = None \<longleftrightarrow> (\<forall>r \<in> set (runs s). FinishedAt r \<noteq> None)"
proof -
  have "ActiveRun s = None \<longleftrightarrow> newest_first (filter (\<lambda>r. FinishedAt r = None) (runs s)) = []"
    by (simp add: ActiveRun_def split: list.split del: newest_first_Nil)
  then show ?thesis by (auto simp: filter_empty_conv)
qed

lemma ActiveRun_cong: "runs s = runs s' \<Longrightarrow> ActiveRun s = ActiveRun s'"
  by (simp add: ActiveRun_def)

lemma advances_same: "runs s = runs s' \<Longrightarrow> advances s s'"
  unfolding advances_def by (rule exI [of _ "\<lambda>r. r"]) simp

lemma advances_refl [simp]: "advances s s"
  by (rule advances_same) simp

lemma advances_trans:
  assumes "advances s t" and "advances t u"
  shows "advances s u"
proof -
  from assms(1) obtain f where f: "runs t = map f (runs s)" "\<forall>r \<in> set (runs s). ID (f r) = ID r \<and> RunVersion (f r) = RunVersion r
     \<and> Trigger (f r) = Trigger r \<and> StartedAt (f r) = StartedAt r \<and> (FinishedAt r \<noteq> None \<longrightarrow> f r = r)"
    unfolding advances_def by blast
  from assms(2) obtain g where g: "runs u = map g (runs t)" "\<forall>r \<in> set (runs t). ID (g r) = ID r \<and> RunVersion (g r) = RunVersion r
     \<and> Trigger (g r) = Trigger r \<and> StartedAt (g r) = StartedAt r \<and> (FinishedAt r \<noteq> None \<longrightarrow> g r = r)"
    unfolding advances_def by blast
  show ?thesis unfolding advances_def
    by (rule exI [of _ "g \<circ> f"]) (use f g in auto)
qed

lemma advances_mem:
  assumes "advances s s'" and "r' \<in> set (runs s')"
  obtains r where "r \<in> set (runs s)" "ID r' = ID r" "RunVersion r' = RunVersion r" "Trigger r' = Trigger r"
    "StartedAt r' = StartedAt r" "FinishedAt r \<noteq> None \<Longrightarrow> r' = r"
  using assms by (auto simp: advances_def)

lemma advances_kept:
  assumes "advances s s'" and "r \<in> set (runs s)"
  obtains r' where "r' \<in> set (runs s')" "ID r' = ID r" "RunVersion r' = RunVersion r" "Trigger r' = Trigger r"
    "StartedAt r' = StartedAt r" "FinishedAt r \<noteq> None \<Longrightarrow> r' = r"
proof -
  from assms(1) obtain f where f: "runs s' = map f (runs s)" "\<forall>r \<in> set (runs s). ID (f r) = ID r \<and> RunVersion (f r) = RunVersion r
     \<and> Trigger (f r) = Trigger r \<and> StartedAt (f r) = StartedAt r \<and> (FinishedAt r \<noteq> None \<longrightarrow> f r = r)"
    unfolding advances_def by blast
  from f(1) assms(2) have "f r \<in> set (runs s')" by simp
  with f(2) assms(2) show thesis by (intro that [of "f r"]) auto
qed

lemma length_filter_map_le:
  "(\<And>x. x \<in> set xs \<Longrightarrow> P (f x) \<Longrightarrow> Q x) \<Longrightarrow> length (filter P (map f xs)) \<le> length (filter Q xs)"
  by (induction xs) (simp_all add: le_SucI)

lemma advances_IDs: "advances s s' \<Longrightarrow> map ID (runs s') = map ID (runs s)"
  by (auto simp: advances_def)

lemma advances_whole:
  assumes "advances s s'" and "whole s"
  shows "whole s'"
proof -
  obtain f where f: "runs s' = map f (runs s)" "\<forall>r \<in> set (runs s). FinishedAt r \<noteq> None \<longrightarrow> f r = r"
    using assms(1) by (auto simp: advances_def)
  have "length (filter (\<lambda>r. FinishedAt r = None) (map f (runs s))) \<le> length (filter (\<lambda>r. FinishedAt r = None) (runs s))"
    by (rule length_filter_map_le) (use f(2) in metis)
  moreover have "distinct (map ID (runs s'))"
    using assms(2) unfolding advances_IDs [OF assms(1)] whole_def by simp
  ultimately show ?thesis using assms(2) unfolding whole_def f(1) [symmetric] by (meson le_trans)
qed

lemma same_ID:
  assumes "whole s" and "a \<in> set (runs s)" and "b \<in> set (runs s)" and "ID a = ID b"
  shows "a = b"
  using assms by (auto simp: whole_def distinct_map inj_on_def)

lemma advances_FinishRun:
  assumes "whole s" and "r \<in> set (runs s)" and "FinishedAt r = None" and "runs t = runs s"
  shows "advances s (FinishRun (ID r) now' st doc t)"
proof -
  let ?f = "\<lambda>q. if ID q = ID r then q\<lparr>RunState := st, RunError := doc, FinishedAt := Some now'\<rparr> else q"
  have "FinishedAt q = None" if "q \<in> set (runs s)" "ID q = ID r" for q
    using same_ID [OF assms(1) that(1) assms(2) that(2)] assms(3) by simp
  then show ?thesis
    unfolding advances_def FinishRun_def update_run_def by (intro exI [of _ ?f]) (auto simp: assms(4))
qed

lemma advances_SetRunState: "runs t = runs s \<Longrightarrow> advances s (SetRunState i st step' t)"
  unfolding advances_def SetRunState_def update_run_def
  by (rule exI [of _ "\<lambda>q. if ID q = i then (if FinishedAt q = None then q\<lparr>RunState := st, Step := step'\<rparr> else q) else q"]) auto

section \<open>What leaves the runs alone\<close>

lemma runs_update_release [simp]: "runs (update_release v f s) = runs s"
  by (simp add: update_release_def)

lemma runs_rows [simp]:
  "runs (SetVerified v m d s) = runs s" "runs (SetVerifyError v k d s) = runs s" "runs (ResetForReverify v s) = runs s"
  "runs (SetWithdrawn v t why s) = runs s" "runs (fst (SetHeld v t s)) = runs s" "runs (Approve v t s) = runs s"
  "runs (Block v why s) = runs s" "runs (Unblock v s) = runs s" "runs (RaiseWatermark v s) = runs s"
  by (simp_all add: SetVerified_def SetVerifyError_def ResetForReverify_def SetWithdrawn_def SetHeld_def Approve_def
      Block_def Unblock_def RaiseWatermark_def Let_def)

lemma runs_CountAttempt [simp]: "runs (fst (CountAttempt v s)) = runs s"
  by (simp add: CountAttempt_def Let_def split: option.split)

lemma runs_blockFor [simp]: "runs (blockFor loc p rn doc s) = runs s"
  by (simp add: blockFor_def split: failure_class.split)

lemma runs_Seen [simp]: "runs (Seen_release r s) = runs s"
  by (simp add: Seen_release_def)

lemma runs_catalog_step [simp]: "runs (catalog_step op s) = runs s"
  by (cases op) simp_all

lemma runs_unblock [simp]: "runs (fst (unblock v s)) = runs s"
  by (simp add: unblock_def split: option.split)

lemma runs_now_target [simp]: "runs (fst (now_target p current version s)) = runs s"
  by (simp add: now_target_def Let_def)

lemma advances_driver_step: "whole s \<Longrightarrow> advances s (driver_step loc p now' out s)"
proof -
  assume w: "whole s"
  show ?thesis
  proof (cases "ActiveRun s")
    case None
    then show ?thesis by (simp add: driver_step_def)
  next
    case (Some rn)
    from ActiveRun_SomeD [OF Some] have r: "rn \<in> set (runs s)" "FinishedAt rn = None" by simp_all
    note end' = advances_FinishRun [OF w r]
    show ?thesis
      by (cases out)
        (auto simp: driver_step_def Some run_outcome_def finish_def homeCommitted_def tvRolledBack_def Let_def
          intro!: end' advances_SetRunState)
  qed
qed

section \<open>What a start does\<close>

text \<open>A planned run: what was there before, with no run left active, and the new one in front.\<close>

definition plans :: "Store \<Rightarrow> Answers \<Rightarrow> string \<Rightarrow> trigger \<Rightarrow> Store \<Rightarrow> Run \<Rightarrow> bool" where
  "plans s a v trig s' rn \<longleftrightarrow> (\<exists>s1 s2. advances s s1
     \<and> (\<forall>r \<in> set (runs s1). FinishedAt r \<noteq> None) \<and> (\<forall>r \<in> set (runs s1). RunState r = RunFailed \<longrightarrow> r \<in> set (runs s))
     \<and> runs s2 = rn # runs s1 \<and> ID rn \<notin> ID ` set (runs s1) \<and> RunVersion rn = v \<and> Trigger rn = trig
     \<and> StartedAt rn = InsertNow a \<and> FinishedAt rn = None \<and> advances s2 s')"

lemma Supersede_advances:
  assumes "whole s"
  shows "advances s (Supersede a s v)"
    "r \<in> set (runs (Supersede a s v)) \<Longrightarrow> RunState r = RunFailed \<Longrightarrow> r \<in> set (runs s)"
proof -
  show "advances s (Supersede a s v)"
    using assms by (auto simp: Supersede_def finish_def split: option.split intro!: advances_FinishRun dest: ActiveRun_SomeD)
  show "r \<in> set (runs (Supersede a s v)) \<Longrightarrow> RunState r = RunFailed \<Longrightarrow> r \<in> set (runs s)"
    by (auto simp: Supersede_def finish_def FinishRun_def update_run_def split: option.splits if_splits)
qed

lemma InsertRun_cases:
  obtains (refused) "InsertRun i now' v trig s = (s, Inl ErrRunActive)"
  | (planned) rn s' where "InsertRun i now' v trig s = (s', Inr rn)" "\<forall>r \<in> set (runs s). FinishedAt r \<noteq> None"
      "runs s' = rn # runs s" "ID rn \<notin> ID ` set (runs s)" "RunVersion rn = v" "Trigger rn = trig"
      "StartedAt rn = now'" "FinishedAt rn = None" "ID rn = i"
proof (cases "ActiveRun s = None \<and> i \<notin> ID ` set (runs s)")
  case False
  then have "InsertRun i now' v trig s = (s, Inl ErrRunActive)" by (auto simp: InsertRun_def Let_def)
  then show thesis by (rule refused)
next
  case True
  then have "\<forall>r \<in> set (runs s). FinishedAt r \<noteq> None" by (simp add: ActiveRun_None)
  moreover define rn where "rn = \<lparr>ID = i, RunVersion = v, Trigger = trig, RunState = RunPlanned, Step = '''', StartedAt = now',
      FinishedAt = None, RunError = \<lparr>Code = '''', Detail = ''''\<rparr>\<rparr>"
  ultimately have "InsertRun i now' v trig s = (s\<lparr>runs := rn # runs s\<rparr>, Inr rn)" "ID rn \<notin> ID ` set (runs s)"
    using True by (auto simp: InsertRun_def Let_def)
  then show thesis using \<open>\<forall>r \<in> set (runs s). FinishedAt r \<noteq> None\<close>
    by (intro planned [of "s\<lparr>runs := rn # runs s\<rparr>" rn]) (simp_all add: rn_def)
qed

lemma start_cases:
  fixes a :: Answers
  assumes "whole s"
  obtains (not_planned) e where "snd (start built p a r trig s) = Inl e" "\<forall>rn doc. e \<noteq> StartError rn doc"
      "advances s (fst (start built p a r trig s))"
  | (planned) rn where "plans s a (Version r) trig (fst (start built p a r trig s)) rn"
      "snd (start built p a r trig s) = Inr rn \<or> (\<exists>doc. snd (start built p a r trig s) = Inl (StartError rn doc))"
      "built" "Recheck (GitHub a) (Checksums a) r (PChannel p) = RecheckGood"
proof -
  consider "\<not> built" | "built" "Recheck (GitHub a) (Checksums a) r (PChannel p) = RecheckFails" | why where "built" "Recheck (GitHub a) (Checksums a) r (PChannel p) = RecheckWithdraws why"
    | "built" "Recheck (GitHub a) (Checksums a) r (PChannel p) = RecheckGood" by (cases "Recheck (GitHub a) (Checksums a) r (PChannel p)") auto
  then show thesis
  proof cases
    case 1
    then show thesis by (intro not_planned [of NotBuilt]) (simp_all add: start_def)
  next
    case 2
    then show thesis by (intro not_planned [of RecheckError]) (simp_all add: start_def)
  next
    case (3 why)
    then show thesis by (intro not_planned [of "Withdrawn why"]) (simp_all add: start_def advances_same)
  next
    case 4
    define s1 where "s1 = Supersede a s (Version r)"
    have s1: "advances s s1" "\<forall>r \<in> set (runs s1). RunState r = RunFailed \<longrightarrow> r \<in> set (runs s)"
      using Supersede_advances [OF assms, where a = a and v = "Version r"] by (simp_all add: s1_def)
    show thesis
    proof (cases rule: InsertRun_cases [of "UUID a" "InsertNow a" "Version r" trig s1])
      case refused
      with 4 s1(1) show thesis
        by (intro not_planned [of "StoreError ErrRunActive"]) (simp_all add: start_def Let_def s1_def)
    next
      case (planned rn s2)
      have "whole s2"
        using advances_whole [OF s1(1) assms] planned(2,3,4,8) by (auto simp: whole_def filter_empty_conv)
      then have "advances s2 (FinishRun (UUID a) t st doc s2)" for t st doc
        using advances_FinishRun [of s2 rn s2 t st doc] planned(3,8,9) by simp
      then have "advances s2 (fst (start built p a r trig s))"
        using 4 planned by (auto simp: start_def Let_def s1_def [symmetric] split: option.split)
      then have "plans s a (Version r) trig (fst (start built p a r trig s)) rn"
        unfolding plans_def using s1 planned(2-8) by blast
      moreover have "snd (start built p a r trig s) = Inr rn \<or> (\<exists>doc. snd (start built p a r trig s) = Inl (StartError rn doc))"
        using 4 planned(1) by (auto simp: start_def Let_def s1_def [symmetric] split: option.split)
      ultimately show thesis using 4 by (intro that(2))
    qed
  qed
qed

lemma plans_whole: "whole s \<Longrightarrow> plans s a v trig s' rn \<Longrightarrow> whole s'"
proof -
  assume w: "whole s" and "plans s a v trig s' rn"
  then obtain s1 s2 where p: "advances s s1" "\<forall>r \<in> set (runs s1). FinishedAt r \<noteq> None" "runs s2 = rn # runs s1"
    "ID rn \<notin> ID ` set (runs s1)" "advances s2 s'" by (auto simp: plans_def)
  from p(1) w have "whole s1" by (rule advances_whole)
  with p(2,3,4) have "whole s2" by (auto simp: whole_def filter_empty_conv)
  with p(5) show "whole s'" by (rule advances_whole)
qed

lemma tick_target_cases:
  fixes a :: Answers
  assumes "whole s"
  obtains (no_run) "advances s (fst (tick_target built now' loc p a r s))"
      "\<forall>l. log_start loc p a (snd (tick_target built now' loc p a r s)) l = l"
      "\<forall>v i. snd (tick_target built now' loc p a r s) \<noteq> DStarted v i"
  | (planned) rn where "plans s a (Version r) TriggerAuto (fst (tick_target built now' loc p a r s)) rn"
      "\<forall>l. log_start loc p a (snd (tick_target built now' loc p a r s)) l =
         (case occurrence_of loc p a of Some o' \<Rightarrow> (Version r, o', ID rn) # l | None \<Rightarrow> l)"
      "retryWait (HistoryRead a) (RetryNow a) loc p s (Version r) = NoReason"
      "blockedFor a s (Version r) = Some ''''" "built" "Recheck (GitHub a) (Checksums a) r (PChannel p) = RecheckGood"
      "\<forall>v i. snd (tick_target built now' loc p a r s) = DStarted v i \<longrightarrow> v = Version r \<and> i = ID rn"
proof (cases "retryWait (HistoryRead a) (RetryNow a) loc p s (Version r) = NoReason \<and> blockedFor a s (Version r) = Some ''''")
  case False
  then show thesis
    by (intro no_run) (auto simp: tick_target_def Let_def log_start_def split: option.split)
next
  case True
  then have t: "tick_target built now' loc p a r s =
     (case start built p a r TriggerAuto s of
        (s, Inr rn) \<Rightarrow> (s, DStarted (RunVersion rn) (ID rn))
      | (s, Inl (Withdrawn why)) \<Rightarrow> (s, DWithdrawn why (Version r))
      | (s, Inl NotBuilt) \<Rightarrow> (s, DNone WaitNotBuilt)
      | (s, Inl e) \<Rightarrow> (s, DFailed (Version r) e))"
    by (simp add: tick_target_def)
  obtain s' x where st: "start built p a r TriggerAuto s = (s', x)" by (rule prod.exhaust)
  show thesis
  proof (cases rule: start_cases [OF assms, where built = built and p = p and a = a and r = r and trig = TriggerAuto])
    case (1 e)
    note not_planned = this
    with st have "x = Inl e" "advances s s'" by simp_all
    with not_planned(2) st show thesis
      by (intro no_run) (cases e; simp add: t log_start_def)+
  next
    case (2 rn)
    note planned = this
    then have p: "plans s a (Version r) TriggerAuto s' rn" using st by simp
    then have v: "RunVersion rn = Version r" by (auto simp: plans_def)
    from planned(2) st have x: "x = Inr rn \<or> (\<exists>doc. x = Inl (StartError rn doc))" by simp
    then have f: "fst (tick_target built now' loc p a r s) = s'" by (auto simp: t st)
    have l: "\<forall>l. log_start loc p a (snd (tick_target built now' loc p a r s)) l =
         (case occurrence_of loc p a of Some o' \<Rightarrow> (Version r, o', ID rn) # l | None \<Rightarrow> l)"
      using x v by (auto simp: t st log_start_def split: option.split)
    from True have w: "retryWait (HistoryRead a) (RetryNow a) loc p s (Version r) = NoReason"
      "blockedFor a s (Version r) = Some ''''" by simp_all
    from p have "plans s a (Version r) TriggerAuto (fst (tick_target built now' loc p a r s)) rn" by (simp only: f)
    moreover have "\<forall>v i. snd (tick_target built now' loc p a r s) = DStarted v i \<longrightarrow> v = Version r \<and> i = ID rn"
      using x v by (auto simp: t st)
    ultimately show thesis using that(2) [OF _ l w planned(3,4)] by blast
  qed
qed

lemma tick_cases:
  fixes a :: Answers
  assumes "whole s"
  obtains (no_run) "advances s (fst (tick built now' loc p current a s))"
      "\<forall>l. log_start loc p a (snd (tick built now' loc p current a s)) l = l"
      "\<forall>v i. snd (tick built now' loc p current a s) \<noteq> DStarted v i"
  | (planned) r rn where "plans s a (Version r) TriggerAuto (fst (tick built now' loc p current a s)) rn"
      "\<forall>l. log_start loc p a (snd (tick built now' loc p current a s)) l =
         (case occurrence_of loc p a of Some o' \<Rightarrow> (Version r, o', ID rn) # l | None \<Rightarrow> l)"
      "retryWait (HistoryRead a) (RetryNow a) loc p s (Version r) = NoReason"
      "blockedFor a s (Version r) = Some ''''" "Recheck (GitHub a) (Checksums a) r (PChannel p) = RecheckGood"
      "Target (MakePlan built now' loc p (Catalog s) current (highest s)) = Some r"
      "Due (MakePlan built now' loc p (Catalog s) current (highest s))"
      "\<forall>v i. snd (tick built now' loc p current a s) = DStarted v i \<longrightarrow> v = Version r \<and> i = ID rn"
proof -
  let ?pl = "MakePlan built now' loc p (Catalog s) current (highest s)"
  consider (none) "Target ?pl = None" | (held) r where "Target ?pl = Some r" "Held ?pl"
    | (waits) r where "Target ?pl = Some r" "\<not> Held ?pl" "\<not> Due ?pl"
    | (due) r where "Target ?pl = Some r" "\<not> Held ?pl" "Due ?pl"
    by (cases "Target ?pl") auto
  then show thesis
  proof cases
    case none
    then show thesis by (intro no_run) (simp_all add: tick_def Let_def log_start_def)
  next
    case (held r)
    then show thesis by (intro no_run) (simp_all add: tick_def Let_def log_start_def advances_same)
  next
    case (waits r)
    then show thesis by (intro no_run) (simp_all add: tick_def Let_def log_start_def)
  next
    case (due r)
    then have t: "tick built now' loc p current a s = tick_target built now' loc p a r s"
      by (simp add: tick_def Let_def)
    show thesis
    proof (cases rule: tick_target_cases [OF assms, of built now' loc p a r])
      case 1
      then show thesis unfolding t [symmetric] by (rule that(1))
    next
      case (2 rn)
      from 2(1-4,6) due(1,3) 2(7) show thesis unfolding t [symmetric] by (rule that(2))
    qed
  qed
qed

section \<open>Failed runs of a window\<close>

lemma filter_take_prefix:
  assumes "sorted_wrt (\<lambda>a b. P b \<longrightarrow> P a) xs"
  shows "filter P (take n xs) = take n (filter P xs)"
  using assms
proof (induction xs arbitrary: n)
  case (Cons x xs)
  show ?case
  proof (cases "P x")
    case True
    with Cons show ?thesis by (cases n) simp_all
  next
    case False
    with Cons.prems have "\<forall>y \<in> set xs. \<not> P y" by auto
    with False have "filter P (x # xs) = []" "filter P (take n (x # xs)) = []"
      using set_take_subset [of n "x # xs"] by (auto simp: filter_empty_conv)
    then show ?thesis by simp
  qed
qed simp

definition failed_auto :: "string \<Rightarrow> instant \<Rightarrow> Run \<Rightarrow> bool" where
  "failed_auto v since r \<longleftrightarrow> RunVersion r = v \<and> Trigger r = TriggerAuto \<and> RunState r = RunFailed
     \<and> FinishedAt r \<noteq> None \<and> since \<le> StartedAt r"

lemma newest_first_sorted: "sorted_wrt (\<lambda>a b. StartedAt b \<le> StartedAt a) (newest_first rs)"
proof -
  have "sorted_wrt (\<lambda>a b. \<not> StartedAt a < StartedAt b) (newest_first rs)"
    unfolding newest_first_def by (rule sort_by_sorted) auto
  then show ?thesis by (rule sorted_wrt_mono_rel [rotated]) simp
qed

lemma length_FailedAutoRuns:
  "length (FailedAutoRuns s v since) = min 50 (length (filter (failed_auto v since) (runs s)))"
proof -
  let ?xs = "newest_first (filter (\<lambda>r. RunVersion r = v \<and> Trigger r = TriggerAuto \<and> RunState r = RunFailed
         \<and> FinishedAt r \<noteq> None) (runs s))"
  have "sorted_wrt (\<lambda>a b. \<not> StartedAt b < since \<longrightarrow> \<not> StartedAt a < since) ?xs"
    by (rule sorted_wrt_mono_rel [rotated, OF newest_first_sorted]) auto
  then have "FailedAutoRuns s v since = take 50 (filter (\<lambda>r. \<not> StartedAt r < since) ?xs)"
    unfolding FailedAutoRuns_def by (rule filter_take_prefix)
  moreover have "length (filter (\<lambda>r. \<not> StartedAt r < since) ?xs) = length (filter (failed_auto v since) (runs s))"
  proof -
    have "length (filter (\<lambda>r. \<not> StartedAt r < since) ?xs) = size (filter_mset (\<lambda>r. \<not> StartedAt r < since) (mset ?xs))"
      by (simp only: mset_filter [symmetric] size_mset)
    also have "mset ?xs = filter_mset (\<lambda>r. RunVersion r = v \<and> Trigger r = TriggerAuto \<and> RunState r = RunFailed
         \<and> FinishedAt r \<noteq> None) (mset (runs s))" by (simp add: newest_first_def)
    also have "filter_mset (\<lambda>r. \<not> StartedAt r < since) \<dots> = filter_mset (failed_auto v since) (mset (runs s))"
      unfolding filter_filter_mset by (rule filter_mset_cong [OF refl]) (auto simp: failed_auto_def)
    also have "size \<dots> = length (filter (failed_auto v since) (runs s))"
      by (simp only: mset_filter [symmetric] size_mset)
    finally show ?thesis .
  qed
  ultimately show ?thesis by simp
qed

lemma retryWait_few:
  assumes "retryWait True now' loc p s v = NoReason" and "ParseWindow (PWindow p) = Inr w"
    and "Containing w now' loc = Some (b, e)"
  shows "length (filter (failed_auto v b) (runs s)) < triesPerWindow"
proof -
  have "length (FailedAutoRuns s v b) < triesPerWindow"
    using assms by (auto simp: retryWait_def Let_def triesPerWindow_def split: if_splits)
  then show ?thesis by (simp add: length_FailedAutoRuns triesPerWindow_def)
qed

section \<open>What holds of every history\<close>

definition failing :: "Store \<Rightarrow> nat \<Rightarrow> bool" where
  "failing s i \<longleftrightarrow> (\<exists>r \<in> set (runs s). ID r = i \<and> (FinishedAt r = None \<or> RunState r = RunFailed))"

definition spent :: "Store \<Rightarrow> (string \<times> instant \<times> nat) list \<Rightarrow> string \<Rightarrow> instant \<Rightarrow> (string \<times> instant \<times> nat) list" where
  "spent s l v o' = filter (\<lambda>(v', o'', i). v' = v \<and> o'' = o' \<and> failing s i) l"

definition logged :: "Store \<Rightarrow> (string \<times> instant \<times> nat) list \<Rightarrow> bool" where
  "logged s l \<longleftrightarrow> distinct (map (snd \<circ> snd) l) \<and> (\<forall>(v, o', i) \<in> set l. \<exists>r \<in> set (runs s). ID r = i
     \<and> RunVersion r = v \<and> Trigger r = TriggerAuto \<and> o' \<le> StartedAt r)"

definition orderly :: "Store \<Rightarrow> (string \<times> instant \<times> nat) list \<Rightarrow> bool" where
  "orderly s l \<longleftrightarrow> whole s \<and> logged s l \<and> (\<forall>v o'. length (spent s l v o') \<le> triesPerWindow)"

lemma failing_advances: "advances s s' \<Longrightarrow> failing s' i \<Longrightarrow> failing s i"
  unfolding failing_def by (metis advances_mem)

lemma logged_advances: "advances s s' \<Longrightarrow> logged s l \<Longrightarrow> logged s' l"
  unfolding logged_def by (fastforce elim: advances_kept)

lemma spent_mono:
  assumes "\<And>v o' i. (v, o', i) \<in> set l \<Longrightarrow> failing s' i \<Longrightarrow> failing s i"
  shows "length (spent s' l v o') \<le> length (spent s l v o')"
proof -
  have "length (filter (\<lambda>(v', o'', i). v' = v \<and> o'' = o' \<and> failing s' i) (map (\<lambda>x. x) l)) \<le> length (spent s l v o')"
    unfolding spent_def by (rule length_filter_map_le) (use assms in auto)
  then show ?thesis by (simp add: spent_def)
qed

lemma orderly_advances:
  assumes "orderly s l" and "advances s s'"
  shows "orderly s' l"
proof -
  have "length (spent s' l v o') \<le> triesPerWindow" for v o'
    using spent_mono [of l s' s v o'] failing_advances [OF assms(2)] assms(1) by (meson le_trans orderly_def)
  then show ?thesis
    using assms(1) logged_advances [OF assms(2)] advances_whole [OF assms(2)] by (simp add: orderly_def)
qed

text \<open>A new run: those before it have ended, so the ones that may have failed are in the table the tick read.\<close>

lemma orderly_plans:
  fixes a :: Answers
  assumes o: "orderly s l" and p: "plans s a v trig s' rn"
  shows "orderly s' l"
    and "trig = TriggerAuto \<Longrightarrow> o' \<le> InsertNow a \<Longrightarrow> length (filter (failed_auto v o') (runs s)) < triesPerWindow
      \<Longrightarrow> orderly s' ((v, o', ID rn) # l)"
proof -
  obtain s1 s2 where s1: "advances s s1" "\<forall>r \<in> set (runs s1). FinishedAt r \<noteq> None"
      "\<forall>r \<in> set (runs s1). RunState r = RunFailed \<longrightarrow> r \<in> set (runs s)"
    and s2: "runs s2 = rn # runs s1" "ID rn \<notin> ID ` set (runs s1)" "RunVersion rn = v" "Trigger rn = trig"
      "StartedAt rn = InsertNow a" "advances s2 s'"
    using p unfolding plans_def by blast
  have o1: "orderly s1 l" by (rule orderly_advances [OF o s1(1)])
  have w: "whole s" "whole s'" using o p plans_whole by (auto simp: orderly_def)
  have in1: "\<exists>r \<in> set (runs s1). ID r = i \<and> RunVersion r = v' \<and> Trigger r = TriggerAuto \<and> o'' \<le> StartedAt r"
    if "(v', o'', i) \<in> set l" for v' o'' i
    using o1 that by (auto simp: orderly_def logged_def)
  then have new: "ID rn \<notin> (snd \<circ> snd) ` set l" using s2(2) by fastforce
  have old: "failing s1 i" if "(v', o'', i) \<in> set l" "failing s' i" for v' o'' i
  proof -
    from in1 [OF that(1)] s2(2) have "i \<noteq> ID rn" by (metis image_eqI)
    moreover from that(2) have "failing s2 i" by (rule failing_advances [OF s2(6)])
    ultimately show ?thesis unfolding failing_def s2(1) by auto
  qed
  have "logged s2 l" using o1 unfolding orderly_def logged_def s2(1) by fastforce
  then have log: "logged s' l" by (rule logged_advances [OF s2(6)])
  have "length (spent s' l u q) \<le> triesPerWindow" for u q
    using spent_mono [of l s' s1 u q] old o1 by (meson le_trans orderly_def)
  with w log show "orderly s' l" by (simp add: orderly_def)
  assume t: "trig = TriggerAuto" "o' \<le> InsertNow a" "length (filter (failed_auto v o') (runs s)) < triesPerWindow"
  have "length (spent s1 l v o') \<le> length (filter (failed_auto v o') (runs s))"
  proof -
    have sub: "i \<in> ID ` set (filter (failed_auto v o') (runs s))" if m: "(v', o'', i) \<in> set (spent s1 l v o')" for v' o'' i
    proof -
      from m have l: "(v, o', i) \<in> set l" "failing s1 i" by (auto simp: spent_def)
      from l(2) s1(2,3) obtain r where r: "r \<in> set (runs s1)" "ID r = i" "RunState r = RunFailed" "r \<in> set (runs s)"
        by (auto simp: failing_def)
      from in1 [OF l(1)] obtain r' where "r' \<in> set (runs s1)" "ID r' = i" "RunVersion r' = v" "Trigger r' = TriggerAuto"
        "o' \<le> StartedAt r'" by blast
      moreover from this r have "r' = r" using same_ID [of s1 r' r] o1 by (simp add: orderly_def)
      ultimately have "failed_auto v o' r" using r s1(2) by (simp add: failed_auto_def)
      with r show ?thesis by force
    qed
    have d: "distinct (map (snd \<circ> snd) (spent s1 l v o'))"
      using o1 unfolding orderly_def logged_def spent_def by (simp add: distinct_map_filter)
    have "length (spent s1 l v o') = card ((snd \<circ> snd) ` set (spent s1 l v o'))"
      using distinct_card [OF d] by simp
    also have "\<dots> \<le> card (ID ` set (filter (failed_auto v o') (runs s)))"
      by (rule card_mono) (use sub in \<open>auto simp: image_iff\<close>)
    also have "\<dots> \<le> length (filter (failed_auto v o') (runs s))"
      by (metis card_length length_map list.set_map)
    finally show ?thesis .
  qed
  with t(3) have few: "length (spent s' l v o') < triesPerWindow"
    using spent_mono [of l s' s1 v o'] old by (meson le_less_trans)
  have "length (spent s' ((v, o', ID rn) # l) u q) \<le> triesPerWindow" for u q
    using few \<open>orderly s' l\<close> by (auto simp: spent_def orderly_def Suc_le_eq)
  moreover have "logged s' ((v, o', ID rn) # l)"
  proof -
    obtain r where "r \<in> set (runs s')" "ID r = ID rn" "RunVersion r = v" "Trigger r = trig" "StartedAt r = InsertNow a"
      using advances_kept [OF s2(6), of rn] s2(1,3,4,5) by (metis list.set_intros(1))
    with log new t(1,2) show ?thesis by (auto simp: logged_def)
  qed
  ultimately show "orderly s' ((v, o', ID rn) # l)" using w by (simp add: orderly_def)
qed

lemma RunNow_orderly:
  fixes a :: Answers
  assumes "orderly s l"
  shows "orderly (fst (RunNow built p current a version s)) l"
proof -
  obtain s1 t where nt: "now_target p current version s = (s1, t)" by (rule prod.exhaust)
  have "advances s s1" using advances_same [of s s1] runs_now_target [of p current version s] nt by simp
  with assms have o1: "orderly s1 l" by (rule orderly_advances)
  consider "fst (RunNow built p current a version s) \<in> {s, s1}"
    | r s2 where "runs s2 = runs s1" "fst (RunNow built p current a version s) = fst (start built p a r TriggerManual s2)"
  proof (cases t)
    case None
    then show thesis by (intro that(1)) (simp add: RunNow_def nt)
  next
    case (Some r)
    show thesis
    proof (cases "\<exists>why. blockedFor a s1 (Version r) = Some why \<and> (why = '''' \<or> why = ''recent_crash'') \<and> built")
      case False
      then show thesis by (intro that(1)) (auto simp: RunNow_def nt Some Let_def split: option.split)
    next
      case True
      then obtain why where b: "blockedFor a s1 (Version r) = Some why" "why = '''' \<or> why = ''recent_crash''" "built" by blast
      define s2 where "s2 = (if breaks_previous_home r \<and> ApprovedAt r = None then Approve (Version r) (InsertNow a) s1 else s1)"
      have "fst (RunNow built p current a version s) = fst (start built p a r TriggerManual s2)"
        using b by (auto simp: RunNow_def nt Some Let_def s2_def [symmetric] split: prod.split sum.split)
      moreover have "runs s2 = runs s1" by (simp add: s2_def)
      ultimately show thesis by (intro that(2))
    qed
  qed
  then show ?thesis
  proof cases
    case 1
    with assms o1 show ?thesis by auto
  next
    case (2 r s2)
    have o2: "orderly s2 l" by (rule orderly_advances [OF o1 advances_same]) (simp add: 2(1))
    then have "whole s2" by (simp add: orderly_def)
    show ?thesis unfolding 2(2)
    proof (cases rule: start_cases [OF \<open>whole s2\<close>, where built = built and p = p and a = a and r = r and trig = TriggerManual])
      case (1 e)
      show "orderly (fst (start built p a r TriggerManual s2)) l" by (rule orderly_advances [OF o2 1(3)])
    next
      case (2 rn)
      show "orderly (fst (start built p a r TriggerManual s2)) l" by (rule orderly_plans(1) [OF o2 2(1)])
    qed
  qed
qed

lemma tick_orderly:
  fixes a :: Answers
  assumes "orderly s l" and "HistoryRead a" and "RetryNow a \<le> InsertNow a"
  shows "orderly (fst (tick built now' loc p current a s)) (log_start loc p a (snd (tick built now' loc p current a s)) l)"
proof -
  have "whole s" using assms(1) by (simp add: orderly_def)
  then show ?thesis
  proof (cases rule: tick_cases [of s built now' loc p current a])
    case no_run
    from orderly_advances [OF assms(1) no_run(1)] show ?thesis by (simp add: no_run(2))
  next
    case (planned r rn)
    show ?thesis
    proof (cases "occurrence_of loc p a")
      case None
      with orderly_plans(1) [OF assms(1) planned(1)] show ?thesis by (simp add: planned(2))
    next
      case (Some o')
      then obtain w e where w: "ParseWindow (PWindow p) = Inr w" "Containing w (RetryNow a) loc = Some (o', e)"
        by (auto simp: occurrence_of_def split: sum.splits)
      then have "o' \<le> RetryNow a" using containing_in_SomeD unfolding Containing_def by blast
      then have "o' \<le> InsertNow a" using assms(3) by simp
      moreover have "length (filter (failed_auto (Version r) o') (runs s)) < triesPerWindow"
        using planned(3) assms(2) by (intro retryWait_few [OF _ w]) simp
      ultimately have "orderly (fst (tick built now' loc p current a s)) ((Version r, o', ID rn) # l)"
        by (rule orderly_plans(2) [OF assms(1) planned(1) refl])
      with Some show ?thesis by (simp add: planned(2))
    qed
  qed
qed

lemma step_orderly:
  assumes "orderly (db w) (starts w)" and "sound e"
  shows "orderly (db (step e w)) (starts (step e w))"
proof (cases e)
  case (ETick built now' loc p current a)
  with tick_orderly [of "db w" "starts w" a built now' loc p current] assms show ?thesis
    by (simp add: split_beta Let_def)
next
  case (ENow built p current a version)
  with RunNow_orderly [OF assms(1)] show ?thesis by simp
next
  case (EDriver loc p now' out)
  with orderly_advances [OF assms(1) advances_driver_step] assms(1) show ?thesis by (simp add: orderly_def)
qed (use orderly_advances [OF assms(1) advances_same] orderly_advances [OF assms(1) advances_SetRunState [OF refl]] in simp_all)

lemma history_orderly:
  assumes "\<forall>e \<in> set es. sound e"
  shows "orderly (db (run step es empty_world)) (starts (run step es empty_world))"
proof -
  have "orderly (db w) (starts w) \<Longrightarrow> \<forall>e \<in> set es. sound e \<Longrightarrow> orderly (db (run step es w)) (starts (run step es w))" for w
    by (induction es arbitrary: w) (simp_all add: step_orderly)
  moreover have "orderly (db empty_world) (starts empty_world)"
    by (simp add: empty_world_def orderly_def whole_def logged_def spent_def)
  ultimately show ?thesis using assms by blast
qed


text \<open>A home on 0.2.0 finds 0.2.1; its supervisor refuses every start.\<close>

abbreviation at_hour :: "int \<Rightarrow> int \<Rightarrow> instant" where
  "at_hour h m \<equiv> 10 * day + h * hour + m * minute"

abbreviation answers :: "nat \<Rightarrow> instant \<Rightarrow> ErrDoc option \<Rightarrow> Answers" where
  "answers i t st \<equiv> \<lparr>HistoryRead = True, ActiveRead = True, GivesWay = False, Blockers = [Some ''''],
     GitHub = Listed \<lparr>TagName = ''v0.2.1'', Draft = False, GPrerelease = False, GPublishedAt = 2 * day\<rparr>,
     Checksums = FileDigest ''digest'',
     Starts = st, RetryNow = t, InsertNow = t, FinishNow = t, UUID = i\<rparr>"

abbreviation tick_at :: "instant \<Rightarrow> nat \<Rightarrow> ErrDoc option \<Rightarrow> event" where
  "tick_at t i st \<equiv> ETick True t utc DefaultPolicy ''0.2.0'' (answers i t st)"

definition found_021 :: "event list" where
  "found_021 = [ECatalog (Seen (signed_release ''0.2.1'' (2 * day))),
     ECatalog (Verified ''0.2.1'' \<lparr>Published = 2 * day, BreaksPreviousHome = False, MinUpgradeFrom = '''', MSignedAt = 2 * day\<rparr> ''digest'')]"

abbreviation refused :: "ErrDoc option" where
  "refused \<equiv> Some \<lparr>Code = ''start_failed'', Detail = ''''\<rparr>"

definition four_ticks :: "event list" where
  "four_ticks = found_021 @ [tick_at (at_hour 3 0) 1 refused, tick_at (at_hour 3 1) 2 refused,
     tick_at (at_hour 3 2) 3 refused, tick_at (at_hour 3 17) 4 refused, tick_at (at_hour 3 40) 5 refused]"


lemma orderly_Nil: "orderly s [] \<longleftrightarrow> whole s"
  by (simp add: orderly_def logged_def spent_def)

lemma step_whole:
  assumes "whole (db w)"
  shows "whole (db (step e w))"
proof (cases e)
  case (ETick built now' loc p current a)
  from assms have "whole (fst (tick built now' loc p current a (db w)))"
    by (cases rule: tick_cases [of "db w" built now' loc p current a]) (auto intro: advances_whole [OF _ assms] plans_whole [OF assms])
  with ETick show ?thesis by (simp add: split_beta Let_def)
next
  case (ENow built p current a version)
  with RunNow_orderly [of "db w" "[]"] assms show ?thesis by (simp add: orderly_Nil)
next
  case (EDriver loc p now' out)
  with advances_whole [OF advances_driver_step [OF assms] assms] show ?thesis by simp
qed (use advances_whole [OF advances_same assms] advances_whole [OF advances_SetRunState [OF refl] assms] in simp_all)

lemma history_whole: "whole (db (run step es empty_world))"
  by (rule run_invariant [where P = "\<lambda>w. whole (db w)"]) (simp_all add: step_whole, simp add: empty_world_def whole_def)

text \<open>
  One update at a time: in every history at most one run has not ended, and no two
  runs share an identifier, whatever ticks, admins, the driver and the discovery do in between.
\<close>
theorem one_run_at_a_time:
  "length (filter (\<lambda>r. FinishedAt r = None) (runs (db (run step es empty_world)))) \<le> 1
   \<and> distinct (map ID (runs (db (run step es empty_world))))"
  using history_whole [of es] by (simp add: whole_def)

section \<open>What an automatic run passed\<close>

lemma set_Catalog [simp]: "set (Catalog s) = set (releases s)"
  by (simp add: Catalog_def)

lemma first_block_clear: "first_block bs = Some '''' \<Longrightarrow> set bs \<subseteq> {Some ''''}"
  by (induction bs rule: first_block.induct) (auto split: if_splits)

lemma started_allowed:
  assumes "snd (tick built now' loc p current a (db (run step es empty_world))) = DStarted v i"
  shows "\<exists>r w. Version r = v \<and> allowed (Catalog (db (run step es empty_world))) p current (highest (db (run step es empty_world))) r
     \<and> upgradable current r \<and> (breaks_previous_home r \<longrightarrow> ApprovedAt r \<noteq> None) \<and> EffectiveAutoInstall built p
     \<and> published r + MinReleaseAgeHours p * hour \<le> now' \<and> (\<forall>d. DeferredUntil p = Some d \<longrightarrow> d \<le> now')
     \<and> ParseWindow (PWindow p) = Inr w \<and> startable w now' loc now'
     \<and> Recheck (GitHub a) (Checksums a) r (PChannel p) = RecheckGood \<and> ActiveRead a \<and> set (Blockers a) \<subseteq> {Some ''''}
     \<and> (\<forall>rn. ActiveRun (db (run step es empty_world)) = Some rn
          \<longrightarrow> waitingApp (Step rn) \<and> version_key (RunVersion rn) < version_key v \<and> GivesWay a)"
proof -
  let ?s = "db (run step es empty_world)"
  show ?thesis
  proof (cases rule: tick_cases [OF history_whole [of es], of built now' loc p current a])
    case 1
    with assms show ?thesis by blast
  next
    case (2 r rn)
    obtain r' w where d: "Target (MakePlan built now' loc p (Catalog ?s) current (highest ?s)) = Some r'"
      "allowed (Catalog ?s) p current (highest ?s) r'" "upgradable current r'" "breaks_previous_home r' \<longrightarrow> ApprovedAt r' \<noteq> None"
      "EffectiveAutoInstall built p" "published r' + MinReleaseAgeHours p * hour \<le> now'" "\<forall>d. DeferredUntil p = Some d \<longrightarrow> d \<le> now'"
      "ParseWindow (PWindow p) = Inr w" "startable w now' loc now'"
      using due_allowed [OF 2(7)] by blast
    with 2(6) have "r' = r" by simp
    from 2(8) assms have v: "Version r = v" by blast
    have b: "ActiveRead a" "set (Blockers a) \<subseteq> {Some ''''}"
      "ActiveRun ?s = Some q \<longrightarrow> Supersedable a ?s (Version r)" for q
      using 2(4) by (auto simp: blockedFor_def split: if_splits dest: first_block_clear)
    have "waitingApp (Step q) \<and> version_key (RunVersion q) < version_key v \<and> GivesWay a" if "ActiveRun ?s = Some q" for q
      using b(3) [of q] that v by (auto simp: Supersedable_def Compare_le not_le split: if_splits)
    with d b(1,2) v 2(5) \<open>r' = r\<close> show ?thesis by blast
  qed
qed


section \<open>The watermark\<close>

text \<open>The watermark is empty or a release's version; it never goes down.\<close>

definition rises :: "string \<Rightarrow> string \<Rightarrow> bool" where
  "rises a b \<longleftrightarrow> (a \<noteq> '''' \<longrightarrow> b \<noteq> '''' \<and> version_key a \<le> version_key b)"

lemma rises_refl [simp]: "rises a a"
  by (simp add: rises_def)

lemma rises_trans: "rises a b \<Longrightarrow> rises b c \<Longrightarrow> rises a c"
  by (auto simp: rises_def)

lemma highest_rows [simp]:
  "highest (update_release v f s) = highest s" "highest (update_run i g s) = highest s"
  by (simp_all add: update_release_def update_run_def)

lemma highest_ops [simp]:
  "highest (SetVerified v m d s) = highest s" "highest (SetVerifyError v k d s) = highest s" "highest (ResetForReverify v s) = highest s"
  "highest (SetWithdrawn v t why s) = highest s" "highest (fst (SetHeld v t s)) = highest s" "highest (Approve v t s) = highest s"
  "highest (Block v why s) = highest s" "highest (Unblock v s) = highest s" "highest (FinishRun i t st doc s) = highest s"
  "highest (SetRunState i st step' s) = highest s" "highest (finish rn t st doc s) = highest s"
  "highest (fst (InsertRun i t v trig s)) = highest s" "highest (Supersede a s v) = highest s"
  by (simp_all add: SetVerified_def SetVerifyError_def ResetForReverify_def SetWithdrawn_def SetHeld_def Approve_def
      Block_def Unblock_def FinishRun_def SetRunState_def finish_def InsertRun_def Supersede_def Let_def split: option.split)

lemma highest_CountAttempt [simp]: "highest (fst (CountAttempt v s)) = highest s"
  by (simp add: CountAttempt_def Let_def split: option.split)

lemma highest_blockFor [simp]: "highest (blockFor loc p rn doc s) = highest s"
  by (simp add: blockFor_def split: failure_class.split)

lemma highest_catalog_step [simp]: "highest (catalog_step op s) = highest s"
  by (cases op) (simp_all add: Seen_release_def)

lemma highest_unblock [simp]: "highest (fst (unblock v s)) = highest s"
  by (simp add: unblock_def split: option.split)

lemma highest_start [simp]: "highest (fst (start built p a r trig s)) = highest s"
proof -
  have "highest (fst (case InsertRun (UUID a) (InsertNow a) (Version r) trig q of
      (s, Inl e) \<Rightarrow> (s, Inl (StoreError e))
    | (s, Inr rn) \<Rightarrow> (case Starts a of None \<Rightarrow> (s, Inr rn)
        | Some doc \<Rightarrow> (FinishRun (ID rn) (FinishNow a) RunFailed doc s, Inl (StartError rn doc))))) = highest q" for q
  proof -
    obtain q' x where i: "InsertRun (UUID a) (InsertNow a) (Version r) trig q = (q', x)" by (rule prod.exhaust)
    then have "highest q' = highest q" by (metis fst_conv highest_ops(12))
    with i show ?thesis by (simp split: sum.split option.split)
  qed
  from this [of "Supersede a s (Version r)"] show ?thesis
    by (simp add: start_def Let_def split: recheck.split)
qed

lemma highest_tick [simp]: "highest (fst (tick built now' loc p current a s)) = highest s"
proof -
  have t: "highest (fst (tick_target built now' loc p a r s)) = highest s" for r
  proof -
    obtain s' x where i: "start built p a r TriggerAuto s = (s', x)" by (rule prod.exhaust)
    then have "highest s' = highest s" by (metis fst_conv highest_start)
    with i show ?thesis by (simp add: tick_target_def Let_def split: option.split sum.split start_error.split)
  qed
  then show ?thesis by (simp add: tick_def Let_def split: option.split)
qed

lemma highest_now_target [simp]: "highest (fst (now_target p current version s)) = highest s"
  by (simp add: now_target_def Let_def)

lemma highest_RunNow [simp]: "highest (fst (RunNow built p current a version s)) = highest s"
proof -
  have "highest (fst (case start b p a r TriggerManual q of (s, Inr rn) \<Rightarrow> (s, Inr rn) | (s, Inl e) \<Rightarrow> (s, Inl (NowStart e))))
      = highest q" for b r q
  proof -
    obtain q' x where i: "start b p a r TriggerManual q = (q', x)" by (rule prod.exhaust)
    then have "highest q' = highest q" by (metis fst_conv highest_start)
    with i show ?thesis by (simp split: sum.split)
  qed
  note st = this
  obtain s1 t where nt: "now_target p current version s = (s1, t)" by (rule prod.exhaust)
  then have "highest s1 = highest s" by (metis fst_conv highest_now_target)
  then show ?thesis by (simp add: RunNow_def nt Let_def st split: option.split)
qed

lemma core_shape_Nil [simp]: "\<not> core_shape []"
  by (simp add: core_shape_def)

lemma ValidVersion_not_empty: "ValidVersion v \<Longrightarrow> normalize v \<noteq> ''''"
  by (auto simp: ValidVersion_def cut_at_def)

lemma RaiseWatermark_rises: "rises (highest s) (highest (RaiseWatermark v s))"
  by (auto simp: RaiseWatermark_def rises_def Let_def Compare_le ValidVersion_def cut_at_def normalize_def
      trim_prefix_v_def trim_space_def)

lemma driver_step_rises: "rises (highest s) (highest (driver_step loc p now' out s))"
proof -
  have "rises (highest s) (highest (run_outcome loc p now' out rn s))" for rn
    using RaiseWatermark_rises [of s "RunVersion rn"]
    by (cases out) (simp_all add: run_outcome_def homeCommitted_def tvRolledBack_def Let_def)
  then show ?thesis by (simp add: driver_step_def split: option.split)
qed

lemma step_rises: "rises (highest (db w)) (highest (db (step e w)))"
  using driver_step_rises by (cases e) (simp_all add: split_beta Let_def)

lemma history_rises: "rises (highest (db w)) (highest (db (run step es w)))"
  by (induction es arbitrary: w) (auto intro: rises_trans [OF step_rises])

text \<open>A valid version is ordered the same with and without its leading v and blanks.\<close>

lemma ValidVersion_chars:
  assumes "ValidVersion v"
  obtains a t where "normalize v = a # t" "is_digit a" "\<forall>c \<in> set (normalize v). \<not> is_space c"
  using normalized_chars [OF assms] by blast

lemma version_key_stripped:
  assumes "is_digit a" and "\<forall>c \<in> set (a # t). \<not> is_space c"
  shows "version_key (CHR ''v'' # a # t) = version_key (a # t)"
proof -
  have "\<not> CHR ''A'' \<le> CHR ''9''" "to_lower_char (CHR ''v'') = CHR ''v''" by code_simp+
  then have low: "to_lower_char (CHR ''v'') = CHR ''v''" "to_lower_char a = a"
    using assms(1) order_trans [of "CHR ''A''" a "CHR ''9''"] by (auto simp: to_lower_char_def is_digit_def)
  have "trim_space (to_lower s) = to_lower s" if "\<forall>c \<in> set s. \<not> is_space c" for s
    using that by (intro trim_space_id) (auto simp: to_lower_def list_all_iff is_space_lower)
  note trim = this
  have "trim_space (to_lower (a # t)) = a # to_lower t"
    using trim [of "a # t"] assms(2) low by (simp add: to_lower_def)
  moreover have "trim_space (to_lower (CHR ''v'' # a # t)) = CHR ''v'' # a # to_lower t"
    using trim [of "CHR ''v'' # a # t"] assms(2) low by (simp add: to_lower_def is_space_def)
  moreover have "a \<noteq> CHR ''v''" using assms(1) by (rule no_space(3))
  ultimately have "splitDescribe (CHR ''v'' # a # t) = splitDescribe (a # t)"
    by (simp add: splitDescribe_def trim_prefix_v_def)
  then show ?thesis by (simp add: version_key_def)
qed

lemma version_key_normalize [simp]:
  assumes "ValidVersion v"
  shows "version_key (normalize v) = version_key v"
proof -
  obtain a t where n: "normalize v = a # t" "is_digit a" "\<forall>c \<in> set (normalize v). \<not> is_space c"
    using assms by (rule ValidVersion_chars)
  then have "trim_space v = a # t \<or> trim_space v = CHR ''v'' # a # t"
    by (auto simp: normalize_def trim_prefix_v_def split: list.splits if_splits)
  then have "version_key (trim_space v) = version_key (a # t)"
    using version_key_stripped [of a t] n by (auto simp del: version_key_trim)
  with n(1) show ?thesis by simp
qed

definition watermark_ok :: "Store \<Rightarrow> bool" where
  "watermark_ok s \<longleftrightarrow> highest s = '''' \<or> ValidVersion (highest s)"

lemma RaiseWatermark_ok: "watermark_ok s \<Longrightarrow> watermark_ok (RaiseWatermark v s)"
  by (simp add: watermark_ok_def RaiseWatermark_def Let_def)

lemma step_watermark_ok: "watermark_ok (db w) \<Longrightarrow> watermark_ok (db (step e w))"
proof (cases e)
  case (EDriver loc p now' out)
  assume "watermark_ok (db w)"
  then have "watermark_ok (run_outcome loc p now' out rn (db w))" for rn
    using RaiseWatermark_ok [of "db w" "RunVersion rn"]
    by (cases out) (simp_all add: run_outcome_def homeCommitted_def tvRolledBack_def Let_def watermark_ok_def)
  with EDriver \<open>watermark_ok (db w)\<close> show ?thesis by (simp add: driver_step_def split: option.split)
qed (simp_all add: watermark_ok_def split_beta Let_def)

lemma history_watermark_ok: "watermark_ok (db (run step es empty_world))"
  by (rule run_invariant [where P = "\<lambda>w. watermark_ok (db w)"])
    (simp_all add: step_watermark_ok, simp add: empty_world_def watermark_ok_def)

lemma Committed_raises:
  assumes "ActiveRun s = Some rn" and "ValidVersion (normalize (RunVersion rn))"
  shows "rises (normalize (RunVersion rn)) (highest (driver_step loc p now' Committed s))"
  using assms
  by (auto simp: driver_step_def run_outcome_def homeCommitted_def RaiseWatermark_def Let_def rises_def Compare_le)

lemma allowed_above:
  assumes "allowed catalog p current wm r" and "rises v wm" and "v \<noteq> ''''" and "ValidVersion wm"
  shows "version_key v < ver_key r"
proof -
  have "version_key v \<le> version_key (normalize wm)" using assms(2,3,4) by (simp add: rises_def)
  also have "\<dots> < ver_key r" using assms(1) ValidVersion_not_empty [OF assms(4)] by (auto simp: allowed_def)
  finally show ?thesis .
qed

section \<open>What Update now passes\<close>

lemma ChooseTarget_allowed:
  assumes "Target (ChooseTarget catalog p current wm) = Some r"
  shows "allowed catalog p current wm r \<and> upgradable current r"
  using assms by (cases rule: ChooseTarget_cases [of catalog p current wm]) auto

lemma now_target_allowed:
  assumes "now_target p current version s = (s1, Some r)"
  obtains catalog p' where "allowed catalog p' current (highest s) r" "upgradable current r" "PChannel p' = PChannel p"
    "set catalog \<subseteq> set (releases s1)" "normalize version \<noteq> '''' \<longrightarrow> Compare (Version r) (normalize version) = 0"
proof (cases "normalize version = ''''")
  case True
  with assms have "s1 = s" "Target (ChooseTarget (Catalog s) p current (highest s)) = Some r"
    by (auto simp: now_target_def)
  with ChooseTarget_allowed [OF this(2)] True show thesis by (intro that [of "Catalog s" p]) simp_all
next
  case False
  define only where "only = filter (\<lambda>r. Compare (Version r) (normalize version) = 0) (Catalog s1)"
  from False assms have s1: "s1 = fst (unblock (normalize version) s)"
    and t: "Target (ChooseTarget only (p\<lparr>SkippedVersions := [], PinnedVersion := ''''\<rparr>) current (highest s)) = Some r"
    by (auto simp: now_target_def Let_def only_def)
  note ok = ChooseTarget_allowed [OF t]
  then have "r \<in> set only" by (simp add: allowed_def)
  with ok False show thesis
    by (intro that [of only "p\<lparr>SkippedVersions := [], PinnedVersion := ''''\<rparr>"]) (auto simp: only_def)
qed

lemma RunNow_InrD:
  fixes a :: Answers
  assumes "whole s" and "snd (RunNow built p current a version s) = Inr rn"
  obtains s1 r where "now_target p current version s = (s1, Some r)" "RunVersion rn = Version r" "built"
    "Recheck (GitHub a) (Checksums a) r (PChannel p) = RecheckGood" "blockedFor a s1 (Version r) \<in> {Some '''', Some ''recent_crash''}"
proof -
  obtain s1 t where nt: "now_target p current version s = (s1, t)" by (rule prod.exhaust)
  have "built" using assms(2) by (auto simp: RunNow_def split: if_splits)
  obtain r where t: "t = Some r" using assms(2) by (cases t) (auto simp: RunNow_def nt split: if_splits)
  obtain why where b: "blockedFor a s1 (Version r) = Some why" "why = '''' \<or> why = ''recent_crash''"
    using assms(2) by (auto simp: RunNow_def nt t split: if_splits option.splits)
  define s2 where "s2 = (if breaks_previous_home r \<and> ApprovedAt r = None then Approve (Version r) (InsertNow a) s1 else s1)"
  have "snd (case start built p a r TriggerManual s2 of (s, Inr rn) \<Rightarrow> (s, Inr rn) | (s, Inl e) \<Rightarrow> (s, Inl (NowStart e))) = Inr rn"
    using assms(2) b \<open>built\<close> by (auto simp: RunNow_def nt t Let_def s2_def [symmetric])
  then have st: "snd (start built p a r TriggerManual s2) = Inr rn" by (auto split: prod.splits sum.splits)
  have "runs s1 = runs s" using runs_now_target [of p current version s] by (simp add: nt)
  then have "runs s2 = runs s" by (simp add: s2_def)
  with assms(1) have "whole s2" by (simp add: whole_def)
  show thesis
  proof (cases rule: start_cases [OF \<open>whole s2\<close>, where built = built and p = p and a = a and r = r and trig = TriggerManual])
    case (1 e)
    with st show thesis by simp
  next
    case (2 rn')
    with st have "rn' = rn" by auto
    with 2(1) have "RunVersion rn = Version r" by (auto simp: plans_def)
    with nt t b 2(3,4) show thesis by (intro that [of s1 r]) auto
  qed
qed


text \<open>0.2.1 is planned at 3:00 and committed; the admin then asks for 0.2.2, found meanwhile.\<close>

definition committed_021 :: "event list" where
  "committed_021 = found_021 @ [tick_at (at_hour 3 0) 1 None]"

definition found_022 :: "event list" where
  "found_022 = [EDriver utc DefaultPolicy (at_hour 3 9) (Ended RunDone \<lparr>Code = '''', Detail = ''''\<rparr>),
     ECatalog (Seen (signed_release ''0.2.2'' (3 * day))),
     ECatalog (Verified ''0.2.2'' \<lparr>Published = 3 * day, BreaksPreviousHome = False, MinUpgradeFrom = '''', MSignedAt = 3 * day\<rparr> ''digest'')]"



section \<open>What the gates miss\<close>

text \<open>
  An admin's Cancel of an automatic run does not hold the release: the next tick, a minute later, in the
  same window, starts it again.
\<close>

lemma cancelled_starts_again:
  "map (\<lambda>r. (ID r, RunVersion r, Trigger r, RunState r)) (runs (db (run step (committed_021 @
     [EDriver utc DefaultPolicy (at_hour 3 1) (Cancel \<lparr>Code = ''cancelled'', Detail = ''''\<rparr>), tick_at (at_hour 3 2) 2 None]) empty_world)))
   = [(2, ''0.2.1'', TriggerAuto, RunPlanned), (1, ''0.2.1'', TriggerAuto, RunCancelled)]"
  by code_simp

text \<open>
  A TV change that times out rolls the home back and counts an attempt; as the run did not end as failed,
  neither the next ticks nor the next count see it: three of them in one window block the release.
\<close>

abbreviation tv_timeout_at :: "instant \<Rightarrow> event" where
  "tv_timeout_at t \<equiv> EDriver utc DefaultPolicy t (TvRolledBack ''tv_timeout'' \<lparr>Code = '''', Detail = ''''\<rparr>)"

lemma tv_timeouts_block_in_one_window:
  "map (\<lambda>r. (Attempts r, BlockedReason r)) (releases (db (run step (found_021 @
     [tick_at (at_hour 3 0) 1 None, tv_timeout_at (at_hour 3 25), tick_at (at_hour 3 26) 2 None, tv_timeout_at (at_hour 3 50),
      tick_at (at_hour 3 51) 3 None, tv_timeout_at (at_hour 4 20)]) empty_world))) = [(3, ''attempts'')]"
  by code_simp

text \<open>
  Update now with a version looks at that version's row only, so the release it is an older build
  than is not found: it starts what the planned target passes by.
\<close>

definition rc_after :: "Release list" where
  "rc_after = [signed_release ''0.2.1'' (5 * day), signed_release ''0.2.2-rc.1'' (4 * day)]"

lemma older_build_by_name:
  "Target (ChooseTarget rc_after (DefaultPolicy\<lparr>PChannel := ''beta''\<rparr>) ''0.2.1'' '''') = None"
  "map_option Version (snd (now_target (DefaultPolicy\<lparr>PChannel := ''beta''\<rparr>) ''0.2.1'' ''0.2.2-rc.1''
     \<lparr>releases = rc_after, runs = [], highest = ''''\<rparr>)) = Some ''0.2.2-rc.1''"
  by code_simp+

text \<open>A tick that cannot read the failed runs does not wait for them.\<close>

lemma unreadable_history_starts:
  "retryWait False now' loc p s v = NoReason"
  by (simp add: retryWait_def split: sum.split option.split)

end
