(* ===== verification/Update_Discovery.thy ===== *)
theory Update_Discovery
  imports Update_Scheduler
begin

text \<open>
  How releases come into the catalogue: \<^verbatim>\<open>api/internal/updates/catalog.go\<close>. A check lists what GitHub
  has, keeps each release of the channel that is not below the watermark, and verifies its three small
  signed files, again when they changed. What GitHub answers, the digest and the verifier of
  releaseverify are functions of the check; its database calls succeed. The assets of a release are those
  that remain after the pinning to the repository.
\<close>

section \<open>A check's surroundings\<close>

text \<open>What the verifier proved: the manifest with its version, its digest of the checksums, the signing time.\<close>

record Verified =
  VVersion :: string
  VManifest :: Manifest
  VChecksumsSHA256 :: string
  VSignedAt :: instant

type_synonym verifier = "string \<Rightarrow> string \<times> string \<times> string \<Rightarrow> string + Verified"

record Discoverer =
  Listing :: "(ghRelease \<times> (string \<times> string) list) list option"
  Fetch :: "string \<Rightarrow> string option"
  SHA256 :: "string \<Rightarrow> string"
  VerifyRelease :: verifier
  DChannel :: string
  DCurrent :: string
  DNow :: instant

abbreviation ChecksumsFile :: string where "ChecksumsFile \<equiv> ''checksums.txt''"
abbreviation BundleFile :: string where "BundleFile \<equiv> ''checksums.txt.sigstore.json''"
abbreviation ManifestFile :: string where "ManifestFile \<equiv> ''release.json''"

definition assetURL :: "(string \<times> string) list \<Rightarrow> string \<Rightarrow> string" where
  "assetURL assets name = (case find (\<lambda>a. fst a = name) assets of Some a \<Rightarrow> snd a | None \<Rightarrow> '''')"

definition hasSignedFiles :: "(string \<times> string) list \<Rightarrow> bool" where
  "hasSignedFiles assets \<longleftrightarrow> assetURL assets ChecksumsFile \<noteq> '''' \<and> assetURL assets BundleFile \<noteq> ''''
     \<and> assetURL assets ManifestFile \<noteq> ''''"

section \<open>Verifying a release\<close>

text \<open>One of the three files: its bytes, or the kind of the failure.\<close>

definition download_file :: "Discoverer \<Rightarrow> (string \<times> string) list \<Rightarrow> string \<Rightarrow> string + string" where
  "download_file d assets name =
    (let u = assetURL assets name in
     if u = '''' then Inl ''no_manifest''
     else (case Fetch d u of None \<Rightarrow> Inl ''unavailable'' | Some b \<Rightarrow> Inr b))"

text \<open>The checksums as far as they came, and the files or the failure.\<close>

definition download :: "Discoverer \<Rightarrow> (string \<times> string) list \<Rightarrow> string option \<times> (string + string \<times> string \<times> string)" where
  "download d assets =
    (case download_file d assets ChecksumsFile of
       Inl k \<Rightarrow> (None, Inl k)
     | Inr c \<Rightarrow>
         (case download_file d assets BundleFile of
            Inl k \<Rightarrow> (Some c, Inl k)
          | Inr b \<Rightarrow>
              (case download_file d assets ManifestFile of
                 Inl k \<Rightarrow> (Some c, Inl k)
               | Inr m \<Rightarrow> (Some c, Inr (c, b, m)))))"

text \<open>What a verification writes.\<close>

definition verify :: "Discoverer \<Rightarrow> string \<Rightarrow> string \<Rightarrow> (string \<times> string) list \<Rightarrow> catalog_op" where
  "verify d tag version assets =
    (let (c, files) = download d assets; sum' = (case c of Some b \<Rightarrow> SHA256 d b | None \<Rightarrow> '''') in
     case files of
       Inl k \<Rightarrow> VerifyFailedOn version k sum'
     | Inr fs \<Rightarrow>
         (case VerifyRelease d tag fs of
            Inl k \<Rightarrow> VerifyFailedOn version k sum'
          | Inr v \<Rightarrow>
              if normalize (VVersion v) \<noteq> version then VerifyFailedOn version ''manifest'' sum'
              else Update_Scheduler.Verified version ((VManifest v)\<lparr>MSignedAt := VSignedAt v\<rparr>)
                (if VChecksumsSHA256 v = '''' then sum' else VChecksumsSHA256 v)))"

definition retagCheck :: "Discoverer \<Rightarrow> string \<Rightarrow> Release \<Rightarrow> string \<Rightarrow> (string \<times> string) list \<Rightarrow> catalog_op list" where
  "retagCheck d watermark cur tag assets =
    (if Digest cur = '''' then []
     else
       let u = assetURL assets ChecksumsFile in
       if u = '''' then []
       else (case Fetch d u of
               None \<Rightarrow> []
             | Some b \<Rightarrow>
                 if SHA256 d b = Digest cur then []
                 else if watermark \<noteq> '''' \<and> Compare (Version cur) watermark \<le> 0 \<or> Compare (Version cur) (DCurrent d) = 0
                 then [VerifyFailedOn (Version cur) ''replay'' '''']
                 else [Reverify (Version cur), verify d tag (Version cur) assets]))"

section \<open>A check\<close>

text \<open>What a check writes of one release on the list.\<close>

definition check_one :: "Discoverer \<Rightarrow> string \<Rightarrow> ghRelease \<Rightarrow> (string \<times> string) list \<Rightarrow> Store \<Rightarrow> catalog_op list" where
  "check_one d watermark g assets s =
    (let r = gh_release g (DNow d); floor' = maxVersion (normalize (DCurrent d)) watermark in
     if Draft g \<or> \<not> ValidVersion (TagName g) then []
     else if DChannel d \<noteq> ChannelBeta \<and> is_prerelease r then []
     else if floor' \<noteq> '''' \<and> Compare (Version r) floor' < 0 then []
     else
       let created = Version r \<notin> Version ` set (releases s) in
       (case Get (Seen_release r s) (Version r) of
          None \<Rightarrow> [Seen r]
        | Some cur \<Rightarrow>
            if WithdrawnAt cur \<noteq> None then [Seen r]
            else if VerifyState cur = VerifyVerified \<or> VerifyState cur = VerifyFailed
            then Seen r # retagCheck d watermark cur (TagName g) assets
            else if VerifyErr cur = Some ''no_manifest'' \<and> \<not> created \<and> \<not> hasSignedFiles assets then [Seen r]
            else [Seen r, verify d (TagName g) (Version r) assets]))"

fun check_loop :: "Discoverer \<Rightarrow> string \<Rightarrow> (ghRelease \<times> (string \<times> string) list) list \<Rightarrow> Store \<Rightarrow> Store" where
  "check_loop d watermark [] s = s"
| "check_loop d watermark ((g, assets) # gs) s =
     check_loop d watermark gs (run catalog_step (check_one d watermark g assets s) s)"

definition Check :: "Discoverer \<Rightarrow> Store \<Rightarrow> Store" where
  "Check d s = (case Listing d of None \<Rightarrow> s | Some gs \<Rightarrow> check_loop d (highest s) gs s)"

section \<open>What a check writes\<close>

text \<open>What the verifier accepted, as a row of the catalogue holds it.\<close>

definition accepted :: "verifier \<Rightarrow> (string \<Rightarrow> string) \<Rightarrow> string \<Rightarrow> Manifest \<Rightarrow> string \<Rightarrow> bool" where
  "accepted vrf sha version m digest \<longleftrightarrow> (\<exists>tag c b f v. vrf tag (c, b, f) = Inr v \<and> normalize (VVersion v) = version
     \<and> m = (VManifest v)\<lparr>MSignedAt := VSignedAt v\<rparr> \<and> digest = (if VChecksumsSHA256 v = '''' then sha c else VChecksumsSHA256 v))"

fun honest :: "verifier \<Rightarrow> (string \<Rightarrow> string) \<Rightarrow> catalog_op \<Rightarrow> bool" where
  "honest vrf sha (Update_Scheduler.Verified v m digest) = accepted vrf sha v m digest"
| "honest vrf sha _ = True"

lemma verify_honest: "honest (VerifyRelease d) (SHA256 d) (verify d tag version assets)"
proof -
  obtain c x where dl: "download d assets = (c, x)" by (rule prod.exhaust)
  show ?thesis
  proof (cases "\<exists>fs v. x = Inr fs \<and> VerifyRelease d tag fs = Inr v \<and> normalize (VVersion v) = version")
    case False
    then show ?thesis by (auto simp: verify_def dl Let_def split: sum.split)
  next
    case True
    then obtain a b f v where v: "x = Inr (a, b, f)" "VerifyRelease d tag (a, b, f) = Inr v" "normalize (VVersion v) = version"
      by (metis prod_cases3)
    with dl have "c = Some a" by (auto simp: download_def split: sum.splits)
    with v have "verify d tag version assets = Update_Scheduler.Verified version ((VManifest v)\<lparr>MSignedAt := VSignedAt v\<rparr>)
        (if VChecksumsSHA256 v = '''' then SHA256 d a else VChecksumsSHA256 v)"
      by (simp add: verify_def dl)
    moreover have "accepted (VerifyRelease d) (SHA256 d) version ((VManifest v)\<lparr>MSignedAt := VSignedAt v\<rparr>)
        (if VChecksumsSHA256 v = '''' then SHA256 d a else VChecksumsSHA256 v)"
      unfolding accepted_def using v(2,3) by blast
    ultimately show ?thesis by simp
  qed
qed

lemma check_one_honest: "op \<in> set (check_one d wm g assets s) \<Longrightarrow> honest (VerifyRelease d) (SHA256 d) op"
  using verify_honest
  by (auto simp: check_one_def retagCheck_def Let_def split: if_splits option.splits)

text \<open>A check is a sequence of honest catalogue writes.\<close>

lemma check_loop_writes:
  "\<exists>ops. check_loop d wm gs s = run catalog_step ops s \<and> (\<forall>op \<in> set ops. honest (VerifyRelease d) (SHA256 d) op)"
proof (induction gs arbitrary: s)
  case Nil
  show ?case by (intro exI [of _ "[]"]) simp
next
  case (Cons x gs)
  obtain g assets where x: "x = (g, assets)" by (rule prod.exhaust)
  obtain ops where ops: "check_loop d wm gs (run catalog_step (check_one d wm g assets s) s)
      = run catalog_step ops (run catalog_step (check_one d wm g assets s) s)"
    "\<forall>op \<in> set ops. honest (VerifyRelease d) (SHA256 d) op"
    using Cons.IH by blast
  with check_one_honest show ?case unfolding x
    by (intro exI [of _ "check_one d wm g assets s @ ops"]) auto
qed

lemma Check_writes:
  "\<exists>ops. Check d s = run catalog_step ops s \<and> (\<forall>op \<in> set ops. honest (VerifyRelease d) (SHA256 d) op)"
  using check_loop_writes by (auto simp: Check_def split: option.split intro: exI [of _ "[]"])

section \<open>Histories with checks\<close>

datatype devent = DEvent event | DCheck Discoverer

fun dstep :: "devent \<Rightarrow> World \<Rightarrow> World" where
  "dstep (DEvent e) w = step e w"
| "dstep (DCheck d) w = w\<lparr>db := Check d (db w)\<rparr>"

text \<open>Every check uses the verifier and digest; nothing else marks a release verified.\<close>

fun trusted :: "verifier \<Rightarrow> (string \<Rightarrow> string) \<Rightarrow> devent \<Rightarrow> bool" where
  "trusted vrf sha (DCheck d) \<longleftrightarrow> VerifyRelease d = vrf \<and> SHA256 d = sha"
| "trusted vrf sha (DEvent (ECatalog (Update_Scheduler.Verified _ _ _))) \<longleftrightarrow> False"
| "trusted vrf sha (DEvent _) \<longleftrightarrow> True"

definition proven :: "verifier \<Rightarrow> (string \<Rightarrow> string) \<Rightarrow> Release \<Rightarrow> bool" where
  "proven vrf sha r \<longleftrightarrow> (VerifyState r = VerifyVerified \<longrightarrow>
     (\<exists>m. RManifest r = Some m \<and> accepted vrf sha (Version r) m (Digest r)))"

definition all_rows :: "(Release \<Rightarrow> bool) \<Rightarrow> Store \<Rightarrow> bool" where
  "all_rows P s \<longleftrightarrow> (\<forall>r \<in> set (releases s). P r)"

lemma all_rows_update:
  "all_rows P s \<Longrightarrow> (\<And>r. P r \<Longrightarrow> Version r = v \<Longrightarrow> P (f r)) \<Longrightarrow> all_rows P (update_release v f s)"
  by (auto simp: all_rows_def update_release_def)

lemma all_rows_runs [simp]: "all_rows P (update_run i f s) = all_rows P s"
  by (simp add: all_rows_def update_run_def)

lemma proven_ops:
  assumes "all_rows (proven vrf sha) s"
  shows "all_rows (proven vrf sha) (SetVerifyError v k dg s)" "all_rows (proven vrf sha) (ResetForReverify v s)"
    "all_rows (proven vrf sha) (SetWithdrawn v t why s)" "all_rows (proven vrf sha) (fst (SetHeld v t s))"
    "all_rows (proven vrf sha) (Approve v t s)" "all_rows (proven vrf sha) (Block v why s)"
    "all_rows (proven vrf sha) (Unblock v s)" "all_rows (proven vrf sha) (Seen_release q s)"
    "accepted vrf sha v m dg \<Longrightarrow> all_rows (proven vrf sha) (SetVerified v m dg s)"
    "all_rows (proven vrf sha) (RaiseWatermark v s)" "all_rows (proven vrf sha) (FinishRun i t st doc s)"
    "all_rows (proven vrf sha) (SetRunState i st step' s)"
  using assms
  by (auto simp: SetVerifyError_def ResetForReverify_def SetWithdrawn_def SetHeld_def Approve_def Block_def Unblock_def
      Seen_release_def SetVerified_def RaiseWatermark_def Let_def FinishRun_def SetRunState_def proven_def intro!: all_rows_update)
    (auto simp: all_rows_def proven_def)

lemma proven_CountAttempt:
  "all_rows (proven vrf sha) s \<Longrightarrow> all_rows (proven vrf sha) (fst (CountAttempt v s))"
proof -
  assume "all_rows (proven vrf sha) s"
  then have "all_rows (proven vrf sha) (update_release v (\<lambda>r. r\<lparr>Attempts := Attempts r + 1\<rparr>) s)"
    by (intro all_rows_update) (auto simp: proven_def)
  then show ?thesis by (auto simp: CountAttempt_def Let_def proven_ops(6) split: option.split)
qed

lemma proven_blockFor:
  "all_rows (proven vrf sha) s \<Longrightarrow> all_rows (proven vrf sha) (blockFor loc p rn doc s)"
  by (simp add: blockFor_def proven_ops proven_CountAttempt split: failure_class.split)

lemma proven_driver_step:
  assumes "all_rows (proven vrf sha) s"
  shows "all_rows (proven vrf sha) (driver_step loc p t out s)"
proof -
  have "all_rows (proven vrf sha) (run_outcome loc p t out rn s)" for rn
    using assms by (cases out)
      (simp_all add: run_outcome_def finish_def homeCommitted_def tvRolledBack_def Let_def proven_ops proven_blockFor)
  with assms show ?thesis by (simp add: driver_step_def split: option.split)
qed

lemma releases_Supersede [simp]: "releases (Supersede a s v) = releases s"
  by (simp add: Supersede_def finish_def FinishRun_def update_run_def split: option.split)

lemma proven_start:
  assumes "all_rows (proven vrf sha) s"
  shows "all_rows (proven vrf sha) (fst (start built p a r trig s))"
proof -
  have "all_rows (proven vrf sha) (Supersede a s (Version r))" using assms by (simp add: all_rows_def)
  then have sup: "all_rows (proven vrf sha) s'" if "InsertRun (UUID a) (InsertNow a) (Version r) trig (Supersede a s (Version r)) = (s', x)" for s' x
    using that by (auto simp: InsertRun_def Let_def all_rows_def split: if_splits)
  obtain s' x where i: "InsertRun (UUID a) (InsertNow a) (Version r) trig (Supersede a s (Version r)) = (s', x)"
    by (rule prod.exhaust)
  from sup [OF i] assms show ?thesis
    by (auto simp: start_def Let_def i proven_ops split: recheck.split sum.split option.split)
qed

lemma proven_tick:
  assumes "all_rows (proven vrf sha) s"
  shows "all_rows (proven vrf sha) (fst (tick built t loc p current a s))"
proof -
  have "all_rows (proven vrf sha) (fst (tick_target built t loc p a r s))" for r
  proof -
    obtain s' x where st: "start built p a r TriggerAuto s = (s', x)" by (rule prod.exhaust)
    with proven_start [OF assms, of built p a r TriggerAuto] have "all_rows (proven vrf sha) s'" by simp
    with assms st show ?thesis
      by (simp add: tick_target_def Let_def split: option.split sum.split start_error.split)
  qed
  with assms show ?thesis by (simp add: tick_def Let_def proven_ops split: option.split)
qed

lemma proven_unblock: "all_rows (proven vrf sha) s \<Longrightarrow> all_rows (proven vrf sha) (fst (unblock v s))"
  by (simp add: unblock_def proven_ops split: option.split)

lemma proven_RunNow:
  assumes "all_rows (proven vrf sha) s"
  shows "all_rows (proven vrf sha) (fst (RunNow built p current a version s))"
proof -
  obtain s1 t where nt: "now_target p current version s = (s1, t)" by (rule prod.exhaust)
  then have s1: "all_rows (proven vrf sha) s1"
    using assms proven_unblock [OF assms] by (auto simp: now_target_def Let_def split: if_splits)
  have go: "all_rows (proven vrf sha) (fst (case start b p a r TriggerManual q of
      (s, Inr rn) \<Rightarrow> (s, Inr rn) | (s, Inl e) \<Rightarrow> (s, Inl (NowStart e))))"
    if "all_rows (proven vrf sha) q" for b r q
  proof -
    obtain s' x where st: "start b p a r TriggerManual q = (s', x)" by (rule prod.exhaust)
    with proven_start [OF that, of b p a r TriggerManual] show ?thesis by (simp split: sum.split)
  qed
  from s1 assms show ?thesis by (simp add: RunNow_def nt Let_def go proven_ops(5) split: option.split)
qed

lemma proven_catalog:
  assumes "all_rows (proven vrf sha) s" and "honest vrf sha op"
  shows "all_rows (proven vrf sha) (catalog_step op s)"
  using assms by (cases op) (simp_all add: proven_ops)

lemma proven_catalogs:
  "all_rows (proven vrf sha) s \<Longrightarrow> \<forall>op \<in> set ops. honest vrf sha op \<Longrightarrow> all_rows (proven vrf sha) (run catalog_step ops s)"
  by (induction ops arbitrary: s) (simp_all add: proven_catalog)

lemma proven_dstep:
  assumes "all_rows (proven vrf sha) (db w)" and "trusted vrf sha e"
  shows "all_rows (proven vrf sha) (db (dstep e w))"
proof (cases e)
  case (DCheck d)
  obtain ops where "Check d (db w) = run catalog_step ops (db w)" "\<forall>op \<in> set ops. honest (VerifyRelease d) (SHA256 d) op"
    using Check_writes by blast
  with DCheck assms show ?thesis by (simp add: proven_catalogs)
next
  case (DEvent ev)
  show ?thesis
  proof (cases ev)
    case (ECatalog op)
    with assms DEvent have "honest vrf sha op" by (cases op) auto
    with assms(1) DEvent ECatalog show ?thesis by (simp add: proven_catalog)
  qed (use assms DEvent in \<open>simp_all add: proven_tick proven_RunNow proven_unblock proven_driver_step proven_ops split_beta Let_def\<close>)
qed

lemma proven_history:
  assumes "\<forall>e \<in> set es. trusted vrf sha e"
  shows "all_rows (proven vrf sha) (db (run dstep es empty_world))"
proof -
  have "all_rows (proven vrf sha) (db w) \<Longrightarrow> \<forall>e \<in> set es. trusted vrf sha e \<Longrightarrow> all_rows (proven vrf sha) (db (run dstep es w))" for w
    by (induction es arbitrary: w) (simp_all add: proven_dstep)
  moreover have "all_rows (proven vrf sha) (db empty_world)" by (simp add: all_rows_def empty_world_def)
  ultimately show ?thesis using assms by blast
qed

text \<open>A history with checks is a history: the checks are catalogue writes.\<close>

lemma run_ECatalog: "run step (map ECatalog ops) w = w\<lparr>db := run catalog_step ops (db w)\<rparr>"
  by (induction ops arbitrary: w) simp_all

lemma dhistory_is_history: "\<exists>fs. run dstep es w = run step fs w"
proof (induction es arbitrary: w)
  case Nil
  show ?case by (intro exI [of _ "[]"]) simp
next
  case (Cons e es)
  obtain fs where fs: "run dstep es (dstep e w) = run step fs (dstep e w)" using Cons.IH by blast
  have "\<exists>gs. dstep e w = run step gs w"
  proof (cases e)
    case (DEvent ev)
    then show ?thesis by (intro exI [of _ "[ev]"]) simp
  next
    case (DCheck d)
    obtain ops where "Check d (db w) = run catalog_step ops (db w)" using Check_writes by blast
    with DCheck show ?thesis by (intro exI [of _ "map ECatalog ops"]) (simp add: run_ECatalog)
  qed
  then obtain gs where "dstep e w = run step gs w" ..
  with fs show ?case by (intro exI [of _ "gs @ fs"]) simp
qed

lemma started_row:
  assumes "snd (tick built t loc p current a (db (run step fs empty_world))) = DStarted v i"
  obtains r where "r \<in> set (releases (db (run step fs empty_world)))" "Version r = v" "VerifyState r = VerifyVerified"
    "Recheck (GitHub a) (Checksums a) r (PChannel p) = RecheckGood"
  using started_allowed [OF assms] unfolding allowed_def set_Catalog by blast

text \<open>
  Property C34. A home installs by itself only what the verifier accepted and GitHub still serves: in
  every history in which releases become verified through the checks alone, a run the scheduler starts
  is of a release whose manifest and signing time the verifier proved, under that release's name, for the
  checksums on record, and GitHub lists it now, as no draft, with those checksums.
\<close>
theorem starts_only_proven_releases:
  assumes "\<forall>e \<in> set es. trusted vrf sha e"
    and "snd (tick built t loc p current a (db (run dstep es empty_world))) = DStarted v i"
  shows "\<exists>r m g. r \<in> set (releases (db (run dstep es empty_world))) \<and> Version r = v \<and> RManifest r = Some m
    \<and> accepted vrf sha v m (Digest r) \<and> GitHub a = Listed g \<and> \<not> Draft g
    \<and> (\<exists>d. Checksums a = FileDigest d \<and> (Digest r = '''' \<or> d = Digest r))"
proof -
  obtain fs where fs: "run dstep es empty_world = run step fs empty_world" using dhistory_is_history by blast
  obtain r where r: "r \<in> set (releases (db (run step fs empty_world)))" "Version r = v" "VerifyState r = VerifyVerified"
    "Recheck (GitHub a) (Checksums a) r (PChannel p) = RecheckGood"
    using started_row [OF assms(2) [unfolded fs]] .
  from proven_history [OF assms(1)] r(1,3) obtain m where "RManifest r = Some m" "accepted vrf sha (Version r) m (Digest r)"
    by (auto simp: fs all_rows_def proven_def)
  moreover obtain g d where "GitHub a = Listed g" "\<not> Draft g" "Checksums a = FileDigest d" "Digest r = '''' \<or> d = Digest r"
    using r(4) by (auto simp: Recheck_def split: github.splits if_splits checksums_file.splits)
  ultimately show ?thesis using r(1,2) unfolding fs by blast
qed

text \<open>A check finds 0.2.1, its files verify, and at three the scheduler starts it; a home that saw other bytes does not.\<close>

definition example_verifier :: verifier where
  "example_verifier tag fs = (if fst fs = ''sums'' then Inr \<lparr>VVersion = tag, VManifest = \<lparr>Published = 2 * day,
     BreaksPreviousHome = False, MinUpgradeFrom = '''', MSignedAt = 0\<rparr>, VChecksumsSHA256 = '''', VSignedAt = 2 * day\<rparr>
     else Inl ''signature'')"

definition example_check :: "string \<Rightarrow> Discoverer" where
  "example_check content = \<lparr>Listing = Some [(\<lparr>TagName = ''v0.2.1'', Draft = False, GPrerelease = False, GPublishedAt = 2 * day\<rparr>,
       [(''checksums.txt'', ''a''), (''checksums.txt.sigstore.json'', ''b''), (''release.json'', ''c'')])],
     Fetch = (\<lambda>u. Some (if u = ''a'' then content else u)), SHA256 = (\<lambda>b. if b = ''sums'' then ''digest'' else b),
     VerifyRelease = example_verifier, DChannel = ''stable'', DCurrent = ''0.2.0'', DNow = 3 * day\<rparr>"

lemma example_checked:
  "map (\<lambda>r. (Version r, VerifyState r, Digest r)) (releases (db (run dstep [DCheck (example_check ''sums'')] empty_world)))
    = [(''0.2.1'', VerifyVerified, ''digest'')]"
  "map (\<lambda>r. (VerifyState r, Digest r)) (releases (db (run dstep [DCheck (example_check ''sums''), DCheck (example_check ''other'')] empty_world)))
    = [(VerifyFailed, ''other'')]"
  by code_simp+

theorem starts_only_proven_releases_witness:
  "\<exists>r \<in> set (releases (db (run dstep [DCheck (example_check ''sums'')] empty_world))). \<exists>m.
     Version r = ''0.2.1'' \<and> accepted example_verifier (SHA256 (example_check ''sums'')) ''0.2.1'' m (Digest r)"
proof -
  have t: "\<forall>e \<in> set [DCheck (example_check ''sums'')]. trusted example_verifier (SHA256 (example_check ''sums'')) e"
    by (simp add: example_check_def)
  have "snd (tick True (at_hour 3 0) utc DefaultPolicy ''0.2.0'' (answers 1 (at_hour 3 0) None)
      (db (run dstep [DCheck (example_check ''sums'')] empty_world))) = DStarted ''0.2.1'' 1"
    by code_simp
  from starts_only_proven_releases [OF t this] show ?thesis by blast
qed

end
