(* ===== verification/Front_Slots.thy ===== *)
theory Front_Slots
  imports Prelude
begin

text \<open>
  The front door's routing to its host's TV slots: \<^verbatim>\<open>streaming/internal/frontdoor/slots.go\<close>
  (roles, probes, failover, staging) and \<^verbatim>\<open>swap.go\<close> (swap and rollback operations, the
  grace, the route of a channel). A critical section of \<open>s.mu\<close> is one function; the calls of several
  goroutines are the sections in any order. A probe's answer, the settings, the demand, the clock's readings and
  the rows of the database are inputs. What a section asks of the supervisor and of the slots is a list of
  orders. A channel is its UUID's number, which orders as its text does.
\<close>

section \<open>State\<close>

abbreviation Blue :: string where "Blue \<equiv> ''blue''"
abbreviation Green :: string where "Green \<equiv> ''green''"
abbreviation Amber :: string where "Amber \<equiv> ''amber''"

definition Names :: "string list" where
  "Names = [Blue, Green, Amber]"

record Status =
  Release :: string
  Mismatch :: bool
  Stations :: "nat list"
  StatusPID :: int

record slotHealth =
  healthy :: bool
  fails :: int
  probedAt :: instant
  status :: Status
  upAt :: instant
  reported :: bool
  pid :: int
  restarts :: "instant list"
  looped :: bool

text \<open>The zero \<open>time.Time\<close>, the first instant of year 1.\<close>

definition zero_time :: instant where
  "zero_time = - 62135596800 * second"

definition no_health :: slotHealth where
  "no_health = \<lparr>healthy = False, fails = 0, probedAt = zero_time,
     status = \<lparr>Release = '''', Mismatch = False, Stations = [], StatusPID = 0\<rparr>,
     upAt = zero_time, reported = False, pid = 0, restarts = [], looped = False\<rparr>"

datatype op_kind = OpSwap | OpRollback

abbreviation switchPlanned :: string where "switchPlanned \<equiv> ''planned''"
abbreviation switchSwitched :: string where "switchSwitched \<equiv> ''switched''"
abbreviation switchSkipped :: string where "switchSkipped \<equiv> ''skipped''"

text \<open>
  The maps of an operation are keyed by the same channels: one record per channel. \<open>Ref\<close> stands for
  the identity of the Go value, which some sections compare.
\<close>

record channel_switch =
  Channel :: nat
  SwitchAt :: instant
  SwitchState :: string
  Removed :: bool
  Retried :: bool

record swapOp =
  Ref :: nat
  OpID :: int
  Kind :: op_kind
  OpRelease :: string
  From :: string
  To :: string
  Channels :: "channel_switch list"
  rolling :: bool

text \<open>The staged change and release, and the sections' shared fields.\<close>

record Slots =
  live :: string
  standby :: string
  staging :: string
  epoch :: int
  health :: "string \<Rightarrow> slotHealth option"
  failing :: "string list"
  switches :: int
  curOp :: "swapOp option"
  previous :: string
  previousUntil :: instant
  stage :: "(string \<times> string) option"
  nextRef :: nat

record StagingSettings =
  StagingActive :: bool
  HotStandby :: bool
  WarmDemand :: bool
  AutoRollback :: bool
  KeepWarm :: duration
  RollingSwap :: string
  MaxExtra :: int

text \<open>
  Orders: a slot drains and stops, restarts as the standby on a release, is stopped, is started on a
  release, or is started by its role.
\<close>

datatype order = Drain string | RestartStandby string string | StopSlot string | StartOn string string | StartSlot string

text \<open>\<open>addrs\<close> are the instances with an address.\<close>

definition otherThan :: "string set \<Rightarrow> string \<Rightarrow> string \<Rightarrow> string" where
  "otherThan addrs a b = (case filter (\<lambda>n. n \<in> addrs \<and> n \<noteq> a \<and> n \<noteq> b) Names of n # _ \<Rightarrow> n | [] \<Rightarrow> '''')"

definition freeInstance :: "string set \<Rightarrow> Slots \<Rightarrow> string" where
  "freeInstance addrs s =
    (case filter (\<lambda>n. n \<in> addrs \<and> n \<noteq> live s \<and> n \<noteq> standby s \<and> n \<noteq> previous s) Names of n # _ \<Rightarrow> n | [] \<Rightarrow> '''')"

definition slotRelease :: "Slots \<Rightarrow> string \<Rightarrow> string" where
  "slotRelease s name = (case health s name of Some h \<Rightarrow> Release (status h) | None \<Rightarrow> '''')"

section \<open>Probes and the crash loop of staging\<close>

definition crashLoopRestarts :: nat where "crashLoopRestarts = 3"
definition crashLoopWindow :: duration where "crashLoopWindow = 10 * minute"

definition noteRestart :: "slotHealth \<Rightarrow> instant \<Rightarrow> slotHealth \<times> bool" where
  "noteRestart h now' =
    (let keep = filter (\<lambda>t. now' - t \<le> crashLoopWindow) (restarts h @ [now']); h = h\<lparr>restarts := keep\<rparr> in
     if length keep < crashLoopRestarts then (h\<lparr>looped := False\<rparr>, False)
     else if looped h then (h, False)
     else (h\<lparr>looped := True\<rparr>, True))"

definition is_live :: "Slots \<Rightarrow> string \<Rightarrow> bool" where
  "is_live s name \<longleftrightarrow> name = live s \<or> (case curOp s of Some op \<Rightarrow> name = To op | None \<Rightarrow> False)"

text \<open>
  The section of \<open>check\<close> after the probe answered (or failed): the state, whether a crash loop is
  reported, and whether a failover is asked for.
\<close>

definition check :: "int \<Rightarrow> string \<Rightarrow> Status option \<Rightarrow> instant \<Rightarrow> Slots \<Rightarrow> Slots \<times> bool \<times> bool" where
  "check failAfter name answer now' s =
    (let h = (case health s name of Some h \<Rightarrow> h | None \<Rightarrow> no_health);
         (h, loop) =
           (case answer of
              None \<Rightarrow> (h\<lparr>healthy := False, fails := fails h + 1\<rparr>, False)
            | Some st \<Rightarrow>
                let h = (if \<not> healthy h then h\<lparr>upAt := now'\<rparr> else h);
                    (h, loop) = (if name = staging s
                       then (if pid h \<noteq> 0 \<and> StatusPID st \<noteq> 0 \<and> StatusPID st \<noteq> pid h \<and> \<not> reported h
                             then noteRestart h now' else (h, False))
                       else (h\<lparr>restarts := [], looped := False\<rparr>, False));
                    h = (if StatusPID st \<noteq> 0 then h\<lparr>pid := StatusPID st\<rparr> else h)
                in (h\<lparr>healthy := True, fails := 0, status := st, reported := False\<rparr>, loop));
         h = h\<lparr>probedAt := now'\<rparr>
     in (s\<lparr>health := (health s)(name \<mapsto> h)\<rparr>, loop,
         answer = None \<and> is_live s name \<and> (failAfter \<le> fails h \<or> reported h)))"

text \<open>The supervisor's report that a slot's process ended; the answer is as for \<open>check\<close>.\<close>

definition Exited :: "string \<Rightarrow> instant \<Rightarrow> Slots \<Rightarrow> Slots \<times> bool \<times> bool" where
  "Exited name now' s =
    (let h = (case health s name of Some h \<Rightarrow> Some h
              | None \<Rightarrow> if name \<noteq> '''' \<and> name = staging s then Some no_health else None) in
     case h of
       None \<Rightarrow> (s, False, is_live s name)
     | Some h \<Rightarrow>
         let h = h\<lparr>healthy := False, reported := True\<rparr>;
             (h, loop) = (if name = staging s then noteRestart h now' else (h, False))
         in (s\<lparr>health := (health s)(name \<mapsto> h)\<rparr>, loop, is_live s name))"

text \<open>What a slot answered to its warm set.\<close>

definition remember :: "string \<Rightarrow> Status \<Rightarrow> Slots \<Rightarrow> Slots" where
  "remember name st s = (case health s name of
     Some h \<Rightarrow> s\<lparr>health := (health s)(name \<mapsto> h\<lparr>status := st\<rparr>)\<rparr> | None \<Rightarrow> s)"

section \<open>Failover to the hot standby\<close>

definition standbyAirsLive :: "slotHealth option \<Rightarrow> slotHealth option \<Rightarrow> bool \<times> string" where
  "standbyAirsLive liveH stby =
    (case stby of
       None \<Rightarrow> (False, '''')
     | Some b \<Rightarrow>
         if Mismatch (status b) then (False, '''')
         else
           let liveRel = (case liveH of Some l \<Rightarrow> Release (status l) | None \<Rightarrow> '''') in
           if liveRel = '''' then (True, '''') else (Release (status b) = liveRel, liveRel))"

text \<open>
  The last section of \<open>Failover\<close>. The deferred section clears the mark that a failover
  of the slot is under way.
\<close>

definition take_over :: "string \<Rightarrow> Slots \<Rightarrow> Slots \<times> bool" where
  "take_over from' s =
    (if live s \<noteq> from' \<or> from' \<in> set (failing s) then (s, False)
     else
       let to' = standby s in
       (case health s to' of
          None \<Rightarrow> (s, False)
        | Some h \<Rightarrow>
            if to' = '''' \<or> \<not> healthy h then (s, False)
            else if \<not> fst (standbyAirsLive (health s from') (Some h)) then (s, False)
            else (s\<lparr>failing := from' # failing s, epoch := epoch s + 1, live := to', standby := from',
                    switches := switches s + 1\<rparr>, True)))"

definition end_failing :: "string \<Rightarrow> Slots \<Rightarrow> Slots" where
  "end_failing from' s = s\<lparr>failing := filter (\<lambda>n. n \<noteq> from') (failing s)\<rparr>"

section \<open>Staging\<close>

definition StartStaging :: "string set \<Rightarrow> StagingSettings \<Rightarrow> Slots \<Rightarrow> Slots \<times> order list" where
  "StartStaging addrs set' s =
    (if \<not> StagingActive set' then (s, [])
     else
       let s = (if staging s = '''' then s\<lparr>staging := freeInstance addrs s\<rparr> else s) in
       if staging s = '''' then (s, []) else (s, [StartSlot (staging s)]))"

definition StopStaging :: "Slots \<Rightarrow> Slots \<times> order list" where
  "StopStaging s = (s\<lparr>staging := '''', stage := None\<rparr>, if staging s = '''' then [] else [StopSlot (staging s)])"

text \<open>\<open>StageStop\<close>; the empty change stands for any.\<close>

definition StageStop :: "string \<Rightarrow> Slots \<Rightarrow> Slots \<times> order list" where
  "StageStop change s =
    (if (case stage s of Some (c, _) \<Rightarrow> change \<noteq> '''' \<and> c \<noteq> change | None \<Rightarrow> False) then (s, []) else StopStaging s)"

text \<open>
  \<open>StageStart\<close>: its first section (a plan already staged is only updated, another one is stopped) and
  the one that takes an instance. \<open>reach\<close> says that the writes and the supervisor's start succeed.
\<close>

definition StageStart :: "string set \<Rightarrow> StagingSettings \<Rightarrow> bool \<Rightarrow> string \<Rightarrow> string \<Rightarrow> Slots \<Rightarrow> Slots \<times> order list" where
  "StageStart addrs set' reach change rel s =
    (if \<not> StagingActive set' then (s, [])
     else if stage s = Some (change, rel) \<and> staging s \<noteq> '''' then (s, [])
     else
       let (s, orders) = (if stage s \<noteq> None then StageStop '''' s else (s, []));
           s = (if staging s = '''' then s\<lparr>staging := freeInstance addrs s\<rparr> else s)
       in if staging s = '''' then (s, orders)
          else if reach then (s\<lparr>stage := Some (change, rel)\<rparr>, orders @ [StartOn (staging s) rel])
          else (s\<lparr>stage := None\<rparr>, orders))"

definition AdoptStaging :: "string set \<Rightarrow> string \<Rightarrow> Slots \<Rightarrow> Slots \<times> bool" where
  "AdoptStaging addrs name s =
    (if name \<notin> addrs then (s, False)
     else if name = live s \<or> name = standby s \<or> name = previous s then (s, False)
     else (s\<lparr>staging := name, epoch := epoch s + 1\<rparr>, True))"

text \<open>An admin's switch; the error is the reason it is refused.\<close>

datatype switch_error = UnknownSlot | SwapInProgress | StaleEpoch

definition Switch :: "string set \<Rightarrow> string \<Rightarrow> int \<Rightarrow> Slots \<Rightarrow> Slots \<times> switch_error option" where
  "Switch addrs to' e s =
    (if to' \<notin> addrs then (s, Some UnknownSlot)
     else if curOp s \<noteq> None then (s, Some SwapInProgress)
     else if e \<le> epoch s then (s, Some StaleEpoch)
     else
       let from' = live s; s = s\<lparr>epoch := e\<rparr> in
       if to' = from' then (s, None)
       else
         let s = s\<lparr>live := to'\<rparr>;
             s = (if standby s = to' then s\<lparr>standby := from'\<rparr> else s);
             s = (if staging s = to' then s\<lparr>staging := '''', stage := None\<rparr> else s)
         in (s\<lparr>switches := switches s + 1\<rparr>, None))"

section \<open>Operations (swap.go)\<close>

definition swapSettle :: duration where "swapSettle = 8 * second"
definition swapTargetWait :: duration where "swapTargetWait = 90 * second"
definition switchRetry :: duration where "switchRetry = 5 * second"
definition rollingLead :: duration where "rollingLead = 20 * second"

definition lastAt :: "swapOp \<Rightarrow> instant" where
  "lastAt op = fold (\<lambda>c t. if t < SwitchAt c then SwitchAt c else t) (Channels op) zero_time"

definition in_state :: "string \<Rightarrow> swapOp \<Rightarrow> nat" where
  "in_state st op = length (filter (\<lambda>c. SwitchState c = st) (Channels op))"

text \<open>Switched, skipped and still planned channels.\<close>

definition counts :: "swapOp \<Rightarrow> nat \<times> nat \<times> nat" where
  "counts op = (in_state switchSwitched op, in_state switchSkipped op,
     length (filter (\<lambda>c. SwitchState c \<noteq> switchSwitched \<and> SwitchState c \<noteq> switchSkipped) (Channels op)))"

definition switch_of :: "swapOp \<Rightarrow> nat \<Rightarrow> channel_switch option" where
  "switch_of op ch = find (\<lambda>c. Channel c = ch) (Channels op)"

definition Route :: "nat \<Rightarrow> instant \<Rightarrow> Slots \<Rightarrow> string" where
  "Route ch now' s =
    (case curOp s of
       None \<Rightarrow> live s
     | Some op \<Rightarrow>
         if To op = '''' then live s
         else (case switch_of op ch of
                 None \<Rightarrow> From op
               | Some c \<Rightarrow>
                   if SwitchState c = switchSkipped then From op
                   else if \<not> now' < SwitchAt c then To op
                   else From op))"

record SwitchPlan =
  PlanOp :: int
  PlanKind :: op_kind
  PlanFrom :: string
  PlanTo :: string
  PlanAt :: instant
  PlanRemoved :: bool

definition Plan :: "nat \<Rightarrow> Slots \<Rightarrow> SwitchPlan option" where
  "Plan ch s =
    (case curOp s of
       None \<Rightarrow> None
     | Some op \<Rightarrow>
         if To op = '''' then None
         else (case switch_of op ch of
                 None \<Rightarrow> None
               | Some c \<Rightarrow>
                   if SwitchState c = switchSkipped then None
                   else Some \<lparr>PlanOp = OpID op, PlanKind = Kind op, PlanFrom = From op, PlanTo = To op,
                          PlanAt = SwitchAt c, PlanRemoved = Removed c\<rparr>))"

text \<open>The slot that runs the release (\<open>targetFor\<close>), the empty string for none.\<close>

definition runs_release :: "Slots \<Rightarrow> string \<Rightarrow> string \<Rightarrow> bool" where
  "runs_release s rel n =
    (case health s n of
       Some h \<Rightarrow> n \<noteq> '''' \<and> healthy h \<and> (rel = '''' \<or> Release (status h) = rel) | None \<Rightarrow> False)"

definition targetFor :: "string \<Rightarrow> op_kind \<Rightarrow> Slots \<Rightarrow> string option" where
  "targetFor rel kind s =
    (let ok = runs_release s rel;
         others = filter (\<lambda>n. n \<noteq> live s \<and> n \<noteq> standby s \<and> ok n) Names;
         rest = (case others of n # _ \<Rightarrow> Some n
                 | [] \<Rightarrow> if kind = OpRollback \<and> ok (standby s) then Some (standby s) else None)
     in if kind = OpRollback then
          (if rel = '''' then None
           else if ok (previous s) then Some (previous s)
           else if ok (live s) then Some (live s)
           else rest)
        else if rel \<noteq> '''' \<and> ok (live s) then Some (live s)
        else if ok (staging s) \<and> staging s \<noteq> live s then Some (staging s)
        else rest)"

text \<open>
  A rolling swap: the watched channels in the order of their instants, budget at a time. \<open>roll\<close> is the
  loop, with the instant given last.
\<close>

definition earlier :: "channel_switch \<Rightarrow> channel_switch \<Rightarrow> bool" where
  "earlier a b \<longleftrightarrow> (if SwitchAt a \<noteq> SwitchAt b then SwitchAt a < SwitchAt b else Channel a < Channel b)"

fun roll :: "instant \<Rightarrow> int \<Rightarrow> int \<Rightarrow> instant \<Rightarrow> channel_switch list \<Rightarrow> channel_switch list" where
  "roll now' budget i prev [] = []"
| "roll now' budget i prev (c # cs) =
     (let slotAt = now' + rollingLead + (i div budget) * rollingLead;
          t = SwitchAt c;
          t = (if t < slotAt then slotAt else t);
          t = (if t < prev then prev else t)
      in c\<lparr>SwitchAt := t\<rparr> # roll now' budget (i + 1) t cs)"

definition to_roll :: "nat set \<Rightarrow> swapOp \<Rightarrow> channel_switch list" where
  "to_roll watched op =
    filter (\<lambda>c. Channel c \<in> watched \<and> SwitchState c = switchPlanned \<and> \<not> Removed c) (Channels op)"

definition planRolling :: "nat set \<Rightarrow> int \<Rightarrow> string \<Rightarrow> instant \<Rightarrow> swapOp \<Rightarrow> swapOp \<times> bool" where
  "planRolling watched budget mode now' op =
    (let ws = to_roll watched op in
     if mode = ''never'' \<or> budget \<le> 0 \<or> mode \<noteq> ''always'' \<and> int (length ws) \<le> budget then (op, False)
     else
       let moved = roll now' budget 0 zero_time (sort_by earlier ws) in
       (op\<lparr>Channels := map (\<lambda>c. case find (\<lambda>m. Channel m = Channel c) moved of Some m \<Rightarrow> m | None \<Rightarrow> c) (Channels op)\<rparr>,
        True))"

definition targetBudget :: "StagingSettings \<Rightarrow> int \<Rightarrow> Slots \<Rightarrow> int" where
  "targetBudget set' capacity s =
    (let used = (case health s (live s) of Some h \<Rightarrow> int (length (Stations (status h))) | None \<Rightarrow> 0);
         room = capacity - used;
         room = (if 0 < MaxExtra set' \<and> MaxExtra set' < room then MaxExtra set' else room)
     in if room < 1 then 1 else room)"

text \<open>A row of the operation as the database has it, and the operation's own row.\<close>

record switchRow =
  RowChannel :: nat
  RowAt :: instant
  RowState :: string
  RowRemoved :: bool

record opRow =
  RowID :: int
  RowKind :: op_kind
  RowRelease :: string
  RowCreated :: instant

definition switch_row :: "op_kind \<Rightarrow> nat set \<Rightarrow> instant \<Rightarrow> switchRow \<Rightarrow> channel_switch" where
  "switch_row kind watched now' r =
    \<lparr>Channel = RowChannel r,
     SwitchAt = (if kind = OpRollback \<or> RowChannel r \<notin> watched \<or> RowAt r < now' then now' else RowAt r),
     SwitchState = (if RowState r = '''' \<or> RowState r = ''switching'' then switchPlanned else RowState r),
     Removed = RowRemoved r, Retried = False\<rparr>"

text \<open>A later row of a channel replaces an earlier one, as a write to a map does.\<close>

fun last_rows :: "switchRow list \<Rightarrow> switchRow list" where
  "last_rows [] = []"
| "last_rows (r # rs) =
     (if RowChannel r \<in> RowChannel ` set rs then last_rows rs else r # last_rows rs)"

definition runOp :: "StagingSettings \<Rightarrow> nat set \<Rightarrow> int \<Rightarrow> opRow \<Rightarrow> string \<Rightarrow> switchRow list \<Rightarrow> instant \<Rightarrow> Slots \<Rightarrow> Slots" where
  "runOp set' watched capacity o' to' rows now' s =
    (let from' = live s;
         chans = map (switch_row (RowKind o') watched now') (last_rows rows);
         chans = (if to' = from' then map (\<lambda>c. c\<lparr>SwitchState := switchSwitched\<rparr>) chans else chans);
         op = \<lparr>Ref = nextRef s, OpID = RowID o', Kind = RowKind o', OpRelease = RowRelease o', From = from', To = to',
               Channels = chans, rolling = False\<rparr>;
         (op, rolls) = planRolling watched (targetBudget set' capacity s) (RollingSwap set') now' op;
         s = (if RowKind o' = OpSwap \<and> staging s = '''' \<and> to' \<noteq> from' then s\<lparr>staging := to'\<rparr> else s)
     in s\<lparr>curOp := Some (op\<lparr>rolling := rolls\<rparr>), epoch := epoch s + 1, nextRef := nextRef s + 1\<rparr>)"

text \<open>\<open>ensureTarget\<close> starts an instance on the release of a swap that has no target.\<close>

definition ensureTarget :: "string set \<Rightarrow> string \<Rightarrow> Slots \<Rightarrow> Slots \<times> order list" where
  "ensureTarget addrs rel s =
    (if rel = '''' then (s, [])
     else
       let s = (if staging s = '''' then s\<lparr>staging := freeInstance addrs s\<rparr> else s) in
       if staging s = '''' then (s, []) else (s, [StartOn (staging s) rel]))"

text \<open>
  One pass over the channels: those whose instant passed are switched when the target answers (or the channel
  is removed), tried once more, then skipped. The answer is the finished operation, if it is done.
\<close>

definition target_ok :: "Slots \<Rightarrow> swapOp \<Rightarrow> bool" where
  "target_ok s op = (case health s (To op) of Some h \<Rightarrow> healthy h | None \<Rightarrow> False)"

definition advance_one :: "bool \<Rightarrow> instant \<Rightarrow> channel_switch \<Rightarrow> channel_switch" where
  "advance_one toOK now' c =
    (if SwitchState c \<noteq> switchPlanned \<or> now' < SwitchAt c then c
     else if toOK \<or> Removed c then c\<lparr>SwitchState := switchSwitched\<rparr>
     else if \<not> Retried c then c\<lparr>Retried := True, SwitchAt := now' + switchRetry\<rparr>
     else c\<lparr>SwitchState := switchSkipped\<rparr>)"

definition op_done :: "instant \<Rightarrow> swapOp \<Rightarrow> bool" where
  "op_done now' op \<longleftrightarrow> snd (snd (counts op)) = 0 \<and> \<not> now' < lastAt op + swapSettle"

definition advance :: "instant \<Rightarrow> Slots \<Rightarrow> Slots \<times> nat option" where
  "advance now' s =
    (case curOp s of
       None \<Rightarrow> (s, None)
     | Some op \<Rightarrow>
         let op = op\<lparr>Channels := map (advance_one (target_ok s op) now') (Channels op)\<rparr>
         in (s\<lparr>curOp := Some op\<rparr>, if op_done now' op then Some (Ref op) else None))"

text \<open>The end of the grace: the commit's, when it lies ahead, else \<open>KeepWarm\<close> from now.\<close>

definition grace_until :: "StagingSettings \<Rightarrow> instant option \<Rightarrow> instant \<Rightarrow> instant" where
  "grace_until set' stored now' =
    (case stored of Some t \<Rightarrow> if now' < t then t else now' + KeepWarm set' | None \<Rightarrow> now' + KeepWarm set')"

definition finish :: "string set \<Rightarrow> StagingSettings \<Rightarrow> instant option \<Rightarrow> instant \<Rightarrow> nat \<Rightarrow> Slots \<Rightarrow> Slots \<times> order list" where
  "finish addrs set' stored now' ref s =
    (case curOp s of
       None \<Rightarrow> (s, [])
     | Some op \<Rightarrow>
         if Ref op \<noteq> ref then (s, [])
         else
           let oldLive = live s; oldStandby = standby s; oldPrevious = previous s;
               s = s\<lparr>curOp := None\<rparr>;
               s = (if To op \<noteq> From op then s\<lparr>live := To op, switches := switches s + 1\<rparr> else s);
               s = (if staging s = To op then s\<lparr>staging := ''''\<rparr> else s);
               (s, orders) =
                 (case Kind op of
                    OpSwap \<Rightarrow>
                      if To op \<noteq> From op then
                        (s\<lparr>previous := From op, previousUntil := grace_until set' stored now', standby := ''''\<rparr>,
                         (if oldStandby \<noteq> '''' \<and> oldStandby \<noteq> To op then [Drain oldStandby] else []) @
                         (if oldPrevious \<noteq> '''' \<and> oldPrevious \<noteq> To op \<and> oldPrevious \<noteq> From op \<and> oldPrevious \<noteq> oldStandby
                          then [Drain oldPrevious] else []))
                      else (s, [])
                  | OpRollback \<Rightarrow>
                      let drain = (if oldLive \<noteq> live s \<and> oldLive \<noteq> '''' then [Drain oldLive] else []);
                          s = (if oldPrevious = live s then s\<lparr>previous := '''', previousUntil := zero_time\<rparr> else s)
                      in if standby s = live s \<or> standby s = '''' then
                           let s = s\<lparr>standby := ''''\<rparr> in
                           if HotStandby set' then
                             let n = otherThan addrs (live s) oldLive; n = (if n = '''' then oldLive else n)
                             in (s\<lparr>standby := n\<rparr>,
                                 drain @ (if n = '''' then [] else [RestartStandby n (OpRelease op)]))
                           else (s, drain)
                         else (s, drain))
           in (s\<lparr>epoch := epoch s + 1\<rparr>, orders))"

definition endOp :: "nat \<Rightarrow> Slots \<Rightarrow> Slots \<times> order list" where
  "endOp ref s =
    (case curOp s of
       None \<Rightarrow> (s, [])
     | Some op \<Rightarrow>
         if Ref op \<noteq> ref then (s, [])
         else
           let s = s\<lparr>curOp := None\<rparr>;
               s = (if staging s = To op then s\<lparr>staging := ''''\<rparr> else s);
               abandoned = Kind op = OpSwap \<and> To op \<noteq> '''' \<and> To op \<noteq> From op \<and> To op \<noteq> live s \<and> To op \<noteq> standby s
                 \<and> To op \<noteq> previous s
           in (s\<lparr>epoch := epoch s + 1\<rparr>, if abandoned then [Drain (To op)] else []))"

definition graceCheck :: "string set \<Rightarrow> StagingSettings \<Rightarrow> instant \<Rightarrow> Slots \<Rightarrow> Slots \<times> order list" where
  "graceCheck addrs set' now' s =
    (if previous s = '''' \<or> curOp s \<noteq> None \<or> now' < previousUntil s then (s, [])
     else
       let prev = previous s; s = s\<lparr>previous := '''', previousUntil := zero_time\<rparr>;
           (s, start) =
             (if HotStandby set' \<and> standby s = '''' then
                let n = otherThan addrs (live s) prev; n = (if n = '''' then prev else n) in (s\<lparr>standby := n\<rparr>, n)
              else (s, ''''))
       in (s\<lparr>epoch := epoch s + 1\<rparr>,
           (if start \<noteq> prev then [Drain prev] else []) @
           (if start \<noteq> '''' then [RestartStandby start (slotRelease s (live s))] else [])))"

text \<open>A slot lost while an operation runs: the old live slot (its channels switch now) or the target.\<close>

datatype in_op = NotInOp | SwitchNow | OpFails nat

definition failoverInOp :: "string \<Rightarrow> instant \<Rightarrow> Slots \<Rightarrow> Slots \<times> in_op" where
  "failoverInOp from' now' s =
    (case curOp s of
       None \<Rightarrow> (s, NotInOp)
     | Some op \<Rightarrow>
         if from' \<noteq> From op \<and> from' \<noteq> To op \<or> To op = From op then (s, NotInOp)
         else if from' = From op then
           (s\<lparr>curOp := Some (op\<lparr>Channels := map (\<lambda>c. if SwitchState c = switchPlanned \<and> now' < SwitchAt c
               then c\<lparr>SwitchAt := now'\<rparr> else c) (Channels op)\<rparr>)\<rparr>, SwitchNow)
         else (s, OpFails (Ref op)))"

text \<open>
  The claim of an automatic rollback: not now, another caller is at it, or the previous slot with the
  release it last reported.
\<close>

datatype claim = NoRollback | Claimed | RollsBackTo string string

definition claimRollback :: "StagingSettings \<Rightarrow> string \<Rightarrow> instant \<Rightarrow> Slots \<Rightarrow> Slots \<times> claim" where
  "claimRollback set' from' now' s =
    (case health s (previous s) of
       None \<Rightarrow> (s, NoRollback)
     | Some h \<Rightarrow>
         if \<not> AutoRollback set' \<or> curOp s \<noteq> None \<or> previous s = '''' \<or> live s \<noteq> from' \<or> previousUntil s < now' \<or> \<not> healthy h
         then (s, NoRollback)
         else if from' \<in> set (failing s) then (s, Claimed)
         else (s\<lparr>failing := from' # failing s\<rparr>, RollsBackTo (previous s) (Release (status h))))"

section \<open>The calls in one goroutine\<close>

text \<open>The answers a call gets from the settings, the demand, the budget, the clock and the database.\<close>

record Env =
  Addrs :: "string set"
  Settings :: StagingSettings
  Watched :: "nat set"
  Capacity :: int
  Until :: "instant option"
  Open :: "int \<Rightarrow> bool"
  SwitchRows :: "int \<Rightarrow> switchRow list option"

text \<open>A pass: \<open>advance\<close> with the end of the operation it finds done.\<close>

definition pass :: "Env \<Rightarrow> instant \<Rightarrow> Slots \<Rightarrow> Slots \<times> order list" where
  "pass e now' s =
    (case advance now' s of
       (s, None) \<Rightarrow> (s, [])
     | (s, Some ref) \<Rightarrow> finish (Addrs e) (Settings e) (Until e) now' ref s)"

text \<open>\<open>startOp\<close>; the last part says that the row fails.\<close>

definition startOp :: "Env \<Rightarrow> instant \<Rightarrow> opRow \<Rightarrow> Slots \<Rightarrow> Slots \<times> order list \<times> bool" where
  "startOp e now' o' s =
    (case targetFor (RowRelease o') (RowKind o') s of
       None \<Rightarrow>
         if swapTargetWait < now' - RowCreated o' then (s, [], True)
         else if RowKind o' = OpSwap then (case ensureTarget (Addrs e) (RowRelease o') s of (s, os) \<Rightarrow> (s, os, False))
         else (s, [], False)
     | Some to' \<Rightarrow>
         if \<not> Open e (RowID o') then (s, [], False)
         else (case SwitchRows e (RowID o') of
                 None \<Rightarrow> (s, [], False)
               | Some rows \<Rightarrow> (runOp (Settings e) (Watched e) (Capacity e) o' to' rows now' s, [], False)))"

text \<open>The rows of the operations that are open, in the order of their identifiers.\<close>

fun loadOps :: "Env \<Rightarrow> instant \<Rightarrow> opRow list \<Rightarrow> Slots \<Rightarrow> Slots \<times> order list" where
  "loadOps e now' [] s = (s, [])"
| "loadOps e now' (o' # rest) s =
     (let skip = (case curOp s of
                    None \<Rightarrow> False
                  | Some cur \<Rightarrow> OpID cur = RowID o' \<or>
                      \<not> (RowKind o' = OpRollback \<and> Kind cur = OpSwap) \<and> OpID cur < RowID o');
          (s1, os1) = (case curOp s of
                         Some cur \<Rightarrow> if RowKind o' = OpRollback \<and> Kind cur = OpSwap then endOp (Ref cur) s else (s, [])
                       | None \<Rightarrow> (s, []));
          (s2, os2, _) = startOp e now' o' s1
      in if skip then loadOps e now' rest s
         else if (case curOp s2 of Some cur \<Rightarrow> OpID cur = RowID o' | None \<Rightarrow> False) then (s2, os1 @ os2)
         else (case loadOps e now' rest s2 of (s3, os3) \<Rightarrow> (s3, os1 @ os2 @ os3)))"

definition OpsOnce :: "Env \<Rightarrow> instant \<Rightarrow> opRow list \<Rightarrow> Slots \<Rightarrow> Slots \<times> order list" where
  "OpsOnce e now' rows s =
    (let (s1, os1) = loadOps e now' rows s; (s2, os2) = pass e now' s1;
         (s3, os3) = graceCheck (Addrs e) (Settings e) now' s2 in (s3, os1 @ os2 @ os3))"

text \<open>
  \<open>autoRollback\<close>: the row the database gives the operation (or its identifier 0 and the stations of the lost
  slot, with no database), and whether it was handled.
\<close>

definition autoRollback :: "Env \<Rightarrow> string \<Rightarrow> instant \<Rightarrow> int \<Rightarrow> Slots \<Rightarrow> Slots \<times> order list \<times> bool" where
  "autoRollback e from' now' written s =
    (case claimRollback (Settings e) from' now' s of
       (s, NoRollback) \<Rightarrow> (s, [], False)
     | (s, Claimed) \<Rightarrow> (s, [], True)
     | (s, RollsBackTo prev rel) \<Rightarrow>
         let o' = \<lparr>RowID = written, RowKind = OpRollback, RowRelease = rel, RowCreated = now'\<rparr>;
             (s, os1) =
               (if written = 0 then
                  let rows = (case health s from' of
                                Some h \<Rightarrow> map (\<lambda>ch. \<lparr>RowChannel = ch, RowAt = now', RowState = switchPlanned, RowRemoved = False\<rparr>)
                                            (Stations (status h))
                              | None \<Rightarrow> [])
                  in (runOp (Settings e) (Watched e) (Capacity e) o' prev rows now' s, [])
                else (case startOp e now' o' s of (s, os, _) \<Rightarrow> (s, os)));
             (s, os2) = pass e now' s
         in (end_failing from' s, os1 @ os2, True))"

definition Failover :: "Env \<Rightarrow> string \<Rightarrow> instant \<Rightarrow> int \<Rightarrow> Slots \<Rightarrow> Slots \<times> order list \<times> bool" where
  "Failover e from' now' written s =
    (case failoverInOp from' now' s of
       (s, SwitchNow) \<Rightarrow> (case pass e now' s of (s, os) \<Rightarrow> (s, os, True))
     | (s, OpFails ref) \<Rightarrow> (case endOp ref s of (s, os) \<Rightarrow> (s, os, True))
     | (s, NotInOp) \<Rightarrow>
         (case autoRollback e from' now' written s of
            (s, os, True) \<Rightarrow> (s, os, True)
          | (s, os, False) \<Rightarrow>
              (case take_over from' s of (s, took) \<Rightarrow> (if took then end_failing from' s else s, os, took))))"

text \<open>A probe with what follows from it, and the re-probe of a slot that failed a request.\<close>

definition probe :: "Env \<Rightarrow> int \<Rightarrow> string \<Rightarrow> Status option \<Rightarrow> instant \<Rightarrow> int \<Rightarrow> Slots \<Rightarrow> Slots \<times> order list" where
  "probe e failAfter name answer now' written s =
    (case check failAfter name answer now' s of
       (s, _, ask) \<Rightarrow> if ask then (case Failover e name now' written s of (s, os, _) \<Rightarrow> (s, os)) else (s, []))"

definition Suspect :: "Env \<Rightarrow> int \<Rightarrow> string \<Rightarrow> Status option \<Rightarrow> Status option \<Rightarrow> instant \<Rightarrow> int \<Rightarrow> int \<Rightarrow> Slots \<Rightarrow> Slots \<times> order list" where
  "Suspect e failAfter name answer again now' written written2 s =
    (case probe e failAfter name answer now' written s of
       (s, os) \<Rightarrow>
         if answer = None \<and> is_live s name \<and> again = None
         then (case Failover e name now' written2 s of (s, os2, _) \<Rightarrow> (s, os @ os2))
         else (s, os))"

definition Exited_call :: "Env \<Rightarrow> string \<Rightarrow> instant \<Rightarrow> int \<Rightarrow> Slots \<Rightarrow> Slots \<times> order list" where
  "Exited_call e name now' written s =
    (case Exited name now' s of
       (s, _, ask) \<Rightarrow> if ask then (case Failover e name now' written s of (s, os, _) \<Rightarrow> (s, os)) else (s, []))"

section \<open>Histories of sections\<close>

text \<open>
  Every critical section is an event; the sections of several goroutines come in any order, with any
  inputs.
\<close>

datatype event =
    Probed int string "Status option" instant
  | ExitReport string instant
  | WarmAnswer string Status
  | LostInOp string instant
  | ClaimRollback StagingSettings string instant
  | RunOp StagingSettings "nat set" int opRow string "switchRow list" instant
  | Advance instant
  | Finish "string set" StagingSettings "instant option" instant nat
  | EndOp nat
  | TakeOver string
  | EndFailing string
  | GraceOver "string set" StagingSettings instant
  | EnsureTarget "string set" string
  | StageBegin "string set" StagingSettings bool string string
  | StageEnd string
  | StagingOn "string set" StagingSettings
  | StagingOff
  | Adopt "string set" string
  | SwitchTo "string set" string int

fun step :: "event \<Rightarrow> Slots \<Rightarrow> Slots \<times> order list" where
  "step (Probed k name answer t) s = (fst (check k name answer t s), [])"
| "step (ExitReport name t) s = (fst (Exited name t s), [])"
| "step (WarmAnswer name st) s = (remember name st s, [])"
| "step (LostInOp name t) s = (fst (failoverInOp name t s), [])"
| "step (ClaimRollback set' name t) s = (fst (claimRollback set' name t s), [])"
| "step (RunOp set' watched capacity o' to' rows t) s = (runOp set' watched capacity o' to' rows t s, [])"
| "step (Advance t) s = (fst (advance t s), [])"
| "step (Finish addrs set' stored t ref) s = finish addrs set' stored t ref s"
| "step (EndOp ref) s = endOp ref s"
| "step (TakeOver name) s = (fst (take_over name s), [])"
| "step (EndFailing name) s = (end_failing name s, [])"
| "step (GraceOver addrs set' t) s = graceCheck addrs set' t s"
| "step (EnsureTarget addrs rel) s = ensureTarget addrs rel s"
| "step (StageBegin addrs set' reach change rel) s = StageStart addrs set' reach change rel s"
| "step (StageEnd change) s = StageStop change s"
| "step (StagingOn addrs set') s = StartStaging addrs set' s"
| "step StagingOff s = StopStaging s"
| "step (Adopt addrs name) s = (fst (AdoptStaging addrs name s), [])"
| "step (SwitchTo addrs to' e) s = (fst (Switch addrs to' e s), [])"

abbreviation next_state :: "event \<Rightarrow> Slots \<Rightarrow> Slots" where
  "next_state ev s \<equiv> fst (step ev s)"

abbreviation after :: "event list \<Rightarrow> Slots \<Rightarrow> Slots" where
  "after es s \<equiv> run next_state es s"

lemmas section_defs = check_def Exited_def remember_def failoverInOp_def claimRollback_def runOp_def advance_def
  finish_def endOp_def take_over_def end_failing_def graceCheck_def ensureTarget_def StageStart_def StageStop_def
  StartStaging_def StopStaging_def AdoptStaging_def Switch_def

text \<open>What may make another slot live.\<close>

definition right_to_go_live :: "event \<Rightarrow> Slots \<Rightarrow> string \<Rightarrow> bool" where
  "right_to_go_live ev s new \<longleftrightarrow>
    (ev = TakeOver (live s) \<and> new = standby s \<and>
       (\<exists>h. health s new = Some h \<and> healthy h \<and> \<not> Mismatch (status h) \<and>
          (slotRelease s (live s) \<noteq> '''' \<longrightarrow> Release (status h) = slotRelease s (live s))))
    \<or> (\<exists>addrs set' stored t op. ev = Finish addrs set' stored t (Ref op) \<and> curOp s = Some op \<and> new = To op \<and> To op \<noteq> From op)
    \<or> (\<exists>addrs e. ev = SwitchTo addrs new e \<and> curOp s = None \<and> new \<in> addrs)"

lemma check_keeps [simp]: "live (fst (check k n a t s)) = live s" "epoch (fst (check k n a t s)) = epoch s"
  by (simp_all add: check_def Let_def split: option.split prod.split)

lemma Exited_keeps [simp]: "live (fst (Exited n t s)) = live s" "epoch (fst (Exited n t s)) = epoch s"
  by (simp_all add: Exited_def Let_def split: option.split prod.split)

lemma remember_keeps [simp]: "live (remember n st s) = live s" "epoch (remember n st s) = epoch s"
  by (simp_all add: remember_def split: option.split)

lemma failoverInOp_keeps [simp]: "live (fst (failoverInOp n t s)) = live s" "epoch (fst (failoverInOp n t s)) = epoch s"
  by (simp_all add: failoverInOp_def split: option.split)

lemma claimRollback_keeps [simp]: "live (fst (claimRollback p n t s)) = live s" "epoch (fst (claimRollback p n t s)) = epoch s"
  by (simp_all add: claimRollback_def split: option.split)

lemma runOp_keeps [simp]: "live (runOp p w c o' to' rows t s) = live s" "epoch (runOp p w c o' to' rows t s) = epoch s + 1"
  by (simp_all add: runOp_def Let_def split: prod.split)

lemma advance_keeps [simp]: "live (fst (advance t s)) = live s" "epoch (fst (advance t s)) = epoch s"
  by (simp_all add: advance_def Let_def split: option.split)

lemma staging_keeps [simp]:
  "live (fst (ensureTarget a r s)) = live s" "epoch (fst (ensureTarget a r s)) = epoch s"
  "live (fst (StopStaging s)) = live s" "epoch (fst (StopStaging s)) = epoch s"
  "live (fst (StageStop c s)) = live s" "epoch (fst (StageStop c s)) = epoch s"
  "live (fst (StartStaging a p s)) = live s" "epoch (fst (StartStaging a p s)) = epoch s"
  "live (end_failing n s) = live s" "epoch (end_failing n s) = epoch s"
  by (simp_all add: ensureTarget_def StopStaging_def StageStop_def StartStaging_def end_failing_def Let_def split: option.split)

lemma StageStart_keeps [simp]: "live (fst (StageStart a p b c r s)) = live s" "epoch (fst (StageStart a p b c r s)) = epoch s"
  using staging_keeps(5,6) [of "''''" s]
  by (cases "StageStop '''' s"; simp add: StageStart_def Let_def)+

lemma endOp_keeps [simp]: "live (fst (endOp r s)) = live s" "epoch s \<le> epoch (fst (endOp r s))"
  by (simp_all add: endOp_def Let_def split: option.split)

lemma graceCheck_keeps [simp]: "live (fst (graceCheck a p t s)) = live s" "epoch s \<le> epoch (fst (graceCheck a p t s))"
  by (simp_all add: graceCheck_def Let_def)

lemma AdoptStaging_keeps [simp]: "live (fst (AdoptStaging a n s)) = live s" "epoch s \<le> epoch (fst (AdoptStaging a n s))"
  by (simp_all add: AdoptStaging_def)

lemma finish_keeps [simp]: "epoch s \<le> epoch (fst (finish a p u t r s))"
  by (simp add: finish_def Let_def split: option.split op_kind.split)

lemma finish_live: "live (fst (finish a p u t r s)) =
    (case curOp s of Some op \<Rightarrow> if Ref op = r \<and> To op \<noteq> From op then To op else live s | None \<Rightarrow> live s)"
  by (simp add: finish_def Let_def split: option.split op_kind.split)

lemma finish_epoch: "epoch (fst (finish a p u t r s)) =
    (case curOp s of Some op \<Rightarrow> if Ref op = r then epoch s + 1 else epoch s | None \<Rightarrow> epoch s)"
  by (simp add: finish_def Let_def split: option.split op_kind.split)

lemma take_over_live:
  assumes "live (fst (take_over n s)) \<noteq> live s"
  shows "n = live s \<and> epoch s < epoch (fst (take_over n s)) \<and> live (fst (take_over n s)) = standby s
    \<and> (\<exists>h. health s (standby s) = Some h \<and> healthy h \<and> \<not> Mismatch (status h) \<and>
          (slotRelease s n \<noteq> '''' \<longrightarrow> Release (status h) = slotRelease s n))"
  using assms
  by (auto simp: take_over_def standbyAirsLive_def slotRelease_def Let_def split: option.splits if_splits)

lemma Switch_live:
  assumes "live (fst (Switch a n e s)) \<noteq> live s"
  shows "live (fst (Switch a n e s)) = n \<and> n \<in> a \<and> curOp s = None \<and> epoch s < epoch (fst (Switch a n e s))"
  using assms by (auto simp: Switch_def Let_def split: if_splits)

lemma take_over_epoch: "epoch s \<le> epoch (fst (take_over n s))"
  by (simp add: take_over_def Let_def split: option.split)

lemma Switch_epoch: "epoch s \<le> epoch (fst (Switch a n e s))"
  by (simp add: Switch_def Let_def)

lemma step_live:
  assumes "live (next_state ev s) \<noteq> live s"
  shows "epoch s < epoch (next_state ev s) \<and> right_to_go_live ev s (live (next_state ev s))"
proof (cases ev)
  case (Finish a p u t r)
  with assms obtain op where op: "curOp s = Some op" "Ref op = r" "To op \<noteq> From op"
    by (auto simp: finish_live split: option.splits if_splits)
  with Finish show ?thesis by (auto simp: finish_live finish_epoch right_to_go_live_def)
next
  case (TakeOver n)
  with assms take_over_live [of n s] show ?thesis by (auto simp: right_to_go_live_def)
next
  case (SwitchTo a n e)
  with assms Switch_live [of a n e s] show ?thesis by (auto simp: right_to_go_live_def)
qed (use assms in simp_all)

lemma step_epoch: "epoch s \<le> epoch (next_state ev s)"
  by (cases ev) (simp_all add: take_over_epoch Switch_epoch)

lemma after_epoch: "epoch s \<le> epoch (after es s)"
proof (induction es arbitrary: s)
  case (Cons ev es)
  from Cons.IH [of "next_state ev s"] step_epoch [of s ev] show ?case by simp
qed simp

lemma same_epoch_same_live:
  assumes "epoch (after es s) = epoch s"
  shows "live (after es s) = live s"
  using assms
proof (induction es arbitrary: s)
  case (Cons ev es)
  let ?n = "next_state ev s"
  from Cons.prems after_epoch [of ?n es] step_epoch [of s ev]
  have e: "epoch ?n = epoch s" "epoch (after es ?n) = epoch ?n" by simp_all
  from e(1) step_live [of ev s] have "live ?n = live s" by auto
  with Cons.IH [OF e(2)] show ?case by simp
qed simp


section \<open>The calls are runs of sections\<close>

fun orders :: "event list \<Rightarrow> Slots \<Rightarrow> order list" where
  "orders [] s = []"
| "orders (ev # es) s = snd (step ev s) @ orders es (next_state ev s)"

lemma orders_append [simp]: "orders (es @ es2) s = orders es s @ orders es2 (after es s)"
  by (induction es arbitrary: s) auto

definition by_sections :: "Slots \<Rightarrow> Slots \<times> order list \<Rightarrow> bool" where
  "by_sections s r \<longleftrightarrow> (\<exists>es. r = (after es s, orders es s))"

lemma by_one: "step ev s = r \<Longrightarrow> by_sections s r"
  unfolding by_sections_def by (rule exI [of _ "[ev]"]) auto

lemma by_none [intro]: "by_sections s (s, [])"
  unfolding by_sections_def by (rule exI [of _ "[]"]) simp

lemma by_both: "by_sections s (t, os) \<Longrightarrow> by_sections t (u, os2) \<Longrightarrow> by_sections s (u, os @ os2)"
  unfolding by_sections_def by (metis (no_types, lifting) orders_append prod.inject run_append)

lemma by_first: "by_sections s (t, []) \<Longrightarrow> by_sections t (u, os) \<Longrightarrow> by_sections s (u, os)"
  using by_both [of s t "[]" u os] by simp

lemma by_then: "by_sections s (t, os) \<Longrightarrow> by_sections t (u, []) \<Longrightarrow> by_sections s (u, os)"
  using by_both [of s t os u "[]"] by simp

lemma pass_sections: "by_sections s (pass e t s)"
proof (cases "advance t s")
  case (Pair s1 d)
  have a: "by_sections s (s1, [])" by (rule by_one [where ev = "Advance t"]) (simp add: Pair)
  show ?thesis
  proof (cases d)
    case None
    with a Pair show ?thesis by (simp add: pass_def)
  next
    case (Some ref)
    have "by_sections s1 (finish (Addrs e) (Settings e) (Until e) t ref s1)"
      by (rule by_one [where ev = "Finish (Addrs e) (Settings e) (Until e) t ref"]) simp
    with a Pair Some show ?thesis
      by (cases "finish (Addrs e) (Settings e) (Until e) t ref s1") (auto simp: pass_def intro: by_first)
  qed
qed

lemma startOp_sections:
  assumes "startOp e t o' s = (s', os, f)"
  shows "by_sections s (s', os)"
proof (cases "targetFor (RowRelease o') (RowKind o') s")
  case None
  have "by_sections s (ensureTarget (Addrs e) (RowRelease o') s)"
    by (rule by_one [where ev = "EnsureTarget (Addrs e) (RowRelease o')"]) simp
  with assms None show ?thesis by (auto simp: startOp_def split: if_splits prod.splits)
next
  case (Some to')
  show ?thesis
  proof (cases "Open e (RowID o') \<and> SwitchRows e (RowID o') \<noteq> None")
    case True
    then obtain rows where rows: "SwitchRows e (RowID o') = Some rows" by auto
    have "by_sections s (runOp (Settings e) (Watched e) (Capacity e) o' to' rows t s, [])"
      by (rule by_one [where ev = "RunOp (Settings e) (Watched e) (Capacity e) o' to' rows t"]) simp
    with assms Some True rows show ?thesis by (auto simp: startOp_def)
  next
    case False
    with assms Some show ?thesis by (auto simp: startOp_def split: if_splits)
  qed
qed

lemma endOp_sections: "by_sections s (endOp ref s)"
  by (rule by_one [where ev = "EndOp ref"]) simp

lemma loadOps_sections: "by_sections s (loadOps e t rows s)"
proof (induction rows arbitrary: s)
  case (Cons o' rest)
  obtain s1 os1 where 1: "(case curOp s of Some cur \<Rightarrow> if RowKind o' = OpRollback \<and> Kind cur = OpSwap then endOp (Ref cur) s
      else (s, []) | None \<Rightarrow> (s, [])) = (s1, os1)" by (rule prod.exhaust)
  obtain s2 os2 f where 2: "startOp e t o' s1 = (s2, os2, f)" by (cases "startOp e t o' s1") auto
  obtain s3 os3 where 3: "loadOps e t rest s2 = (s3, os3)" by (rule prod.exhaust)
  have "by_sections s (s1, os1)"
    using 1 endOp_sections [of s] by (auto split: option.splits if_splits) (metis+)
  then have 12: "by_sections s (s2, os1 @ os2)" using startOp_sections [OF 2] by (rule by_both)
  with Cons.IH [of s2] 3 have "by_sections s (s3, os1 @ os2 @ os3)"
    using by_both [of s s2 "os1 @ os2" s3 os3] by simp
  with 12 Cons.IH [of s] show ?case by (simp add: 1 2 3)
qed auto

lemma OpsOnce_sections: "by_sections s (OpsOnce e t rows s)"
proof -
  obtain s1 os1 where 1: "loadOps e t rows s = (s1, os1)" by (rule prod.exhaust)
  obtain s2 os2 where 2: "pass e t s1 = (s2, os2)" by (rule prod.exhaust)
  obtain s3 os3 where 3: "graceCheck (Addrs e) (Settings e) t s2 = (s3, os3)" by (rule prod.exhaust)
  have "by_sections s2 (s3, os3)" by (rule by_one [where ev = "GraceOver (Addrs e) (Settings e) t"]) (simp add: 3)
  moreover have "by_sections s1 (s2, os2)" using pass_sections [of s1 e t] 2 by simp
  moreover have "by_sections s (s1, os1)" using loadOps_sections [of s e t rows] 1 by simp
  ultimately show ?thesis by (simp add: OpsOnce_def 1 2 3) (blast intro: by_both)
qed

lemma autoRollback_sections:
  assumes "autoRollback e n t w s = (s', os, done')"
  shows "by_sections s (s', os)"
proof (cases "claimRollback (Settings e) n t s")
  case (Pair s1 c)
  have c: "by_sections s (s1, [])" by (rule by_one [where ev = "ClaimRollback (Settings e) n t"]) (simp add: Pair)
  show ?thesis
  proof (cases c)
    case (RollsBackTo prev rel)
    define o' where "o' = \<lparr>RowID = w, RowKind = OpRollback, RowRelease = rel, RowCreated = t\<rparr>"
    define rows where "rows = (case health s1 n of
       Some h \<Rightarrow> map (\<lambda>ch. \<lparr>RowChannel = ch, RowAt = t, RowState = switchPlanned, RowRemoved = False\<rparr>) (Stations (status h))
     | None \<Rightarrow> [])"
    obtain s2 os1 where 2: "(if w = 0 then (runOp (Settings e) (Watched e) (Capacity e) o' prev rows t s1, [])
      else (case startOp e t o' s1 of (s, os, _) \<Rightarrow> (s, os))) = (s2, os1)" by (rule prod.exhaust)
    obtain s3 os2 where 3: "pass e t s2 = (s3, os2)" by (rule prod.exhaust)
    have "by_sections s1 (s2, os1)"
    proof (cases "w = 0")
      case True
      have "by_sections s1 (runOp (Settings e) (Watched e) (Capacity e) o' prev rows t s1, [])"
        by (rule by_one [where ev = "RunOp (Settings e) (Watched e) (Capacity e) o' prev rows t"]) simp
      with True 2 show ?thesis by simp
    next
      case False
      with 2 show ?thesis by (auto split: prod.splits intro: startOp_sections)
    qed
    moreover have "by_sections s2 (s3, os2)" using pass_sections [of s2 e t] 3 by simp
    moreover have "by_sections s3 (end_failing n s3, [])" by (rule by_one [where ev = "EndFailing n"]) simp
    moreover have "s' = end_failing n s3" "os = os1 @ os2"
      using assms 2 3 by (cases "w = 0"; simp add: autoRollback_def Pair RollsBackTo o'_def rows_def Let_def split: prod.splits)+
    ultimately show ?thesis using c by (blast intro: by_first by_both by_then)
  qed (use assms Pair c in \<open>auto simp: autoRollback_def\<close>)
qed

lemma Failover_sections:
  assumes "Failover e n t w s = (s', os, done')"
  shows "by_sections s (s', os)"
proof -
  obtain s1 c where 1: "failoverInOp n t s = (s1, c)" by (rule prod.exhaust)
  have f: "by_sections s (s1, [])" by (rule by_one [where ev = "LostInOp n t"]) (simp add: 1)
  show ?thesis
  proof (cases c)
    case SwitchNow
    with assms 1 f pass_sections [of s1 e t] show ?thesis
      by (auto simp: Failover_def split: prod.splits intro: by_first)
  next
    case (OpFails ref)
    with assms 1 f endOp_sections [of s1 ref] show ?thesis
      by (auto simp: Failover_def split: prod.splits intro: by_first)
  next
    case NotInOp
    obtain s2 os2 d where 2: "autoRollback e n t w s1 = (s2, os2, d)" by (cases "autoRollback e n t w s1") auto
    have r: "by_sections s1 (s2, os2)" by (rule autoRollback_sections [OF 2])
    obtain s3 took where 3: "take_over n s2 = (s3, took)" by (rule prod.exhaust)
    have k: "by_sections s2 (s3, [])" by (rule by_one [where ev = "TakeOver n"]) (simp add: 3)
    have e: "by_sections s3 (end_failing n s3, [])" by (rule by_one [where ev = "EndFailing n"]) simp
    have "s' = (if d then s2 else if took then end_failing n s3 else s3) \<and> os = os2"
      using assms by (simp add: Failover_def 1 NotInOp 2 3 split: if_splits bool.splits)
    then show ?thesis using f r k e by (auto intro: by_first by_then)
  qed
qed

lemma probe_sections: "by_sections s (probe e k n a t w s)"
proof (cases "check k n a t s")
  case (fields s1 l ask)
  have "by_sections s (s1, [])" by (rule by_one [where ev = "Probed k n a t"]) (simp add: fields)
  then show ?thesis
    using Failover_sections [of e n t w s1] by (auto simp: probe_def fields split: prod.splits intro: by_first)
qed

lemma Suspect_sections: "by_sections s (Suspect e k n a b t w w2 s)"
proof (cases "probe e k n a t w s")
  case (Pair s1 os)
  with probe_sections [of s e k n a t w] have "by_sections s (s1, os)" by simp
  then show ?thesis
    using Failover_sections [of e n t w2 s1] by (auto simp: Suspect_def Pair split: prod.splits intro: by_both)
qed

lemma Exited_sections: "by_sections s (Exited_call e n t w s)"
proof (cases "Exited n t s")
  case (fields s1 l ask)
  have "by_sections s (s1, [])" by (rule by_one [where ev = "ExitReport n t"]) (simp add: fields)
  then show ?thesis
    using Failover_sections [of e n t w s1] by (auto simp: Exited_call_def fields split: prod.splits intro: by_first)
qed

lemmas calls_are_sections = probe_sections Suspect_sections Exited_sections OpsOnce_sections

section \<open>The roles stay apart\<close>

text \<open>
  No instance has two roles, but the target of a running operation may be the staging slot and the
  previous one at once; an operation moves from the live slot (or from the one that was live until a failover).
\<close>

definition op_fits :: "Slots \<Rightarrow> swapOp \<Rightarrow> bool" where
  "op_fits s op \<longleftrightarrow> To op \<noteq> '''' \<and> From op \<noteq> '''' \<and> From op \<in> {live s, standby s}
     \<and> (Kind op = OpSwap \<longrightarrow> To op \<noteq> live s \<and> To op \<noteq> standby s)"

definition apart :: "Slots \<Rightarrow> bool" where
  "apart s \<longleftrightarrow> live s \<noteq> '''' \<and> standby s \<noteq> live s
     \<and> (previous s \<noteq> '''' \<longrightarrow> previous s \<noteq> live s \<and> previous s \<noteq> standby s)
     \<and> (staging s \<noteq> '''' \<longrightarrow> staging s \<noteq> live s \<and> staging s \<noteq> standby s
         \<and> (staging s \<noteq> previous s \<or> (\<exists>op. curOp s = Some op \<and> To op \<noteq> From op \<and> staging s = To op)))
     \<and> (\<forall>op. curOp s = Some op \<and> To op \<noteq> From op \<longrightarrow> op_fits s op)"

text \<open>
  What the histories leave out: an operation starts while none runs, and on a slot that is not the
  standby; an admin switches to a slot with an address that is not the previous one; a rollback has somewhere
  to go and, as when the grace ends, finds no change staged beside it.
\<close>

fun lawful :: "event \<Rightarrow> Slots \<Rightarrow> bool" where
  "lawful (RunOp _ _ _ o' to' _ _) s \<longleftrightarrow> curOp s = None \<and> to' \<noteq> '''' \<and> (RowKind o' = OpSwap \<longrightarrow> to' \<noteq> standby s)"
| "lawful (Finish _ set' _ _ ref) s \<longleftrightarrow>
     (\<forall>op. curOp s = Some op \<and> Ref op = ref \<and> Kind op = OpRollback \<and> HotStandby set' \<longrightarrow>
        To op \<noteq> From op \<and> To op \<noteq> live s \<and> staging s \<in> {'''', To op} \<and> previous s \<in> {'''', To op})"
| "lawful (GraceOver _ set' _) s \<longleftrightarrow> (HotStandby set' \<longrightarrow> staging s = '''')"
| "lawful (Adopt addrs _) s \<longleftrightarrow> '''' \<notin> addrs"
| "lawful (SwitchTo addrs to' _) s \<longleftrightarrow> '''' \<notin> addrs \<and> to' \<noteq> previous s"
| "lawful _ s \<longleftrightarrow> True"

fun lawful_run :: "event list \<Rightarrow> Slots \<Rightarrow> bool" where
  "lawful_run [] s \<longleftrightarrow> True"
| "lawful_run (ev # es) s \<longleftrightarrow> lawful ev s \<and> lawful_run es (next_state ev s)"

text \<open>The orders with the slot that is live when they go out, and what ends a slot's stations.\<close>

fun issued :: "event list \<Rightarrow> Slots \<Rightarrow> (order \<times> string) list" where
  "issued [] s = []"
| "issued (ev # es) s = map (\<lambda>o'. (o', live (next_state ev s))) (snd (step ev s)) @ issued es (next_state ev s)"

fun ends_slot :: "order \<Rightarrow> string \<Rightarrow> bool" where
  "ends_slot (Drain n) m \<longleftrightarrow> n = m"
| "ends_slot (RestartStandby n _) m \<longleftrightarrow> n = m"
| "ends_slot (StopSlot n) m \<longleftrightarrow> n = m"
| "ends_slot _ m \<longleftrightarrow> False"

lemma otherThan_not: "otherThan addrs a b \<noteq> '''' \<Longrightarrow> otherThan addrs a b \<noteq> a \<and> otherThan addrs a b \<noteq> b"
  by (auto simp: otherThan_def Names_def)

lemma freeInstance_not:
  "freeInstance addrs s \<noteq> '''' \<Longrightarrow>
    freeInstance addrs s \<noteq> live s \<and> freeInstance addrs s \<noteq> standby s \<and> freeInstance addrs s \<noteq> previous s"
  by (auto simp: freeInstance_def Names_def)

text \<open>Steps that change health and marks only.\<close>

definition same_roles :: "Slots \<Rightarrow> Slots \<Rightarrow> bool" where
  "same_roles s t \<longleftrightarrow> live t = live s \<and> standby t = standby s \<and> staging t = staging s \<and> previous t = previous s"

lemma apart_same: "same_roles s t \<Longrightarrow> curOp t = curOp s \<Longrightarrow> apart s \<Longrightarrow> apart t"
  by (simp add: same_roles_def apart_def op_fits_def)

lemma apart_same_op:
  assumes "same_roles s t" "apart s" "curOp s = Some op" "curOp t = Some (op\<lparr>Channels := cs\<rparr>)"
  shows "apart t"
  using assms by (auto simp: same_roles_def apart_def op_fits_def)

lemma probes_same:
  "same_roles s (fst (check k n a t s))" "curOp (fst (check k n a t s)) = curOp s"
  "same_roles s (fst (Exited n t s))" "curOp (fst (Exited n t s)) = curOp s"
  "same_roles s (remember n st s)" "curOp (remember n st s) = curOp s"
  "same_roles s (fst (claimRollback p n t s))" "curOp (fst (claimRollback p n t s)) = curOp s"
  "same_roles s (end_failing n s)" "curOp (end_failing n s) = curOp s"
  by (auto simp: same_roles_def check_def Exited_def remember_def claimRollback_def end_failing_def Let_def
      split: option.split prod.split)

lemma advance_apart: "apart s \<Longrightarrow> apart (fst (advance t s))"
  by (cases "curOp s") (auto simp: advance_def same_roles_def Let_def intro: apart_same_op)

lemma failoverInOp_apart: "apart s \<Longrightarrow> apart (fst (failoverInOp n t s))"
  by (cases "curOp s") (auto simp: failoverInOp_def same_roles_def intro: apart_same_op)

lemma take_over_apart: "apart s \<Longrightarrow> apart (fst (take_over n s))"
  by (auto simp: apart_def op_fits_def take_over_def Let_def split: option.split)

lemma staging_apart:
  assumes "apart s" and "n = '''' \<or> n \<noteq> live s \<and> n \<noteq> standby s \<and> n \<noteq> previous s"
  shows "apart (s\<lparr>staging := n\<rparr>)"
  using assms by (auto simp: apart_def op_fits_def)

lemma stage_apart [simp]: "apart (s\<lparr>stage := x\<rparr>) \<longleftrightarrow> apart s"
  by (simp add: apart_def op_fits_def)

lemma take_instance_apart:
  assumes "apart s" shows "apart (s\<lparr>staging := freeInstance a s\<rparr>)"
  using freeInstance_not [of a s] by (intro staging_apart [OF assms]) blast

lemma StopStaging_apart: "apart s \<Longrightarrow> apart (fst (StopStaging s))"
  by (simp add: StopStaging_def staging_apart)

lemma StageStop_apart: "apart s \<Longrightarrow> apart (fst (StageStop c s))"
  by (simp add: StageStop_def StopStaging_apart split: option.split)

lemma StartStaging_apart: "apart s \<Longrightarrow> apart (fst (StartStaging a p s))"
  by (simp add: StartStaging_def Let_def take_instance_apart)

lemma ensureTarget_apart: "apart s \<Longrightarrow> apart (fst (ensureTarget a r s))"
  by (simp add: ensureTarget_def Let_def take_instance_apart)

lemma StageStart_apart:
  assumes "apart s" shows "apart (fst (StageStart a p b c r s))"
proof -
  show ?thesis
  proof (cases "stage s = None")
    case True
    with assms take_instance_apart [OF assms] staging_apart [OF assms, of "''''"] show ?thesis by (simp add: StageStart_def Let_def)
  next
    case False
    obtain s1 os where 1: "StageStop '''' s = (s1, os)" by (rule prod.exhaust)
    then have "apart s1" using StageStop_apart [OF assms, of "''''"] by simp
    then show ?thesis using assms take_instance_apart [OF \<open>apart s1\<close>] staging_apart [OF \<open>apart s1\<close>, of "''''"] by (simp add: StageStart_def Let_def False 1)
  qed
qed

lemma Adopt_apart: "apart s \<Longrightarrow> '''' \<notin> a \<Longrightarrow> apart (fst (AdoptStaging a n s))"
  by (auto simp: AdoptStaging_def apart_def op_fits_def)

lemma Switch_apart: "apart s \<Longrightarrow> '''' \<notin> a \<Longrightarrow> n \<noteq> previous s \<Longrightarrow> apart (fst (Switch a n e s))"
  by (auto simp: Switch_def apart_def op_fits_def Let_def)

lemma planRolling_op:
  "planRolling w b m t op = (op', r) \<Longrightarrow> To op' = To op \<and> From op' = From op \<and> Kind op' = Kind op"
  by (auto simp: planRolling_def Let_def split: if_splits)

lemma runOp_apart:
  assumes "apart s" "curOp s = None" "to' \<noteq> ''''" "RowKind o' = OpSwap \<longrightarrow> to' \<noteq> standby s"
  shows "apart (runOp p w c o' to' rows t s)"
proof -
  define op where "op = \<lparr>Ref = nextRef s, OpID = RowID o', Kind = RowKind o', OpRelease = RowRelease o', From = live s, To = to',
     Channels = (let chans = map (switch_row (RowKind o') w t) (last_rows rows) in
       if to' = live s then map (\<lambda>c. c\<lparr>SwitchState := switchSwitched\<rparr>) chans else chans), rolling = False\<rparr>"
  obtain op' r where pr: "planRolling w (targetBudget p c s) (RollingSwap p) t op = (op', r)" by (rule prod.exhaust)
  with planRolling_op [OF pr] have "To op' = to'" "From op' = live s" "Kind op' = RowKind o'" by (simp_all add: op_def)
  moreover have "runOp p w c o' to' rows t s = (if RowKind o' = OpSwap \<and> staging s = '''' \<and> to' \<noteq> live s
      then s\<lparr>staging := to'\<rparr> else s)\<lparr>curOp := Some (op'\<lparr>rolling := r\<rparr>), epoch := epoch s + 1, nextRef := nextRef s + 1\<rparr>"
    using pr by (simp add: runOp_def Let_def op_def)
  ultimately show ?thesis using assms by (auto simp: apart_def op_fits_def)
qed

lemma endOp_apart: "apart s \<Longrightarrow> apart (fst (endOp ref s))"
  by (auto simp: endOp_def Let_def apart_def split: option.split)

lemma graceCheck_apart:
  assumes "apart s" "HotStandby p \<longrightarrow> staging s = ''''"
  shows "apart (fst (graceCheck a p t s))"
  using assms otherThan_not [of a "live s" "previous s"]
  by (auto simp: graceCheck_def Let_def apart_def)

lemma apartI:
  assumes "curOp t = None" "live t \<noteq> ''''" "standby t \<noteq> live t"
    "previous t \<noteq> '''' \<Longrightarrow> previous t \<noteq> live t \<and> previous t \<noteq> standby t"
    "staging t \<noteq> '''' \<Longrightarrow> staging t \<noteq> live t \<and> staging t \<noteq> standby t \<and> staging t \<noteq> previous t"
  shows "apart t"
  using assms by (simp add: apart_def)

lemma finish_apart:
  assumes "apart s" "lawful (Finish a p u t ref) s"
  shows "apart (fst (finish a p u t ref s))"
proof (cases "\<exists>op. curOp s = Some op \<and> Ref op = ref")
  case False
  then have "finish a p u t ref s = (s, [])" by (auto simp: finish_def split: option.split)
  with assms(1) show ?thesis by simp
next
  case True
  then obtain op where op: "curOp s = Some op" "Ref op = ref" by auto
  show ?thesis
  proof (cases "Kind op")
    case OpSwap
    show ?thesis
    proof (cases "To op = From op")
      case True
      with op OpSwap have "fst (finish a p u t ref s) = s\<lparr>curOp := None, staging := (if staging s = To op then '''' else staging s),
          epoch := epoch s + 1\<rparr>" by (simp add: finish_def Let_def)
      with assms(1) op True show ?thesis by (auto simp: apart_def)
    next
      case False
      with op OpSwap have "fst (finish a p u t ref s) = s\<lparr>curOp := None, live := To op, switches := switches s + 1,
          staging := (if staging s = To op then '''' else staging s), previous := From op,
          previousUntil := grace_until p u t, standby := '''', epoch := epoch s + 1\<rparr>" by (simp add: finish_def Let_def)
      moreover have "op_fits s op" using assms(1) op False by (simp add: apart_def)
      ultimately show ?thesis using assms(1) False OpSwap by (auto simp: apart_def op_fits_def)
    qed
  next
    case OpRollback
    define n where "n = (if otherThan a (To op) (live s) = '''' then live s else otherThan a (To op) (live s))"
    have fits: "To op \<noteq> From op \<Longrightarrow> op_fits s op" using assms(1) op by (simp add: apart_def)
    have n: "To op \<noteq> live s \<Longrightarrow> n \<noteq> To op \<and> n \<noteq> ''''"
      using assms(1) otherThan_not [of a "To op" "live s"] by (auto simp: n_def apart_def)
    show ?thesis
    proof (cases "HotStandby p")
      case True
      with assms(2) op OpRollback have ok: "To op \<noteq> From op" "To op \<noteq> live s" "staging s = '''' \<or> staging s = To op"
        "previous s = '''' \<or> previous s = To op" by auto
      have "fst (finish a p u t ref s) = s\<lparr>curOp := None, live := To op, switches := switches s + 1, staging := '''',
          previous := '''', previousUntil := (if previous s = To op then zero_time else previousUntil s),
          standby := (if standby s = To op \<or> standby s = '''' then n else standby s), epoch := epoch s + 1\<rparr>"
        using ok by (cases "previous s = To op"; cases "staging s = To op"; simp add: finish_def Let_def op OpRollback True n_def)
      moreover have "live s \<noteq> ''''" "op_fits s op" using assms(1) fits ok(1) by (simp_all add: apart_def)
      ultimately show ?thesis using n [OF ok(2)] by (auto simp: apart_def op_fits_def)
    next
      case False
      define l where "l = (if To op \<noteq> From op then To op else live s)"
      have "fst (finish a p u t ref s) = s\<lparr>curOp := None, live := l,
          switches := (if To op \<noteq> From op then switches s + 1 else switches s),
          staging := (if staging s = To op then '''' else staging s),
          previous := (if previous s = l then '''' else previous s),
          previousUntil := (if previous s = l then zero_time else previousUntil s),
          standby := (if standby s = l \<or> standby s = '''' then '''' else standby s), epoch := epoch s + 1\<rparr>"
        by (cases "To op = From op"; simp add: finish_def Let_def op OpRollback False l_def)
      moreover have "l \<noteq> ''''" "previous s \<noteq> '''' \<Longrightarrow> previous s \<noteq> standby s"
        "staging s \<noteq> '''' \<Longrightarrow> staging s \<noteq> standby s"
        using assms(1) fits by (auto simp: apart_def op_fits_def l_def)
      moreover have "staging s \<noteq> '''' \<Longrightarrow> staging s \<noteq> To op \<Longrightarrow> staging s \<noteq> l \<and> staging s \<noteq> previous s"
        using assms(1) op by (auto simp: apart_def l_def)
      ultimately show ?thesis by (intro apartI) (simp_all split: if_splits)
    qed
  qed
qed

lemma step_apart: "apart s \<Longrightarrow> lawful ev s \<Longrightarrow> apart (next_state ev s)"
proof (cases ev)
  case (Finish a p u t r)
  assume "apart s" "lawful ev s"
  with Finish show ?thesis using finish_apart by simp
qed (auto intro: apart_same probes_same advance_apart failoverInOp_apart take_over_apart StopStaging_apart StageStop_apart
      StartStaging_apart ensureTarget_apart StageStart_apart Adopt_apart Switch_apart runOp_apart endOp_apart graceCheck_apart
    simp del: lawful.simps(2))

lemma finish_spares:
  assumes "apart s" "lawful (Finish a p u t ref) s" "o' \<in> set (snd (finish a p u t ref s))"
  shows "\<not> ends_slot o' (live (fst (finish a p u t ref s)))"
proof -
  from assms(3) obtain op where op: "curOp s = Some op" "Ref op = ref"
    by (auto simp: finish_def split: option.splits if_splits)
  show ?thesis
  proof (cases "Kind op")
    case OpSwap
    have "live (fst (finish a p u t ref s)) = To op" "To op \<noteq> From op"
      using assms(3) by (auto simp: finish_def op OpSwap Let_def split: if_splits)
    with assms(3) show ?thesis by (auto simp: finish_def op OpSwap Let_def split: if_splits)
  next
    case OpRollback
    define l where "l = (if To op \<noteq> From op then To op else live s)"
    define n where "n = (if otherThan a l (live s) = '''' then live s else otherThan a l (live s))"
    have live: "live (fst (finish a p u t ref s)) = l" by (simp add: finish_live op l_def)
    have "live s \<noteq> ''''" using assms(1) by (simp add: apart_def)
    then have "snd (finish a p u t ref s) = (if live s \<noteq> l \<and> live s \<noteq> '''' then [Drain (live s)] else []) @
        (if (standby s = l \<or> standby s = '''') \<and> HotStandby p \<and> n \<noteq> '''' then [RestartStandby n (OpRelease op)] else [])"
      by (cases "To op = From op"; cases "staging s = To op"; cases "previous s = l"; cases "HotStandby p")
        (simp_all add: finish_def Let_def op OpRollback l_def n_def)
    moreover have "HotStandby p \<Longrightarrow> n \<noteq> '''' \<Longrightarrow> n \<noteq> l"
    proof -
      assume "HotStandby p" "n \<noteq> ''''"
      with assms(2) op OpRollback have "To op \<noteq> From op" "To op \<noteq> live s" by auto
      then show ?thesis using otherThan_not [of a l "live s"] by (auto simp: n_def l_def)
    qed
    ultimately show ?thesis using assms(3) by (auto simp: live split: if_splits)
  qed
qed

lemma graceCheck_spares:
  assumes "apart s" "o' \<in> set (snd (graceCheck a p t s))"
  shows "\<not> ends_slot o' (live s)"
  using assms otherThan_not [of a "live s" "previous s"]
  by (auto simp: graceCheck_def apart_def Let_def split: if_splits)

lemma StopStaging_spares: "apart s \<Longrightarrow> o' \<in> set (snd (StopStaging s)) \<Longrightarrow> \<not> ends_slot o' (live s)"
  by (auto simp: StopStaging_def apart_def split: if_splits)

lemma StageStop_spares: "apart s \<Longrightarrow> o' \<in> set (snd (StageStop c s)) \<Longrightarrow> \<not> ends_slot o' (live s)"
  by (auto simp: StageStop_def StopStaging_spares split: option.splits if_splits)

lemma StageStart_spares:
  assumes "apart s" "o' \<in> set (snd (StageStart a p b c r s))"
  shows "\<not> ends_slot o' (live s)"
proof (cases "stage s = None")
  case True
  with assms(2) show ?thesis by (auto simp: StageStart_def Let_def split: if_splits)
next
  case False
  obtain s1 os where 1: "StageStop '''' s = (s1, os)" by (rule prod.exhaust)
  have "\<not> ends_slot o1 (live s)" if "o1 \<in> set os" for o1
    using StageStop_spares [OF assms(1), of o1 "''''"] that 1 by simp
  with assms(2) show ?thesis by (auto simp: StageStart_def Let_def False 1 split: if_splits)
qed

lemma step_spares:
  assumes "apart s" "lawful ev s" "o' \<in> set (snd (step ev s))"
  shows "\<not> ends_slot o' (live (next_state ev s))"
proof (cases ev)
  case (Finish a p u t r)
  with assms show ?thesis using finish_spares by simp
next
  case (EndOp r)
  with assms show ?thesis by (auto simp: endOp_def Let_def split: option.splits if_splits)
next
  case (GraceOver a p t)
  with assms graceCheck_spares show ?thesis by simp
next
  case (StageBegin a p b c r)
  with assms StageStart_spares show ?thesis by simp
next
  case (StageEnd c)
  with assms StageStop_spares show ?thesis by simp
next
  case StagingOff
  with assms StopStaging_spares show ?thesis by simp
next
  case (StagingOn a p)
  with assms show ?thesis by (auto simp: StartStaging_def Let_def split: if_splits)
next
  case (EnsureTarget a r)
  with assms show ?thesis by (auto simp: ensureTarget_def Let_def split: if_splits)
qed (use assms in simp_all)


section \<open>Operations end\<close>

text \<open>The events that leave an operation to its passes, those before \<open>t\<close> reading the clock no later.\<close>

fun quiet :: "event \<Rightarrow> bool" where
  "quiet (Probed _ _ _ _) = True"
| "quiet (ExitReport _ _) = True"
| "quiet (WarmAnswer _ _) = True"
| "quiet (Advance _) = True"
| "quiet _ = False"

fun no_later :: "instant \<Rightarrow> event \<Rightarrow> bool" where
  "no_later t (Advance t') \<longleftrightarrow> t' \<le> t"
| "no_later t _ \<longleftrightarrow> True"

definition known_state :: "channel_switch \<Rightarrow> bool" where
  "known_state c \<longleftrightarrow> SwitchState c \<in> {switchPlanned, switchSwitched, switchSkipped}"

text \<open>How far the channels are: at most one retry, soon after \<open>t\<close>; and once \<open>t\<close> is past, retried or settled.\<close>

definition before_pass :: "instant \<Rightarrow> channel_switch \<Rightarrow> bool" where
  "before_pass t c \<longleftrightarrow> known_state c \<and> SwitchAt c \<le> t + switchRetry
     \<and> (SwitchState c = switchPlanned \<and> \<not> Retried c \<longrightarrow> SwitchAt c \<le> t)"

definition after_pass :: "instant \<Rightarrow> channel_switch \<Rightarrow> bool" where
  "after_pass t c \<longleftrightarrow> known_state c \<and> SwitchAt c \<le> t + switchRetry \<and> (SwitchState c = switchPlanned \<longrightarrow> Retried c)"

definition op_at :: "swapOp \<Rightarrow> string \<Rightarrow> int \<Rightarrow> (channel_switch \<Rightarrow> bool) \<Rightarrow> Slots \<Rightarrow> bool" where
  "op_at op l e P s \<longleftrightarrow> (\<exists>cs. curOp s = Some (op\<lparr>Channels := cs\<rparr>) \<and> (\<forall>c \<in> set cs. P c)) \<and> live s = l \<and> epoch s = e"

lemma advance_one_before: "before_pass t c \<Longrightarrow> t' \<le> t \<Longrightarrow> before_pass t (advance_one ok t' c)"
  by (auto simp: before_pass_def advance_one_def known_state_def switchRetry_def)

lemma advance_one_at: "before_pass t c \<Longrightarrow> after_pass t (advance_one ok t c)"
  by (auto simp: before_pass_def after_pass_def advance_one_def known_state_def)

lemma advance_one_after: "after_pass t c \<Longrightarrow> after_pass t (advance_one ok t' c)"
  by (auto simp: after_pass_def advance_one_def known_state_def)

lemma advance_op_at:
  assumes "op_at op l e P s" "\<And>ok c. P c \<Longrightarrow> Q (advance_one ok t c)"
  shows "op_at op l e Q (fst (advance t s))"
proof -
  from assms(1) obtain cs where cs: "curOp s = Some (op\<lparr>Channels := cs\<rparr>)" "\<forall>c \<in> set cs. P c" and l: "live s = l" "epoch s = e"
    by (auto simp: op_at_def)
  let ?ds = "map (advance_one (target_ok s (op\<lparr>Channels := cs\<rparr>)) t) cs"
  have "curOp (fst (advance t s)) = Some (op\<lparr>Channels := ?ds\<rparr>)" using cs(1) by (simp add: advance_def Let_def)
  moreover have "\<forall>d \<in> set ?ds. Q d" using cs(2) assms(2) by auto
  ultimately show ?thesis unfolding op_at_def using l by (intro conjI exI [of _ ?ds]) simp_all
qed

lemma quiet_op_at:
  assumes "op_at op l e P s" "quiet ev" "\<And>ok t c. ev = Advance t \<Longrightarrow> P c \<Longrightarrow> P (advance_one ok t c)"
  shows "op_at op l e P (next_state ev s)"
proof (cases ev)
  case (Advance t)
  with advance_op_at [OF assms(1), where t = t and Q = P] assms(3) show ?thesis by simp
qed (use assms probes_same in \<open>simp_all add: op_at_def\<close>)

lemma quiet_run_op_at:
  assumes "op_at op l e P s" "list_all (\<lambda>ev. quiet ev \<and> R ev) es"
    and "\<And>ok t c. R (Advance t) \<Longrightarrow> P c \<Longrightarrow> P (advance_one ok t c)"
  shows "op_at op l e P (after es s)"
  using assms(1,2)
proof (induction es arbitrary: s)
  case (Cons ev es)
  then have "op_at op l e P (next_state ev s)" by (intro quiet_op_at) (auto intro: assms(3))
  with Cons show ?case by simp
qed simp

lemma last_at_le:
  assumes "\<forall>c \<in> set cs. SwitchAt c \<le> b" "a \<le> b"
  shows "fold (\<lambda>c t. if t < SwitchAt c then SwitchAt c else t) cs a \<le> (b :: int)"
  using assms by (induction cs arbitrary: a) auto


section \<open>The rounds of a rolling swap\<close>

lemma length_roll [simp]: "length (roll t b i prev cs) = length cs"
  by (induction cs arbitrary: i prev) (auto simp: Let_def)

lemma roll_nth:
  assumes "j < length cs"
  shows "t + rollingLead + ((i + int j) div b) * rollingLead \<le> SwitchAt (roll t b i prev cs ! j)
    \<and> SwitchAt (cs ! j) \<le> SwitchAt (roll t b i prev cs ! j)
    \<and> (\<exists>u. roll t b i prev cs ! j = (cs ! j)\<lparr>SwitchAt := u\<rparr>)"
  using assms
proof (induction cs arbitrary: i j prev)
  case (Cons c cs)
  define v where "v = (if SwitchAt c < t + rollingLead + (i div b) * rollingLead then t + rollingLead + (i div b) * rollingLead
    else SwitchAt c)"
  define u where "u = (if v < prev then prev else v)"
  have u: "roll t b i prev (c # cs) = c\<lparr>SwitchAt := u\<rparr> # roll t b (i + 1) u cs"
    by (simp add: Let_def u_def v_def)
  have le: "t + rollingLead + (i div b) * rollingLead \<le> u" "SwitchAt c \<le> u" by (auto simp: u_def v_def)
  show ?case
  proof (cases j)
    case 0
    with le show ?thesis unfolding u by (auto intro: exI [of _ u])
  next
    case (Suc m)
    from Cons.IH [of m "i + 1" u] Cons.prems Suc show ?thesis unfolding u by (simp add: add.assoc)
  qed
qed simp

lemma late_indices:
  assumes "\<And>j. n \<le> j \<Longrightarrow> j < length xs \<Longrightarrow> \<not> P (xs ! j)"
  shows "length (filter P xs) \<le> n"
proof -
  have "filter P (drop n xs) = []" using assms by (auto simp: filter_empty_conv in_set_conv_nth)
  then have "filter P xs = filter P (take n xs)" by (metis append_Nil2 append_take_drop_id filter_append)
  moreover have "length (filter P (take n xs)) \<le> n"
    using length_filter_le [of P "take n xs"] by simp
  ultimately show ?thesis by simp
qed

lemma roll_few_before:
  assumes "0 < b"
  shows "length (filter (\<lambda>c. SwitchAt c < t + rollingLead * (int k + 1)) (roll t b 0 prev cs)) \<le> k * nat b"
proof (rule late_indices)
  fix j assume j: "k * nat b \<le> j" "j < length (roll t b 0 prev cs)"
  have "int k * b \<le> int j" using j(1) assms by (metis nat_0_le of_nat_le_iff of_nat_mult order_less_imp_le)
  then have "int k \<le> int j div b" using assms by (simp add: pos_imp_zdiv_nonneg_iff zdiv_mono1 [of "int k * b" "int j" b, simplified])
  then have "rollingLead * int k \<le> (int j div b) * rollingLead" by (simp add: rollingLead_def)
  with roll_nth [of j cs t 0 b prev] j(2) show "\<not> SwitchAt (roll t b 0 prev cs ! j) < t + rollingLead * (int k + 1)"
    by (simp add: algebra_simps)
qed

lemma find_nth:
  assumes "distinct (map f xs)" "j < length xs"
  shows "find (\<lambda>x. f x = f (xs ! j)) xs = Some (xs ! j)"
  using assms by (induction xs arbitrary: j) (auto simp: nth_Cons split: nat.split)

lemma find_key: "find (\<lambda>x. f x = k) xs = Some y \<Longrightarrow> y \<in> set xs \<and> f y = k"
  by (induction xs) (auto split: if_splits)

lemma find_key_None: "find (\<lambda>x. f x = k) xs = None \<longleftrightarrow> k \<notin> f ` set xs"
  by (induction xs) auto

definition replaced :: "channel_switch list \<Rightarrow> channel_switch \<Rightarrow> channel_switch" where
  "replaced moved c = (case find (\<lambda>m. Channel m = Channel c) moved of Some m \<Rightarrow> m | None \<Rightarrow> c)"

lemma map_roll_Channel: "map Channel (roll t b i prev cs) = map Channel cs"
  by (induction cs arbitrary: i prev) (auto simp: Let_def)

lemma replaced_all:
  assumes "distinct (map Channel cs)"
  shows "map (replaced (roll t b i prev cs)) cs = roll t b i prev cs"
proof (rule nth_equalityI)
  fix j assume "j < length (map (replaced (roll t b i prev cs)) cs)"
  then have j: "j < length cs" by simp
  have "Channel (roll t b i prev cs ! j) = Channel (cs ! j)"
    using j map_roll_Channel [of t b i prev cs] by (metis length_roll nth_map)
  moreover have "distinct (map Channel (roll t b i prev cs))" using assms by (simp add: map_roll_Channel)
  ultimately show "map (replaced (roll t b i prev cs)) cs ! j = roll t b i prev cs ! j"
    using find_nth [of Channel "roll t b i prev cs" j] j by (simp add: replaced_def)
qed simp

definition rolls :: "nat set \<Rightarrow> channel_switch \<Rightarrow> bool" where
  "rolls watched c \<longleftrightarrow> Channel c \<in> watched \<and> SwitchState c = switchPlanned \<and> \<not> Removed c"

lemma to_roll_rolls: "to_roll watched op = filter (rolls watched) (Channels op)"
  by (simp add: to_roll_def rolls_def [abs_def])

lemma replaced_one:
  assumes "distinct (map Channel cs)" "set ws = {c \<in> set cs. P c}" "distinct (map Channel ws)" "c \<in> set cs"
  shows "(P c \<longrightarrow> SwitchAt c \<le> SwitchAt (replaced (roll t b i prev ws) c))
    \<and> (\<exists>u. replaced (roll t b i prev ws) c = c\<lparr>SwitchAt := u\<rparr>)
    \<and> (\<not> P c \<longrightarrow> replaced (roll t b i prev ws) c = c)"
proof (cases "P c")
  case True
  with assms(2,4) have "c \<in> set ws" by simp
  then obtain j where j: "j < length ws" "c = ws ! j" by (metis in_set_conv_nth)
  have "replaced (roll t b i prev ws) c = roll t b i prev ws ! j"
    using replaced_all [OF assms(3), of t b i prev] j by (metis nth_map)
  with roll_nth [OF j(1), of t i b prev] j(2) True show ?thesis by simp
next
  case False
  have "Channel c \<notin> Channel ` set (roll t b i prev ws)"
  proof
    assume "Channel c \<in> Channel ` set (roll t b i prev ws)"
    then have "Channel c \<in> set (map Channel (roll t b i prev ws))" by simp
    then obtain d where "d \<in> set ws" "Channel d = Channel c" unfolding map_roll_Channel by auto
    with assms(1,2,4) have "d = c" by (auto simp: distinct_map dest: inj_onD)
    with \<open>d \<in> set ws\<close> assms(2) False show False by simp
  qed
  then have "replaced (roll t b i prev ws) c = c" by (simp add: replaced_def find_key_None [THEN iffD2])
  moreover have "\<exists>u. c = c\<lparr>SwitchAt := u\<rparr>" by (rule exI [of _ "SwitchAt c"]) simp
  ultimately show ?thesis using False by simp
qed

text \<open>
  Property C38. A rolling swap lets at most \<open>k\<close> budgets of watched channels switch before round \<open>k\<close>, twenty
  seconds apart; it changes nothing but instants, makes none of them earlier and moves no channel that nobody
  watches.
\<close>

theorem rolling_rounds:
  assumes "planRolling watched b mode t op = (op', True)" "distinct (map Channel (Channels op))"
  shows "length (filter (\<lambda>c. SwitchAt c < t + rollingLead * (int k + 1)) (to_roll watched op')) \<le> k * nat b
    \<and> list_all2 (\<lambda>c d. (\<exists>u. d = c\<lparr>SwitchAt := u\<rparr>) \<and> SwitchAt c \<le> SwitchAt d \<and> (Channel c \<notin> watched \<longrightarrow> d = c))
        (Channels op) (Channels op')"
proof -
  let ?ws = "to_roll watched op" and ?P = "rolls watched"
  define sorted where "sorted = sort_by earlier ?ws"
  define f where "f = replaced (roll t b 0 zero_time sorted)"
  have op': "Channels op' = map f (Channels op)" and b: "0 < b"
    using assms(1) by (auto simp: planRolling_def Let_def f_def sorted_def replaced_def [abs_def] split: if_splits)
  have set: "set sorted = {c \<in> set (Channels op). ?P c}" by (simp add: sorted_def to_roll_rolls)
  have "distinct (map Channel ?ws)" using assms(2) by (simp add: to_roll_rolls distinct_map_filter)
  then have dist: "distinct (map Channel sorted)"
    by (metis distinct_count_atmost_1 mset_map mset_sort_by set_mset_mset sorted_def)
  note one = replaced_one [OF assms(2) set dist, of _ t b 0 zero_time, folded f_def]
  have "?P (f c) \<longleftrightarrow> ?P c" if c: "c \<in> set (Channels op)" for c
  proof -
    from one [OF c] obtain u where "f c = c\<lparr>SwitchAt := u\<rparr>" by blast
    then show ?thesis by (simp add: rolls_def)
  qed
  then have "to_roll watched op' = map f ?ws"
    by (simp add: to_roll_rolls op' filter_map o_def cong: filter_cong)
  then have "mset (to_roll watched op') = mset (map f sorted)" by (simp add: sorted_def)
  also have "map f sorted = roll t b 0 zero_time sorted" using replaced_all [OF dist] by (simp add: f_def)
  finally have "length (filter Q (to_roll watched op')) = length (filter Q (roll t b 0 zero_time sorted))" for Q
    by (metis mset_filter size_mset)
  moreover have "length (filter (\<lambda>c. SwitchAt c < t + rollingLead * (int k + 1)) (roll t b 0 zero_time sorted)) \<le> k * nat b"
    using b by (rule roll_few_before)
  moreover have "SwitchAt c \<le> SwitchAt (f c) \<and> (Channel c \<notin> watched \<longrightarrow> f c = c)" if c: "c \<in> set (Channels op)" for c
    using one [OF c] by (cases "?P c") (auto simp: rolls_def)
  ultimately show ?thesis
    using one by (auto simp: op' list_all2_conv_all_nth)
qed

section \<open>Instances\<close>

text \<open>Blue is live on \<open>rel-1\<close> with green as its hot standby; amber stages \<open>rel-2\<close>.\<close>

definition answering :: "string \<Rightarrow> slotHealth" where
  "answering rel = no_health\<lparr>healthy := True, status := \<lparr>Release = rel, Mismatch = False, Stations = [1], StatusPID = 7\<rparr>\<rparr>"

definition rig :: Slots where
  "rig = \<lparr>live = Blue, standby = Green, staging = Amber, epoch = 1,
     health = [Blue \<mapsto> answering ''rel-1'', Green \<mapsto> answering ''rel-1'', Amber \<mapsto> answering ''rel-2''],
     failing = [], switches = 0, curOp = None, previous = '''', previousUntil = zero_time, stage = Some (''c1'', ''rel-2''),
     nextRef = 0\<rparr>"

definition all_slots :: "string set" where
  "all_slots = set Names"

definition usual_settings :: StagingSettings where
  "usual_settings = \<lparr>StagingActive = True, HotStandby = True, WarmDemand = False, AutoRollback = True,
     KeepWarm = 15 * minute, RollingSwap = ''auto'', MaxExtra = 0\<rparr>"

definition swap_to :: "int \<Rightarrow> string \<Rightarrow> opRow" where
  "swap_to i rel = \<lparr>RowID = i, RowKind = OpSwap, RowRelease = rel, RowCreated = 0\<rparr>"

definition one_row :: "switchRow list" where
  "one_row = [\<lparr>RowChannel = 1, RowAt = 0, RowState = switchPlanned, RowRemoved = False\<rparr>]"

text \<open>The swap to \<open>rel-2\<close>: amber goes live, blue is the previous slot, green drains.\<close>

definition swap_done :: "event list" where
  "swap_done = [RunOp usual_settings {} 8 (swap_to 1 ''rel-2'') Amber one_row 0, Advance (8 * second),
     Finish all_slots usual_settings None (8 * second) 0]"

lemma swapped: "live (after swap_done rig) = Amber \<and> previous (after swap_done rig) = Blue
    \<and> standby (after swap_done rig) = '''' \<and> orders swap_done rig = [Drain Green]"
  by code_simp



section \<open>Where the roles meet\<close>

text \<open>
  A change staged inside the grace takes the free instance. When the grace ends that instance becomes the
  standby too, and is restarted on the live release: the staged release is gone.
\<close>

definition staged_in_grace :: "event list" where
  "staged_in_grace = swap_done @ [StageBegin all_slots usual_settings True ''c2'' ''rel-3'',
     GraceOver all_slots usual_settings (8 * second + 15 * minute)]"

lemma grace_restarts_the_staged_slot:
  "staging (after staged_in_grace rig) = Green \<and> standby (after staged_in_grace rig) = Green
    \<and> stage (after staged_in_grace rig) = Some (''c2'', ''rel-3'')
    \<and> RestartStandby Green ''rel-2'' \<in> set (orders staged_in_grace rig)"
  by code_simp

text \<open>After a crash of the live slot it is live, and cancelling the change stops it.\<close>

lemma cancel_stops_the_live_slot:
  "live (after (staged_in_grace @ [Probed 2 Green (Some (status (answering ''rel-2''))) 0, TakeOver Amber]) rig) = Green
    \<and> snd (step (StageEnd ''c2'') (after (staged_in_grace @ [Probed 2 Green (Some (status (answering ''rel-2''))) 0, TakeOver Amber]) rig))
      = [StopSlot Green]"
  by code_simp

text \<open>
  A rollback during a second swap inside the grace finds the live slot on the release it asks for, so nothing
  switches; the previous slot becomes the standby, and is drained when the grace ends.
\<close>

definition back_to :: "int \<Rightarrow> string \<Rightarrow> opRow" where
  "back_to i rel = \<lparr>RowID = i, RowKind = OpRollback, RowRelease = rel, RowCreated = 0\<rparr>"

definition rolled_back_in_grace :: "event list" where
  "rolled_back_in_grace = swap_done @
     [Probed 2 Green (Some (status (answering ''rel-3''))) 0,
      RunOp usual_settings {1} 8 (swap_to 2 ''rel-3'') Green one_row (9 * second), EndOp 1,
      RunOp usual_settings {1} 8 (back_to 3 ''rel-2'') Amber one_row (10 * second), Advance (18 * second),
      Finish all_slots usual_settings None (18 * second) 2]"

lemma rollback_target_is_live:
  "targetFor ''rel-2'' OpRollback (after (take 6 rolled_back_in_grace) rig) = Some Amber"
  by code_simp

lemma grace_drains_the_standby:
  "standby (after rolled_back_in_grace rig) = Blue \<and> previous (after rolled_back_in_grace rig) = Blue
    \<and> snd (step (GraceOver all_slots usual_settings (8 * second + 15 * minute)) (after rolled_back_in_grace rig)) = [Drain Blue]
    \<and> standby (next_state (GraceOver all_slots usual_settings (8 * second + 15 * minute)) (after rolled_back_in_grace rig)) = Blue"
  by code_simp

text \<open>An admin's switch back to the previous slot inside the grace: the grace's end drains the live slot.\<close>

lemma switch_back_drains_live:
  "live (after (swap_done @ [SwitchTo all_slots Blue 9]) rig) = Blue
    \<and> Drain Blue \<in> set (snd (step (GraceOver all_slots usual_settings (8 * second + 15 * minute))
          (after (swap_done @ [SwitchTo all_slots Blue 9]) rig)))"
  by code_simp

text \<open>
  A target that missed two passes has its only channel skipped; eight seconds after the last instant it is live
  all the same, and the skipped channel reads it.
\<close>

definition skipped_swap :: "event list" where
  "skipped_swap = [RunOp usual_settings {1} 8 (swap_to 1 ''rel-2'') Amber one_row 0,
     Probed 2 Amber None 0, Advance 0, Probed 2 Amber (Some (status (answering ''rel-2''))) second,
     Probed 2 Amber None (5 * second), Advance (5 * second),
     Probed 2 Amber (Some (status (answering ''rel-2''))) (6 * second), Advance (13 * second)]"

lemma skipped_channel_moves_at_the_end:
  "Route 1 (13 * second) (after skipped_swap rig) = Blue
    \<and> (case curOp (after skipped_swap rig) of Some op \<Rightarrow> counts op = (0, 1, 0) | None \<Rightarrow> False)
    \<and> Route 1 (13 * second) (after (skipped_swap @ [Finish all_slots usual_settings None (13 * second) 0]) rig) = Amber"
  by code_simp

text \<open>
  A rolling swap whose channels wait for one instant further off than the rounds take is not spread: five
  channels with a budget of two switch at the same instant.
\<close>

definition five_at :: "instant \<Rightarrow> swapOp" where
  "five_at t = \<lparr>Ref = 0, OpID = 1, Kind = OpSwap, OpRelease = ''rel-2'', From = Blue, To = Amber,
     Channels = map (\<lambda>i. \<lparr>Channel = i, SwitchAt = t, SwitchState = switchPlanned, Removed = False, Retried = False\<rparr>) [1, 2, 3, 4, 5],
     rolling = False\<rparr>"

lemma rolling_not_spread:
  "planRolling {1, 2, 3, 4, 5} 2 ''auto'' 0 (five_at (10 * minute)) = (five_at (10 * minute), True)"
  by code_simp

section \<open>Instances of the theorems on operations\<close>

definition quiet_home :: Env where
  "quiet_home = \<lparr>Addrs = all_slots, Settings = usual_settings, Watched = {1}, Capacity = 8, Until = None,
     Open = (\<lambda>_. True), SwitchRows = (\<lambda>_. Some one_row)\<rparr>"


lemma rolling_rounds_witness:
  "length (filter (\<lambda>c. SwitchAt c < rollingLead * 2) (to_roll {1, 2, 3, 4, 5} (fst (planRolling {1, 2, 3, 4, 5} 2 ''auto'' 0 (five_at 0))))) \<le> 2"
proof -
  have "snd (planRolling {1, 2, 3, 4, 5} 2 ''auto'' 0 (five_at 0))" by code_simp
  then have "planRolling {1, 2, 3, 4, 5} 2 ''auto'' 0 (five_at 0) = (fst (planRolling {1, 2, 3, 4, 5} 2 ''auto'' 0 (five_at 0)), True)"
    by (metis prod.collapse)
  from rolling_rounds [OF this, of 1] show ?thesis by (simp add: five_at_def)
qed

end
