(* ===== verification/Hls_Stitcher.thy ===== *)
theory Hls_Stitcher
  imports Prelude
begin

text \<open>
  The HLS playlist the front door serves for a channel with TV slots:
  \<^verbatim>\<open>streaming/internal/frontdoor/stitch.go\<close>. A slot's playlist is read, merged into the
  stitched one, which goes on from another slot after one discontinuity, and the window slides. The readings
  of \<open>ParseFloat\<close> and \<open>time.Parse\<close> and the texts that \<open>Fprintf\<close> and \<open>Format\<close> make are
  parameters. A line longer than the scanner's buffer (a megabyte, all of a response) does not occur, nor a
  duration past the width of an integer.
\<close>

section \<open>A slot's playlist\<close>

record upSeg =
  name :: string
  dur :: float64
  pdt :: "instant option"
  disc :: bool

record upPlaylist =
  target :: int
  seq :: int
  version :: int
  segs :: "upSeg list"

record Readers =
  ParseFloat :: "string \<Rightarrow> float64"
  ParseTime :: "string \<Rightarrow> instant option"

text \<open>The value \<open>strconv.Atoi\<close> and \<open>ParseInt\<close> give beside their error.\<close>

definition atoi_value :: "string \<Rightarrow> int" where
  "atoi_value s =
    (let (neg, ds) = (case s of
           c # cs \<Rightarrow> if c = CHR ''-'' then (True, cs) else if c = CHR ''+'' then (False, cs) else (False, s)
         | [] \<Rightarrow> (False, s));
         v = (if neg then - digits_val 0 ds else digits_val 0 ds)
     in if ds = [] \<or> \<not> list_all is_digit ds then 0
        else if v < - (2 ^ 63) then - (2 ^ 63) else if 2 ^ 63 \<le> v then 2 ^ 63 - 1 else v)"

definition pdtTag :: string where "pdtTag = ''#EXT-X-PROGRAM-DATE-TIME:''"

definition no_seg :: upSeg where
  "no_seg = \<lparr>name = '''', dur = 0, pdt = None, disc = False\<rparr>"

text \<open>One line; the state is the playlist so far, the segment begun, and the flags for its duration and for the header.\<close>

definition read_line :: "Readers \<Rightarrow> string \<Rightarrow> upPlaylist \<times> upSeg \<times> bool \<times> bool \<Rightarrow> upPlaylist \<times> upSeg \<times> bool \<times> bool" where
  "read_line rd raw st =
    (let l = trim_space raw; (pl, cur, haveInf, sawHeader) = st; rest = (\<lambda>p. drop (length p) l) in
     if l = '''' then st
     else if l = ''#EXTM3U'' then (pl, cur, haveInf, True)
     else if prefix ''#EXT-X-TARGETDURATION:'' l then
       (pl\<lparr>target := atoi_value (rest ''#EXT-X-TARGETDURATION:'')\<rparr>, cur, haveInf, sawHeader)
     else if prefix ''#EXT-X-MEDIA-SEQUENCE:'' l then
       (pl\<lparr>seq := atoi_value (rest ''#EXT-X-MEDIA-SEQUENCE:'')\<rparr>, cur, haveInf, sawHeader)
     else if prefix ''#EXT-X-VERSION:'' l then
       (pl\<lparr>version := atoi_value (rest ''#EXT-X-VERSION:'')\<rparr>, cur, haveInf, sawHeader)
     else if l = ''#EXT-X-DISCONTINUITY'' then (pl, cur\<lparr>disc := True\<rparr>, haveInf, sawHeader)
     else if prefix pdtTag l then
       (case ParseTime rd (trim_space (rest pdtTag)) of
          Some t \<Rightarrow> (pl, cur\<lparr>pdt := Some t\<rparr>, haveInf, sawHeader)
        | None \<Rightarrow> (pl, cur, haveInf, sawHeader))
     else if prefix ''#EXTINF:'' l then
       (let v = rest ''#EXTINF:''; v = takeWhile (\<lambda>c. c \<noteq> CHR '','') v in
        (pl, cur\<lparr>dur := ParseFloat rd (trim_space v)\<rparr>, True, sawHeader))
     else if prefix ''#'' l then st
     else if haveInf then (pl\<lparr>segs := segs pl @ [cur\<lparr>name := l\<rparr>]\<rparr>, no_seg, False, sawHeader)
     else (pl, no_seg, False, sawHeader))"

definition parseMediaPlaylist :: "Readers \<Rightarrow> string \<Rightarrow> upPlaylist option" where
  "parseMediaPlaylist rd body =
    (let (pl, _, _, sawHeader) = fold (read_line rd) (split_on (CHR 0x0A) body)
           (\<lparr>target = 0, seq = 0, version = 0, segs = []\<rparr>, no_seg, False, False)
     in if sawHeader then Some pl else None)"

section \<open>The stitched playlist\<close>

record stEntry = upSeg +
  slot :: string

text \<open>\<open>time.Duration(dur * float64(time.Second))\<close> drops the fraction of a nanosecond.\<close>

definition dur_ns :: "float64 \<Rightarrow> duration" where
  "dur_ns d = (let x = f64_mul d (f64_of_int second) in if 0 \<le> x then \<lfloor>x\<rfloor> else \<lceil>x\<rceil>)"

definition stitchTolerance :: duration where
  "stitchTolerance = 250 * millisecond"

record Stitcher =
  src :: string
  entries :: "stEntry list"
  firstSeq :: int
  discSeq :: int
  starget :: int
  window :: int
  nswitches :: int
  pendingSwitch :: bool
  planTo :: string
  cutAt :: instant
  reached :: bool
  ended :: bool

definition entry :: "string \<Rightarrow> upSeg \<Rightarrow> stEntry" where
  "entry sl s = upSeg.extend s \<lparr>slot = sl\<rparr>"

text \<open>The end of a segment with a date.\<close>

definition seg_end :: "instant \<Rightarrow> 'a upSeg_scheme \<Rightarrow> instant" where
  "seg_end t s = t + dur_ns (dur s)"

definition Plan :: "string \<Rightarrow> instant \<Rightarrow> Stitcher \<Rightarrow> Stitcher" where
  "Plan to' at' st =
    (if to' = src st \<or> planTo st = to' \<and> cutAt st = at' then st
     else st\<lparr>planTo := to', cutAt := at', reached := False\<rparr>)"

definition ClearPlan :: "instant \<Rightarrow> Stitcher \<Rightarrow> Stitcher" where
  "ClearPlan zero st = st\<lparr>planTo := '''', cutAt := zero, reached := False\<rparr>"

definition Reached :: "Stitcher \<Rightarrow> bool" where
  "Reached st \<longleftrightarrow> planTo st \<noteq> '''' \<and> reached st"

definition End :: "Stitcher \<Rightarrow> Stitcher" where
  "End st = st\<lparr>ended := True\<rparr>"

text \<open>The window slides; then the first entry's own tag is counted and cleared.\<close>

fun slide :: "nat \<Rightarrow> Stitcher \<Rightarrow> Stitcher" where
  "slide 0 st = st"
| "slide (Suc n) st =
     (case entries st of
        [] \<Rightarrow> st
      | e # es \<Rightarrow> slide n (st\<lparr>entries := es, firstSeq := firstSeq st + 1,
          discSeq := (if disc e then discSeq st + 1 else discSeq st)\<rparr>))"

definition trim :: "Stitcher \<Rightarrow> Stitcher" where
  "trim st =
    (let w = (if window st \<le> 0 then 10 else window st);
         st = slide (length (entries st) - nat w) st
     in case entries st of
          e # es \<Rightarrow> if disc e then st\<lparr>entries := e\<lparr>disc := False\<rparr> # es, discSeq := discSeq st + 1\<rparr> else st
        | [] \<Rightarrow> st)"

text \<open>The first segment of the new source to list, if the source has one (\<open>start\<close>).\<close>

fun first_after :: "upSeg list \<Rightarrow> instant \<Rightarrow> nat \<Rightarrow> nat option" where
  "first_after [] e i = None"
| "first_after (s # ss) e i =
     (case pdt s of
        Some t \<Rightarrow> if \<not> t < e - stitchTolerance then Some i else first_after ss e (Suc i)
      | None \<Rightarrow> first_after ss e (Suc i))"

definition switch_start :: "upSeg list \<Rightarrow> stEntry \<Rightarrow> nat option" where
  "switch_start ss last' =
    (case pdt last' of
       None \<Rightarrow> if ss \<noteq> [] then Some (length ss - 1) else None
     | Some lt \<Rightarrow>
         let e = seg_end lt last' in
         (case first_after ss e 0 of
            Some i \<Rightarrow>
              if 0 < i \<and> (case pdt (ss ! i) of Some t \<Rightarrow> e + stitchTolerance < t | None \<Rightarrow> False)
                \<and> (case pdt (ss ! (i - 1)) of Some t \<Rightarrow> e < seg_end t (ss ! (i - 1)) | None \<Rightarrow> False)
              then Some (i - 1) else Some i
          | None \<Rightarrow> if ss \<noteq> [] \<and> pdt (last ss) = None then Some (length ss - 1) else None))"

definition switchTo :: "string \<Rightarrow> upPlaylist \<Rightarrow> stEntry \<Rightarrow> Stitcher \<Rightarrow> Stitcher" where
  "switchTo sl pl last' st =
    (case switch_start (segs pl) last' of
       None \<Rightarrow> st\<lparr>src := sl, pendingSwitch := True\<rparr>
     | Some i \<Rightarrow>
         (case drop i (segs pl) of
            [] \<Rightarrow> st\<lparr>src := sl, pendingSwitch := False, nswitches := nswitches st + 1\<rparr>
          | s # ss \<Rightarrow> st\<lparr>entries := entries st @ map (entry sl) (s\<lparr>disc := True\<rparr> # ss),
              src := sl, pendingSwitch := False, nswitches := nswitches st + 1\<rparr>))"

text \<open>What a source that stays adds: what follows the last listed, or what starts after its end.\<close>

definition after_last :: "upSeg list \<Rightarrow> stEntry \<Rightarrow> upSeg list" where
  "after_last ss last' =
    (if name last' \<in> name ` set ss then rev (takeWhile (\<lambda>s. name s \<noteq> name last') (rev ss))
     else
       (case filter (\<lambda>s. case (pdt s, pdt last') of
                (Some t, Some lt) \<Rightarrow> \<not> t < seg_end lt last' - stitchTolerance | _ \<Rightarrow> True) ss of
          [] \<Rightarrow> [] | s # rest \<Rightarrow> s\<lparr>disc := True\<rparr> # rest))"

text \<open>The segments up to the planned instant, and whether it is reached.\<close>

fun up_to_cut :: "Stitcher \<Rightarrow> upSeg list \<Rightarrow> upSeg list \<times> bool" where
  "up_to_cut st [] = ([], reached st)"
| "up_to_cut st (s # ss) =
     (if planTo st \<noteq> '''' \<and> (case pdt s of Some t \<Rightarrow> cutAt st + stitchTolerance < seg_end t s | None \<Rightarrow> False)
      then ([], True)
      else (case up_to_cut st ss of (add, r) \<Rightarrow> (s # add, r)))"

definition Update :: "string \<Rightarrow> upPlaylist \<Rightarrow> Stitcher \<Rightarrow> Stitcher" where
  "Update sl pl st =
    (let st = (if starget st < target pl then st\<lparr>starget := target pl\<rparr> else st);
         n = int (length (segs pl));
         st = (if window st < n then st\<lparr>window := n\<rparr> else st)
     in if entries st = [] then
          trim (st\<lparr>src := sl, firstSeq := seq pl, entries := map (entry sl) (segs pl)\<rparr>)
        else
          let last' = last (entries st) in
          if sl \<noteq> src st \<or> pendingSwitch st then
            let st = switchTo sl pl last' st;
                st = (if src st = sl \<and> \<not> pendingSwitch st \<and> sl = planTo st
                      then st\<lparr>planTo := '''', reached := False\<rparr> else st)
            in trim st
          else
            let (add, r) = up_to_cut st (after_last (segs pl) last') in
            trim (st\<lparr>entries := entries st @ map (entry sl) add, reached := r\<rparr>))"

section \<open>The playlist served\<close>

record Writers =
  show_int :: "int \<Rightarrow> string"
  show_dur :: "float64 \<Rightarrow> string"
  show_time :: "instant \<Rightarrow> string"

definition render_entry :: "Writers \<Rightarrow> stEntry \<Rightarrow> string" where
  "render_entry wr e =
    (if disc e then ''#EXT-X-DISCONTINUITY'' @ [CHR 0x0A] else '''') @
    (case pdt e of Some t \<Rightarrow> pdtTag @ show_time wr t @ [CHR 0x0A] | None \<Rightarrow> '''') @
    ''#EXTINF:'' @ show_dur wr (dur e) @ '','' @ [CHR 0x0A] @ ''s/'' @ slot e @ ''/'' @ name e @ [CHR 0x0A]"

definition Render :: "Writers \<Rightarrow> Stitcher \<Rightarrow> string" where
  "Render wr st =
    (let t = fold (\<lambda>e t. let c = \<lceil>dur e\<rceil> in if t < c then c else t) (entries st) (starget st);
         t = (if t \<le> 0 then 6 else t)
     in ''#EXTM3U'' @ [CHR 0x0A] @ ''#EXT-X-VERSION:6'' @ [CHR 0x0A] @
        ''#EXT-X-TARGETDURATION:'' @ show_int wr t @ [CHR 0x0A] @
        ''#EXT-X-MEDIA-SEQUENCE:'' @ show_int wr (firstSeq st) @ [CHR 0x0A] @
        (if 0 < discSeq st then ''#EXT-X-DISCONTINUITY-SEQUENCE:'' @ show_int wr (discSeq st) @ [CHR 0x0A] else '''') @
        ''#EXT-X-INDEPENDENT-SEGMENTS'' @ [CHR 0x0A] @
        concat (map (render_entry wr) (entries st)) @
        (if ended st then ''#EXT-X-ENDLIST'' @ [CHR 0x0A] else ''''))"

section \<open>The playlist only grows and slides\<close>

text \<open>
  What a player may rely on of a segment: its media sequence number fixes its address, its date, its duration and
  its discontinuity sequence number, the playlist's own plus the tags up to it.
\<close>

fun numbered :: "int \<Rightarrow> stEntry list \<Rightarrow> (string \<times> string \<times> float64 \<times> instant option \<times> int) list" where
  "numbered d [] = []"
| "numbered d (e # es) =
     (let d = (if disc e then d + 1 else d) in (slot e, name e, dur e, pdt e, d) # numbered d es)"

definition published :: "Stitcher \<Rightarrow> (string \<times> string \<times> float64 \<times> instant option \<times> int) list" where
  "published st = numbered (discSeq st) (entries st)"

text \<open>Where the slot changes, the segment carries the tag.\<close>

fun marked :: "stEntry list \<Rightarrow> bool" where
  "marked (a # b # es) \<longleftrightarrow> (slot b \<noteq> slot a \<longrightarrow> disc b) \<and> marked (b # es)"
| "marked _ \<longleftrightarrow> True"

definition settled :: "Stitcher \<Rightarrow> bool" where
  "settled st \<longleftrightarrow> entries st \<noteq> [] \<and> \<not> disc (hd (entries st)) \<and> marked (entries st)
     \<and> (\<not> pendingSwitch st \<longrightarrow> slot (last (entries st)) = src st)"

lemma length_numbered [simp]: "length (numbered d es) = length es"
  by (induction es arbitrary: d) (auto simp: Let_def)

lemma numbered_append: "\<exists>d'. numbered d (es @ fs) = numbered d es @ numbered d' fs"
  by (induction es arbitrary: d) (auto simp: Let_def)

lemma numbered_eq_Nil [simp]: "numbered d es = [] \<longleftrightarrow> es = []"
  by (metis length_0_conv length_numbered)

lemma slide_drops:
  "n \<le> length (entries st) \<Longrightarrow> published (slide n st) = drop n (published st) \<and> entries (slide n st) = drop n (entries st)
     \<and> firstSeq (slide n st) = firstSeq st + int n \<and> src (slide n st) = src st \<and> pendingSwitch (slide n st) = pendingSwitch st"
  by (induction n st rule: slide.induct) (auto simp: published_def Let_def split: list.split)

lemma marked_drop: "marked es \<Longrightarrow> marked (drop n es)"
proof (induction es arbitrary: n rule: marked.induct)
  case (1 a b es)
  then show ?case by (cases n) auto
qed (auto simp: drop_Cons split: nat.split)

lemma marked_append:
  "marked es \<Longrightarrow> marked fs \<Longrightarrow> (es \<noteq> [] \<Longrightarrow> fs \<noteq> [] \<Longrightarrow> slot (hd fs) \<noteq> slot (last es) \<longrightarrow> disc (hd fs)) \<Longrightarrow> marked (es @ fs)"
proof (induction es)
  case (Cons a es)
  show ?case
  proof (cases es)
    case Nil
    with Cons.prems show ?thesis by (cases fs) auto
  next
    case (Cons b more)
    with Cons.IH Cons.prems show ?thesis by auto
  qed
qed simp

lemma marked_clear: "marked (e # es) \<Longrightarrow> marked (e\<lparr>disc := False\<rparr> # es)"
  by (cases es) auto

lemma marked_one_slot: "\<forall>e \<in> set es. slot e = sl \<Longrightarrow> marked es"
  by (induction es rule: marked.induct) auto

lemma slot_entry [simp]: "slot (entry sl s) = sl" "disc (entry sl s) = disc s" "name (entry sl s) = name s"
    "dur (entry sl s) = dur s" "pdt (entry sl s) = pdt s"
  by (simp_all add: entry_def upSeg.defs)

text \<open>\<open>trim\<close> drops a proper part from the front.\<close>

lemma trim_slides:
  assumes "entries st \<noteq> []"
  obtains n where "n < length (entries st)" "published (trim st) = drop n (published st)"
    "firstSeq (trim st) = firstSeq st + int n" "src (trim st) = src st" "pendingSwitch (trim st) = pendingSwitch st"
    "entries (trim st) = (hd (drop n (entries st)))\<lparr>disc := False\<rparr> # tl (drop n (entries st))"
proof -
  define n where "n = length (entries st) - nat (if window st \<le> 0 then 10 else window st)"
  have n: "n < length (entries st)" using assms by (auto simp: n_def)
  then obtain e es where d: "drop n (entries st) = e # es" by (cases "drop n (entries st)") auto
  note s = slide_drops [of n st]
  have t: "trim st = (let st = slide n st in case entries st of
      e # es \<Rightarrow> if disc e then st\<lparr>entries := e\<lparr>disc := False\<rparr> # es, discSeq := discSeq st + 1\<rparr> else st | [] \<Rightarrow> st)"
    by (simp add: trim_def n_def Let_def)
  have same: "e\<lparr>disc := False\<rparr> = e" if "\<not> disc e" using that by simp
  have "published (trim st) = published (slide n st)"
    using s n d by (auto simp: t published_def Let_def)
  moreover have "entries (trim st) = e\<lparr>disc := False\<rparr> # es"
    using s n d same by (auto simp: t Let_def)
  ultimately show ?thesis using n s d by (intro that [of n]) (auto simp: t Let_def)
qed

lemma first_after_bounds:
  "first_after ss e i = Some j \<Longrightarrow> i \<le> j \<and> j < i + length ss \<and>
    (\<exists>t. pdt (ss ! (j - i)) = Some t \<and> \<not> t < e - stitchTolerance)"
proof (induction ss arbitrary: i)
  case (Cons s ss)
  show ?case
  proof (cases "\<exists>t. pdt s = Some t \<and> \<not> t < e - stitchTolerance")
    case True
    with Cons.prems show ?thesis by auto
  next
    case False
    with Cons.prems have "first_after ss e (Suc i) = Some j" by (auto split: option.splits)
    from Cons.IH [OF this] have "Suc i \<le> j" "j < Suc i + length ss"
      "\<exists>t. pdt (ss ! (j - Suc i)) = Some t \<and> \<not> t < e - stitchTolerance" by auto
    moreover from this have "j - i = Suc (j - Suc i)" by simp
    ultimately show ?thesis by simp
  qed
qed simp

lemma switch_start_bound: "switch_start ss l = Some i \<Longrightarrow> i < length ss"
  by (auto simp: switch_start_def Let_def split: option.splits if_splits dest!: first_after_bounds)

lemma up_to_cut_prefix: "prefix (fst (up_to_cut st ss)) ss"
  by (induction ss) (auto split: prod.splits)

text \<open>An update of a playlist that is not empty: segments are added at the end, then it slides.\<close>

definition adds :: "string \<Rightarrow> upPlaylist \<Rightarrow> Stitcher \<Rightarrow> upSeg list \<Rightarrow> bool" where
  "adds sl pl st add \<longleftrightarrow>
    (if sl \<noteq> src st \<or> pendingSwitch st
     then (case switch_start (segs pl) (last (entries st)) of
             None \<Rightarrow> add = []
           | Some i \<Rightarrow> add = (hd (drop i (segs pl)))\<lparr>disc := True\<rparr> # tl (drop i (segs pl)) \<and> drop i (segs pl) \<noteq> [])
     else prefix add (after_last (segs pl) (last (entries st))))"

lemma Update_shape:
  assumes "settled st"
  obtains add st' where "Update sl pl st = trim st'" "entries st' = entries st @ map (entry sl) add"
    "discSeq st' = discSeq st" "firstSeq st' = firstSeq st"
    "add \<noteq> [] \<Longrightarrow> sl \<noteq> slot (last (entries st)) \<Longrightarrow> disc (hd add)"
    "pendingSwitch st' \<or> slot (last (entries st')) = src st'" "adds sl pl st add"
proof -
  define s1 where "s1 = (let s = (if starget st < target pl then st\<lparr>starget := target pl\<rparr> else st);
      n = int (length (segs pl)) in if window s < n then s\<lparr>window := n\<rparr> else s)"
  have s1: "entries s1 = entries st" "discSeq s1 = discSeq st" "firstSeq s1 = firstSeq st" "src s1 = src st"
    "pendingSwitch s1 = pendingSwitch st" by (simp_all add: s1_def Let_def)
  have ne: "entries st \<noteq> []" using assms by (simp add: settled_def)
  show ?thesis
  proof (cases "sl \<noteq> src st \<or> pendingSwitch st")
    case True
    define s2 where "s2 = switchTo sl pl (last (entries st)) s1"
    define s3 where "s3 = (if src s2 = sl \<and> \<not> pendingSwitch s2 \<and> sl = planTo s2 then s2\<lparr>planTo := '''', reached := False\<rparr> else s2)"
    have u: "Update sl pl st = trim s3"
      using True ne s1 by (simp add: Update_def Let_def s1_def [unfolded Let_def, symmetric] s2_def s3_def)
    have s3: "entries s3 = entries s2" "discSeq s3 = discSeq s2" "firstSeq s3 = firstSeq s2" "src s3 = src s2"
      "pendingSwitch s3 = pendingSwitch s2" by (simp_all add: s3_def)
    show ?thesis
    proof (cases "switch_start (segs pl) (last (entries st))")
      case None
      then have "entries s3 = entries st @ map (entry sl) []" "discSeq s3 = discSeq st" "firstSeq s3 = firstSeq st"
        "pendingSwitch s3" using s1 s3 by (simp_all add: s2_def switchTo_def)
      with u that [of s3 "[]"] True None show ?thesis by (simp add: adds_def)
    next
      case (Some i)
      then obtain s ss where d: "drop i (segs pl) = s # ss"
        using switch_start_bound [OF Some] by (cases "drop i (segs pl)") auto
      have "entries s3 = entries st @ map (entry sl) (s\<lparr>disc := True\<rparr> # ss)" "discSeq s3 = discSeq st"
        "firstSeq s3 = firstSeq st" "src s3 = sl"
        using s1 s3 Some d by (simp_all add: s2_def switchTo_def)
      moreover from this have "slot (last (entries s3)) = src s3" by (simp add: last_map del: list.map(2))
      ultimately show ?thesis using u that [of s3 "s\<lparr>disc := True\<rparr> # ss"] True Some d by (simp add: adds_def)
    qed
  next
    case False
    obtain add r where add: "up_to_cut s1 (after_last (segs pl) (last (entries st))) = (add, r)" by (rule prod.exhaust)
    define s2 where "s2 = s1\<lparr>entries := entries s1 @ map (entry sl) add, reached := r\<rparr>"
    have "Update sl pl st = trim s2"
      using False ne s1 add by (simp add: Update_def Let_def s1_def [unfolded Let_def, symmetric] s2_def)
    moreover have "slot (last (entries st)) = src st" "sl = src st" using False assms by (auto simp: settled_def)
    moreover from this have "slot (last (entries s2)) = src s2" using s1 by (cases add) (auto simp: s2_def last_map)
    moreover have "adds sl pl st add"
      using up_to_cut_prefix [of s1 "after_last (segs pl) (last (entries st))"] add False by (simp add: adds_def)
    ultimately show ?thesis using s1 by (intro that [of s2 add]) (simp_all add: s2_def)
  qed
qed

lemma Update_slides:
  assumes "settled st"
  shows "settled (Update sl pl st) \<and> (\<exists>more n. published (Update sl pl st) = drop n (published st @ more)
    \<and> firstSeq (Update sl pl st) = firstSeq st + int n \<and> published (Update sl pl st) \<noteq> [])"
proof -
  from assms obtain add st' where u: "Update sl pl st = trim st'" "entries st' = entries st @ map (entry sl) add"
    "discSeq st' = discSeq st" "firstSeq st' = firstSeq st"
    "add \<noteq> [] \<Longrightarrow> sl \<noteq> slot (last (entries st)) \<Longrightarrow> disc (hd add)"
    "pendingSwitch st' \<or> slot (last (entries st')) = src st'"
    by (rule Update_shape) blast
  have ne: "entries st' \<noteq> []" using u(2) assms by (simp add: settled_def)
  from trim_slides [OF ne] obtain n where n: "n < length (entries st')" "published (trim st') = drop n (published st')"
    "firstSeq (trim st') = firstSeq st' + int n" "src (trim st') = src st'" "pendingSwitch (trim st') = pendingSwitch st'"
    "entries (trim st') = (hd (drop n (entries st')))\<lparr>disc := False\<rparr> # tl (drop n (entries st'))" by blast
  obtain d' where pub: "published st' = published st @ numbered d' (map (entry sl) add)"
    using numbered_append [of "discSeq st" "entries st" "map (entry sl) add"] by (auto simp: published_def u)
  have "marked (map (entry sl) add)" by (rule marked_one_slot) auto
  then have "marked (entries st')"
    using assms u(5) by (cases "add = []") (auto simp: u(2) settled_def list.map_sel intro!: marked_append)
  then have "marked (drop n (entries st'))" by (rule marked_drop)
  moreover obtain e es where d: "drop n (entries st') = e # es" using n(1) by (cases "drop n (entries st')") auto
  ultimately have "marked (entries (trim st'))" using n(6) marked_clear [of e es] by simp
  moreover have "slot (last (entries (trim st'))) = slot (last (entries st'))"
  proof -
    have "last (entries st') = last (e # es)" using d n(1) by (metis last_drop)
    then show ?thesis using n(6) d by (cases es) auto
  qed
  ultimately have "settled (trim st')" using n u(6) by (auto simp: settled_def)
  moreover have "published (trim st') \<noteq> []" using n(1,2) by (simp add: published_def)
  ultimately show ?thesis using n(2,3) pub u(1,4) by auto
qed

section \<open>Histories\<close>

datatype event = Polled string upPlaylist | Planned string instant | PlanCleared instant | Ended

fun step :: "event \<Rightarrow> Stitcher \<Rightarrow> Stitcher" where
  "step (Polled sl pl) st = Update sl pl st"
| "step (Planned to' at') st = Plan to' at' st"
| "step (PlanCleared zero) st = ClearPlan zero st"
| "step Ended st = End st"

lemma step_slides:
  assumes "settled st"
  shows "settled (step ev st) \<and> (\<exists>more n. published (step ev st) = drop n (published st @ more)
    \<and> firstSeq (step ev st) = firstSeq st + int n \<and> published (step ev st) \<noteq> [])"
proof (cases ev)
  case (Polled sl pl)
  with Update_slides [OF assms] show ?thesis by simp
qed (use assms in \<open>auto simp: Plan_def ClearPlan_def End_def settled_def published_def
      intro!: exI [of _ "[]"] exI [of _ "0 :: nat"]\<close>)

text \<open>
  Property C39. From the first playlist on, whatever slots are polled and whatever is planned: the served playlist
  is a window of one list that only grows. A media sequence number keeps its segment, its date and its
  discontinuity number for good, the window never goes back and never empties; the first segment has no tag, and where
  the slot changes the segment has one.
\<close>

theorem playlist_only_grows:
  assumes "settled st"
  shows "settled (run step es st) \<and> (\<exists>more n. published (run step es st) = drop n (published st @ more)
    \<and> firstSeq (run step es st) = firstSeq st + int n \<and> published (run step es st) \<noteq> [])"
  using assms
proof (induction es arbitrary: st)
  case Nil
  then show ?case by (auto simp: settled_def published_def intro!: exI [of _ "[]"] exI [of _ "0 :: nat"])
next
  case (Cons ev es)
  from step_slides [OF Cons.prems, of ev] obtain more n where 1: "settled (step ev st)"
    "published (step ev st) = drop n (published st @ more)" "firstSeq (step ev st) = firstSeq st + int n"
    "published (step ev st) \<noteq> []" by blast
  from Cons.IH [OF 1(1)] obtain more2 m where 2: "settled (run step es (step ev st))"
    "published (run step es (step ev st)) = drop m (published (step ev st) @ more2)"
    "firstSeq (run step es (step ev st)) = firstSeq (step ev st) + int m" "published (run step es (step ev st)) \<noteq> []" by blast
  define X where "X = published st @ more"
  have "n \<le> length X" using 1(2,4) unfolding X_def [symmetric] by (metis drop_all nat_le_linear)
  then have "published (run step es (step ev st)) = drop (m + n) (X @ more2)"
    using 2(2) unfolding 1(2) X_def [symmetric] by simp
  then have "published (run step (ev # es) st) = drop (m + n) (published st @ more @ more2)" by (simp add: X_def)
  moreover have "firstSeq (run step (ev # es) st) = firstSeq st + int (m + n)" using 1(3) 2(3) by simp
  ultimately show ?case using 2(1,4) by (metis run.simps(2))
qed

section \<open>No rewind and no skip\<close>

text \<open>
  Splice-ready slots cut on one grid: segment \<open>k\<close> of every slot starts \<open>k\<close> durations after a common instant,
  and a slot never uses a name twice.
\<close>

definition on_grid :: "instant \<Rightarrow> float64 \<Rightarrow> (string \<Rightarrow> nat \<Rightarrow> string) \<Rightarrow> string \<Rightarrow> nat \<Rightarrow> 'a upSeg_scheme \<Rightarrow> bool" where
  "on_grid t0 d names sl k s \<longleftrightarrow> pdt s = Some (t0 + int k * dur_ns d) \<and> dur s = d \<and> name s = names sl k"

definition grid_run :: "instant \<Rightarrow> float64 \<Rightarrow> (string \<Rightarrow> nat \<Rightarrow> string) \<Rightarrow> nat \<Rightarrow> nat \<Rightarrow> stEntry list \<Rightarrow> bool" where
  "grid_run t0 d names a b es \<longleftrightarrow> a < b \<and> list_all2 (\<lambda>k e. on_grid t0 d names (slot e) k e) [a..<b] es"

lemma grid_step:
  assumes D: "stitchTolerance < D"
  shows "t0 + int a * D < t0 + int b * D - stitchTolerance \<longleftrightarrow> a < b"
proof (cases "a < b")
  case True
  then have "(int a + 1) * D \<le> int b * D" using D by (intro mult_right_mono) (simp_all add: stitchTolerance_def)
  with D True show ?thesis by (simp add: algebra_simps)
next
  case False
  then have "int b * D \<le> int a * D" using D by (intro mult_right_mono) (simp_all add: stitchTolerance_def)
  with False show ?thesis by (simp add: stitchTolerance_def)
qed

lemma first_after_grid:
  assumes "list_all2 (on_grid t0 d names sl) [a..<b'] ss" "a \<le> b" "stitchTolerance < dur_ns d"
  shows "first_after ss (t0 + int b * dur_ns d) i = (if b < b' then Some (i + (b - a)) else None)"
  using assms(1,2)
proof (induction ss arbitrary: a i rule: list.induct)
  case Nil
  then show ?case by (auto simp: list_all2_Nil2 upt_eq_Nil_conv)
next
  case (Cons s ss)
  then have "a < b'" by (cases "a < b'") auto
  then have up: "[a..<b'] = a # [Suc a..<b']" by (rule upt_conv_Cons)
  from Cons.prems(1) have "on_grid t0 d names sl a s" and rest: "list_all2 (on_grid t0 d names sl) [Suc a..<b'] ss"
    unfolding up by simp_all
  then have s: "pdt s = Some (t0 + int a * dur_ns d)" by (simp add: on_grid_def)
  show ?case
  proof (cases "a = b")
    case True
    with s \<open>a < b'\<close> show ?thesis by (simp add: stitchTolerance_def)
  next
    case False
    with Cons.prems have "Suc a \<le> b" by simp
    moreover from this have "Suc i + (b - Suc a) = i + (b - a)" by simp
    ultimately show ?thesis using Cons.IH [OF rest, of "Suc i"] s grid_step [OF assms(3), of t0 a b] by simp
  qed
qed

lemma grid_drop:
  assumes "list_all2 P [a..<b'] ss" "a \<le> b"
  shows "list_all2 P [b..<max b b'] (drop (b - a) ss)"
proof -
  from assms(1) have "list_all2 P (drop (b - a) [a..<b']) (drop (b - a) ss)" by (rule list_all2_dropI)
  moreover have "drop (b - a) [a..<b'] = [b..<max b b']" using assms(2) by (simp add: drop_upt max_def)
  ultimately show ?thesis by simp
qed

lemma suffix_after:
  assumes "j < length ss" "name (ss ! j) = x" "\<And>s. s \<in> set (drop (Suc j) ss) \<Longrightarrow> name s \<noteq> x"
  shows "rev (takeWhile (\<lambda>s. name s \<noteq> x) (rev ss)) = drop (Suc j) ss"
proof -
  have "rev ss = rev (drop (Suc j) ss) @ ss ! j # rev (take j ss)"
    using assms(1) by (metis append_take_drop_id Cons_nth_drop_Suc rev_append rev.simps(2) append_assoc append_Cons append_Nil)
  moreover have "takeWhile (\<lambda>s. name s \<noteq> x) (rev (drop (Suc j) ss) @ ss ! j # rev (take j ss)) = rev (drop (Suc j) ss)"
    using assms(2,3) by (subst takeWhile_append2) auto
  ultimately show ?thesis by simp
qed

lemma on_grid_disc [simp]: "on_grid t0 d names sl k (s\<lparr>disc := x\<rparr>) = on_grid t0 d names sl k s"
  by (simp add: on_grid_def)

lemma on_grid_entry [simp]: "on_grid t0 d names sl k (entry sl s) = on_grid t0 d names sl k s"
  by (simp add: on_grid_def)

lemma list_all2_tag:
  "list_all2 (on_grid t0 d names sl) ks (s # ss) \<Longrightarrow> list_all2 (on_grid t0 d names sl) ks (s\<lparr>disc := x\<rparr> # ss)"
  by (cases ks) auto

lemma prefix_grid: "list_all2 P [a..<b] ss \<Longrightarrow> a \<le> b \<Longrightarrow> prefix add ss \<Longrightarrow> \<exists>c. a \<le> c \<and> list_all2 P [a..<c] add"
proof -
  assume p: "list_all2 P [a..<b] ss" "a \<le> b" "prefix add ss"
  then obtain more where more: "ss = add @ more" by (auto elim: prefixE)
  then have "a + length add \<le> b" using p(1,2) by (auto dest: list_all2_lengthD)
  moreover have "list_all2 P (take (length add) [a..<b]) (take (length add) ss)" using p(1) by (rule list_all2_takeI)
  ultimately show ?thesis using more by (intro exI [of _ "a + length add"]) (simp add: take_upt)
qed

lemma after_last_grid:
  assumes ss: "list_all2 (on_grid t0 d names sl) [a..<b'] ss" "a \<le> b" and D: "stitchTolerance < dur_ns d" and inj: "inj (names sl)"
    and l: "on_grid t0 d names sl (b - 1) l" "0 < b"
  shows "list_all2 (on_grid t0 d names sl) [b..<max b b'] (after_last ss l)"
proof -
  have len: "length ss = b' - a" using ss(1) by (auto dest: list_all2_lengthD)
  have nth: "on_grid t0 d names sl (a + j) (ss ! j)" if "j < length ss" for j
    using ss(1) that len by (auto simp: list_all2_conv_all_nth)
  have names: "name s = names sl (a + j)" if "j < length ss" "s = ss ! j" for s j
    using nth [OF that(1)] that(2) by (simp add: on_grid_def)
  have name: "name l = names sl (b - 1)" using l(1) by (simp add: on_grid_def)
  show ?thesis
  proof (cases "a < b \<and> b \<le> b'")
    case True
    define j where "j = b - 1 - a"
    have j: "j < length ss" "a + j = b - 1" "Suc j = b - a" using True len by (auto simp: j_def)
    have "name (ss ! j) = name l" using names [OF j(1) refl] j(2) name by simp
    moreover have "name s \<noteq> name l" if s: "s \<in> set (drop (Suc j) ss)" for s
    proof -
      from s obtain m where m: "m < length ss - Suc j" "s = ss ! (Suc j + m)" by (auto simp: in_set_conv_nth)
      then have "name s = names sl (a + (Suc j + m))" by (intro names) auto
      moreover have "a + (Suc j + m) \<noteq> b - 1" using j(2) by simp
      ultimately show ?thesis using name inj by (simp add: inj_eq)
    qed
    ultimately have "rev (takeWhile (\<lambda>s. name s \<noteq> name l) (rev ss)) = drop (Suc j) ss" by (intro suffix_after [OF j(1)]) auto
    moreover have "name l \<in> name ` set ss" using \<open>name (ss ! j) = name l\<close> j(1) by (metis imageI nth_mem)
    ultimately show ?thesis using grid_drop [OF ss] by (simp add: after_last_def j(3))
  next
    case False
    have "name l \<notin> name ` set ss"
    proof
      assume "name l \<in> name ` set ss"
      then obtain j where "j < length ss" "name (ss ! j) = name l" by (auto simp: in_set_conv_nth)
      then have "a + j = b - 1" using names name inj by (metis inj_eq)
      with False \<open>j < length ss\<close> len ss(2) l(2) show False by auto
    qed
    moreover have "filter (\<lambda>s. case (pdt s, pdt l) of (Some t, Some lt) \<Rightarrow> \<not> t < seg_end lt l - stitchTolerance | _ \<Rightarrow> True) ss
        = drop (b - a) ss"
    proof -
      have e: "seg_end (t0 + int (b - 1) * dur_ns d) l = t0 + int b * dur_ns d"
        using l by (simp add: seg_end_def on_grid_def algebra_simps of_nat_diff)
      have keep: "(case (pdt s, pdt l) of (Some t, Some lt) \<Rightarrow> \<not> t < seg_end lt l - stitchTolerance | _ \<Rightarrow> True) \<longleftrightarrow> b \<le> a + j"
        if "j < length ss" "s = ss ! j" for s j
        using nth [OF that(1)] that(2) l(1) e grid_step [OF D, of t0 "a + j" b] by (auto simp: on_grid_def not_less)
      consider "a = b" | "b' < b" using False ss(2) by linarith
      then show ?thesis
      proof cases
        case 1
        then have "\<forall>s \<in> set ss. case (pdt s, pdt l) of (Some t, Some lt) \<Rightarrow> \<not> t < seg_end lt l - stitchTolerance | _ \<Rightarrow> True"
          using keep by (metis in_set_conv_nth le_add1)
        with 1 show ?thesis by (simp add: filter_id_conv)
      next
        case 2
        have "\<not> (case (pdt s, pdt l) of (Some t, Some lt) \<Rightarrow> \<not> t < seg_end lt l - stitchTolerance | _ \<Rightarrow> True)"
          if s: "s \<in> set ss" for s
        proof -
          from s obtain j where j: "j < length ss" "s = ss ! j" by (metis in_set_conv_nth)
          with 2 len have "\<not> b \<le> a + j" by simp
          with keep [OF j] show ?thesis by simp
        qed
        then show ?thesis using 2 len by (simp add: filter_False)
      qed
    qed
    ultimately have a: "after_last ss l = (case drop (b - a) ss of [] \<Rightarrow> [] | s # rest \<Rightarrow> s\<lparr>disc := True\<rparr> # rest)"
      by (simp add: after_last_def)
    have "list_all2 (on_grid t0 d names sl) [b..<max b b'] (drop (b - a) ss)" by (rule grid_drop [OF ss])
    then show ?thesis unfolding a by (auto split: list.split intro: list_all2_tag)
  qed
qed

lemma switch_grid:
  assumes ss: "list_all2 (on_grid t0 d names sl) [a..<b'] ss" "a \<le> b" and D: "stitchTolerance < dur_ns d"
    and l: "on_grid t0 d names sl' (b - 1) l" "0 < b"
  shows "switch_start ss l = (if b < b' then Some (b - a) else None)"
proof -
  have e: "seg_end (t0 + int (b - 1) * dur_ns d) l = t0 + int b * dur_ns d"
    using l by (simp add: seg_end_def on_grid_def algebra_simps of_nat_diff)
  have len: "length ss = b' - a" using ss(1) by (auto dest: list_all2_lengthD)
  have nth: "on_grid t0 d names sl (a + j) (ss ! j)" if "j < length ss" for j
    using ss(1) that len by (auto simp: list_all2_conv_all_nth)
  show ?thesis
  proof (cases "b < b'")
    case True
    with nth [of "b - a"] len ss(2) have "pdt (ss ! (b - a)) = Some (t0 + int b * dur_ns d)" by (simp add: on_grid_def)
    with True l first_after_grid [OF ss D, of 0] e show ?thesis
      by (simp add: switch_start_def on_grid_def stitchTolerance_def)
  next
    case False
    have "ss \<noteq> [] \<longrightarrow> pdt (last ss) \<noteq> None" using nth [of "length ss - 1"] by (auto simp: last_conv_nth on_grid_def)
    with False l first_after_grid [OF ss D, of 0] e show ?thesis by (auto simp: switch_start_def on_grid_def)
  qed
qed

text \<open>A poll in time brings a playlist that reaches back to the end of the list.\<close>

definition list_end :: "Stitcher \<Rightarrow> instant" where
  "list_end st = (case pdt (last (entries st)) of Some t \<Rightarrow> seg_end t (last (entries st)) | None \<Rightarrow> 0)"

fun in_time :: "instant \<Rightarrow> float64 \<Rightarrow> (string \<Rightarrow> nat \<Rightarrow> string) \<Rightarrow> event \<Rightarrow> Stitcher \<Rightarrow> bool" where
  "in_time t0 d names (Polled sl pl) st \<longleftrightarrow>
     (\<exists>a b. list_all2 (on_grid t0 d names sl) [a..<b] (segs pl) \<and> t0 + int a * dur_ns d \<le> list_end st)"
| "in_time t0 d names _ st \<longleftrightarrow> True"

fun all_in_time :: "instant \<Rightarrow> float64 \<Rightarrow> (string \<Rightarrow> nat \<Rightarrow> string) \<Rightarrow> event list \<Rightarrow> Stitcher \<Rightarrow> bool" where
  "all_in_time t0 d names [] st \<longleftrightarrow> True"
| "all_in_time t0 d names (ev # es) st \<longleftrightarrow> in_time t0 d names ev st \<and> all_in_time t0 d names es (step ev st)"

lemma Update_grid:
  assumes st: "settled st" "grid_run t0 d names k b (entries st)" and D: "stitchTolerance < dur_ns d" and inj: "\<And>sl. inj (names sl)"
    and pl: "list_all2 (on_grid t0 d names sl) [a..<b'] (segs pl)" "t0 + int a * dur_ns d \<le> list_end st"
  shows "\<exists>k b. grid_run t0 d names k b (entries (Update sl pl st))"
proof -
  let ?l = "last (entries st)"
  have ne: "entries st \<noteq> []" and kb: "k < b" using st by (auto simp: settled_def grid_run_def)
  have len: "length (entries st) = b - k" using st(2) by (auto simp: grid_run_def dest: list_all2_lengthD)
  have l: "on_grid t0 d names (slot ?l) (b - 1) ?l"
  proof -
    have "\<forall>i < b - k. on_grid t0 d names (slot (entries st ! i)) (k + i) (entries st ! i)"
      using st(2) len by (simp add: grid_run_def list_all2_conv_all_nth)
    from spec [OF this, of "b - k - 1"] kb
    have "on_grid t0 d names (slot (entries st ! (b - k - 1))) (k + (b - k - 1)) (entries st ! (b - k - 1))" by simp
    moreover have "k + (b - k - 1) = b - 1" using kb by simp
    ultimately show ?thesis using ne len by (simp add: last_conv_nth)
  qed
  have "list_end st = t0 + int b * dur_ns d"
    using l kb by (simp add: list_end_def on_grid_def seg_end_def algebra_simps of_nat_diff)
  then have "\<not> int b * dur_ns d < int a * dur_ns d" using pl(2) by simp
  then have ab: "a \<le> b" using D by (auto simp: stitchTolerance_def mult_less_cancel_right not_less)
  obtain add st' where u: "Update sl pl st = trim st'" "entries st' = entries st @ map (entry sl) add" "adds sl pl st add"
    using Update_shape [OF st(1), of sl pl] by metis
  have "\<exists>c \<ge> b. list_all2 (on_grid t0 d names sl) [b..<c] add"
  proof (cases "sl \<noteq> src st \<or> pendingSwitch st")
    case True
    have s: "switch_start (segs pl) ?l = (if b < b' then Some (b - a) else None)"
      using switch_grid [OF pl(1) ab D l] kb by simp
    show ?thesis
    proof (cases "b < b'")
      case in_front: True
      with u(3) True s have "add = (hd (drop (b - a) (segs pl)))\<lparr>disc := True\<rparr> # tl (drop (b - a) (segs pl))"
        "drop (b - a) (segs pl) \<noteq> []" by (simp_all add: adds_def)
      moreover have "list_all2 (on_grid t0 d names sl) [b..<max b b'] (drop (b - a) (segs pl))" by (rule grid_drop [OF pl(1) ab])
      ultimately have "list_all2 (on_grid t0 d names sl) [b..<max b b'] add" by (metis list.collapse list_all2_tag)
      then show ?thesis by (intro exI [of _ "max b b'"]) simp
    next
      case False
      with u(3) True s have "add = []" by (simp add: adds_def)
      then show ?thesis by (intro exI [of _ b]) simp
    qed
  next
    case False
    then have sl: "slot ?l = sl" using st(1) by (simp add: settled_def)
    have "list_all2 (on_grid t0 d names sl) [b..<max b b'] (after_last (segs pl) ?l)"
      using after_last_grid [OF pl(1) ab D inj] l kb sl by simp
    moreover have "prefix add (after_last (segs pl) ?l)" using u(3) False by (simp add: adds_def)
    ultimately show ?thesis using prefix_grid by (metis max.cobounded1)
  qed
  then obtain c where c: "b \<le> c" "list_all2 (on_grid t0 d names sl) [b..<c] add" by auto
  let ?P = "\<lambda>k e. on_grid t0 d names (slot e) k e"
  have "list_all2 ?P [b..<c] (map (entry sl) add)" using c(2) by (simp add: list_all2_map2)
  moreover have "list_all2 ?P [k..<b] (entries st)" using st(2) by (simp add: grid_run_def)
  ultimately have "list_all2 ?P ([k..<b] @ [b..<c]) (entries st')" unfolding u(2) by (rule list_all2_appendI [rotated])
  then have all: "list_all2 ?P [k..<c] (entries st')" using kb c(1) upt_add_eq_append [of k b "c - b"] by simp
  have "entries st' \<noteq> []" using u(2) ne by simp
  from trim_slides [OF this] obtain n where n: "n < length (entries st')"
    "entries (trim st') = (hd (drop n (entries st')))\<lparr>disc := False\<rparr> # tl (drop n (entries st'))" by blast
  have d: "list_all2 ?P [k + n..<c] (drop n (entries st'))"
    using list_all2_dropI [OF all, of n] by (simp add: drop_upt)
  obtain e es where es: "drop n (entries st') = e # es" using n(1) by (cases "drop n (entries st')") auto
  have "list_all2 ?P [k + n..<c] (e\<lparr>disc := False\<rparr> # es)" using d unfolding es by (cases "[k + n..<c]") auto
  moreover have "k + n < c" using all n(1) by (auto dest!: list_all2_lengthD)
  ultimately show ?thesis using u(1) n(2) es by (auto simp: grid_run_def)
qed

text \<open>
  Property C40. When the slots cut their segments on one grid and every poll comes in time, the served
  list is a run of consecutive grid segments, through every failover, planned switch and switch back: each
  segment starts where the one before it ends, so no viewer sees a rewind or a skip.
\<close>

theorem no_rewind_no_skip:
  assumes "settled st" "grid_run t0 d names k b (entries st)" "stitchTolerance < dur_ns d" "\<forall>sl. inj (names sl)"
    and "all_in_time t0 d names es st"
  shows "\<exists>k b. grid_run t0 d names k b (entries (run step es st))"
  using assms(1,2,5)
proof (induction es arbitrary: st k b)
  case (Cons ev es)
  have ok: "settled (step ev st)" using step_slides [OF Cons.prems(1)] by blast
  have "\<exists>k b. grid_run t0 d names k b (entries (step ev st))"
  proof (cases ev)
    case (Polled sl pl)
    with Cons.prems(3) obtain a b' where "list_all2 (on_grid t0 d names sl) [a..<b'] (segs pl)"
      "t0 + int a * dur_ns d \<le> list_end st" by auto
    with Update_grid [OF Cons.prems(1,2) assms(3)] assms(4) Polled show ?thesis by simp
  qed (use Cons.prems(2) in \<open>auto simp: Plan_def ClearPlan_def End_def\<close>)
  then obtain k' b' where "grid_run t0 d names k' b' (entries (step ev st))" by blast
  with Cons.IH [OF ok this] Cons.prems(3) show ?case by simp
qed auto

section \<open>Instances\<close>

text \<open>Two-second segments of blue and green from the same instant on.\<close>

definition two_seconds :: float64 where "two_seconds = 2"

definition numbered_name :: "string \<Rightarrow> nat \<Rightarrow> string" where
  "numbered_name sl k = replicate k (CHR ''1'')"

definition grid_playlist :: "nat \<Rightarrow> nat \<Rightarrow> upPlaylist" where
  "grid_playlist a b = \<lparr>target = 2, seq = int a, version = 6,
     segs = map (\<lambda>k. \<lparr>name = numbered_name '''' k, dur = two_seconds, pdt = Some (int k * (2 * second)), disc = False\<rparr>) [a..<b]\<rparr>"

definition no_list :: Stitcher where
  "no_list = \<lparr>src = '''', entries = [], firstSeq = 0, discSeq = 0, starget = 0, window = 0, nswitches = 0,
     pendingSwitch = False, planTo = '''', cutAt = 0, reached = False, ended = False\<rparr>"

definition on_air :: Stitcher where
  "on_air = Update ''blue'' (grid_playlist 0 3) no_list"

text \<open>A planned switch to green at seven seconds, met between the third and the fourth segment.\<close>

definition to_green :: "event list" where
  "to_green = [Planned ''green'' (7 * second), Polled ''blue'' (grid_playlist 1 4), Polled ''green'' (grid_playlist 2 5)]"

lemma two_second_grid: "dur_ns two_seconds = 2 * second"
  by code_simp

lemma grid_playlist_on_grid: "list_all2 (on_grid 0 two_seconds numbered_name sl) [a..<b] (segs (grid_playlist a b))"
  by (simp add: list_all2_conv_all_nth grid_playlist_def on_grid_def two_second_grid numbered_name_def)

lemma in_time_grid:
  "int a * (2 * second) \<le> list_end st \<Longrightarrow> in_time 0 two_seconds numbered_name (Polled sl (grid_playlist a b)) st"
  using grid_playlist_on_grid [of sl a b] by (auto simp: two_second_grid)

lemma to_green_lists:
  "map (\<lambda>e. (slot e, pdt e, disc e)) (entries (run step to_green on_air)) =
    [(''blue'', Some (4 * second), False), (''green'', Some (6 * second), True), (''green'', Some (8 * second), False)]
    \<and> firstSeq (run step to_green on_air) = 2"
  by code_simp

lemma on_air_settled: "settled on_air"
  by code_simp

lemma playlist_only_grows_witness:
  "settled (run step to_green on_air) \<and> published (run step to_green on_air) \<noteq> []"
  using playlist_only_grows [OF on_air_settled, of to_green] by blast

lemma no_rewind_no_skip_witness:
  "\<exists>k b. grid_run 0 two_seconds numbered_name k b (entries (run step to_green on_air))"
proof (rule no_rewind_no_skip [OF on_air_settled])
  have e: "entries on_air = map (entry ''blue'') (segs (grid_playlist 0 3))" by code_simp
  show "grid_run 0 two_seconds numbered_name 0 3 (entries on_air)"
    using grid_playlist_on_grid [of "''blue''" 0 3]
    by (simp add: grid_run_def e list_all2_conv_all_nth)
  show "stitchTolerance < dur_ns two_seconds" by (simp add: two_second_grid stitchTolerance_def)
  show "\<forall>sl. inj (numbered_name sl)" by (auto simp: inj_def numbered_name_def)
  have "list_end on_air = 6 * second" "list_end (Plan ''green'' (7 * second) on_air) = 6 * second"
    "list_end (Update ''blue'' (grid_playlist 1 4) (Plan ''green'' (7 * second) on_air)) = 6 * second" by code_simp+
  then show "all_in_time 0 two_seconds numbered_name to_green on_air"
    by (simp add: to_green_def in_time_grid del: in_time.simps(1) One_nat_def)
qed

text \<open>
  A switch that came to nothing (the other slot had no segment past the end yet, and the channel was
  routed back) still counts as one: the slot that never stopped gets a tag where nothing changed.
\<close>

lemma switch_back_is_tagged:
  "map (\<lambda>e. (slot e, pdt e, disc e)) (entries (run step [Polled ''green'' (grid_playlist 0 3), Polled ''blue'' (grid_playlist 1 4)] on_air)) =
    [(''blue'', Some (2 * second), False), (''blue'', Some (4 * second), False), (''blue'', Some (6 * second), True)]"
  by code_simp

end
