(* ===== verification/Spec2Isabelle.thy ===== *)
theory Spec2Isabelle
  imports Video_States Placement_Service Tv_Change Version_Order Relay_Flow Relay_Registry Channel_Feeder
    Link_Frames Word_Data TS_Retimer Transcode_Slots Updater_Safety Launcher_Phases
    Update_Discovery Front_Slots Hls_Stitcher
begin

text \<open>
  A verification development of the Maktaba media server: a home server that processes videos,
  airs them as TV channels, streams them from several hosts and is reached from outside through
  a cloud relay. This file only puts the theories together.

  \<^bold>\<open>The parts and how they meet.\<close> A video goes through the processing pipeline; every stage
  reports its outcome to \<open>AdvanceAfterStage\<close>, which alone moves the video's state. A channel is
  aired by a station on one host: its feeder plans segments of the schedule on the wall clock and
  ffmpeg writes them as MPEG-TS with wall-clock timestamps. Which host airs a channel is decided
  by the placement service, fenced by a generation number, so that a host that lost a channel
  stops. A TV change (a new schedule or station build) is drafted, staged, verified and swapped in
  by the controller. The front door hands viewers a continuous stream while stations change: the
  retimer maps packets of successive sources to one timeline, the stitcher goes on with the HLS playlist
  of another slot where the one before ends, and its slots (live, standby, staging, previous) change
  roles by failover, swap and rollback. Clients that need it get a
  transcoding slot. Releases are ordered, and an update never goes below the watermark; each machine
  takes an update through one journalled run, which restarts and power cuts interrupt, and whose
  switch is a change of pointer files: the launcher starts the release they name and goes back to
  the one before when a new release is not confirmed. Which release a home takes next and when is the
  scheduler's decision, from the catalogue, the policy and the quiet window. Outside
  the home, the relay keeps one tunnel per server and sends its responses under a flow-control
  window; between the home and its machines the cluster link carries frames on one control
  channel. Sentences of a transcript carry packed word times, which an edit keeps.

  \<^bold>\<open>Theories and the code they model\<close> (paths under src/):

  \<^item> \<open>Prelude\<close>: Go's integer division, \<open>encoding/binary\<close>, stable sorting, ASCII strings, \<open>float64\<close>,
    the contract \<open>wire_codec\<close> of a message format. \<open>Float_Facts\<close>: rounding of \<open>float64\<close>.
  \<^item> \<open>Video_States\<close>: shared/states/go (states.go, advance.go), the transition table and its use in
    a transaction, with the notification trigger.
  \<^item> \<open>Placement_Hosts\<close>, \<open>Placement_Store\<close>, \<open>Placement_Service\<close>: streaming/internal/placement
    (hosts.go, choose.go; store.go; placement.go, sweeper.go). The store's contract is the locale
    \<open>generations\<close>, interpreted on \<open>MemStore\<close>.
  \<^item> \<open>Tv_Change\<close>: api/internal/tvchange (machine.go, rules.go, controller.go and the store it uses).
  \<^item> \<open>Version_Order\<close>: shared/go/releaseverify and shared/go/layout (both version orders, watermark).
  \<^item> \<open>Channel_Timeline\<close>, \<open>Channel_Feeder\<close>: streaming/internal/channel (align.go, join.go, plan.go;
    feeder.go).
  \<^item> \<open>TS_Packet\<close>, \<open>TS_Retimer\<close>: streaming/internal/frontdoor/relay (scan.go, tsfix.go).
  \<^item> \<open>Transcode_Slots\<close>: streaming/internal/slots/slots.go, refined against a pool of numbered sessions.
  \<^item> \<open>Relay_Wire\<close>, \<open>Relay_Flow\<close>, \<open>Relay_Registry\<close>: cloud/internal/relay (protocol.go, ticket.go,
    tunnel.go, registry.go, drain.go, directory.go, ws.go) and cloud/internal/cloudlink
    (multiplex.go, proxy.go).
  \<^item> \<open>Link_Frames\<close>: api/internal/cluster/link (frames.go, sched.go); \<open>wire_codec\<close> is interpreted on
    its frames, and on the word data of \<open>Word_Data\<close>.
  \<^item> \<open>Updater_Watch\<close>, \<open>Updater_Machine\<close>, \<open>Updater_Safety\<close>: cmd/maktaba-server/internal/updater (machine.go,
    journal.go): the watch of a new release, a machine's run, and what holds of its histories.
  \<^item> \<open>Install_Layout\<close>, \<open>Launcher\<close>, \<open>Launcher_Safety\<close>, \<open>Launcher_Phases\<close>: shared/go/layout (layout.go, prune.go,
    guard.go's records), the updater's layout.go and cmd/maktaba-launcher (run.go, cantstart.go): the
    pointer files with every outcome of a write, the launcher over them, what holds of its histories,
    and the two-phase machine they refine.
  \<^item> \<open>Update_Window\<close>, \<open>Update_Plan\<close>, \<open>Update_Scheduler\<close>, \<open>Update_Discovery\<close>: api/internal/updates (window.go
    with the zone rules of Go's time package; target.go, policy.go, version.go; scheduler.go, the rows of
    store.go and runs.go and the end of a run in driver.go; catalog.go).
  \<^item> \<open>Front_Slots\<close>: streaming/internal/frontdoor (slots.go, swap.go and the staging of staging.go): every critical
    section of the front door's routing is a step, so that the calls of its goroutines interleave freely.
  \<^item> \<open>Hls_Stitcher\<close>: streaming/internal/frontdoor/stitch.go, the HLS playlist of a channel with TV slots, from the
    slots' own playlists to the text served, across failovers, planned switches and switches back.
  \<^item> \<open>Word_Data\<close>: api/internal/transcript/worddata/worddata.go.

  Definitions keep the names of the functions they translate; a Go struct is a record, an error
  a value of a sum or an option, a lock-protected section one step. Definitions with a lower-case
  name of their own stand for a loop or a branch of the function they serve.

  \<^bold>\<open>What the lemmas show.\<close> Each theory first gives what an operation does on each of its branches,
  then an invariant and that every operation keeps it, then its properties, each with a concrete
  instance where it has hypotheses. Histories are lists of calls or step relations with their
  inputs, so that clocks, faults and the order of concurrent steps are arbitrary. Where a comment
  of the code promises something the code does not do, a lemma at the end of the theory shows it.

  \<^bold>\<open>Bounds.\<close> No definition uses fuel. The loops are functions with a termination measure: the digits
  of a 64-bit number, the descriptors of a section, the packets of a buffer, the candidates of a
  quantum, Euclid's remainders, the runs of a text. Integers that the code lets wrap (counters,
  PIDs, 33-bit times, lengths in a header, sequence numbers of identifiers) are words or reduced
  explicitly; an \<open>int\<close> of Go that stays far from its bounds (instants, durations, byte counts,
  offsets from \<open>int4\<close> columns) is an \<open>int\<close>. A \<open>float64\<close> is a rational rounded to 53 bits at each
  operation.

  \<^bold>\<open>Parameters.\<close> The message authentication code and text codec of tickets, the number of
  processors, the clock, UUIDs, the answers of a database, of a player and of a file check are
  arguments or inputs of a step. A database call that can fail has a fault in its input. The order
  in which Go ranges over a map is a list or a function that any property quantifies over. Strings
  are ASCII where the code compares or splits them; a transcript is a list of code points.

  \<^bold>\<open>Not modelled.\<close> HTTP handlers, SQL statements, sockets, child processes and ffmpeg command lines
  are input and output around the modelled logic. The PostgreSQL placement store and relay directory
  repeat in SQL what the in-memory ones do. Recording a server online is assumed to succeed.
  In \<open>Tv_Change\<close> the merging of open drafts, the verification's checks and the notices are left out; in
  the feeder, waiting and the pre-warming of live blocks; in the relay, its shutdown and the websocket
  handshake. Of the updater, the installers, the TV step, packs and the launcher's replacement are answers of a
  step. Of the API's updates the stored settings, the discovery's requests, the gates and the drain
  of a run and its rollout to the machines are left out, and a tick's reads are one instant's. Of the front
  door's slots the roles' table and the warm sets are left out. The switchover machine, viewer tracking, the capability matrix, the splice of
  two stations and the direct-connection picker are program logic still to be modelled. The pipeline
  (Python), the web client, the apps and the deployment files are outside the Go program.
\<close>

end
